(* ===== verification/Prelude.thy ===== *)
theory Prelude
  imports Main "HOL-Library.Word" "HOL-Library.Char_ord"
begin

text \<open>
  Shared by every theory of the development: the machine types of the C code
  (\<open>u_char\<close>, \<open>ngx_uint_t\<close>, \<open>off_t\<close>, 16-bit bit fields), C character constants as bytes,
  the return codes of nginx (\<open>ngx_int_t\<close> results), the buffer \<open>ngx_buf_t\<close> as a memory with two
  offsets, and generic facts on lists, bytes and byte ranges.

  Pointers into a buffer are offsets (\<^typ>\<open>nat\<close>), a pointer that may be NULL is a
  \<^typ>\<open>nat option\<close>. The platform is the one of \<open>objs/ngx_auto_config.h\<close>: 64 bit, little
  endian.
\<close>

unbundle bit_operations_syntax

type_synonym u8 = "8 word"
type_synonym u16 = "16 word"
type_synonym u32 = "32 word"
type_synonym u64 = "64 word"
type_synonym ptr = nat
type_synonym memory = "u8 list"

named_theorems step_simps \<open>definitional equations of the step functions of the parsers\<close>

subsection \<open>C characters and strings\<close>

abbreviation chr :: "char \<Rightarrow> u8" where
  "chr c \<equiv> of_char c"

definition bytes :: "string \<Rightarrow> u8 list" where
  "bytes s = map of_char s"

lemma length_bytes [simp]: "length (bytes s) = length s"
  by (simp add: bytes_def)

abbreviation CR :: u8 where "CR \<equiv> 13"
abbreviation LF :: u8 where "LF \<equiv> 10"
abbreviation SP :: u8 where "SP \<equiv> 32"
abbreviation NUL :: u8 where "NUL \<equiv> 0"

text \<open>\<open>(u_char) (ch | 0x20)\<close>: the parsers' way to lower-case a letter.\<close>

definition lower20 :: "u8 \<Rightarrow> u8" where
  "lower20 ch = ch OR 0x20"

definition is_digit :: "u8 \<Rightarrow> bool" where
  "is_digit ch \<longleftrightarrow> chr CHR ''0'' \<le> ch \<and> ch \<le> chr CHR ''9''"

definition is_alpha20 :: "u8 \<Rightarrow> bool" where
  "is_alpha20 ch \<longleftrightarrow> chr CHR ''a'' \<le> lower20 ch \<and> lower20 ch \<le> chr CHR ''z''"

definition is_hexalpha20 :: "u8 \<Rightarrow> bool" where
  "is_hexalpha20 ch \<longleftrightarrow> chr CHR ''a'' \<le> lower20 ch \<and> lower20 ch \<le> chr CHR ''f''"

text \<open>A quantifier over bytes is a finite check, so a table lookup can be settled by evaluation.\<close>

definition all_bytes :: "u8 list" where
  "all_bytes =
   [0, 1, 2, 3, 4, 5, 6, 7, 8, 9, 10, 11, 12, 13, 14, 15, 16, 17, 18, 19, 20, 21, 22, 23, 24,
    25, 26, 27, 28, 29, 30, 31, 32, 33, 34, 35, 36, 37, 38, 39, 40, 41, 42, 43, 44, 45, 46,
    47, 48, 49, 50, 51, 52, 53, 54, 55, 56, 57, 58, 59, 60, 61, 62, 63, 64, 65, 66, 67, 68,
    69, 70, 71, 72, 73, 74, 75, 76, 77, 78, 79, 80, 81, 82, 83, 84, 85, 86, 87, 88, 89, 90,
    91, 92, 93, 94, 95, 96, 97, 98, 99, 100, 101, 102, 103, 104, 105, 106, 107, 108, 109,
    110, 111, 112, 113, 114, 115, 116, 117, 118, 119, 120, 121, 122, 123, 124, 125, 126,
    127, 128, 129, 130, 131, 132, 133, 134, 135, 136, 137, 138, 139, 140, 141, 142, 143,
    144, 145, 146, 147, 148, 149, 150, 151, 152, 153, 154, 155, 156, 157, 158, 159, 160,
    161, 162, 163, 164, 165, 166, 167, 168, 169, 170, 171, 172, 173, 174, 175, 176, 177,
    178, 179, 180, 181, 182, 183, 184, 185, 186, 187, 188, 189, 190, 191, 192, 193, 194,
    195, 196, 197, 198, 199, 200, 201, 202, 203, 204, 205, 206, 207, 208, 209, 210, 211,
    212, 213, 214, 215, 216, 217, 218, 219, 220, 221, 222, 223, 224, 225, 226, 227, 228,
    229, 230, 231, 232, 233, 234, 235, 236, 237, 238, 239, 240, 241, 242, 243, 244, 245,
    246, 247, 248, 249, 250, 251, 252, 253, 254, 255]"

lemma all_bytes_upt: "all_bytes = map word_of_nat [0..<256]"
  unfolding all_bytes_def
  by (simp add: upt_conv_Cons [of 0] upt_conv_Cons [of "Suc 0"] upt_rec_numeral
      flip: numeral_2_eq_2)

lemma all_u8: "(\<forall>x::u8. P x) \<longleftrightarrow> list_all P all_bytes"
proof
  assume "list_all P all_bytes"
  then have *: "\<And>n. n < 256 \<Longrightarrow> P (word_of_nat n)"
    by (simp add: list_all_iff all_bytes_upt)
  show "\<forall>x::u8. P x"
  proof
    fix x :: u8
    have "unat x < 256"
      using unsigned_less [of x] by simp
    from * [OF this] show "P x" by simp
  qed
qed (simp add: list_all_iff)

text \<open>To settle \<open>P x\<close> for an arbitrary byte: one evaluation for each value.\<close>

lemma u8_cases: "list_all P all_bytes \<Longrightarrow> P (x::u8)"
  using all_u8 [of P] by blast

subsection \<open>Slices of the memory\<close>

text \<open>The bytes at the offsets \<open>[i, j)\<close>, as the C code names them by two pointers.\<close>

definition seg :: "memory \<Rightarrow> ptr \<Rightarrow> ptr \<Rightarrow> u8 list" where
  "seg mem i j = take (j - i) (drop i mem)"

lemma seg_append_mid [simp]:
  "i = length xs \<Longrightarrow> j = length xs + length ys \<Longrightarrow> seg (xs @ ys @ zs) i j = ys"
  by (simp add: seg_def)

lemma seg_same [simp]: "seg mem i i = []"
  by (simp add: seg_def)

lemma length_seg: "i \<le> j \<Longrightarrow> j \<le> length mem \<Longrightarrow> length (seg mem i j) = j - i"
  by (simp add: seg_def)

lemma nth_seg: "i + k < j \<Longrightarrow> j \<le> length mem \<Longrightarrow> seg mem i j ! k = mem ! (i + k)"
  by (simp add: seg_def)

lemma set_seg:
  "j \<le> length mem \<Longrightarrow> x \<in> set (seg mem i j) \<longleftrightarrow> (\<exists>k. i \<le> k \<and> k < j \<and> mem ! k = x)"
proof
  assume j: "j \<le> length mem" and "x \<in> set (seg mem i j)"
  then obtain k where k: "k < length (seg mem i j)" "seg mem i j ! k = x"
    by (auto simp: in_set_conv_nth)
  then have "i + k < j" using j by (simp add: seg_def)
  with k j show "\<exists>k. i \<le> k \<and> k < j \<and> mem ! k = x"
    by (intro exI [of _ "i + k"]) (simp add: nth_seg)
next
  assume j: "j \<le> length mem" and "\<exists>k. i \<le> k \<and> k < j \<and> mem ! k = x"
  then obtain k where k: "i \<le> k" "k < j" "mem ! k = x" by blast
  then have "seg mem i j ! (k - i) = x" "k - i < length (seg mem i j)"
    using j by (simp_all add: nth_seg length_seg)
  then show "x \<in> set (seg mem i j)" by (metis nth_mem)
qed

lemma seg_Suc: "i \<le> j \<Longrightarrow> j < length mem \<Longrightarrow> seg mem i (Suc j) = seg mem i j @ [mem ! j]"
  by (simp add: seg_def Suc_diff_le take_Suc_conv_app_nth)

lemma last_seg: "i < j \<Longrightarrow> j \<le> length mem \<Longrightarrow> last (seg mem i j) = mem ! (j - 1)"
  using seg_Suc [of i "j - 1" mem] by simp

lemma drop_eq_Cons:
  "drop p mem = c # cs \<Longrightarrow> p < length mem \<and> mem ! p = c \<and> drop (Suc p) mem = cs"
  by (metis Cons_nth_drop_Suc drop_all list.distinct(1) list.inject not_le_imp_less)

lemma drop_eq_append: "drop p mem = xs @ ys \<Longrightarrow> drop (p + length xs) mem = ys"
  by (metis add.commute append_eq_conv_conj drop_drop)

lemma seg_of_drop: "drop p mem = xs @ ys \<Longrightarrow> q = p + length xs \<Longrightarrow> seg mem p q = xs"
  by (simp add: seg_def)

subsection \<open>Decimal numbers\<close>

definition dec_val :: "u8 list \<Rightarrow> nat" where
  "dec_val ds = foldl (\<lambda>n d. n * 10 + (unat d - 48)) 0 ds"

lemma dec_val_snoc: "dec_val (ds @ [d]) = dec_val ds * 10 + (unat d - 48)"
  by (simp add: dec_val_def)

lemma is_digit_unat: "is_digit d \<longleftrightarrow> 48 \<le> unat d \<and> unat d \<le> 57"
  by (simp add: is_digit_def word_le_nat_alt)

lemma digit_facts:
  assumes "is_digit c"
  shows "c \<noteq> 46" "c \<noteq> CR" "c \<noteq> LF" "c \<noteq> SP" "\<not> c < 48" "\<not> 57 < c"
    "unat c \<le> 57" "48 \<le> unat c"
proof -
  show c: "unat c \<le> 57" "48 \<le> unat c" using assms by (simp_all add: is_digit_unat)
  then show "c \<noteq> 46" "c \<noteq> CR" "c \<noteq> LF" "c \<noteq> SP" "\<not> c < 48" "\<not> 57 < c"
    by (auto simp: word_less_nat_alt)
qed

text \<open>One step of the C code's \<open>n = n * 10 + ch - '0'\<close>, in an unsigned field of any width.\<close>

lemma dec_val_step:
  assumes "is_digit c"
  shows "of_nat (dec_val es) * 10 + ucast c - (48 :: 'a::len word) = of_nat (dec_val (es @ [c]))"
  using digit_facts(7,8) [OF assms] by (simp add: dec_val_snoc of_nat_diff)

lemma dec_val_single:
  assumes "is_digit c"
  shows "ucast c - (48 :: 'a::len word) = of_nat (dec_val [c])"
  using dec_val_step [OF assms, of "[]"] by (simp add: dec_val_def)

lemma unat_of_nat_u64: "n < 2 ^ 64 \<Longrightarrow> unat (of_nat n :: u64) = n"
  by (simp add: unat_of_nat)

lemma ucast_u16_of_nat: "(ucast (of_nat n :: u16) :: u64) = of_nat (n mod 65536)"
proof -
  have "unat (of_nat n :: u16) = n mod 65536" by (simp add: unat_of_nat)
  moreover have "(ucast (of_nat n :: u16) :: u64) = of_nat (unat (of_nat n :: u16))"
    by simp
  ultimately show ?thesis by simp
qed

subsection \<open>Hexadecimal numbers\<close>

text \<open>The value of a digit, upper or lower case.\<close>

definition hex_val :: "u8 \<Rightarrow> u8" where
  "hex_val h = (if is_digit h then h - chr CHR ''0'' else lower20 h - chr CHR ''a'' + 10)"

lemma hex_val_range:
  assumes "is_digit h \<or> is_hexalpha20 h"
  shows "take_bit 4 (hex_val h) = hex_val h" "hex_val h < 10 \<longleftrightarrow> is_digit h"
proof -
  have "unat (hex_val h) < 16 \<and> (unat (hex_val h) < 10 \<longleftrightarrow> is_digit h)"
  proof (cases "is_digit h")
    case True
    then have "unat (hex_val h) = unat h - 48"
      by (simp add: hex_val_def is_digit_def unat_sub)
    with True show ?thesis by (auto simp: is_digit_unat)
  next
    case False
    with assms have l: "97 \<le> lower20 h" "lower20 h \<le> 102" by (simp_all add: is_hexalpha20_def)
    have "hex_val h = lower20 h - 87" using False by (simp add: hex_val_def)
    also have "unat \<dots> = unat (lower20 h) - 87"
      using l by (subst unat_sub) (simp_all add: word_le_nat_alt)
    finally show ?thesis using False l by (auto simp: word_le_nat_alt)
  qed
  moreover have "w < 16 \<longrightarrow> take_bit 4 w = w" for w :: u8
    by (rule u8_cases [where x = w]) (simp add: all_bytes_def)
  ultimately show "take_bit 4 (hex_val h) = hex_val h" "hex_val h < 10 \<longleftrightarrow> is_digit h"
    by (simp_all add: word_less_nat_alt)
qed

definition is_hex :: "u8 \<Rightarrow> bool" where
  "is_hex h \<longleftrightarrow> is_digit h \<or> is_hexalpha20 h"

definition hex_num :: "u8 list \<Rightarrow> nat" where
  "hex_num ds = foldl (\<lambda>n d. n * 16 + unat (hex_val d)) 0 ds"

lemma hex_num_simps [simp]:
  "hex_num [] = 0" "hex_num (ds @ [d]) = hex_num ds * 16 + unat (hex_val d)"
  by (simp_all add: hex_num_def)

lemma sint_of_nat_u64: "n < 2 ^ 63 \<Longrightarrow> sint (of_nat n :: u64) = int n"
  by (simp add: signed_of_nat signed_take_bit_int_eq_self)

lemma sint_nonneg_u64: "0 \<le> sint w \<Longrightarrow> sint w = int (unat w)" for w :: u64
proof -
  assume *: "0 \<le> sint w"
  have "sint w < 2 ^ 63" using sint_lt [of w] by simp
  with * have "uint w = sint w" by (simp add: uint_sint take_bit_int_eq_self)
  then show ?thesis by (simp add: unat_eq_nat_uint *)
qed

lemma sint_nonneg_u64_iff: "0 \<le> sint w \<longleftrightarrow> unat w < 2 ^ 63" for w :: u64
proof
  assume *: "0 \<le> sint w"
  have "sint w < 2 ^ 63" using sint_lt [of w] by simp
  then have "int (unat w) < int (2 ^ 63)" using sint_nonneg_u64 [OF *] by simp
  then show "unat w < 2 ^ 63" by (simp only: of_nat_less_iff)
next
  assume "unat w < 2 ^ 63"
  then show "0 \<le> sint w" using sint_of_nat_u64 [of "unat w"] by simp
qed

lemma unat_diff_u64: "n \<le> unat sz \<Longrightarrow> unat (sz - of_nat n) = unat sz - n" for sz :: u64
  proof -
  assume "n \<le> unat sz"
  moreover have "unat sz < 2 ^ 64" using unsigned_less [of sz] by simp
  ultimately show ?thesis by (simp add: unat_sub_if' unat_of_nat_u64)
qed

subsection \<open>Return codes\<close>

text \<open>The \<open>ngx_int_t\<close> results of the parsers, by their macro names.\<close>

datatype ngx_rc =
    NGX_OK | NGX_ERROR | NGX_AGAIN | NGX_BUSY | NGX_DONE | NGX_DECLINED
  | NGX_HTTP_PARSE_HEADER_DONE
  | NGX_HTTP_PARSE_INVALID_METHOD | NGX_HTTP_PARSE_INVALID_REQUEST
  | NGX_HTTP_PARSE_INVALID_09_METHOD | NGX_HTTP_PARSE_INVALID_HEADER
  | NGX_MAIL_PARSE_INVALID_COMMAND | NGX_IMAP_NEXT

text \<open>
  \<open>ngx_buf_t\<close>, as the parsers use it: the memory the buffer lies in, and the window
  \<open>[pos, last)\<close> of bytes that are received and not yet consumed.
\<close>

record ngx_buf_t =
  buf_mem :: memory
  buf_pos :: ptr
  buf_last :: ptr

definition buf_wf :: "ngx_buf_t \<Rightarrow> bool" where
  "buf_wf b \<longleftrightarrow> buf_pos b \<le> buf_last b \<and> buf_last b \<le> length (buf_mem b)"

text \<open>More bytes arrive: the socket read appends them at \<open>last\<close>.\<close>

definition buf_recv :: "ngx_buf_t \<Rightarrow> u8 list \<Rightarrow> ngx_buf_t" where
  "buf_recv b ys = b\<lparr>buf_mem := take (buf_last b) (buf_mem b) @ ys,
                     buf_last := buf_last b + length ys\<rparr>"

end
