(* ===== verification/Byte_Loop.thy ===== *)
theory Byte_Loop
  imports Prelude
begin

text \<open>
  The loop every parser of \<open>ngx_http_parse.c\<close> has:
  \<^verbatim>\<open>
    for (p = b->pos; p < b->last; p++) { ch = *p; switch (state) { ... } }
  \<close>
  The body is a step function over the memory, the offset \<open>p\<close> and the loop state; its outcome
  says whether the loop goes on (\<open>break\<close> out of the switch) or leaves at this byte
  (\<open>return\<close> or \<open>goto done\<close>). The locale \<open>byte_parser\<close> states what a parser relies on: a
  step reads only bytes that have arrived, and its saved pointers stay below the current
  byte. The consequences proved in it hold for every parser that interprets it: the loop
  stays inside the buffer, its result does not depend on bytes it has not reached, and a
  parser that stopped for lack of input and is called again later gives the result it would
  have given on the whole input.
\<close>

datatype ('s, 'r) outcome = Next 's | Stop 'r 's

type_synonym ('s, 'r) stepper = "memory \<Rightarrow> ptr \<Rightarrow> 's \<Rightarrow> ('s, 'r) outcome"

function byte_loop :: "('s, 'r) stepper \<Rightarrow> memory \<Rightarrow> ptr \<Rightarrow> ptr \<Rightarrow> 's \<Rightarrow> ptr \<times> ('s, 'r) outcome" where
  "byte_loop step mem p lim s =
     (if p < lim
      then (case step mem p s of
              Next s' \<Rightarrow> byte_loop step mem (Suc p) lim s'
            | Stop r s' \<Rightarrow> (p, Stop r s'))
      else (p, Next s))"
  by pat_completeness auto
termination
  by (relation "measure (\<lambda>(step, mem, p, lim, s). lim - p)") auto

declare byte_loop.simps [simp del]

lemma byte_loop_end [simp]: "\<not> p < lim \<Longrightarrow> byte_loop step mem p lim s = (p, Next s)"
  by (simp add: byte_loop.simps)

lemma byte_loop_Next:
  "p < lim \<Longrightarrow> step mem p s = Next s' \<Longrightarrow>
   byte_loop step mem p lim s = byte_loop step mem (Suc p) lim s'"
  by (simp add: byte_loop.simps)

lemma byte_loop_Stop:
  "p < lim \<Longrightarrow> step mem p s = Stop r s' \<Longrightarrow> byte_loop step mem p lim s = (p, Stop r s')"
  by (simp add: byte_loop.simps)

lemma byte_loop_drop_Next:
  assumes "drop p mem = ch # cs" and "step mem p s = Next s'"
  shows "byte_loop step mem p (length mem) s = byte_loop step mem (Suc p) (length mem) s'"
  using drop_eq_Cons [OF assms(1)] assms(2) by (intro byte_loop_Next) simp_all

lemma byte_loop_drop_Stop:
  assumes "drop p mem = ch # cs" and "step mem p s = Stop r s'"
  shows "byte_loop step mem p (length mem) s = (p, Stop r s')"
  using drop_eq_Cons [OF assms(1)] assms(2) by (intro byte_loop_Stop) simp_all

text \<open>
  A run of the loop over bytes that all satisfy \<open>P\<close>: each keeps the state within \<open>f\<close>, which is
  indexed by the bytes read so far.
\<close>

lemma byte_loop_scan:
  assumes "drop p mem = xs @ ys" and "\<forall>c\<in>set xs. P c"
    and "\<And>as c q. P c \<Longrightarrow> q < length mem \<Longrightarrow> mem ! q = c \<Longrightarrow> q = p + length as \<Longrightarrow> step mem q (f as) = Next (f (as @ [c]))"
  shows "byte_loop step mem p (length mem) (f []) = byte_loop step mem (p + length xs) (length mem) (f xs)"
proof -
  have "byte_loop step mem (p + length as) (length mem) (f as) =
      byte_loop step mem (p + length as + length bs) (length mem) (f (as @ bs))"
    if "xs = as @ bs" for as bs
    using that
  proof (induction bs arbitrary: as)
    case Nil
    then show ?case by simp
  next
    case (Cons c bs)
    have "drop (p + length as) mem = c # (bs @ ys)"
      using drop_eq_append [of p mem as "c # bs @ ys"] assms(1) Cons.prems by simp
    note d = drop_eq_Cons [OF this]
    have "byte_loop step mem (p + length as) (length mem) (f as) =
        byte_loop step mem (Suc (p + length as)) (length mem) (f (as @ [c]))"
      using d assms(2) Cons.prems by (intro byte_loop_Next assms(3)) auto
    also have "\<dots> = byte_loop step mem (p + length (as @ [c]) + length bs) (length mem) (f ((as @ [c]) @ bs))"
      using Cons.IH [of "as @ [c]"] Cons.prems by simp
    finally show ?case by simp
  qed
  from this [of "[]" xs] show ?thesis by simp
qed

text \<open>
  A step that looks at the current byte only gives a loop over the list of bytes that are
  left. On a list that is known in parts this loop unfolds by rewriting.
\<close>

fun list_loop :: "(ptr \<Rightarrow> u8 \<Rightarrow> 's \<Rightarrow> ('s, 'r) outcome) \<Rightarrow> ptr \<Rightarrow> u8 list \<Rightarrow> 's \<Rightarrow> ptr \<times> ('s, 'r) outcome" where
  "list_loop f p [] s = (p, Next s)"
| "list_loop f p (c # cs) s =
     (case f p c s of Next s' \<Rightarrow> list_loop f (Suc p) cs s' | Stop r s' \<Rightarrow> (p, Stop r s'))"

lemma byte_loop_list:
  assumes "\<And>q s. step mem q s = f q (mem ! q) s" and "p \<le> length mem"
  shows "byte_loop step mem p (length mem) s = list_loop f p (drop p mem) s"
  using assms(2)
proof (induction "length mem - p" arbitrary: p s)
  case 0
  then show ?case by simp
next
  case (Suc n)
  then have p: "p < length mem" by simp
  show ?case
    using Suc.hyps(1) [of "Suc p"] Suc.hyps(2) p
    by (subst byte_loop.simps)
      (auto simp: assms(1) Cons_nth_drop_Suc [symmetric] split: outcome.split)
qed

lemma byte_loop_list_lim:
  assumes "\<And>q s. step mem q s = f q (mem ! q) s" and "p \<le> lim" and "lim \<le> length mem"
  shows "byte_loop step mem p lim s = list_loop f p (seg mem p lim) s"
  using assms(2)
proof (induction "lim - p" arbitrary: p s)
  case 0
  then show ?case by simp
next
  case (Suc n)
  then have p: "p < lim" by simp
  then have "seg mem p lim = mem ! p # seg mem (Suc p) lim"
    using assms(3) by (simp add: seg_def take_Cons' Cons_nth_drop_Suc [symmetric])
  with Suc.hyps(1) [of "Suc p"] Suc.hyps(2) p show ?case
    by (subst byte_loop.simps) (auto simp: assms(1) split: outcome.split)
qed

lemma list_loop_scan:
  assumes "\<forall>c\<in>set xs. P c"
    and "\<And>as c. P c \<Longrightarrow> f (p + length as) c (g as) = Next (g (as @ [c]))"
  shows "list_loop f p (xs @ ys) (g []) = list_loop f (p + length xs) ys (g xs)"
proof -
  have "list_loop f (p + length as) (bs @ ys) (g as) =
      list_loop f (p + length as + length bs) ys (g (as @ bs))" if "xs = as @ bs" for as bs
    using that
  proof (induction bs arbitrary: as)
    case (Cons c bs)
    have "f (p + length as) c (g as) = Next (g (as @ [c]))"
      using Cons.prems assms(1) by (intro assms(2)) auto
    then show ?case using Cons.IH [of "as @ [c]"] Cons.prems by simp
  qed simp
  from this [of "[]" xs] show ?thesis by simp
qed

lemma list_loop_append:
  "list_loop f p (xs @ ys) s =
    (case list_loop f p xs s of
       (q, Next s') \<Rightarrow> list_loop f q ys s'
     | (q, Stop r s') \<Rightarrow> (q, Stop r s'))"
  by (induction xs arbitrary: p s) (auto split: outcome.split)

text \<open>Where the loop ends: at \<open>last\<close> when the input is used up, before it otherwise.\<close>

lemma byte_loop_pos:
  assumes "byte_loop step mem p lim s = (q, x)" and "p \<le> lim"
  shows "p \<le> q \<and> (case x of Next _ \<Rightarrow> q = lim | Stop _ _ \<Rightarrow> q < lim)"
  using assms
proof (induction step mem p lim s rule: byte_loop.induct)
  case (1 step mem p lim s)
  show ?case
  proof (cases "p < lim")
    case False
    with "1.prems" show ?thesis by auto
  next
    case True
    show ?thesis
    proof (cases "step mem p s")
      case (Next s')
      with True "1.prems" have "byte_loop step mem (Suc p) lim s' = (q, x)"
        by (simp add: byte_loop_Next)
      with "1.IH" [OF True Next] True show ?thesis by auto
    next
      case (Stop r s')
      then have "byte_loop step mem p lim s = (p, Stop r s')"
        using True by (simp add: byte_loop_Stop)
      with True "1.prems" show ?thesis by auto
    qed
  qed
qed

text \<open>Scanning to \<open>lim\<close> is scanning to any \<open>q\<close> on the way and going on from there.\<close>

lemma byte_loop_split:
  assumes "p \<le> q" and "q \<le> lim"
  shows "byte_loop step mem p lim s =
    (case byte_loop step mem p q s of
       (_, Next s') \<Rightarrow> byte_loop step mem q lim s'
     | (p', Stop r s') \<Rightarrow> (p', Stop r s'))"
  using assms
proof (induction step mem p q s rule: byte_loop.induct)
  case (1 step mem p q s)
  show ?case
  proof (cases "p < q")
    case False
    with "1.prems" show ?thesis by simp
  next
    case True
    with "1.prems" have "p < lim" by simp
    then show ?thesis
      using True "1.IH" [OF True] "1.prems"
      by (cases "step mem p s") (simp_all add: byte_loop_Next byte_loop_Stop)
  qed
qed

text \<open>A run over a block of bytes that all keep the state.\<close>

lemma byte_loop_skip:
  assumes "p \<le> q" and "q \<le> lim"
    and "\<And>i. p \<le> i \<Longrightarrow> i < q \<Longrightarrow> step mem i (f i) = Next (f (Suc i))"
  shows "byte_loop step mem p lim (f p) = byte_loop step mem q lim (f q)"
  using assms
proof (induction "q - p" arbitrary: p)
  case 0
  then show ?case by simp
next
  case (Suc n)
  then have "p < q" "p < lim" by simp_all
  with Suc.prems have "byte_loop step mem p lim (f p) = byte_loop step mem (Suc p) lim (f (Suc p))"
    by (simp add: byte_loop_Next)
  also have "\<dots> = byte_loop step mem q lim (f q)"
    using Suc \<open>p < q\<close> by (intro Suc.hyps(1)) auto
  finally show ?case .
qed

text \<open>
  Input that arrives in pieces: the loop runs on what is there, and when it is used up the
  next piece is appended and the loop entered again with the saved position and state.
\<close>

fun loop_feed :: "('s, 'r) stepper \<Rightarrow> memory \<Rightarrow> ptr \<Rightarrow> 's \<Rightarrow> u8 list list \<Rightarrow> ptr \<times> ('s, 'r) outcome" where
  "loop_feed step mem p s [] = byte_loop step mem p (length mem) s"
| "loop_feed step mem p s (c # cs) =
     (case byte_loop step mem p (length mem) s of
        (q, Next s') \<Rightarrow> loop_feed step (mem @ c) q s' cs
      | (q, Stop r s') \<Rightarrow> (q, Stop r s'))"

subsection \<open>Invariants of a run over one memory\<close>

text \<open>
  \<open>inv\<close> holds at the top of every iteration, \<open>post\<close> where the loop is left: both may speak
  of the bytes of the memory.
\<close>

locale byte_invariant =
  fixes step :: "('s, 'r) stepper"
    and mem :: memory
    and inv :: "ptr \<Rightarrow> 's \<Rightarrow> bool"
    and post :: "ptr \<Rightarrow> 'r \<Rightarrow> 's \<Rightarrow> bool"
  assumes inv_step: "inv p s \<Longrightarrow> p < length mem \<Longrightarrow> step mem p s = Next s' \<Longrightarrow> inv (Suc p) s'"
    and post_step: "inv p s \<Longrightarrow> p < length mem \<Longrightarrow> step mem p s = Stop r s' \<Longrightarrow> post p r s'"
begin

lemma loop_inv:
  assumes "inv p s" and "p \<le> lim" and "lim \<le> length mem"
    and "byte_loop step mem p lim s = (q, x)"
  shows "case x of Next s' \<Rightarrow> inv q s' | Stop r s' \<Rightarrow> post q r s'"
  using assms
proof (induction "lim - p" arbitrary: p s)
  case 0
  then show ?case by auto
next
  case (Suc n)
  then have p: "p < lim" "p < length mem" by simp_all
  show ?case
  proof (cases "step mem p s")
    case (Next s')
    have "inv (Suc p) s'" by (rule inv_step [OF Suc.prems(1) p(2) Next])
    moreover have "byte_loop step mem (Suc p) lim s' = (q, x)"
      using Suc.prems(4) p Next by (simp add: byte_loop_Next)
    ultimately show ?thesis
      using Suc.hyps(2) Suc.prems(3) p by (intro Suc.hyps(1) [of "Suc p" s']) simp_all
  next
    case (Stop r s')
    then have "(q, x) = (p, Stop r s')"
      using p Suc.prems(4) by (simp add: byte_loop_Stop)
    with post_step [OF Suc.prems(1) p(2) Stop] show ?thesis by simp
  qed
qed

end

subsection \<open>The contract of a resumable parser\<close>

locale byte_parser =
  fixes step :: "('s, 'r) stepper"
    and inv :: "ptr \<Rightarrow> 's \<Rightarrow> bool"
    and post :: "ptr \<Rightarrow> 'r \<Rightarrow> 's \<Rightarrow> bool"
  assumes step_local: "inv p s \<Longrightarrow> p < length mem \<Longrightarrow> step (mem @ rest) p s = step mem p s"
    and step_inv: "inv p s \<Longrightarrow> p < length mem \<Longrightarrow> step mem p s = Next s' \<Longrightarrow> inv (Suc p) s'"
    and step_post: "inv p s \<Longrightarrow> p < length mem \<Longrightarrow> step mem p s = Stop r s' \<Longrightarrow> post p r s'"

sublocale byte_parser \<subseteq> run: byte_invariant step mem inv post for mem
  by unfold_locales (fact step_inv step_post)+

context byte_parser
begin

lemma loop_local:
  assumes "inv p s" and "lim \<le> length mem"
  shows "byte_loop step (mem @ rest) p lim s = byte_loop step mem p lim s"
  using assms
proof (induction "lim - p" arbitrary: p s)
  case 0
  then show ?case by simp
next
  case (Suc n)
  then have p: "p < lim" "p < length mem" by simp_all
  note loc = step_local [OF Suc.prems(1) p(2), of rest]
  show ?case
  proof (cases "step mem p s")
    case (Next s')
    have "inv (Suc p) s'" by (rule step_inv [OF Suc.prems(1) p(2) Next])
    with Suc.hyps Suc.prems(2) p Next loc show ?thesis
      by (simp add: byte_loop_Next)
  next
    case (Stop r s')
    with p loc show ?thesis by (simp add: byte_loop_Stop)
  qed
qed

text \<open>
  The parser is called on the bytes that have arrived, runs out of input in state \<open>s'\<close>, and
  is called again at that point when more have arrived: the outcome is that of one call on
  the whole input.
\<close>

lemma loop_resume:
  assumes "inv p s" and "p \<le> length mem"
    and "byte_loop step mem p (length mem) s = (q, Next s')"
    and "length mem \<le> lim"
  shows "byte_loop step (mem @ rest) q lim s' = byte_loop step (mem @ rest) p lim s"
proof -
  have q: "q = length mem"
    using byte_loop_pos [OF assms(3,2)] by simp
  have "byte_loop step (mem @ rest) p (length mem) s = (q, Next s')"
    using loop_local [OF assms(1)] assms(3) by simp
  then show ?thesis
    using byte_loop_split [OF assms(2,4), of step "mem @ rest" s] q by simp
qed

text \<open>An outcome that was reached is not changed by bytes that arrive after it.\<close>

lemma loop_stop_stable:
  assumes "inv p s" and "p \<le> length mem"
    and "byte_loop step mem p (length mem) s = (q, Stop r s')"
    and "length mem \<le> lim"
  shows "byte_loop step (mem @ rest) p lim s = (q, Stop r s')"
proof -
  have "byte_loop step (mem @ rest) p (length mem) s = (q, Stop r s')"
    using loop_local [OF assms(1)] assms(3) by simp
  then show ?thesis
    using byte_loop_split [OF assms(2,4), of step "mem @ rest" s] by simp
qed

text \<open>Input in any number of pieces gives what the same input gives in one.\<close>

lemma loop_feed_concat:
  assumes "inv p s" and "p \<le> length mem"
  shows "loop_feed step mem p s cs =
    byte_loop step (mem @ concat cs) p (length mem + length (concat cs)) s"
  using assms
proof (induction cs arbitrary: mem p s)
  case Nil
  then show ?case by simp
next
  case (Cons c cs)
  obtain q x where qx: "byte_loop step mem p (length mem) s = (q, x)"
    by fastforce
  show ?case
  proof (cases x)
    case (Next s')
    have q: "q = length mem"
      using byte_loop_pos [OF qx Cons.prems(2)] Next by simp
    have "inv q s'"
      using run.loop_inv [OF Cons.prems(1,2) order_refl qx] Next by simp
    then have "loop_feed step (mem @ c) q s' cs =
      byte_loop step ((mem @ c) @ concat cs) q (length (mem @ c) + length (concat cs)) s'"
      using q by (intro Cons.IH) simp_all
    also have "\<dots> = byte_loop step (mem @ concat (c # cs)) p (length mem + length (concat (c # cs))) s"
      using loop_resume [OF Cons.prems, of q s' "length mem + length (concat (c # cs))" "concat (c # cs)"]
        qx Next by (simp add: add.assoc)
    finally show ?thesis using qx Next by simp
  next
    case (Stop r s')
    with qx have "byte_loop step mem p (length mem) s = (q, Stop r s')" by simp
    from loop_stop_stable [OF Cons.prems this] show ?thesis
      using qx Stop by simp
  qed
qed

end

end
