(* ===== verification/Http_Types.thy ===== *)
theory Http_Types
  imports Byte_Loop
begin

text \<open>
  The part of \<open>ngx_http_request_t\<close> (\<open>src/http/ngx_http_request.h\<close>) that the parsers of
  \<open>ngx_http_parse.c\<close> read and write, the HTTP method codes, the request a connection starts
  with, and the \<open>usual\<close> table that says which bytes may be copied from a URI as they are.

  \<open>r->state\<close> is shared by all parsers, each with its own \<open>enum\<close> and each leaving it at 0,
  its first constant: here every parser takes and returns the value of its own state type.
\<close>

subsection \<open>Method codes and the request\<close>

definition NGX_HTTP_UNKNOWN :: u64 where "NGX_HTTP_UNKNOWN = 0x0001"
definition NGX_HTTP_GET :: u64 where "NGX_HTTP_GET = 0x0002"
definition NGX_HTTP_HEAD :: u64 where "NGX_HTTP_HEAD = 0x0004"
definition NGX_HTTP_POST :: u64 where "NGX_HTTP_POST = 0x0008"
definition NGX_HTTP_PUT :: u64 where "NGX_HTTP_PUT = 0x0010"
definition NGX_HTTP_DELETE :: u64 where "NGX_HTTP_DELETE = 0x0020"
definition NGX_HTTP_MKCOL :: u64 where "NGX_HTTP_MKCOL = 0x0040"
definition NGX_HTTP_COPY :: u64 where "NGX_HTTP_COPY = 0x0080"
definition NGX_HTTP_MOVE :: u64 where "NGX_HTTP_MOVE = 0x0100"
definition NGX_HTTP_OPTIONS :: u64 where "NGX_HTTP_OPTIONS = 0x0200"
definition NGX_HTTP_PROPFIND :: u64 where "NGX_HTTP_PROPFIND = 0x0400"
definition NGX_HTTP_PROPPATCH :: u64 where "NGX_HTTP_PROPPATCH = 0x0800"
definition NGX_HTTP_LOCK :: u64 where "NGX_HTTP_LOCK = 0x1000"
definition NGX_HTTP_UNLOCK :: u64 where "NGX_HTTP_UNLOCK = 0x2000"
definition NGX_HTTP_PATCH :: u64 where "NGX_HTTP_PATCH = 0x4000"
definition NGX_HTTP_TRACE :: u64 where "NGX_HTTP_TRACE = 0x8000"

lemmas method_codes =
  NGX_HTTP_UNKNOWN_def NGX_HTTP_GET_def NGX_HTTP_HEAD_def NGX_HTTP_POST_def NGX_HTTP_PUT_def
  NGX_HTTP_DELETE_def NGX_HTTP_MKCOL_def NGX_HTTP_COPY_def NGX_HTTP_MOVE_def
  NGX_HTTP_OPTIONS_def NGX_HTTP_PROPFIND_def NGX_HTTP_PROPPATCH_def NGX_HTTP_LOCK_def
  NGX_HTTP_UNLOCK_def NGX_HTTP_PATCH_def NGX_HTTP_TRACE_def

record ngx_http_request_t =
  r_method :: u64
  r_http_version :: u64
  r_http_protocol_data :: "ptr option"
  r_complex_uri :: bool
  r_quoted_uri :: bool
  r_plus_in_uri :: bool
  r_space_in_uri :: bool
  r_invalid_header :: bool
  r_upstream :: bool  \<comment> \<open>\<open>r->upstream != NULL\<close>\<close>
  r_header_hash :: u64
  r_lowcase_index :: nat
  r_lowcase_header :: "u8 list"  \<comment> \<open>\<open>u_char lowcase_header[NGX_HTTP_LC_HEADER_LEN]\<close>\<close>
  r_header_name_start :: "ptr option"
  r_header_name_end :: "ptr option"
  r_header_start :: "ptr option"
  r_header_end :: "ptr option"
  r_uri_start :: "ptr option"
  r_uri_end :: "ptr option"
  r_uri_ext :: "ptr option"
  r_args_start :: "ptr option"
  r_request_start :: "ptr option"
  r_request_end :: "ptr option"
  r_method_end :: "ptr option"
  r_schema_start :: "ptr option"
  r_schema_end :: "ptr option"
  r_host_start :: "ptr option"
  r_host_end :: "ptr option"
  r_port_end :: "ptr option"
  r_http_minor :: u16
  r_http_major :: u16

definition NGX_HTTP_LC_HEADER_LEN :: nat where
  "NGX_HTTP_LC_HEADER_LEN = 32"

text \<open>
  \<open>ngx_http_create_request\<close>: the structure is allocated zeroed (\<open>ngx_pcalloc\<close>), then
  \<open>method\<close> and \<open>http_version\<close> are set.
\<close>

definition ngx_http_create_request :: "ngx_http_request_t" where
  "ngx_http_create_request =
     \<lparr>r_method = NGX_HTTP_UNKNOWN, r_http_version = 1000, r_http_protocol_data = None,
      r_complex_uri = False, r_quoted_uri = False, r_plus_in_uri = False,
      r_space_in_uri = False, r_invalid_header = False, r_upstream = False,
      r_header_hash = 0, r_lowcase_index = 0, r_lowcase_header = replicate NGX_HTTP_LC_HEADER_LEN 0,
      r_header_name_start = None, r_header_name_end = None, r_header_start = None,
      r_header_end = None, r_uri_start = None, r_uri_end = None, r_uri_ext = None,
      r_args_start = None, r_request_start = None, r_request_end = None, r_method_end = None,
      r_schema_start = None, r_schema_end = None, r_host_start = None, r_host_end = None,
      r_port_end = None, r_http_minor = 0, r_http_major = 0\<rparr>"

subsection \<open>The table of usual URI bytes\<close>

text \<open>\<open>static uint32_t usual[]\<close>: one bit per byte value (the non-Windows table).\<close>

definition usual :: "u32 list" where
  "usual = [0xffffdbfe, 0x7fff37d6, 0xffffffff, 0xffffffff,
            0xffffffff, 0xffffffff, 0xffffffff, 0xffffffff]"

text \<open>\<open>usual[ch >> 5] & (1 << (ch & 0x1f))\<close>\<close>

definition is_usual :: "u8 \<Rightarrow> bool" where
  "is_usual ch \<longleftrightarrow> usual ! unat (drop_bit 5 ch) AND push_bit (unat (ch AND 0x1f)) 1 \<noteq> 0"

text \<open>The table singles out exactly the ten bytes its comments show.\<close>

lemma is_usual_iff:
  "is_usual ch \<longleftrightarrow> ch \<notin> {NUL, LF, CR, SP, chr CHR ''#'', chr CHR ''%'', chr CHR ''+'',
                          chr CHR ''.'', chr CHR ''/'', chr CHR ''?''}"
  by (rule u8_cases [where x = ch]) (simp add: all_bytes_def is_usual_def usual_def)

subsection \<open>Version numbers\<close>

text \<open>A version number: no leading zero in the major part, as the code wants it.\<close>

definition version_digits :: "u8 list \<Rightarrow> u8 list \<Rightarrow> bool" where
  "version_digits ma mi \<longleftrightarrow> ma \<noteq> [] \<and> mi \<noteq> [] \<and> hd ma \<noteq> chr CHR ''0'' \<and>
     (\<forall>d\<in>set ma. is_digit d) \<and> (\<forall>d\<in>set mi. is_digit d)"

text \<open>The value of \<open>http_version\<close>, computed from the two 16-bit fields.\<close>

definition version_value :: "u8 list \<Rightarrow> u8 list \<Rightarrow> nat" where
  "version_value ma mi = (dec_val ma mod 65536) * 1000 + dec_val mi mod 65536"

lemma version_value_word:
  "(ucast (of_nat (dec_val ma) :: u16) * 1000 + ucast (of_nat (dec_val mi) :: u16) :: u64) =
   of_nat (version_value ma mi)"
  by (simp add: ucast_u16_of_nat version_value_def)

lemma version_value_bound: "version_value ma mi < 65601000"
proof -
  have "dec_val ma mod 65536 < 65536" "dec_val mi mod 65536 < 65536" by simp_all
  then show ?thesis by (simp add: version_value_def)
qed

end
