(* ===== verification/Http_Request_Line.thy ===== *)
theory Http_Request_Line
  imports Http_Types
begin

text \<open>
  \<open>ngx_http_parse_request_line\<close> (\<open>src/http/ngx_http_parse.c\<close>): the state machine that reads
  "METHOD SP request-target SP HTTP/x.y CRLF" a byte at a time. One definition per
  \<open>case\<close> of the switch, \<open>rl_step\<close> dispatches on the state, \<open>ngx_http_parse_request_line\<close> is the
  whole function with its entry, the loop and both ways out.
\<close>

datatype rl_state =
    rl_sw_start | rl_sw_method | rl_sw_spaces_before_uri | rl_sw_schema | rl_sw_schema_slash
  | rl_sw_schema_slash_slash | rl_sw_host_start | rl_sw_host | rl_sw_host_end
  | rl_sw_host_ip_literal | rl_sw_port | rl_sw_host_http_09 | rl_sw_after_slash_in_uri
  | rl_sw_check_uri | rl_sw_check_uri_http_09 | rl_sw_uri | rl_sw_http_09 | rl_sw_http_H
  | rl_sw_http_HT | rl_sw_http_HTT | rl_sw_http_HTTP | rl_sw_first_major_digit
  | rl_sw_major_digit | rl_sw_first_minor_digit | rl_sw_minor_digit
  | rl_sw_spaces_after_digit | rl_sw_almost_done

text \<open>How the loop is left at a byte: \<open>goto done\<close> or \<open>return\<close>.\<close>

datatype rl_exit = RL_done | RL_return ngx_rc

type_synonym rl_loc = "rl_state \<times> ngx_http_request_t"
type_synonym rl_outcome = "(rl_loc, rl_exit) outcome"

abbreviation rl_invalid :: "rl_state \<Rightarrow> ngx_http_request_t \<Rightarrow> rl_outcome" where
  "rl_invalid st r \<equiv> Stop (RL_return NGX_HTTP_PARSE_INVALID_REQUEST) (st, r)"

subsection \<open>Comparing the method name\<close>

text \<open>
  The \<open>ngx_strNcmp\<close> macros compare \<open>N\<close> bytes at \<open>m\<close> with constants. The source has two sets,
  chosen by the platform: byte by byte, and (little endian, unaligned loads allowed) a 32-bit
  load at a time.
\<close>

definition ngx_str3_cmp :: "memory \<Rightarrow> ptr \<Rightarrow> u8 \<Rightarrow> u8 \<Rightarrow> u8 \<Rightarrow> u8 \<Rightarrow> bool" where
  "ngx_str3_cmp mem m c0 c1 c2 c3 \<longleftrightarrow> mem ! m = c0 \<and> mem ! (m + 1) = c1 \<and> mem ! (m + 2) = c2"

definition ngx_str3Ocmp :: "memory \<Rightarrow> ptr \<Rightarrow> u8 \<Rightarrow> u8 \<Rightarrow> u8 \<Rightarrow> u8 \<Rightarrow> bool" where
  "ngx_str3Ocmp mem m c0 c1 c2 c3 \<longleftrightarrow> mem ! m = c0 \<and> mem ! (m + 2) = c2 \<and> mem ! (m + 3) = c3"

definition ngx_str4cmp :: "memory \<Rightarrow> ptr \<Rightarrow> u8 \<Rightarrow> u8 \<Rightarrow> u8 \<Rightarrow> u8 \<Rightarrow> bool" where
  "ngx_str4cmp mem m c0 c1 c2 c3 \<longleftrightarrow>
     mem ! m = c0 \<and> mem ! (m + 1) = c1 \<and> mem ! (m + 2) = c2 \<and> mem ! (m + 3) = c3"

definition ngx_str5cmp :: "memory \<Rightarrow> ptr \<Rightarrow> u8 \<Rightarrow> u8 \<Rightarrow> u8 \<Rightarrow> u8 \<Rightarrow> u8 \<Rightarrow> bool" where
  "ngx_str5cmp mem m c0 c1 c2 c3 c4 \<longleftrightarrow>
     mem ! m = c0 \<and> mem ! (m + 1) = c1 \<and> mem ! (m + 2) = c2 \<and> mem ! (m + 3) = c3 \<and>
     mem ! (m + 4) = c4"

definition ngx_str6cmp :: "memory \<Rightarrow> ptr \<Rightarrow> u8 \<Rightarrow> u8 \<Rightarrow> u8 \<Rightarrow> u8 \<Rightarrow> u8 \<Rightarrow> u8 \<Rightarrow> bool" where
  "ngx_str6cmp mem m c0 c1 c2 c3 c4 c5 \<longleftrightarrow>
     mem ! m = c0 \<and> mem ! (m + 1) = c1 \<and> mem ! (m + 2) = c2 \<and> mem ! (m + 3) = c3 \<and>
     mem ! (m + 4) = c4 \<and> mem ! (m + 5) = c5"

definition ngx_str7_cmp :: "memory \<Rightarrow> ptr \<Rightarrow> u8 \<Rightarrow> u8 \<Rightarrow> u8 \<Rightarrow> u8 \<Rightarrow> u8 \<Rightarrow> u8 \<Rightarrow> u8 \<Rightarrow> u8 \<Rightarrow> bool" where
  "ngx_str7_cmp mem m c0 c1 c2 c3 c4 c5 c6 c7 \<longleftrightarrow>
     mem ! m = c0 \<and> mem ! (m + 1) = c1 \<and> mem ! (m + 2) = c2 \<and> mem ! (m + 3) = c3 \<and>
     mem ! (m + 4) = c4 \<and> mem ! (m + 5) = c5 \<and> mem ! (m + 6) = c6"

definition ngx_str8cmp :: "memory \<Rightarrow> ptr \<Rightarrow> u8 \<Rightarrow> u8 \<Rightarrow> u8 \<Rightarrow> u8 \<Rightarrow> u8 \<Rightarrow> u8 \<Rightarrow> u8 \<Rightarrow> u8 \<Rightarrow> bool" where
  "ngx_str8cmp mem m c0 c1 c2 c3 c4 c5 c6 c7 \<longleftrightarrow>
     mem ! m = c0 \<and> mem ! (m + 1) = c1 \<and> mem ! (m + 2) = c2 \<and> mem ! (m + 3) = c3 \<and>
     mem ! (m + 4) = c4 \<and> mem ! (m + 5) = c5 \<and> mem ! (m + 6) = c6 \<and> mem ! (m + 7) = c7"

definition ngx_str9cmp ::
  "memory \<Rightarrow> ptr \<Rightarrow> u8 \<Rightarrow> u8 \<Rightarrow> u8 \<Rightarrow> u8 \<Rightarrow> u8 \<Rightarrow> u8 \<Rightarrow> u8 \<Rightarrow> u8 \<Rightarrow> u8 \<Rightarrow> bool" where
  "ngx_str9cmp mem m c0 c1 c2 c3 c4 c5 c6 c7 c8 \<longleftrightarrow>
     mem ! m = c0 \<and> mem ! (m + 1) = c1 \<and> mem ! (m + 2) = c2 \<and> mem ! (m + 3) = c3 \<and>
     mem ! (m + 4) = c4 \<and> mem ! (m + 5) = c5 \<and> mem ! (m + 6) = c6 \<and> mem ! (m + 7) = c7 \<and>
     mem ! (m + 8) = c8"

lemmas ngx_strcmp_defs =
  ngx_str3_cmp_def ngx_str3Ocmp_def ngx_str4cmp_def ngx_str5cmp_def ngx_str6cmp_def
  ngx_str7_cmp_def ngx_str8cmp_def ngx_str9cmp_def

text \<open>
  The set for little endian platforms with unaligned loads: \<open>*(uint32_t *) m\<close> is \<open>load32\<close>, and
  \<open>((c3 << 24) | (c2 << 16) | (c1 << 8) | c0)\<close> is \<open>pack32\<close>. \<open>ngx_str6cmp\<close> loads two bytes more
  than it compares and masks them off.
\<close>

definition load32 :: "memory \<Rightarrow> ptr \<Rightarrow> u32" where
  "load32 mem m = ucast (mem ! m) OR push_bit 8 (ucast (mem ! (m + 1)))
     OR push_bit 16 (ucast (mem ! (m + 2))) OR push_bit 24 (ucast (mem ! (m + 3)))"

definition pack32 :: "u8 \<Rightarrow> u8 \<Rightarrow> u8 \<Rightarrow> u8 \<Rightarrow> u32" where
  "pack32 c0 c1 c2 c3 =
     push_bit 24 (ucast c3) OR push_bit 16 (ucast c2) OR push_bit 8 (ucast c1) OR ucast c0"

definition ngx_str3_cmp_le :: "memory \<Rightarrow> ptr \<Rightarrow> u8 \<Rightarrow> u8 \<Rightarrow> u8 \<Rightarrow> u8 \<Rightarrow> bool" where
  "ngx_str3_cmp_le mem m c0 c1 c2 c3 \<longleftrightarrow> load32 mem m = pack32 c0 c1 c2 c3"

definition ngx_str3Ocmp_le :: "memory \<Rightarrow> ptr \<Rightarrow> u8 \<Rightarrow> u8 \<Rightarrow> u8 \<Rightarrow> u8 \<Rightarrow> bool" where
  "ngx_str3Ocmp_le mem m c0 c1 c2 c3 \<longleftrightarrow> load32 mem m = pack32 c0 c1 c2 c3"

definition ngx_str4cmp_le :: "memory \<Rightarrow> ptr \<Rightarrow> u8 \<Rightarrow> u8 \<Rightarrow> u8 \<Rightarrow> u8 \<Rightarrow> bool" where
  "ngx_str4cmp_le mem m c0 c1 c2 c3 \<longleftrightarrow> load32 mem m = pack32 c0 c1 c2 c3"

definition ngx_str5cmp_le :: "memory \<Rightarrow> ptr \<Rightarrow> u8 \<Rightarrow> u8 \<Rightarrow> u8 \<Rightarrow> u8 \<Rightarrow> u8 \<Rightarrow> bool" where
  "ngx_str5cmp_le mem m c0 c1 c2 c3 c4 \<longleftrightarrow>
     load32 mem m = pack32 c0 c1 c2 c3 \<and> mem ! (m + 4) = c4"

definition ngx_str6cmp_le :: "memory \<Rightarrow> ptr \<Rightarrow> u8 \<Rightarrow> u8 \<Rightarrow> u8 \<Rightarrow> u8 \<Rightarrow> u8 \<Rightarrow> u8 \<Rightarrow> bool" where
  "ngx_str6cmp_le mem m c0 c1 c2 c3 c4 c5 \<longleftrightarrow>
     load32 mem m = pack32 c0 c1 c2 c3 \<and>
     load32 mem (m + 4) AND 0xffff = push_bit 8 (ucast c5) OR ucast c4"

definition ngx_str7_cmp_le ::
  "memory \<Rightarrow> ptr \<Rightarrow> u8 \<Rightarrow> u8 \<Rightarrow> u8 \<Rightarrow> u8 \<Rightarrow> u8 \<Rightarrow> u8 \<Rightarrow> u8 \<Rightarrow> u8 \<Rightarrow> bool" where
  "ngx_str7_cmp_le mem m c0 c1 c2 c3 c4 c5 c6 c7 \<longleftrightarrow>
     load32 mem m = pack32 c0 c1 c2 c3 \<and> load32 mem (m + 4) = pack32 c4 c5 c6 c7"

definition ngx_str8cmp_le ::
  "memory \<Rightarrow> ptr \<Rightarrow> u8 \<Rightarrow> u8 \<Rightarrow> u8 \<Rightarrow> u8 \<Rightarrow> u8 \<Rightarrow> u8 \<Rightarrow> u8 \<Rightarrow> u8 \<Rightarrow> bool" where
  "ngx_str8cmp_le mem m c0 c1 c2 c3 c4 c5 c6 c7 \<longleftrightarrow>
     load32 mem m = pack32 c0 c1 c2 c3 \<and> load32 mem (m + 4) = pack32 c4 c5 c6 c7"

definition ngx_str9cmp_le ::
  "memory \<Rightarrow> ptr \<Rightarrow> u8 \<Rightarrow> u8 \<Rightarrow> u8 \<Rightarrow> u8 \<Rightarrow> u8 \<Rightarrow> u8 \<Rightarrow> u8 \<Rightarrow> u8 \<Rightarrow> u8 \<Rightarrow> bool" where
  "ngx_str9cmp_le mem m c0 c1 c2 c3 c4 c5 c6 c7 c8 \<longleftrightarrow>
     load32 mem m = pack32 c0 c1 c2 c3 \<and> load32 mem (m + 4) = pack32 c4 c5 c6 c7 \<and>
     mem ! (m + 8) = c8"

lemmas ngx_strcmp_le_defs =
  ngx_str3_cmp_le_def ngx_str3Ocmp_le_def ngx_str4cmp_le_def ngx_str5cmp_le_def
  ngx_str6cmp_le_def ngx_str7_cmp_le_def ngx_str8cmp_le_def ngx_str9cmp_le_def

text \<open>
  The switch on \<open>p - m\<close> in state \<open>sw_method\<close>, over either set of macros: \<open>None\<close> leaves
  \<open>r->method\<close> as it is.
\<close>

type_synonym cmp4 = "memory \<Rightarrow> ptr \<Rightarrow> u8 \<Rightarrow> u8 \<Rightarrow> u8 \<Rightarrow> u8 \<Rightarrow> bool"

definition rl_method_switch ::
  "cmp4 \<Rightarrow> cmp4 \<Rightarrow> cmp4
   \<Rightarrow> (memory \<Rightarrow> ptr \<Rightarrow> u8 \<Rightarrow> u8 \<Rightarrow> u8 \<Rightarrow> u8 \<Rightarrow> u8 \<Rightarrow> bool)
   \<Rightarrow> (memory \<Rightarrow> ptr \<Rightarrow> u8 \<Rightarrow> u8 \<Rightarrow> u8 \<Rightarrow> u8 \<Rightarrow> u8 \<Rightarrow> u8 \<Rightarrow> bool)
   \<Rightarrow> (memory \<Rightarrow> ptr \<Rightarrow> u8 \<Rightarrow> u8 \<Rightarrow> u8 \<Rightarrow> u8 \<Rightarrow> u8 \<Rightarrow> u8 \<Rightarrow> u8 \<Rightarrow> u8 \<Rightarrow> bool)
   \<Rightarrow> (memory \<Rightarrow> ptr \<Rightarrow> u8 \<Rightarrow> u8 \<Rightarrow> u8 \<Rightarrow> u8 \<Rightarrow> u8 \<Rightarrow> u8 \<Rightarrow> u8 \<Rightarrow> u8 \<Rightarrow> bool)
   \<Rightarrow> (memory \<Rightarrow> ptr \<Rightarrow> u8 \<Rightarrow> u8 \<Rightarrow> u8 \<Rightarrow> u8 \<Rightarrow> u8 \<Rightarrow> u8 \<Rightarrow> u8 \<Rightarrow> u8 \<Rightarrow> u8 \<Rightarrow> bool)
   \<Rightarrow> memory \<Rightarrow> ptr \<Rightarrow> nat \<Rightarrow> u64 option" where
  "rl_method_switch str3 str3O str4 str5 str6 str7 str8 str9 mem m len =
    (if len = 3 then
       (if str3 mem m (chr CHR ''G'') (chr CHR ''E'') (chr CHR ''T'') SP
        then Some NGX_HTTP_GET
        else if str3 mem m (chr CHR ''P'') (chr CHR ''U'') (chr CHR ''T'') SP
        then Some NGX_HTTP_PUT
        else None)
     else if len = 4 then
       (if mem ! (m + 1) = chr CHR ''O'' then
          (if str3O mem m (chr CHR ''P'') (chr CHR ''O'') (chr CHR ''S'') (chr CHR ''T'')
           then Some NGX_HTTP_POST
           else if str3O mem m (chr CHR ''C'') (chr CHR ''O'') (chr CHR ''P'') (chr CHR ''Y'')
           then Some NGX_HTTP_COPY
           else if str3O mem m (chr CHR ''M'') (chr CHR ''O'') (chr CHR ''V'') (chr CHR ''E'')
           then Some NGX_HTTP_MOVE
           else if str3O mem m (chr CHR ''L'') (chr CHR ''O'') (chr CHR ''C'') (chr CHR ''K'')
           then Some NGX_HTTP_LOCK
           else None)
        else if str4 mem m (chr CHR ''H'') (chr CHR ''E'') (chr CHR ''A'') (chr CHR ''D'')
        then Some NGX_HTTP_HEAD
        else None)
     else if len = 5 then
       (if str5 mem m (chr CHR ''M'') (chr CHR ''K'') (chr CHR ''C'') (chr CHR ''O'')
             (chr CHR ''L'')
        then Some NGX_HTTP_MKCOL
        else if str5 mem m (chr CHR ''P'') (chr CHR ''A'') (chr CHR ''T'') (chr CHR ''C'')
             (chr CHR ''H'')
        then Some NGX_HTTP_PATCH
        else if str5 mem m (chr CHR ''T'') (chr CHR ''R'') (chr CHR ''A'') (chr CHR ''C'')
             (chr CHR ''E'')
        then Some NGX_HTTP_TRACE
        else None)
     else if len = 6 then
       (if str6 mem m (chr CHR ''D'') (chr CHR ''E'') (chr CHR ''L'') (chr CHR ''E'')
             (chr CHR ''T'') (chr CHR ''E'')
        then Some NGX_HTTP_DELETE
        else if str6 mem m (chr CHR ''U'') (chr CHR ''N'') (chr CHR ''L'') (chr CHR ''O'')
             (chr CHR ''C'') (chr CHR ''K'')
        then Some NGX_HTTP_UNLOCK
        else None)
     else if len = 7 then
       (if str7 mem m (chr CHR ''O'') (chr CHR ''P'') (chr CHR ''T'') (chr CHR ''I'')
             (chr CHR ''O'') (chr CHR ''N'') (chr CHR ''S'') SP
        then Some NGX_HTTP_OPTIONS
        else None)
     else if len = 8 then
       (if str8 mem m (chr CHR ''P'') (chr CHR ''R'') (chr CHR ''O'') (chr CHR ''P'')
             (chr CHR ''F'') (chr CHR ''I'') (chr CHR ''N'') (chr CHR ''D'')
        then Some NGX_HTTP_PROPFIND
        else None)
     else if len = 9 then
       (if str9 mem m (chr CHR ''P'') (chr CHR ''R'') (chr CHR ''O'') (chr CHR ''P'')
             (chr CHR ''P'') (chr CHR ''A'') (chr CHR ''T'') (chr CHR ''C'') (chr CHR ''H'')
        then Some NGX_HTTP_PROPPATCH
        else None)
     else None)"

definition rl_method_code :: "memory \<Rightarrow> ptr \<Rightarrow> nat \<Rightarrow> u64 option" where
  "rl_method_code = rl_method_switch ngx_str3_cmp ngx_str3Ocmp ngx_str4cmp ngx_str5cmp
     ngx_str6cmp ngx_str7_cmp ngx_str8cmp ngx_str9cmp"

definition rl_method_code_le :: "memory \<Rightarrow> ptr \<Rightarrow> nat \<Rightarrow> u64 option" where
  "rl_method_code_le = rl_method_switch ngx_str3_cmp_le ngx_str3Ocmp_le ngx_str4cmp_le
     ngx_str5cmp_le ngx_str6cmp_le ngx_str7_cmp_le ngx_str8cmp_le ngx_str9cmp_le"

subsection \<open>The cases of the switch\<close>

definition rl_start :: "ptr \<Rightarrow> u8 \<Rightarrow> ngx_http_request_t \<Rightarrow> rl_outcome" where
  "rl_start p ch r =
    (let r = r\<lparr>r_request_start := Some p\<rparr> in
     if ch = CR \<or> ch = LF then Next (rl_sw_start, r)
     else if (ch < chr CHR ''A'' \<or> ch > chr CHR ''Z'') \<and> ch \<noteq> chr CHR ''_''
     then Stop (RL_return NGX_HTTP_PARSE_INVALID_METHOD) (rl_sw_start, r)
     else Next (rl_sw_method, r))"

definition rl_method :: "memory \<Rightarrow> ptr \<Rightarrow> u8 \<Rightarrow> ngx_http_request_t \<Rightarrow> rl_outcome" where
  "rl_method mem p ch r =
    (if ch = SP then
       let r = r\<lparr>r_method_end := Some (p - 1)\<rparr>;
           m = the (r_request_start r)
       in Next (rl_sw_spaces_before_uri,
            (case rl_method_code mem m (p - m) of
               None \<Rightarrow> r
             | Some v \<Rightarrow> r\<lparr>r_method := v\<rparr>))
     else if (ch < chr CHR ''A'' \<or> ch > chr CHR ''Z'') \<and> ch \<noteq> chr CHR ''_''
     then Stop (RL_return NGX_HTTP_PARSE_INVALID_METHOD) (rl_sw_method, r)
     else Next (rl_sw_method, r))"

definition rl_spaces_before_uri :: "ptr \<Rightarrow> u8 \<Rightarrow> ngx_http_request_t \<Rightarrow> rl_outcome" where
  "rl_spaces_before_uri p ch r =
    (if ch = chr CHR ''/'' then Next (rl_sw_after_slash_in_uri, r\<lparr>r_uri_start := Some p\<rparr>)
     else if is_alpha20 ch then Next (rl_sw_schema, r\<lparr>r_schema_start := Some p\<rparr>)
     else if ch = SP then Next (rl_sw_spaces_before_uri, r)
     else rl_invalid rl_sw_spaces_before_uri r)"

definition rl_schema :: "ptr \<Rightarrow> u8 \<Rightarrow> ngx_http_request_t \<Rightarrow> rl_outcome" where
  "rl_schema p ch r =
    (if is_alpha20 ch then Next (rl_sw_schema, r)
     else if ch = chr CHR '':'' then Next (rl_sw_schema_slash, r\<lparr>r_schema_end := Some p\<rparr>)
     else rl_invalid rl_sw_schema r)"

definition rl_schema_slash :: "u8 \<Rightarrow> ngx_http_request_t \<Rightarrow> rl_outcome" where
  "rl_schema_slash ch r =
    (if ch = chr CHR ''/'' then Next (rl_sw_schema_slash_slash, r)
     else rl_invalid rl_sw_schema_slash r)"

definition rl_schema_slash_slash :: "u8 \<Rightarrow> ngx_http_request_t \<Rightarrow> rl_outcome" where
  "rl_schema_slash_slash ch r =
    (if ch = chr CHR ''/'' then Next (rl_sw_host_start, r)
     else rl_invalid rl_sw_schema_slash_slash r)"

text \<open>
  "Use single '/' from request line to preserve pointers": an absolute URI without a path gets
  the first slash of "://" as its path.
\<close>

definition rl_use_single_slash :: "ngx_http_request_t \<Rightarrow> ngx_http_request_t" where
  "rl_use_single_slash r =
     r\<lparr>r_uri_start := map_option (\<lambda>e. e + 1) (r_schema_end r),
       r_uri_end := map_option (\<lambda>e. e + 2) (r_schema_end r)\<rparr>"

definition rl_host_end :: "ptr \<Rightarrow> u8 \<Rightarrow> rl_state \<Rightarrow> ngx_http_request_t \<Rightarrow> rl_outcome" where
  "rl_host_end p ch st r =
    (let r = r\<lparr>r_host_end := Some p\<rparr> in
     if ch = chr CHR '':'' then Next (rl_sw_port, r)
     else if ch = chr CHR ''/'' then Next (rl_sw_after_slash_in_uri, r\<lparr>r_uri_start := Some p\<rparr>)
     else if ch = SP then Next (rl_sw_host_http_09, rl_use_single_slash r)
     else rl_invalid st r)"

definition rl_host :: "ptr \<Rightarrow> u8 \<Rightarrow> ngx_http_request_t \<Rightarrow> rl_outcome" where
  "rl_host p ch r =
    (if is_alpha20 ch then Next (rl_sw_host, r)
     else if is_digit ch \<or> ch = chr CHR ''.'' \<or> ch = chr CHR ''-'' then Next (rl_sw_host, r)
     else rl_host_end p ch rl_sw_host r)"

definition rl_host_start :: "ptr \<Rightarrow> u8 \<Rightarrow> ngx_http_request_t \<Rightarrow> rl_outcome" where
  "rl_host_start p ch r =
    (let r = r\<lparr>r_host_start := Some p\<rparr> in
     if ch = chr CHR ''['' then Next (rl_sw_host_ip_literal, r)
     else rl_host p ch r)"

definition rl_host_ip_literal :: "u8 \<Rightarrow> ngx_http_request_t \<Rightarrow> rl_outcome" where
  "rl_host_ip_literal ch r =
    (if is_digit ch then Next (rl_sw_host_ip_literal, r)
     else if is_alpha20 ch then Next (rl_sw_host_ip_literal, r)
     else if ch = chr CHR '':'' then Next (rl_sw_host_ip_literal, r)
     else if ch = chr CHR '']'' then Next (rl_sw_host_end, r)
     else if ch \<in> set (bytes ''-._~'') then Next (rl_sw_host_ip_literal, r)
     else if ch \<in> set (bytes ''!$&'') \<or> ch = 39 \<or> ch \<in> set (bytes ''()*+,;='')
     then Next (rl_sw_host_ip_literal, r)
     else rl_invalid rl_sw_host_ip_literal r)"

definition rl_port :: "ptr \<Rightarrow> u8 \<Rightarrow> ngx_http_request_t \<Rightarrow> rl_outcome" where
  "rl_port p ch r =
    (if is_digit ch then Next (rl_sw_port, r)
     else if ch = chr CHR ''/''
     then Next (rl_sw_after_slash_in_uri, r\<lparr>r_port_end := Some p, r_uri_start := Some p\<rparr>)
     else if ch = SP
     then Next (rl_sw_host_http_09, rl_use_single_slash (r\<lparr>r_port_end := Some p\<rparr>))
     else rl_invalid rl_sw_port r)"

definition rl_host_http_09 :: "ptr \<Rightarrow> u8 \<Rightarrow> ngx_http_request_t \<Rightarrow> rl_outcome" where
  "rl_host_http_09 p ch r =
    (if ch = SP then Next (rl_sw_host_http_09, r)
     else if ch = CR then Next (rl_sw_almost_done, r\<lparr>r_http_minor := 9\<rparr>)
     else if ch = LF then Stop RL_done (rl_sw_host_http_09, r\<lparr>r_http_minor := 9\<rparr>)
     else if ch = chr CHR ''H'' then Next (rl_sw_http_H, r\<lparr>r_http_protocol_data := Some p\<rparr>)
     else rl_invalid rl_sw_host_http_09 r)"

text \<open>"Check '/.', '//', '%'" after a slash.\<close>

definition rl_after_slash_in_uri :: "ptr \<Rightarrow> u8 \<Rightarrow> ngx_http_request_t \<Rightarrow> rl_outcome" where
  "rl_after_slash_in_uri p ch r =
    (if is_usual ch then Next (rl_sw_check_uri, r)
     else if ch = SP then Next (rl_sw_check_uri_http_09, r\<lparr>r_uri_end := Some p\<rparr>)
     else if ch = CR then Next (rl_sw_almost_done, r\<lparr>r_uri_end := Some p, r_http_minor := 9\<rparr>)
     else if ch = LF
     then Stop RL_done (rl_sw_after_slash_in_uri, r\<lparr>r_uri_end := Some p, r_http_minor := 9\<rparr>)
     else if ch = chr CHR ''.'' then Next (rl_sw_uri, r\<lparr>r_complex_uri := True\<rparr>)
     else if ch = chr CHR ''%'' then Next (rl_sw_uri, r\<lparr>r_quoted_uri := True\<rparr>)
     else if ch = chr CHR ''/'' then Next (rl_sw_uri, r\<lparr>r_complex_uri := True\<rparr>)
     else if ch = chr CHR ''?'' then Next (rl_sw_uri, r\<lparr>r_args_start := Some (p + 1)\<rparr>)
     else if ch = chr CHR ''#'' then Next (rl_sw_uri, r\<lparr>r_complex_uri := True\<rparr>)
     else if ch = chr CHR ''+'' then Next (rl_sw_after_slash_in_uri, r\<lparr>r_plus_in_uri := True\<rparr>)
     else if ch = NUL then rl_invalid rl_sw_after_slash_in_uri r
     else Next (rl_sw_check_uri, r))"

definition rl_check_uri :: "ptr \<Rightarrow> u8 \<Rightarrow> ngx_http_request_t \<Rightarrow> rl_outcome" where
  "rl_check_uri p ch r =
    (if is_usual ch then Next (rl_sw_check_uri, r)
     else if ch = chr CHR ''/'' then Next (rl_sw_after_slash_in_uri, r\<lparr>r_uri_ext := None\<rparr>)
     else if ch = chr CHR ''.'' then Next (rl_sw_check_uri, r\<lparr>r_uri_ext := Some (p + 1)\<rparr>)
     else if ch = SP then Next (rl_sw_check_uri_http_09, r\<lparr>r_uri_end := Some p\<rparr>)
     else if ch = CR then Next (rl_sw_almost_done, r\<lparr>r_uri_end := Some p, r_http_minor := 9\<rparr>)
     else if ch = LF
     then Stop RL_done (rl_sw_check_uri, r\<lparr>r_uri_end := Some p, r_http_minor := 9\<rparr>)
     else if ch = chr CHR ''%'' then Next (rl_sw_uri, r\<lparr>r_quoted_uri := True\<rparr>)
     else if ch = chr CHR ''?'' then Next (rl_sw_uri, r\<lparr>r_args_start := Some (p + 1)\<rparr>)
     else if ch = chr CHR ''#'' then Next (rl_sw_uri, r\<lparr>r_complex_uri := True\<rparr>)
     else if ch = chr CHR ''+'' then Next (rl_sw_check_uri, r\<lparr>r_plus_in_uri := True\<rparr>)
     else if ch = NUL then rl_invalid rl_sw_check_uri r
     else Next (rl_sw_check_uri, r))"

text \<open>
  Default branch: \<open>state = sw_check_uri; p--\<close>, so that after the loop's \<open>p++\<close> the same byte is
  looked at again in the new state.
\<close>

definition rl_check_uri_http_09 :: "ptr \<Rightarrow> u8 \<Rightarrow> ngx_http_request_t \<Rightarrow> rl_outcome" where
  "rl_check_uri_http_09 p ch r =
    (if ch = SP then Next (rl_sw_check_uri_http_09, r)
     else if ch = CR then Next (rl_sw_almost_done, r\<lparr>r_http_minor := 9\<rparr>)
     else if ch = LF then Stop RL_done (rl_sw_check_uri_http_09, r\<lparr>r_http_minor := 9\<rparr>)
     else if ch = chr CHR ''H'' then Next (rl_sw_http_H, r\<lparr>r_http_protocol_data := Some p\<rparr>)
     else rl_check_uri p ch (r\<lparr>r_space_in_uri := True\<rparr>))"

definition rl_uri :: "ptr \<Rightarrow> u8 \<Rightarrow> ngx_http_request_t \<Rightarrow> rl_outcome" where
  "rl_uri p ch r =
    (if is_usual ch then Next (rl_sw_uri, r)
     else if ch = SP then Next (rl_sw_http_09, r\<lparr>r_uri_end := Some p\<rparr>)
     else if ch = CR then Next (rl_sw_almost_done, r\<lparr>r_uri_end := Some p, r_http_minor := 9\<rparr>)
     else if ch = LF then Stop RL_done (rl_sw_uri, r\<lparr>r_uri_end := Some p, r_http_minor := 9\<rparr>)
     else if ch = chr CHR ''#'' then Next (rl_sw_uri, r\<lparr>r_complex_uri := True\<rparr>)
     else if ch = NUL then rl_invalid rl_sw_uri r
     else Next (rl_sw_uri, r))"

definition rl_http_09 :: "ptr \<Rightarrow> u8 \<Rightarrow> ngx_http_request_t \<Rightarrow> rl_outcome" where
  "rl_http_09 p ch r =
    (if ch = SP then Next (rl_sw_http_09, r)
     else if ch = CR then Next (rl_sw_almost_done, r\<lparr>r_http_minor := 9\<rparr>)
     else if ch = LF then Stop RL_done (rl_sw_http_09, r\<lparr>r_http_minor := 9\<rparr>)
     else if ch = chr CHR ''H'' then Next (rl_sw_http_H, r\<lparr>r_http_protocol_data := Some p\<rparr>)
     else rl_uri p ch (r\<lparr>r_space_in_uri := True\<rparr>))"

text \<open>The states that each wait for one byte of "HTTP/".\<close>

definition rl_expect :: "u8 \<Rightarrow> u8 \<Rightarrow> rl_state \<Rightarrow> rl_state \<Rightarrow> ngx_http_request_t \<Rightarrow> rl_outcome" where
  "rl_expect c ch st st' r = (if ch = c then Next (st', r) else rl_invalid st r)"

definition rl_first_major_digit :: "u8 \<Rightarrow> ngx_http_request_t \<Rightarrow> rl_outcome" where
  "rl_first_major_digit ch r =
    (if ch < chr CHR ''1'' \<or> ch > chr CHR ''9'' then rl_invalid rl_sw_first_major_digit r
     else Next (rl_sw_major_digit, r\<lparr>r_http_major := ucast ch - 48\<rparr>))"

definition rl_major_digit :: "u8 \<Rightarrow> ngx_http_request_t \<Rightarrow> rl_outcome" where
  "rl_major_digit ch r =
    (if ch = chr CHR ''.'' then Next (rl_sw_first_minor_digit, r)
     else if ch < chr CHR ''0'' \<or> ch > chr CHR ''9'' then rl_invalid rl_sw_major_digit r
     else Next (rl_sw_major_digit, r\<lparr>r_http_major := r_http_major r * 10 + ucast ch - 48\<rparr>))"

definition rl_first_minor_digit :: "u8 \<Rightarrow> ngx_http_request_t \<Rightarrow> rl_outcome" where
  "rl_first_minor_digit ch r =
    (if ch < chr CHR ''0'' \<or> ch > chr CHR ''9'' then rl_invalid rl_sw_first_minor_digit r
     else Next (rl_sw_minor_digit, r\<lparr>r_http_minor := ucast ch - 48\<rparr>))"

definition rl_minor_digit :: "u8 \<Rightarrow> ngx_http_request_t \<Rightarrow> rl_outcome" where
  "rl_minor_digit ch r =
    (if ch = CR then Next (rl_sw_almost_done, r)
     else if ch = LF then Stop RL_done (rl_sw_minor_digit, r)
     else if ch = SP then Next (rl_sw_spaces_after_digit, r)
     else if ch < chr CHR ''0'' \<or> ch > chr CHR ''9'' then rl_invalid rl_sw_minor_digit r
     else Next (rl_sw_minor_digit, r\<lparr>r_http_minor := r_http_minor r * 10 + ucast ch - 48\<rparr>))"

definition rl_spaces_after_digit :: "u8 \<Rightarrow> ngx_http_request_t \<Rightarrow> rl_outcome" where
  "rl_spaces_after_digit ch r =
    (if ch = SP then Next (rl_sw_spaces_after_digit, r)
     else if ch = CR then Next (rl_sw_almost_done, r)
     else if ch = LF then Stop RL_done (rl_sw_spaces_after_digit, r)
     else rl_invalid rl_sw_spaces_after_digit r)"

definition rl_almost_done :: "ptr \<Rightarrow> u8 \<Rightarrow> ngx_http_request_t \<Rightarrow> rl_outcome" where
  "rl_almost_done p ch r =
    (let r = r\<lparr>r_request_end := Some (p - 1)\<rparr> in
     if ch = LF then Stop RL_done (rl_sw_almost_done, r)
     else rl_invalid rl_sw_almost_done r)"

subsection \<open>The step and the function\<close>

fun rl_case :: "rl_state \<Rightarrow> memory \<Rightarrow> ptr \<Rightarrow> u8 \<Rightarrow> ngx_http_request_t \<Rightarrow> rl_outcome" where
  "rl_case rl_sw_start mem p ch r = rl_start p ch r"
| "rl_case rl_sw_method mem p ch r = rl_method mem p ch r"
| "rl_case rl_sw_spaces_before_uri mem p ch r = rl_spaces_before_uri p ch r"
| "rl_case rl_sw_schema mem p ch r = rl_schema p ch r"
| "rl_case rl_sw_schema_slash mem p ch r = rl_schema_slash ch r"
| "rl_case rl_sw_schema_slash_slash mem p ch r = rl_schema_slash_slash ch r"
| "rl_case rl_sw_host_start mem p ch r = rl_host_start p ch r"
| "rl_case rl_sw_host mem p ch r = rl_host p ch r"
| "rl_case rl_sw_host_end mem p ch r = rl_host_end p ch rl_sw_host_end r"
| "rl_case rl_sw_host_ip_literal mem p ch r = rl_host_ip_literal ch r"
| "rl_case rl_sw_port mem p ch r = rl_port p ch r"
| "rl_case rl_sw_host_http_09 mem p ch r = rl_host_http_09 p ch r"
| "rl_case rl_sw_after_slash_in_uri mem p ch r = rl_after_slash_in_uri p ch r"
| "rl_case rl_sw_check_uri mem p ch r = rl_check_uri p ch r"
| "rl_case rl_sw_check_uri_http_09 mem p ch r = rl_check_uri_http_09 p ch r"
| "rl_case rl_sw_uri mem p ch r = rl_uri p ch r"
| "rl_case rl_sw_http_09 mem p ch r = rl_http_09 p ch r"
| "rl_case rl_sw_http_H mem p ch r = rl_expect (chr CHR ''T'') ch rl_sw_http_H rl_sw_http_HT r"
| "rl_case rl_sw_http_HT mem p ch r = rl_expect (chr CHR ''T'') ch rl_sw_http_HT rl_sw_http_HTT r"
| "rl_case rl_sw_http_HTT mem p ch r = rl_expect (chr CHR ''P'') ch rl_sw_http_HTT rl_sw_http_HTTP r"
| "rl_case rl_sw_http_HTTP mem p ch r =
     rl_expect (chr CHR ''/'') ch rl_sw_http_HTTP rl_sw_first_major_digit r"
| "rl_case rl_sw_first_major_digit mem p ch r = rl_first_major_digit ch r"
| "rl_case rl_sw_major_digit mem p ch r = rl_major_digit ch r"
| "rl_case rl_sw_first_minor_digit mem p ch r = rl_first_minor_digit ch r"
| "rl_case rl_sw_minor_digit mem p ch r = rl_minor_digit ch r"
| "rl_case rl_sw_spaces_after_digit mem p ch r = rl_spaces_after_digit ch r"
| "rl_case rl_sw_almost_done mem p ch r = rl_almost_done p ch r"

definition rl_step :: "memory \<Rightarrow> ptr \<Rightarrow> rl_loc \<Rightarrow> rl_outcome" where
  "rl_step mem p s = rl_case (fst s) mem p (mem ! p) (snd s)"

text \<open>The code at the label \<open>done\<close>.\<close>

definition rl_done :: "ptr \<Rightarrow> ngx_http_request_t \<Rightarrow> ngx_rc \<times> ngx_http_request_t" where
  "rl_done p r =
    (let r = (if r_request_end r = None then r\<lparr>r_request_end := Some p\<rparr> else r);
         r = r\<lparr>r_http_version := ucast (r_http_major r) * 1000 + ucast (r_http_minor r)\<rparr>
     in (if r_http_version r = 9 \<and> r_method r \<noteq> NGX_HTTP_GET
         then NGX_HTTP_PARSE_INVALID_09_METHOD else NGX_OK, r))"

text \<open>
  The function. An error return leaves \<open>b->pos\<close> and \<open>r->state\<close> as they were.
\<close>

definition ngx_http_parse_request_line ::
  "rl_state \<Rightarrow> ngx_http_request_t \<Rightarrow> ngx_buf_t
   \<Rightarrow> ngx_rc \<times> rl_state \<times> ngx_http_request_t \<times> ngx_buf_t" where
  "ngx_http_parse_request_line st r b =
    (case byte_loop rl_step (buf_mem b) (buf_pos b) (buf_last b) (st, r) of
       (p, Next (st', r')) \<Rightarrow> (NGX_AGAIN, st', r', b\<lparr>buf_pos := p\<rparr>)
     | (p, Stop RL_done (st', r')) \<Rightarrow>
         (case rl_done p r' of
            (rc, r'') \<Rightarrow> (rc, rl_sw_start, r'', b\<lparr>buf_pos := p + 1\<rparr>))
     | (p, Stop (RL_return rc) (st', r')) \<Rightarrow> (rc, st, r', b))"

lemmas [step_simps] =
  rl_start_def rl_method_def rl_spaces_before_uri_def rl_schema_def rl_schema_slash_def
  rl_schema_slash_slash_def rl_host_start_def rl_host_def rl_host_end_def
  rl_host_ip_literal_def rl_port_def rl_host_http_09_def rl_after_slash_in_uri_def
  rl_check_uri_def rl_check_uri_http_09_def rl_uri_def rl_http_09_def rl_expect_def
  rl_first_major_digit_def rl_major_digit_def rl_first_minor_digit_def rl_minor_digit_def
  rl_spaces_after_digit_def rl_almost_done_def rl_use_single_slash_def

subsection \<open>The loop invariant\<close>

definition rl_no_uri :: "ngx_http_request_t \<Rightarrow> bool" where
  "rl_no_uri r \<longleftrightarrow> r_uri_ext r = None \<and> r_args_start r = None"

text \<open>
  The saved pointers, by phase. \<open>rl_method_ptrs q r\<close>: the method lies at
  \<open>[request_start, method_end]\<close>, below \<open>q\<close>. \<open>rl_schema_ptrs k p r\<close>: the schema ended at
  least \<open>k\<close> bytes ago. \<open>rl_uri_ptrs q r\<close>: the URI starts after the method and below \<open>q\<close>, its
  extension and arguments lie between its start and \<open>q\<close>, in this order.
  \<open>rl_target_ptrs p r\<close>: the same up to \<open>uri_end\<close>, which is at most \<open>p\<close>.
\<close>

definition rl_method_ptrs :: "ptr \<Rightarrow> ngx_http_request_t \<Rightarrow> bool" where
  "rl_method_ptrs q r \<longleftrightarrow>
     (\<exists>rs me. r_request_start r = Some rs \<and> r_method_end r = Some me \<and> rs \<le> me \<and> me < q)"

definition rl_schema_ptrs :: "nat \<Rightarrow> ptr \<Rightarrow> ngx_http_request_t \<Rightarrow> bool" where
  "rl_schema_ptrs k p r \<longleftrightarrow>
     (\<exists>se. r_schema_end r = Some se \<and> rl_method_ptrs se r \<and> se + k \<le> p)"

definition rl_uri_ptrs :: "ptr \<Rightarrow> ngx_http_request_t \<Rightarrow> bool" where
  "rl_uri_ptrs q r \<longleftrightarrow>
     (\<exists>us. r_uri_start r = Some us \<and> rl_method_ptrs us r \<and> us < q \<and>
        (\<forall>e. r_uri_ext r = Some e \<longrightarrow> us < e \<and> e \<le> q) \<and>
        (\<forall>a. r_args_start r = Some a \<longrightarrow> us < a \<and> a \<le> q \<and>
           (\<forall>e. r_uri_ext r = Some e \<longrightarrow> e < a)))"

definition rl_target_ptrs :: "ptr \<Rightarrow> ngx_http_request_t \<Rightarrow> bool" where
  "rl_target_ptrs p r \<longleftrightarrow> (\<exists>ue. r_uri_end r = Some ue \<and> rl_uri_ptrs ue r \<and> ue \<le> p)"

fun rl_inv :: "ptr \<Rightarrow> rl_loc \<Rightarrow> bool" where
  "rl_inv p (st, r) \<longleftrightarrow> r_request_end r = None \<and>
    (if st = rl_sw_start then rl_no_uri r
     else if st = rl_sw_method then rl_no_uri r \<and> (\<exists>rs. r_request_start r = Some rs \<and> rs < p)
     else if st = rl_sw_spaces_before_uri \<or> st = rl_sw_schema then rl_no_uri r \<and> rl_method_ptrs p r
     else if st = rl_sw_schema_slash then rl_no_uri r \<and> rl_schema_ptrs 1 p r
     else if st = rl_sw_schema_slash_slash then rl_no_uri r \<and> rl_schema_ptrs 2 p r
     else if st = rl_sw_host_start \<or> st = rl_sw_host \<or> st = rl_sw_host_end
       \<or> st = rl_sw_host_ip_literal \<or> st = rl_sw_port then rl_no_uri r \<and> rl_schema_ptrs 3 p r
     else if st = rl_sw_after_slash_in_uri \<or> st = rl_sw_check_uri
     then rl_uri_ptrs p r \<and> r_args_start r = None
     else if st = rl_sw_check_uri_http_09
     then rl_target_ptrs (p - 1) r \<and> 0 < p \<and> r_args_start r = None
     else if st = rl_sw_uri then rl_uri_ptrs p r
     else rl_target_ptrs (p - 1) r \<and> 0 < p)"

definition rl_post :: "ptr \<Rightarrow> rl_exit \<Rightarrow> rl_loc \<Rightarrow> bool" where
  "rl_post p x s \<longleftrightarrow> (x = RL_done \<longrightarrow> rl_target_ptrs p (snd s) \<and>
      (case r_request_end (snd s) of None \<Rightarrow> True
       | Some e \<Rightarrow> e < p \<and> rl_target_ptrs e (snd s))) \<and>
     (\<forall>rc. x = RL_return rc \<longrightarrow>
        rc = NGX_HTTP_PARSE_INVALID_METHOD \<or> rc = NGX_HTTP_PARSE_INVALID_REQUEST)"

lemmas rl_ptr_defs = rl_no_uri_def rl_method_ptrs_def rl_schema_ptrs_def rl_uri_ptrs_def
  rl_target_ptrs_def

lemma rl_method_code_local:
  assumes "m + len < length mem"
  shows "rl_method_code (mem @ rest) m len = rl_method_code mem m len"
  using assms by (auto simp: rl_method_code_def rl_method_switch_def ngx_strcmp_defs nth_append)

lemma rl_step_local:
  assumes "rl_inv p s" and "p < length mem"
  shows "rl_step (mem @ rest) p s = rl_step mem p s"
proof -
  obtain st r where s: "s = (st, r)" by (cases s)
  show ?thesis
  proof (cases "st = rl_sw_method")
    case True
    with assms s obtain rs where "r_request_start r = Some rs" "rs < p" by auto
    with True assms(2) s show ?thesis
      by (simp add: rl_step_def rl_method_def nth_append rl_method_code_local)
  next
    case False
    with s assms(2) show ?thesis
      by (cases st) (simp_all add: rl_step_def nth_append)
  qed
qed

lemma rl_uri_ptrs_mono: "rl_uri_ptrs p r \<Longrightarrow> p \<le> q \<Longrightarrow> rl_uri_ptrs q r"
  unfolding rl_uri_ptrs_def by (meson le_trans less_le_trans)

lemma rl_target_ptrs_mono: "rl_target_ptrs p r \<Longrightarrow> p \<le> q \<Longrightarrow> rl_target_ptrs q r"
  unfolding rl_target_ptrs_def by (meson le_trans)

lemma rl_target_uri_ptrs: "rl_target_ptrs q r \<Longrightarrow> q \<le> p \<Longrightarrow> rl_uri_ptrs p r"
  unfolding rl_target_ptrs_def by (meson le_trans rl_uri_ptrs_mono)

lemma rl_target_uri_ptrs1: "rl_target_ptrs (p - Suc 0) r \<Longrightarrow> rl_uri_ptrs p r"
  by (erule rl_target_uri_ptrs) simp

lemma rl_check_uri_inv:
  assumes "rl_uri_ptrs p r" "r_args_start r = None" "r_request_end r = None"
    and "rl_check_uri p ch r = Next s'"
  shows "rl_inv (Suc p) s'"
  using assms unfolding rl_check_uri_def 
  by (auto split: if_splits simp: rl_ptr_defs)
lemma rl_uri_inv:
  assumes "rl_uri_ptrs p r" "r_request_end r = None"
    and "rl_uri p ch r = Next s'"
  shows "rl_inv (Suc p) s'"
  using assms unfolding rl_uri_def 
  by (auto split: if_splits simp: rl_ptr_defs)


lemma rl_uri_ptrs_space [simp]: "rl_uri_ptrs p (r\<lparr>r_space_in_uri := b\<rparr>) = rl_uri_ptrs p r"
  by (simp add: rl_uri_ptrs_def rl_method_ptrs_def)

lemma rl_check_uri_http_09_inv:
  assumes "rl_target_ptrs (p - 1) r" "0 < p" "r_args_start r = None" "r_request_end r = None"
    and "rl_check_uri_http_09 p ch r = Next s'"
  shows "rl_inv (Suc p) s'"
proof -
  have u: "rl_uri_ptrs p (r\<lparr>r_space_in_uri := True\<rparr>)"
    using rl_target_uri_ptrs1 assms(1) by simp
  have t: "rl_target_ptrs p r"
    using rl_target_ptrs_mono [OF assms(1)] by simp
  show ?thesis
  proof (cases "ch = SP \<or> ch = CR \<or> ch = LF \<or> ch = chr CHR ''H''")
    case True
    with assms t show ?thesis
      by (auto simp: rl_check_uri_http_09_def rl_target_ptrs_def rl_uri_ptrs_def rl_method_ptrs_def
          split: if_splits)
  next
    case False
    with assms(5) have "rl_check_uri p ch (r\<lparr>r_space_in_uri := True\<rparr>) = Next s'"
      by (simp add: rl_check_uri_http_09_def)
    with u assms(3,4) show ?thesis by (intro rl_check_uri_inv) simp_all
  qed
qed

lemma rl_http_09_inv:
  assumes "rl_target_ptrs (p - 1) r" "0 < p" "r_request_end r = None"
    and "rl_http_09 p ch r = Next s'"
  shows "rl_inv (Suc p) s'"
proof -
  have u: "rl_uri_ptrs p (r\<lparr>r_space_in_uri := True\<rparr>)"
    using rl_target_uri_ptrs1 assms(1) by simp
  have t: "rl_target_ptrs p r"
    using rl_target_ptrs_mono [OF assms(1)] by simp
  show ?thesis
  proof (cases "ch = SP \<or> ch = CR \<or> ch = LF \<or> ch = chr CHR ''H''")
    case True
    with assms t show ?thesis
      by (auto simp: rl_http_09_def rl_target_ptrs_def rl_uri_ptrs_def rl_method_ptrs_def
          split: if_splits)
  next
    case False
    with assms(4) have "rl_uri p ch (r\<lparr>r_space_in_uri := True\<rparr>) = Next s'"
      by (simp add: rl_http_09_def)
    with u assms(3) show ?thesis by (intro rl_uri_inv) simp_all
  qed
qed

lemma rl_step_inv:
  assumes "rl_inv p s" and "rl_step mem p s = Next s'"
  shows "rl_inv (Suc p) s'"
proof -
  obtain st r where s: "s = (st, r)" by (cases s)
  consider "st = rl_sw_check_uri" | "st = rl_sw_uri" | "st = rl_sw_check_uri_http_09"
    | "st = rl_sw_http_09"
    | "st \<notin> {rl_sw_check_uri, rl_sw_uri, rl_sw_check_uri_http_09, rl_sw_http_09}"
    by blast
  then show ?thesis
  proof cases
    case 1
    with assms show ?thesis
      unfolding s by (intro rl_check_uri_inv [of p r]) (simp_all add: rl_step_def)
  next
    case 2
    with assms show ?thesis
      unfolding s by (intro rl_uri_inv [of p r]) (simp_all add: rl_step_def)
  next
    case 3
    with assms show ?thesis
      unfolding s by (intro rl_check_uri_http_09_inv [of p r]) (simp_all add: rl_step_def)
  next
    case 4
    with assms show ?thesis
      unfolding s by (intro rl_http_09_inv [of p r]) (simp_all add: rl_step_def)
  next
    case 5
    with assms show ?thesis
      unfolding s
      by (cases st)
        (simp_all add: rl_step_def step_simps Let_def split: if_splits option.splits,
         auto simp: rl_ptr_defs)
  qed
qed

lemma rl_step_post:
  assumes "rl_inv p s" and "rl_step mem p s = Stop x s'"
  shows "rl_post p x s'"
proof -
  obtain st r where s: "s = (st, r)" by (cases s)
  show ?thesis
    using assms unfolding s rl_post_def
    by (cases st)
      (simp_all add: rl_step_def step_simps Let_def split: if_splits option.splits,
       auto simp: rl_ptr_defs)
qed

interpretation rl: byte_parser rl_step rl_inv rl_post
  by unfold_locales (auto intro: rl_step_local rl_step_inv rl_step_post)

end
