(* ===== verification/Http_Uri.thy ===== *)
theory Http_Uri
  imports Http_Types
begin

text \<open>
  \<open>ngx_http_parse_uri\<close> (\<open>src/http/ngx_http_parse.c\<close>): the flags of a URI that did not come
  through the request line. The loop runs \<open>for (p = r->uri_start; p != r->uri_end; p++)\<close>.
\<close>

datatype pu_state = pu_sw_start | pu_sw_after_slash_in_uri | pu_sw_check_uri | pu_sw_uri

text \<open>The only early exit is \<open>return NGX_ERROR\<close>.\<close>

datatype pu_exit = PU_error

type_synonym pu_loc = "pu_state \<times> ngx_http_request_t"
type_synonym pu_outcome = "(pu_loc, pu_exit) outcome"

definition pu_start :: "u8 \<Rightarrow> ngx_http_request_t \<Rightarrow> pu_outcome" where
  "pu_start ch r =
    (if ch \<noteq> chr CHR ''/'' then Stop PU_error (pu_sw_start, r)
     else Next (pu_sw_after_slash_in_uri, r))"

definition pu_after_slash_in_uri :: "ptr \<Rightarrow> u8 \<Rightarrow> ngx_http_request_t \<Rightarrow> pu_outcome" where
  "pu_after_slash_in_uri p ch r =
    (if is_usual ch then Next (pu_sw_check_uri, r)
     else if ch = SP then Next (pu_sw_check_uri, r\<lparr>r_space_in_uri := True\<rparr>)
     else if ch = chr CHR ''.'' then Next (pu_sw_uri, r\<lparr>r_complex_uri := True\<rparr>)
     else if ch = chr CHR ''%'' then Next (pu_sw_uri, r\<lparr>r_quoted_uri := True\<rparr>)
     else if ch = chr CHR ''/'' then Next (pu_sw_uri, r\<lparr>r_complex_uri := True\<rparr>)
     else if ch = chr CHR ''?'' then Next (pu_sw_uri, r\<lparr>r_args_start := Some (p + 1)\<rparr>)
     else if ch = chr CHR ''#'' then Next (pu_sw_uri, r\<lparr>r_complex_uri := True\<rparr>)
     else if ch = chr CHR ''+'' then Next (pu_sw_after_slash_in_uri, r\<lparr>r_plus_in_uri := True\<rparr>)
     else Next (pu_sw_check_uri, r))"

definition pu_check_uri :: "ptr \<Rightarrow> u8 \<Rightarrow> ngx_http_request_t \<Rightarrow> pu_outcome" where
  "pu_check_uri p ch r =
    (if is_usual ch then Next (pu_sw_check_uri, r)
     else if ch = chr CHR ''/'' then Next (pu_sw_after_slash_in_uri, r\<lparr>r_uri_ext := None\<rparr>)
     else if ch = chr CHR ''.'' then Next (pu_sw_check_uri, r\<lparr>r_uri_ext := Some (p + 1)\<rparr>)
     else if ch = SP then Next (pu_sw_check_uri, r\<lparr>r_space_in_uri := True\<rparr>)
     else if ch = chr CHR ''%'' then Next (pu_sw_uri, r\<lparr>r_quoted_uri := True\<rparr>)
     else if ch = chr CHR ''?'' then Next (pu_sw_uri, r\<lparr>r_args_start := Some (p + 1)\<rparr>)
     else if ch = chr CHR ''#'' then Next (pu_sw_uri, r\<lparr>r_complex_uri := True\<rparr>)
     else if ch = chr CHR ''+'' then Next (pu_sw_check_uri, r\<lparr>r_plus_in_uri := True\<rparr>)
     else Next (pu_sw_check_uri, r))"

definition pu_uri :: "u8 \<Rightarrow> ngx_http_request_t \<Rightarrow> pu_outcome" where
  "pu_uri ch r =
    (if is_usual ch then Next (pu_sw_uri, r)
     else if ch = SP then Next (pu_sw_uri, r\<lparr>r_space_in_uri := True\<rparr>)
     else if ch = chr CHR ''#'' then Next (pu_sw_uri, r\<lparr>r_complex_uri := True\<rparr>)
     else Next (pu_sw_uri, r))"

fun pu_case :: "pu_state \<Rightarrow> ptr \<Rightarrow> u8 \<Rightarrow> ngx_http_request_t \<Rightarrow> pu_outcome" where
  "pu_case pu_sw_start p ch r = pu_start ch r"
| "pu_case pu_sw_after_slash_in_uri p ch r = pu_after_slash_in_uri p ch r"
| "pu_case pu_sw_check_uri p ch r = pu_check_uri p ch r"
| "pu_case pu_sw_uri p ch r = pu_uri ch r"

definition pu_step :: "memory \<Rightarrow> ptr \<Rightarrow> pu_loc \<Rightarrow> pu_outcome" where
  "pu_step mem p s = pu_case (fst s) p (mem ! p) (snd s)"

definition ngx_http_parse_uri :: "memory \<Rightarrow> ngx_http_request_t \<Rightarrow> ngx_rc \<times> ngx_http_request_t" where
  "ngx_http_parse_uri mem r =
    (case byte_loop pu_step mem (the (r_uri_start r)) (the (r_uri_end r)) (pu_sw_start, r) of
       (p, Next (st, r')) \<Rightarrow> (NGX_OK, r')
     | (p, Stop PU_error (st, r')) \<Rightarrow> (NGX_ERROR, r'))"

lemmas [step_simps] = pu_start_def pu_after_slash_in_uri_def pu_check_uri_def pu_uri_def

end
