(* ===== verification/Buffer_Feed.thy ===== *)
theory Buffer_Feed
  imports Byte_Loop
begin

text \<open>
  The callers of the parsers (\<open>ngx_http_process_request_line\<close>,
  \<open>ngx_http_process_request_headers\<close>, \<open>ngx_http_proxy_process_status_line\<close>, ...) all do the
  same: they call the parser on the buffer, and while it answers \<open>NGX_AGAIN\<close> they read more
  bytes into the buffer and call it again. \<open>run_pieces\<close> is that loop, for bytes that arrive in
  the given pieces; what the caller looks at in the end is given by \<open>view\<close> (after an error,
  say, nobody uses \<open>b->pos\<close> or \<open>r->state\<close>).

  The locale \<open>resumable_parser\<close> connects a parser, as a function on its saved state and
  the buffer, with its loop. It gives that pieces do not matter.
\<close>

fun run_pieces :: "('st \<Rightarrow> ngx_buf_t \<Rightarrow> ngx_rc \<times> 'st \<times> ngx_buf_t) \<Rightarrow> (ngx_rc \<times> 'st \<times> ngx_buf_t \<Rightarrow> 'o)
    \<Rightarrow> 'st \<Rightarrow> ngx_buf_t \<Rightarrow> u8 list list \<Rightarrow> 'o" where
  "run_pieces parse view st b [] = view (parse st b)"
| "run_pieces parse view st b (c # cs) =
     (case parse st b of (rc, st', b') \<Rightarrow>
        if rc = NGX_AGAIN then run_pieces parse view st' (buf_recv b' c) cs
        else view (rc, st', b'))"

text \<open>
  Where the function copies fields of a structure into locals and writes them back only when
  it returns, the loop state is normalised by \<open>n\<close>: written back and loaded again.
\<close>

definition norm_step :: "('s \<Rightarrow> 's) \<Rightarrow> ('s, 'r) stepper \<Rightarrow> ('s, 'r) stepper" where
  "norm_step n step mem p s = (case step mem p s of Next s' \<Rightarrow> Next (n s') | Stop r s' \<Rightarrow> Stop r (n s'))"

lemma norm_step_Next: "norm_step n step mem p s = Next t \<longleftrightarrow> (\<exists>s'. step mem p s = Next s' \<and> t = n s')"
  and norm_step_Stop: "norm_step n step mem p s = Stop r t \<longleftrightarrow> (\<exists>s'. step mem p s = Stop r s' \<and> t = n s')"
  by (auto simp: norm_step_def split: outcome.split)

lemma norm_loop:
  assumes "\<And>p s. norm_step n step mem p (n s) = norm_step n step mem p s"
  shows "byte_loop (norm_step n step) mem p lim (n s) =
    (case byte_loop step mem p lim s of (q, Next s') \<Rightarrow> (q, Next (n s')) | (q, Stop r s') \<Rightarrow> (q, Stop r (n s')))"
proof (induction "lim - p" arbitrary: p s)
  case (Suc k)
  then have p: "p < lim" by simp
  show ?case
  proof (cases "step mem p s")
    case (Next s')
    then have "norm_step n step mem p (n s) = Next (n s')" unfolding assms by (simp add: norm_step_def)
    with p Next Suc show ?thesis by (simp add: byte_loop_Next)
  next
    case (Stop r s')
    then have "norm_step n step mem p (n s) = Stop r (n s')" unfolding assms by (simp add: norm_step_def)
    with p Stop show ?thesis by (simp add: byte_loop_Stop)
  qed
qed simp

locale resumable_parser = byte_parser step inv post
  for step :: "('s, 'r) stepper" and inv post +
  fixes parse :: "'st \<Rightarrow> ngx_buf_t \<Rightarrow> ngx_rc \<times> 'st \<times> ngx_buf_t"
    and load :: "'st \<Rightarrow> 's" and save :: "'s \<Rightarrow> 'st"
    and view :: "ngx_rc \<times> 'st \<times> ngx_buf_t \<Rightarrow> 'o"
    and stop_view :: "ptr \<Rightarrow> 'r \<Rightarrow> 's \<Rightarrow> 'o"
  assumes parse_again:
      "byte_loop step (buf_mem b) (buf_pos b) (buf_last b) (load st) = (p, Next s) \<Longrightarrow>
       parse st b = (NGX_AGAIN, save s, b\<lparr>buf_pos := p\<rparr>)"
    and parse_stop:
      "byte_loop step (buf_mem b) (buf_pos b) (buf_last b) (load st) = (p, Stop r s) \<Longrightarrow>
       post p r s \<Longrightarrow> fst (parse st b) \<noteq> NGX_AGAIN \<and> view (parse st b) = stop_view p r s"
    and load_save: "inv p s \<Longrightarrow> load (save s) = s"
    and view_again: "buf_pos b = buf_pos b' \<Longrightarrow> view (NGX_AGAIN, st, b) = view (NGX_AGAIN, st, b')"
begin

text \<open>What the caller sees, read off the outcome of the loop.\<close>

fun loop_view :: "ptr \<times> ('s, 'r) outcome \<Rightarrow> 'o" where
  "loop_view (p, Next s) = view (NGX_AGAIN, save s, \<lparr>buf_mem = [], buf_pos = p, buf_last = p\<rparr>)"
| "loop_view (p, Stop r s) = stop_view p r s"

lemma run_pieces_loop:
  assumes "inv (buf_pos b) (load st)" and "buf_pos b \<le> buf_last b" and "buf_last b = length (buf_mem b)"
  shows "run_pieces parse view st b cs = loop_view (loop_feed step (buf_mem b) (buf_pos b) (load st) cs)"
  using assms
proof (induction cs arbitrary: st b)
  case Nil
  obtain q x where qx: "byte_loop step (buf_mem b) (buf_pos b) (buf_last b) (load st) = (q, x)"
    by fastforce
  have post: "case x of Next s' \<Rightarrow> inv q s' | Stop e s' \<Rightarrow> post q e s'"
    using run.loop_inv [OF Nil(1,2) _ qx] Nil(3) by simp
  show ?case
  proof (cases x)
    case (Next s')
    with qx Nil(3) show ?thesis by (auto simp: parse_again intro: view_again)
  next
    case (Stop e s')
    with qx post parse_stop [of b st q e s'] Nil(3) show ?thesis by simp
  qed
next
  case (Cons c cs)
  obtain q x where qx: "byte_loop step (buf_mem b) (buf_pos b) (buf_last b) (load st) = (q, x)"
    by fastforce
  have post: "case x of Next s' \<Rightarrow> inv q s' | Stop e s' \<Rightarrow> post q e s'"
    using run.loop_inv [OF Cons.prems(1,2) _ qx] Cons.prems(3) by simp
  have pos: "case x of Next _ \<Rightarrow> q = buf_last b | Stop _ _ \<Rightarrow> q < buf_last b"
    using byte_loop_pos [OF qx Cons.prems(2)] by simp
  show ?case
  proof (cases x)
    case (Next s')
    let ?b = "buf_recv (b\<lparr>buf_pos := q\<rparr>) c"
    have "run_pieces parse view (save s') ?b cs = loop_view (loop_feed step (buf_mem ?b) (buf_pos ?b) (load (save s')) cs)"
      using post pos Next Cons.prems load_save [of q s']
      by (intro Cons.IH) (simp_all add: buf_recv_def)
    with Next qx post Cons.prems(3) load_save [of q s'] show ?thesis
      by (simp add: parse_again buf_recv_def)
  next
    case (Stop e s')
    with qx post parse_stop [of b st q e s'] Cons.prems(3) show ?thesis
      by (auto split: prod.splits)
  qed
qed

lemma pieces_irrelevant:
  assumes "inv 0 (load st)"
  shows "run_pieces parse view st \<lparr>buf_mem = [], buf_pos = 0, buf_last = 0\<rparr> cs =
    view (parse st \<lparr>buf_mem = concat cs, buf_pos = 0, buf_last = length (concat cs)\<rparr>)"
proof -
  let ?b = "\<lparr>buf_mem = concat cs, buf_pos = 0, buf_last = length (concat cs)\<rparr>"
  have "run_pieces parse view st \<lparr>buf_mem = [], buf_pos = 0, buf_last = 0\<rparr> cs =
      loop_view (byte_loop step (concat cs) 0 (length (concat cs)) (load st))"
    using assms by (simp add: run_pieces_loop loop_feed_concat)
  also have "\<dots> = run_pieces parse view st ?b []"
    using assms by (subst run_pieces_loop) (simp_all del: run_pieces.simps)
  finally show ?thesis by simp
qed

text \<open>One call on a whole buffer, by its loop.\<close>

lemma parse_outcome:
  assumes "inv (buf_pos b) (load st)" and "buf_wf b"
    and "byte_loop step (buf_mem b) (buf_pos b) (buf_last b) (load st) = (q, x)"
  shows "case x of Next s \<Rightarrow> inv q s \<and> q = buf_last b
           | Stop r s \<Rightarrow> post q r s \<and> buf_pos b \<le> q \<and> q < buf_last b"
  using run.loop_inv [OF assms(1) _ _ assms(3)] byte_loop_pos [OF assms(3)] assms(2)
  by (cases x) (auto simp: buf_wf_def)

end

end
