(* ===== verification/Http_Request_Line_Spec.thy ===== *)
theory Http_Request_Line_Spec
  imports Http_Request_Line Http_Uri Buffer_Feed
begin

text \<open>
  What \<open>ngx_http_parse_request_line\<close> promises to its caller: the flags and the bytes of the
  target agree (a target without \<open>complex_uri\<close> and \<open>quoted_uri\<close> may be used as it is), a
  request line written out is read back, and input may arrive in pieces.
\<close>

subsection \<open>The flags and the bytes of the path\<close>

definition path_clean :: "u8 list \<Rightarrow> bool" where
  "path_clean xs \<longleftrightarrow> xs \<noteq> [] \<and> hd xs = chr CHR ''/'' \<and>
     set xs \<inter> {chr CHR ''%'', chr CHR ''#'', chr CHR ''?'', NUL, CR, LF} = {} \<and>
     successively (\<lambda>a b. a = chr CHR ''/'' \<longrightarrow> b \<noteq> chr CHR ''/'' \<and> b \<noteq> chr CHR ''.'') xs"

lemma path_clean_snoc:
  "path_clean xs \<Longrightarrow> c \<notin> {chr CHR ''%'', chr CHR ''#'', chr CHR ''?'', NUL, CR, LF} \<Longrightarrow>
   (last xs = chr CHR ''/'' \<Longrightarrow> c \<noteq> chr CHR ''/'' \<and> c \<noteq> chr CHR ''.'') \<Longrightarrow>
   path_clean (xs @ [c])"
  unfolding path_clean_def by (auto simp: successively_append_iff)

lemma path_clean_slash: "path_clean [47]"
  by (simp add: path_clean_def)

definition rl_path_end :: "ngx_http_request_t \<Rightarrow> ptr" where
  "rl_path_end r = (case r_args_start r of Some a \<Rightarrow> a - 1 | None \<Rightarrow> the (r_uri_end r))"

definition rl_plain :: "ngx_http_request_t \<Rightarrow> bool" where
  "rl_plain r \<longleftrightarrow> \<not> r_complex_uri r \<and> \<not> r_quoted_uri r"

definition rl_path_ok :: "memory \<Rightarrow> ptr \<Rightarrow> ngx_http_request_t \<Rightarrow> bool" where
  "rl_path_ok mem q r \<longleftrightarrow> path_clean (seg mem (the (r_uri_start r)) q)"

fun rl_clean :: "memory \<Rightarrow> ptr \<Rightarrow> rl_loc \<Rightarrow> bool" where
  "rl_clean mem p (st, r) \<longleftrightarrow> rl_inv p (st, r) \<and>
    (if st = rl_sw_start \<or> st = rl_sw_method \<or> st = rl_sw_spaces_before_uri \<or> st = rl_sw_schema
     then True
     else if st = rl_sw_schema_slash
     then p = the (r_schema_end r) + 1
     else if st = rl_sw_schema_slash_slash \<or> st = rl_sw_host_start \<or> st = rl_sw_host
        \<or> st = rl_sw_host_end \<or> st = rl_sw_host_ip_literal \<or> st = rl_sw_port
     then mem ! (the (r_schema_end r) + 1) = chr CHR ''/''
     else if st = rl_sw_after_slash_in_uri
     then rl_plain r \<longrightarrow> rl_path_ok mem p r
     else if st = rl_sw_check_uri
     then mem ! (p - 1) \<noteq> chr CHR ''/'' \<and> (rl_plain r \<longrightarrow> rl_path_ok mem p r)
     else if st = rl_sw_uri
     then rl_plain r \<longrightarrow> (\<exists>a. r_args_start r = Some a \<and> rl_path_ok mem (a - 1) r)
     else if st = rl_sw_check_uri_http_09
     then mem ! (p - 1) = SP \<and>
            (rl_plain r \<longrightarrow> rl_path_ok mem p r \<and> rl_path_ok mem (rl_path_end r) r)
     else if st = rl_sw_http_09
     then rl_plain r \<longrightarrow> rl_path_ok mem (rl_path_end r) r \<and> r_args_start r \<noteq> None
     else rl_plain r \<longrightarrow> rl_path_ok mem (rl_path_end r) r)"

definition rl_clean_post :: "memory \<Rightarrow> ptr \<Rightarrow> rl_exit \<Rightarrow> rl_loc \<Rightarrow> bool" where
  "rl_clean_post mem p x s \<longleftrightarrow>
     (x = RL_done \<longrightarrow> rl_plain (snd s) \<longrightarrow> rl_path_ok mem (rl_path_end (snd s)) (snd s))"

lemma rl_path_ok_snoc:
  assumes "rl_path_ok mem p r" and "r_uri_start r = Some us" and "us < p" and "p < length mem"
    and "mem ! p \<notin> {chr CHR ''%'', chr CHR ''#'', chr CHR ''?'', NUL, CR, LF}"
    and "mem ! (p - 1) = chr CHR ''/'' \<Longrightarrow> mem ! p \<noteq> chr CHR ''/'' \<and> mem ! p \<noteq> chr CHR ''.''"
    and "r_uri_start r' = r_uri_start r"
  shows "rl_path_ok mem (Suc p) r'"
  using assms unfolding rl_path_ok_def
  by (auto simp: seg_Suc last_seg intro!: path_clean_snoc)

lemma rl_path_ok_slash:
  assumes "r_uri_start r = Some p" and "p < length mem" and "mem ! p = chr CHR ''/''"
    and "q = Suc p"
  shows "rl_path_ok mem q r"
  using assms unfolding rl_path_ok_def
  by (simp add: seg_Suc path_clean_slash)

lemma rl_check_uri_clean:
  assumes "rl_plain r \<Longrightarrow> rl_path_ok mem p r" and "mem ! (p - 1) \<noteq> chr CHR ''/''"
    and "rl_uri_ptrs p r" and "r_args_start r = None" and "p < length mem" and "r_request_end r = None"
    and "rl_check_uri p (mem ! p) r = Next s'"
  shows "rl_clean mem (Suc p) s'"
proof -
  have "rl_inv (Suc p) s'"
    by (rule rl_check_uri_inv [OF assms(3,4,6,7)])
  from assms(3) obtain us where us: "r_uri_start r = Some us" "us < p"
    by (auto simp: rl_uri_ptrs_def)
  show ?thesis
    using assms \<open>rl_inv (Suc p) s'\<close> us unfolding rl_check_uri_def
    by (auto simp: rl_plain_def is_usual_iff rl_path_end_def split: if_splits
      intro!: rl_path_ok_snoc [of mem p r us]) (auto simp: rl_path_ok_def)
qed

lemma rl_uri_clean:
  assumes "rl_plain r \<Longrightarrow> (\<exists>a. r_args_start r = Some a \<and> rl_path_ok mem (a - 1) r)"
    and "rl_uri_ptrs p r" and "r_request_end r = None"
    and "rl_uri p (mem ! p) r = Next s'"
  shows "rl_clean mem (Suc p) s'"
  using rl_uri_inv [OF assms(2-4)] assms unfolding rl_uri_def
  by (auto simp: rl_plain_def rl_path_end_def rl_path_ok_def split: if_splits)

lemma rl_after_slash_clean:
  assumes "rl_plain r \<Longrightarrow> rl_path_ok mem p r"
    and "rl_inv p (rl_sw_after_slash_in_uri, r)" and "p < length mem"
    and "rl_after_slash_in_uri p (mem ! p) r = Next s'"
  shows "rl_clean mem (Suc p) s'"
proof -
  have "rl_step mem p (rl_sw_after_slash_in_uri, r) = Next s'"
    using assms(4) by (simp add: rl_step_def)
  then have inv: "rl_inv (Suc p) s'" by (rule rl_step_inv [OF assms(2)])
  from assms(2) obtain us where us: "r_uri_start r = Some us" "us < p"
    by (auto simp: rl_uri_ptrs_def)
  show ?thesis
    using assms inv us unfolding rl_after_slash_in_uri_def
    by (auto simp: rl_plain_def is_usual_iff rl_path_end_def split: if_splits
      intro!: rl_path_ok_snoc [of mem p r us]) (auto simp: rl_path_ok_def)
qed

lemma rl_check_uri_http_09_clean:
  assumes "rl_plain r \<Longrightarrow> rl_path_ok mem p r \<and> rl_path_ok mem (rl_path_end r) r"
    and "mem ! (p - 1) = SP"
    and "rl_inv p (rl_sw_check_uri_http_09, r)" and "p < length mem"
    and "rl_check_uri_http_09 p (mem ! p) r = Next s'"
  shows "rl_clean mem (Suc p) s'"
proof -
  have "rl_step mem p (rl_sw_check_uri_http_09, r) = Next s'"
    using assms(5) by (simp add: rl_step_def)
  then have inv: "rl_inv (Suc p) s'" by (rule rl_step_inv [OF assms(3)])
  from assms(3) obtain us where us: "r_uri_start r = Some us" "us < p"
    by (auto simp: rl_uri_ptrs_def rl_target_ptrs_def)
  have u: "rl_uri_ptrs p (r\<lparr>r_space_in_uri := True\<rparr>)"
    using rl_target_uri_ptrs1 assms(3) by simp
  show ?thesis
  proof (cases "mem ! p = SP \<or> mem ! p = CR \<or> mem ! p = LF \<or> mem ! p = chr CHR ''H''")
    case True
    with assms inv us show ?thesis
      by (auto simp: rl_check_uri_http_09_def rl_plain_def rl_path_end_def split: if_splits
        intro!: rl_path_ok_snoc [of mem p r us]) (auto simp: rl_path_ok_def)
  next
    case False
    with assms(5) have "rl_check_uri p (mem ! p) (r\<lparr>r_space_in_uri := True\<rparr>) = Next s'"
      by (simp add: rl_check_uri_http_09_def)
    with u assms show ?thesis
      by (intro rl_check_uri_clean) (simp_all add: rl_plain_def rl_path_ok_def)
  qed
qed

lemma rl_http_09_clean:
  assumes "rl_plain r \<Longrightarrow> rl_path_ok mem (rl_path_end r) r \<and> r_args_start r \<noteq> None"
    and "rl_inv p (rl_sw_http_09, r)"
    and "rl_http_09 p (mem ! p) r = Next s'"
  shows "rl_clean mem (Suc p) s'"
proof -
  have "rl_step mem p (rl_sw_http_09, r) = Next s'"
    using assms(3) by (simp add: rl_step_def)
  then have inv: "rl_inv (Suc p) s'" by (rule rl_step_inv [OF assms(2)])
  have u: "rl_uri_ptrs p (r\<lparr>r_space_in_uri := True\<rparr>)"
    using rl_target_uri_ptrs1 assms(2) by simp
  show ?thesis
  proof (cases "mem ! p = SP \<or> mem ! p = CR \<or> mem ! p = LF \<or> mem ! p = chr CHR ''H''")
    case True
    with assms inv show ?thesis
      by (auto simp: rl_http_09_def rl_plain_def rl_path_end_def split: if_splits)
        (auto simp: rl_path_ok_def)
  next
    case False
    with assms(3) have "rl_uri p (mem ! p) (r\<lparr>r_space_in_uri := True\<rparr>) = Next s'"
      by (simp add: rl_http_09_def)
    with u assms show ?thesis
      by (intro rl_uri_clean) (auto simp: rl_plain_def rl_path_ok_def rl_path_end_def)
  qed
qed

lemma rl_clean_inv: "rl_clean mem p s \<Longrightarrow> rl_inv p s"
  by (cases s) (simp del: rl_inv.simps)

lemma rl_step_clean:
  assumes "rl_clean mem p s" and "p < length mem" and "rl_step mem p s = Next s'"
  shows "rl_clean mem (Suc p) s'"
proof -
  obtain st r where s: "s = (st, r)" by (cases s)
  have inv0: "rl_inv p s" using assms(1) by (rule rl_clean_inv)
  then have inv: "rl_inv (Suc p) s'" using assms(3) by (rule rl_step_inv)
  have step: "rl_case st mem p (mem ! p) r = Next s'" using assms(3) s by (simp add: rl_step_def)
  note c = assms(1) [unfolded s]
  show ?thesis
  proof (cases "st = rl_sw_check_uri")
    case True
    show ?thesis
      by (rule rl_check_uri_clean [of r]) (use True c step assms(2) in simp_all)
  next
    case n1: False
    show ?thesis
    proof (cases "st = rl_sw_uri")
      case True
      show ?thesis
        by (rule rl_uri_clean [of r]) (use True c step in simp_all)
    next
      case n2: False
      show ?thesis
      proof (cases "st = rl_sw_check_uri_http_09")
        case True
        show ?thesis
          by (rule rl_check_uri_http_09_clean [of r]) (use True c step assms(2) in simp_all)
      next
        case n3: False
        show ?thesis
        proof (cases "st = rl_sw_http_09")
          case True
          show ?thesis
            by (rule rl_http_09_clean [of r]) (use True c step in simp_all)
        next
          case n4: False
          show ?thesis
          proof (cases "st = rl_sw_after_slash_in_uri")
            case True
            show ?thesis
              by (rule rl_after_slash_clean [of r]) (use True c step assms(2) in simp_all)
          next
            case False
            show ?thesis
              using n1 n2 n3 n4 False c step inv assms(2)
              by (cases st)
                (simp_all add: step_simps Let_def del: rl_inv.simps split: if_splits option.splits,
                 auto simp: rl_plain_def rl_path_ok_def rl_path_end_def rl_ptr_defs seg_Suc
                   path_clean_slash split: option.splits)
          qed
        qed
      qed
    qed
  qed
qed

lemma rl_step_clean_post:
  assumes "rl_clean mem p s" and "p < length mem" and "rl_step mem p s = Stop x s'"
  shows "rl_clean_post mem p x s'"
proof -
  obtain st r where s: "s = (st, r)" by (cases s)
  show ?thesis
    using assms unfolding s rl_clean_post_def
    by (cases st)
      (simp_all add: rl_step_def step_simps Let_def split: if_splits option.splits,
       auto simp: rl_plain_def rl_path_ok_def rl_path_end_def split: option.splits)
qed

interpretation rlc: byte_invariant rl_step mem "rl_clean mem" "rl_clean_post mem" for mem
  by unfold_locales (blast intro: rl_step_clean rl_step_clean_post)+

subsection \<open>Reading back a request line\<close>

lemma rl_loop_Next:
  assumes "drop p mem = ch # cs" and "rl_case st mem p ch r = Next s'"
  shows "byte_loop rl_step mem p (length mem) (st, r) = byte_loop rl_step mem (Suc p) (length mem) s'"
  using drop_eq_Cons [OF assms(1)] assms(2) by (intro byte_loop_Next) (simp_all add: rl_step_def)

lemma rl_loop_Stop:
  assumes "drop p mem = ch # cs" and "rl_case st mem p ch r = Stop x s'"
  shows "byte_loop rl_step mem p (length mem) (st, r) = (p, Stop x s')"
  using drop_eq_Cons [OF assms(1)] assms(2) by (intro byte_loop_Stop) (simp_all add: rl_step_def)

definition method_char :: "u8 \<Rightarrow> bool" where
  "method_char ch \<longleftrightarrow> (chr CHR ''A'' \<le> ch \<and> ch \<le> chr CHR ''Z'') \<or> ch = chr CHR ''_''"

lemma method_char_neq: "method_char ch \<Longrightarrow> ch \<noteq> SP \<and> ch \<noteq> CR \<and> ch \<noteq> LF"
  by (auto simp: method_char_def)

lemma rl_scan_method_tail:
  assumes "drop p mem = m @ ys" and "\<forall>c\<in>set m. method_char c"
  shows "byte_loop rl_step mem p (length mem) (rl_sw_method, r) =
         byte_loop rl_step mem (p + length m) (length mem) (rl_sw_method, r)"
proof (rule byte_loop_scan [OF assms])
  show "rl_step mem q (rl_sw_method, r) = Next (rl_sw_method, r)"
    if "method_char c" "mem ! q = c" for c q
    using that method_char_neq [of c] by (auto simp: rl_step_def rl_method_def method_char_def)
qed

lemma rl_scan_method:
  assumes d: "drop p mem = m @ SP # ys" and m: "\<forall>c\<in>set m. method_char c" and ne: "m \<noteq> []"
    and r': "r' = r\<lparr>r_request_start := Some p, r_method_end := Some (p + length m - 1)\<rparr>"
  shows "byte_loop rl_step mem p (length mem) (rl_sw_start, r) =
         byte_loop rl_step mem (Suc (p + length m)) (length mem)
           (rl_sw_spaces_before_uri, 
             (case rl_method_code mem p (length m) of None \<Rightarrow> r' | Some v \<Rightarrow> r'\<lparr>r_method := v\<rparr>))"
proof -
  obtain c cs where cs: "m = c # cs" using ne by (cases m) auto
  let ?r = "r\<lparr>r_request_start := Some p\<rparr>"
  have d1: "drop p mem = c # (cs @ SP # ys)" using d cs by simp
  have "rl_case rl_sw_start mem p c r = Next (rl_sw_method, ?r)"
    using m cs method_char_neq [of c] by (auto simp: rl_start_def method_char_def Let_def)
  note s1 = rl_loop_Next [OF d1 this]
  have d2: "drop (Suc p) mem = cs @ SP # ys" using drop_eq_Cons [OF d1] by simp
  note s2 = rl_scan_method_tail [OF d2, of ?r]
  have d3: "drop (p + length m) mem = SP # ys" using drop_eq_append [OF d] .
  have "rl_case rl_sw_method mem (p + length m) SP ?r =
     Next (rl_sw_spaces_before_uri, 
             (case rl_method_code mem p (length m) of None \<Rightarrow> r' | Some v \<Rightarrow> r'\<lparr>r_method := v\<rparr>))"
    by (simp add: rl_method_def r' Let_def split: option.split)
  note s3 = rl_loop_Next [OF d3 this]
  show ?thesis using s1 s2 s3 m cs by simp
qed

definition target_char :: "u8 \<Rightarrow> bool" where
  "target_char ch \<longleftrightarrow> ch \<notin> {SP, CR, LF, NUL}"

definition rl_uri_frame :: "ngx_http_request_t \<Rightarrow> ngx_http_request_t" where
  "rl_uri_frame r = r\<lparr>r_complex_uri := False, r_quoted_uri := False, r_plus_in_uri := False,
     r_uri_ext := None, r_args_start := None\<rparr>"

text \<open>
  On the bytes of a target the states of this parser and of \<open>ngx_http_parse_uri\<close> go together
  and do the same to the request.
\<close>

fun pu_rl :: "pu_state \<Rightarrow> rl_state" where
  "pu_rl pu_sw_start = rl_sw_spaces_before_uri"
| "pu_rl pu_sw_after_slash_in_uri = rl_sw_after_slash_in_uri"
| "pu_rl pu_sw_check_uri = rl_sw_check_uri"
| "pu_rl pu_sw_uri = rl_sw_uri"

definition uri_flags :: "ngx_http_request_t \<Rightarrow> bool \<times> bool \<times> bool \<times> ptr option \<times> ptr option" where
  "uri_flags r = (r_complex_uri r, r_quoted_uri r, r_plus_in_uri r, r_uri_ext r, r_args_start r)"

abbreviation pu_list :: "ptr \<Rightarrow> u8 list \<Rightarrow> pu_loc \<Rightarrow> ptr \<times> pu_outcome" where
  "pu_list \<equiv> list_loop (\<lambda>p ch s. pu_case (fst s) p ch (snd s))"

lemma rl_target_step:
  assumes "st \<noteq> pu_sw_start" and "target_char ch"
  shows "\<exists>st' r'. rl_case (pu_rl st) mem p ch r = Next (pu_rl st', r') \<and> pu_case st p ch r = Next (st', r') \<and>
    st' \<noteq> pu_sw_start \<and> rl_uri_frame r' = rl_uri_frame r"
  using assms
  by (cases st; auto simp: rl_after_slash_in_uri_def rl_check_uri_def rl_uri_def
      pu_after_slash_in_uri_def pu_check_uri_def pu_uri_def target_char_def rl_uri_frame_def)

lemma rl_scan_target:
  assumes "drop p mem = t @ ys" and "\<forall>c\<in>set t. target_char c" and "st \<noteq> pu_sw_start"
  shows "\<exists>st' r'. byte_loop rl_step mem p (length mem) (pu_rl st, r) =
           byte_loop rl_step mem (p + length t) (length mem) (pu_rl st', r') \<and>
           pu_list p t (st, r) = (p + length t, Next (st', r')) \<and> st' \<noteq> pu_sw_start \<and>
           rl_uri_frame r' = rl_uri_frame r"
  using assms
proof (induction t arbitrary: p st r)
  case Nil
  then show ?case by auto
next
  case (Cons c t)
  have d: "drop p mem = c # (t @ ys)" using Cons.prems(1) by simp
  obtain st1 r1 where 1: "rl_case (pu_rl st) mem p c r = Next (pu_rl st1, r1)"
      "pu_case st p c r = Next (st1, r1)" "st1 \<noteq> pu_sw_start" "rl_uri_frame r1 = rl_uri_frame r"
    using rl_target_step [of st c mem p r] Cons.prems by auto
  have "drop (Suc p) mem = t @ ys" using drop_eq_Cons [OF d] by simp
  from Cons.IH [OF this _ 1(3), of r1] Cons.prems(2) obtain st' r' where
    "byte_loop rl_step mem (Suc p) (length mem) (pu_rl st1, r1) =
           byte_loop rl_step mem (Suc p + length t) (length mem) (pu_rl st', r')"
     "pu_list (Suc p) t (st1, r1) = (Suc p + length t, Next (st', r'))" "st' \<noteq> pu_sw_start"
     "rl_uri_frame r' = rl_uri_frame r1" by auto
  with rl_loop_Next [OF d 1(1)] 1(2,4) show ?case by auto
qed

text \<open>\<open>ngx_http_parse_uri\<close> neither reads nor writes anything but the flags.\<close>

lemma pu_case_flags:
  assumes "pu_case st p ch r = Next (st', r')" and "uri_flags r = uri_flags r2"
  shows "\<exists>r2'. pu_case st p ch r2 = Next (st', r2') \<and> uri_flags r' = uri_flags r2'"
  using assms by (cases st) (auto simp: step_simps uri_flags_def split: if_splits)

lemma pu_list_flags:
  assumes "pu_list p t (st, r) = (q, Next (st', r'))" and "uri_flags r = uri_flags r2"
  shows "\<exists>r2'. pu_list p t (st, r2) = (q, Next (st', r2')) \<and> uri_flags r' = uri_flags r2'"
  using assms
proof (induction t arbitrary: p st r r2)
  case (Cons c t)
  then obtain st1 r1 where "pu_case st p c r = Next (st1, r1)" "pu_list (Suc p) t (st1, r1) = (q, Next (st', r'))"
    by (auto split: outcome.splits)
  with pu_case_flags [OF this(1) Cons.prems(2)] Cons.IH show ?case by force
qed simp

lemma rl_scan_major:
  assumes "drop p mem = ds @ ys" and "\<forall>c\<in>set ds. is_digit c"
  shows "byte_loop rl_step mem p (length mem) (rl_sw_major_digit, r\<lparr>r_http_major := of_nat (dec_val es)\<rparr>) =
    byte_loop rl_step mem (p + length ds) (length mem)
      (rl_sw_major_digit, r\<lparr>r_http_major := of_nat (dec_val (es @ ds))\<rparr>)"
  using byte_loop_scan [OF assms, of rl_step
      "\<lambda>as. (rl_sw_major_digit, r\<lparr>r_http_major := of_nat (dec_val (es @ as))\<rparr>)"]
  by (simp add: rl_step_def rl_major_digit_def digit_facts dec_val_step)

lemma rl_scan_minor:
  assumes "drop p mem = ds @ ys" and "\<forall>c\<in>set ds. is_digit c"
  shows "byte_loop rl_step mem p (length mem) (rl_sw_minor_digit, r\<lparr>r_http_minor := of_nat (dec_val es)\<rparr>) =
    byte_loop rl_step mem (p + length ds) (length mem)
      (rl_sw_minor_digit, r\<lparr>r_http_minor := of_nat (dec_val (es @ ds))\<rparr>)"
  using byte_loop_scan [OF assms, of rl_step
      "\<lambda>as. (rl_sw_minor_digit, r\<lparr>r_http_minor := of_nat (dec_val (es @ as))\<rparr>)"]
  by (simp add: rl_step_def rl_minor_digit_def digit_facts dec_val_step)

lemma rl_scan_version:
  assumes d: "drop p mem = bytes ''HTTP/'' @ ma @ chr CHR ''.'' # mi @ ys"
    and v: "version_digits ma mi"
    and st: "st \<in> {rl_sw_check_uri_http_09, rl_sw_http_09, rl_sw_host_http_09}"
  shows "byte_loop rl_step mem p (length mem) (st, r) =
    byte_loop rl_step mem (p + 6 + length ma + length mi) (length mem)
      (rl_sw_minor_digit, r\<lparr>r_http_protocol_data := Some p, r_http_major := of_nat (dec_val ma),
         r_http_minor := of_nat (dec_val mi)\<rparr>)"
proof -
  let ?r = "r\<lparr>r_http_protocol_data := Some p\<rparr>"
  obtain m1 ma' where ma: "ma = m1 # ma'" using v by (cases ma) (auto simp: version_digits_def)
  obtain n1 mi' where mi: "mi = n1 # mi'" using v by (cases mi) (auto simp: version_digits_def)
  have m1: "49 \<le> unat m1" "unat m1 \<le> 57"
  proof -
    have "m1 \<noteq> 48" "is_digit m1" using v ma by (auto simp: version_digits_def)
    then have "unat m1 \<noteq> 48" "48 \<le> unat m1" "unat m1 \<le> 57"
      by (simp_all add: is_digit_unat word_unat_eq_iff)
    then show "49 \<le> unat m1" "unat m1 \<le> 57" by simp_all
  qed
  have n1: "48 \<le> unat n1" "unat n1 \<le> 57"
    using v mi by (auto simp: version_digits_def is_digit_unat)
  have d0: "drop p mem = 72 # 84 # 84 # 80 # 47 # m1 # ma' @ 46 # n1 # mi' @ ys"
    using d ma mi by (simp add: bytes_def)
  have d1: "drop (Suc p) mem = 84 # 84 # 80 # 47 # m1 # ma' @ 46 # n1 # mi' @ ys"
    using drop_eq_Cons [OF d0] by simp
  have d2: "drop (p + 2) mem = 84 # 80 # 47 # m1 # ma' @ 46 # n1 # mi' @ ys"
    using drop_eq_Cons [OF d1] by simp
  have d3: "drop (p + 3) mem = 80 # 47 # m1 # ma' @ 46 # n1 # mi' @ ys"
    using drop_eq_Cons [OF d2] by (simp add: eval_nat_numeral)
  have d4: "drop (p + 4) mem = 47 # m1 # ma' @ 46 # n1 # mi' @ ys"
    using drop_eq_Cons [OF d3] by (simp add: eval_nat_numeral)
  have d5: "drop (p + 5) mem = m1 # ma' @ 46 # n1 # mi' @ ys"
    using drop_eq_Cons [OF d4] by (simp add: eval_nat_numeral)
  have d6: "drop (p + 6) mem = ma' @ 46 # n1 # mi' @ ys"
    using drop_eq_Cons [OF d5] by (simp add: eval_nat_numeral)
  have d7: "drop (p + 6 + length ma') mem = 46 # n1 # mi' @ ys"
    using drop_eq_append [OF d6] by simp
  have d8: "drop (p + 7 + length ma') mem = n1 # mi' @ ys"
    using drop_eq_Cons [OF d7] by (simp add: eval_nat_numeral)
  have d9: "drop (p + 8 + length ma') mem = mi' @ ys"
    using drop_eq_Cons [OF d8] by (simp add: eval_nat_numeral)
  have "rl_case st mem p 72 r = Next (rl_sw_http_H, ?r)"
    using st by (auto simp: rl_check_uri_http_09_def rl_http_09_def rl_host_http_09_def)
  note s0 = rl_loop_Next [OF d0 this]
  note s1 = rl_loop_Next [OF d1, of rl_sw_http_H ?r "(rl_sw_http_HT, ?r)"]
  note s2 = rl_loop_Next [OF d2, of rl_sw_http_HT ?r "(rl_sw_http_HTT, ?r)"]
  note s3 = rl_loop_Next [OF d3, of rl_sw_http_HTT ?r "(rl_sw_http_HTTP, ?r)"]
  note s4 = rl_loop_Next [OF d4, of rl_sw_http_HTTP ?r "(rl_sw_first_major_digit, ?r)"]
  have w: "(ucast c - 48 :: u16) = of_nat (dec_val [c])" if "48 \<le> unat c" for c :: u8
    using that by (simp add: dec_val_def of_nat_diff)
  let ?r1 = "?r\<lparr>r_http_major := of_nat (dec_val [m1])\<rparr>"
  let ?r2 = "?r\<lparr>r_http_major := of_nat (dec_val ma)\<rparr>"
  let ?r3 = "?r2\<lparr>r_http_minor := of_nat (dec_val [n1])\<rparr>"
  have "rl_case rl_sw_first_major_digit mem (p + 5) m1 ?r = Next (rl_sw_major_digit, ?r1)"
    using m1 w [of m1] by (auto simp: rl_first_major_digit_def word_less_nat_alt)
  note s5 = rl_loop_Next [OF d5 this]
  have dg: "\<forall>c\<in>set ma'. is_digit c" "\<forall>c\<in>set mi'. is_digit c"
    using v ma mi by (auto simp: version_digits_def)
  note s6 = rl_scan_major [OF d6 dg(1), where r = ?r and es = "[m1]"]
    and s9 = rl_scan_minor [OF d9 dg(2), where r = ?r2 and es = "[n1]"]
  have "rl_case rl_sw_major_digit mem (p + 6 + length ma') 46 ?r2 = Next (rl_sw_first_minor_digit, ?r2)"
    by (simp add: rl_major_digit_def)
  note s7 = rl_loop_Next [OF d7 this]
  have "rl_case rl_sw_first_minor_digit mem (p + 7 + length ma') n1 ?r2 = Next (rl_sw_minor_digit, ?r3)"
    using n1 w [of n1] by (auto simp: rl_first_minor_digit_def word_less_nat_alt)
  note s8 = rl_loop_Next [OF d8 this]
  show ?thesis
    using s0 s1 s2 s3 s4 s5 s6 s7 s8 s9 ma mi
    by (simp add: rl_expect_def eval_nat_numeral)
qed


text \<open>The methods nginx knows, with the codes of \<open>ngx_http_request.h\<close>.\<close>

definition http_methods :: "(string \<times> u64) list" where
  "http_methods =
    [(''GET'', NGX_HTTP_GET), (''HEAD'', NGX_HTTP_HEAD), (''POST'', NGX_HTTP_POST),
     (''PUT'', NGX_HTTP_PUT), (''DELETE'', NGX_HTTP_DELETE), (''MKCOL'', NGX_HTTP_MKCOL),
     (''COPY'', NGX_HTTP_COPY), (''MOVE'', NGX_HTTP_MOVE), (''OPTIONS'', NGX_HTTP_OPTIONS),
     (''PROPFIND'', NGX_HTTP_PROPFIND), (''PROPPATCH'', NGX_HTTP_PROPPATCH),
     (''LOCK'', NGX_HTTP_LOCK), (''UNLOCK'', NGX_HTTP_UNLOCK), (''PATCH'', NGX_HTTP_PATCH),
     (''TRACE'', NGX_HTTP_TRACE)]"

lemma rl_method_code_drop:
  "p \<le> length mem \<Longrightarrow> rl_method_code mem p len = rl_method_code (drop p mem) 0 len"
  by (simp add: rl_method_code_def rl_method_switch_def ngx_strcmp_defs)

lemma http_methods_code:
  assumes "(name, code) \<in> set http_methods" and "drop p mem = bytes name @ SP # ys"
  shows "rl_method_code mem p (length name) = Some code"
proof -
  have p: "p \<le> length mem" using assms(2) by (metis append_is_Nil_conv drop_all list.distinct(1) nat_le_linear)
  show ?thesis
    unfolding rl_method_code_drop [OF p] assms(2)
    using assms(1) unfolding http_methods_def
    by (simp only: set_simps insert_iff empty_iff prod.inject simp_thms,
        elim disjE conjE; hypsubst)
       (simp_all add: bytes_def rl_method_code_def rl_method_switch_def ngx_strcmp_defs)
qed

lemma http_methods_chars:
  "(name, code) \<in> set http_methods \<Longrightarrow> (\<forall>c\<in>set (bytes name). method_char c) \<and> name \<noteq> []"
  by (auto simp: http_methods_def bytes_def method_char_def)

text \<open>A request line, written out.\<close>

definition print_request_line :: "string \<Rightarrow> u8 list \<Rightarrow> u8 list \<Rightarrow> u8 list \<Rightarrow> u8 list" where
  "print_request_line name t ma mi =
     bytes name @ SP # chr CHR ''/'' # t @ SP # bytes ''HTTP/'' @ ma @ chr CHR ''.'' # mi @ [CR, LF]"

lemma rl_frame_sels:
  assumes "rl_uri_frame r' = rl_uri_frame r"
  shows "r_method r' = r_method r" "r_uri_start r' = r_uri_start r"
    "r_request_start r' = r_request_start r" "r_method_end r' = r_method_end r"
    "r_request_end r' = r_request_end r"
proof -
  have *: "f (rl_uri_frame r') = f (rl_uri_frame r)" for f :: "ngx_http_request_t \<Rightarrow> 'b"
    using assms by simp
  show "r_method r' = r_method r" "r_uri_start r' = r_uri_start r"
    "r_request_start r' = r_request_start r" "r_method_end r' = r_method_end r"
    "r_request_end r' = r_request_end r"
    using *[of r_method] *[of r_uri_start] *[of r_request_start] *[of r_method_end]
      *[of r_request_end] by (simp_all add: rl_uri_frame_def)
qed

lemma rl_parse_loop:
  assumes d: "drop p mem = print_request_line name t ma mi @ rest"
    and n: "(name, code) \<in> set http_methods" and t: "\<forall>c\<in>set t. target_char c"
    and v: "version_digits ma mi" and r0: "r_request_end r0 = None"
    and us: "us = p + length name + 1" and ue: "ue = us + length t + 1"
    and pe: "pe = ue + 7 + length ma + length mi"
  shows "\<exists>r st. byte_loop rl_step mem p (length mem) (rl_sw_start, r0) =
      (pe + 1, Stop RL_done (st, r)) \<and>
    r_method r = code \<and> r_request_start r = Some p \<and> r_method_end r = Some (p + length name - 1) \<and>
    r_uri_start r = Some us \<and> r_uri_end r = Some ue \<and>
    r_http_protocol_data r = Some (ue + 1) \<and> r_request_end r = Some pe \<and>
    r_http_major r = of_nat (dec_val ma) \<and> r_http_minor r = of_nat (dec_val mi) \<and>
    (\<exists>st' r'. pu_list (Suc us) t (pu_sw_after_slash_in_uri, r0) = (ue, Next (st', r')) \<and> uri_flags r = uri_flags r')"
proof -
  note pr = print_request_line_def
  have d0: "drop p mem = bytes name @ SP # (47 # t @ SP # bytes ''HTTP/'' @ ma @ 46 # mi @ CR # LF # rest)"
    using d by (simp add: pr)
  let ?r1 = "r0\<lparr>r_request_start := Some p, r_method_end := Some (p + length name - 1), r_method := code\<rparr>"
  have s0: "byte_loop rl_step mem p (length mem) (rl_sw_start, r0) =
         byte_loop rl_step mem us (length mem) (rl_sw_spaces_before_uri, ?r1)"
    using rl_scan_method [OF d0 _ _ refl, of r0] http_methods_chars [OF n] http_methods_code [OF n d0] us
    by (simp add: bytes_def)
  have d1: "drop us mem = 47 # t @ SP # bytes ''HTTP/'' @ ma @ 46 # mi @ CR # LF # rest"
    using drop_eq_append [of p mem "bytes name @ [SP]"] d0 us by simp
  let ?r2 = "?r1\<lparr>r_uri_start := Some us\<rparr>"
  have "rl_case rl_sw_spaces_before_uri mem us 47 ?r1 = Next (rl_sw_after_slash_in_uri, ?r2)"
    by (simp add: rl_spaces_before_uri_def)
  note s1 = rl_loop_Next [OF d1 this]
  have d2: "drop (Suc us) mem = t @ SP # bytes ''HTTP/'' @ ma @ 46 # mi @ CR # LF # rest"
    using drop_eq_Cons [OF d1] by simp
  from rl_scan_target [OF d2 t, of pu_sw_after_slash_in_uri ?r2] ue obtain st3 r3 where
    s2: "byte_loop rl_step mem (Suc us) (length mem) (rl_sw_after_slash_in_uri, ?r2) =
        byte_loop rl_step mem ue (length mem) (pu_rl st3, r3)" and st3: "st3 \<noteq> pu_sw_start"
    and f3: "rl_uri_frame r3 = rl_uri_frame ?r2"
    and pu: "pu_list (Suc us) t (pu_sw_after_slash_in_uri, ?r2) = (ue, Next (st3, r3))" by auto
  have flags: "\<exists>st' r'. pu_list (Suc us) t (pu_sw_after_slash_in_uri, r0) = (ue, Next (st', r')) \<and>
      uri_flags r3 = uri_flags r'"
    using pu_list_flags [OF pu, of r0] by (auto simp: uri_flags_def)
  have d3: "drop ue mem = SP # bytes ''HTTP/'' @ ma @ 46 # mi @ CR # LF # rest"
    using drop_eq_append [OF d2] ue by simp
  let ?r4 = "r3\<lparr>r_uri_end := Some ue\<rparr>"
  obtain st4 where st4: "st4 \<in> {rl_sw_check_uri_http_09, rl_sw_http_09, rl_sw_host_http_09}"
      and c4: "rl_case (pu_rl st3) mem ue SP r3 = Next (st4, ?r4)"
    using st3 by (cases st3) (auto simp: rl_after_slash_in_uri_def rl_check_uri_def rl_uri_def is_usual_iff)
  note s3 = rl_loop_Next [OF d3 c4]
  have d4: "drop (Suc ue) mem = bytes ''HTTP/'' @ ma @ 46 # mi @ CR # LF # rest"
    using drop_eq_Cons [OF d3] by simp
  let ?r5 = "?r4\<lparr>r_http_protocol_data := Some (Suc ue), r_http_major := of_nat (dec_val ma),
         r_http_minor := of_nat (dec_val mi)\<rparr>"
  have s4: "byte_loop rl_step mem (Suc ue) (length mem) (st4, ?r4) =
    byte_loop rl_step mem pe (length mem) (rl_sw_minor_digit, ?r5)"
    using rl_scan_version [of "Suc ue" mem ma mi "CR # LF # rest" st4 ?r4] d4 v st4 pe
    by (simp add: add_ac)
  have d5: "drop pe mem = CR # LF # rest"
    using drop_eq_append [of "Suc ue" mem "bytes ''HTTP/'' @ ma @ 46 # mi"] d4 pe
    by (simp add: bytes_def add_ac eval_nat_numeral)
  have "rl_case rl_sw_minor_digit mem pe CR ?r5 = Next (rl_sw_almost_done, ?r5)"
    by (simp add: rl_minor_digit_def)
  note s5 = rl_loop_Next [OF d5 this]
  have d6: "drop (Suc pe) mem = LF # rest"
    using drop_eq_Cons [OF d5] by simp
  let ?r6 = "?r5\<lparr>r_request_end := Some pe\<rparr>"
  have "rl_case rl_sw_almost_done mem (Suc pe) LF ?r5 = Stop RL_done (rl_sw_almost_done, ?r6)"
    by (simp add: rl_almost_done_def)
  note s6 = rl_loop_Stop [OF d6 this]
  have "byte_loop rl_step mem p (length mem) (rl_sw_start, r0) =
      (pe + 1, Stop RL_done (rl_sw_almost_done, ?r6))"
    using s0 s1 s2 s3 s4 s5 s6 by simp
  then show ?thesis
    using rl_frame_sels [OF f3] flags
    by (intro exI [of _ ?r6] exI [of _ rl_sw_almost_done]) (simp add: uri_flags_def)
qed

subsection \<open>The two sets of comparison macros\<close>

lemma load32_pack: "load32 mem m = pack32 (mem ! m) (mem ! (m + 1)) (mem ! (m + 2)) (mem ! (m + 3))"
  by (simp add: load32_def pack32_def or.commute or.left_commute or.assoc)

lemma pack32_bytes:
  "ucast (pack32 a b c d) = a" "ucast (drop_bit 8 (pack32 a b c d)) = b"
  "ucast (drop_bit 16 (pack32 a b c d)) = c" "ucast (drop_bit 24 (pack32 a b c d)) = d"
  by (rule bit_word_eqI; auto simp: pack32_def bit_simps dest: bit_imp_le_length)+

lemma pack32_inject: "pack32 a b c d = pack32 a' b' c' d' \<longleftrightarrow> a = a' \<and> b = b' \<and> c = c' \<and> d = d'"
  by (metis pack32_bytes)

lemma load32_low: "load32 mem m AND 0xffff = pack32 a b 0 0 \<longleftrightarrow> mem ! m = a \<and> mem ! (m + 1) = b"
proof -
  have "pack32 x y z w AND 0xffff = pack32 x y 0 0" for x y z w :: u8
  proof -
    have "(0xffff::u32) = mask 16" by (simp add: mask_numeral)
    show ?thesis
      unfolding \<open>(0xffff::u32) = mask 16\<close>
      by (intro bit_word_eqI) (auto simp: pack32_def bit_simps dest: bit_imp_le_length)
  qed
  then show ?thesis by (simp add: load32_pack pack32_inject)
qed

lemma pack32_low: "pack32 a b 0 0 = push_bit 8 (ucast b) OR ucast a"
  by (simp add: pack32_def)


lemma load32_pack4:
  "load32 mem (m + 4) = pack32 (mem ! (m + 4)) (mem ! (m + 5)) (mem ! (m + 6)) (mem ! (m + 7))"
  using load32_pack [of mem "m + 4"] by (simp only: add.assoc) simp

lemma load32_low4:
  "load32 mem (m + 4) AND 0xffff = pack32 a b 0 0 \<longleftrightarrow> mem ! (m + 4) = a \<and> mem ! (m + 5) = b"
  using load32_low [of mem "m + 4"] by (simp only: add.assoc) simp

lemma ngx_strcmp_le_eq:
  "ngx_str4cmp_le mem m c0 c1 c2 c3 = ngx_str4cmp mem m c0 c1 c2 c3"
  "ngx_str5cmp_le mem m c0 c1 c2 c3 c4 = ngx_str5cmp mem m c0 c1 c2 c3 c4"
  "ngx_str6cmp_le mem m c0 c1 c2 c3 c4 c5 = ngx_str6cmp mem m c0 c1 c2 c3 c4 c5"
  "ngx_str8cmp_le mem m c0 c1 c2 c3 c4 c5 c6 c7 = ngx_str8cmp mem m c0 c1 c2 c3 c4 c5 c6 c7"
  "ngx_str9cmp_le mem m c0 c1 c2 c3 c4 c5 c6 c7 c8 = ngx_str9cmp mem m c0 c1 c2 c3 c4 c5 c6 c7 c8"
  unfolding ngx_strcmp_le_defs ngx_strcmp_defs pack32_low [symmetric] load32_low4
  by (simp_all add: load32_pack4) (auto simp: load32_pack pack32_inject)

text \<open>These three rely on a byte the caller has looked at: the space, or the \<open>'O'\<close>.\<close>

lemma ngx_strcmp_le_eq_if:
  "mem ! (m + 3) = c3 \<Longrightarrow> ngx_str3_cmp_le mem m c0 c1 c2 c3 = ngx_str3_cmp mem m c0 c1 c2 c3"
  "mem ! (m + 1) = c1 \<Longrightarrow> ngx_str3Ocmp_le mem m c0 c1 c2 c3 = ngx_str3Ocmp mem m c0 c1 c2 c3"
  "mem ! (m + 7) = c7 \<Longrightarrow>
   ngx_str7_cmp_le mem m c0 c1 c2 c3 c4 c5 c6 c7 = ngx_str7_cmp mem m c0 c1 c2 c3 c4 c5 c6 c7"
  by (auto simp: ngx_strcmp_le_defs ngx_strcmp_defs load32_pack4)
    (auto simp: load32_pack pack32_inject)

lemma rl_method_code_le_eq:
  assumes "mem ! (m + len) = SP"
  shows "rl_method_code_le mem m len = rl_method_code mem m len"
  using assms unfolding rl_method_code_le_def rl_method_code_def rl_method_switch_def ngx_strcmp_le_eq
  by (cases "len = 3"; cases "len = 4"; cases "len = 7"; simp add: ngx_strcmp_le_eq_if cong: if_cong)

subsection \<open>The properties\<close>

text \<open>
  What \<open>ngx_http_process_request_line\<close> looks at after a call: the return code, the request,
  and, where it goes on reading from it, \<open>b->pos\<close>.
\<close>

definition rl_call :: "rl_loc \<Rightarrow> ngx_buf_t \<Rightarrow> ngx_rc \<times> rl_loc \<times> ngx_buf_t" where
  "rl_call s b = (case ngx_http_parse_request_line (fst s) (snd s) b of
     (rc, st, r, b') \<Rightarrow> (rc, (st, r), b'))"

fun rl_view :: "ngx_rc \<times> rl_loc \<times> ngx_buf_t \<Rightarrow> ngx_rc \<times> ngx_http_request_t \<times> ptr option" where
  "rl_view (rc, (st, r), b) =
     (rc, r, if rc = NGX_OK \<or> rc = NGX_AGAIN then Some (buf_pos b) else None)"

text \<open>The same result, read off the point where the loop was left.\<close>

fun rl_stop_view :: "ptr \<Rightarrow> rl_exit \<Rightarrow> rl_loc \<Rightarrow> ngx_rc \<times> ngx_http_request_t \<times> ptr option" where
  "rl_stop_view p RL_done (st, r) =
     (case rl_done p r of (rc, r') \<Rightarrow> (rc, r', if rc = NGX_OK \<or> rc = NGX_AGAIN then Some (p + 1) else None))"
| "rl_stop_view p (RL_return rc) (st, r) = (rc, r, None)"

declare rl_inv.simps [simp del]

lemma rl_done_rc: "rl_done p r = (rc, r') \<Longrightarrow> rc \<noteq> NGX_AGAIN"
  by (auto simp: rl_done_def Let_def split: if_splits)

interpretation rlp: resumable_parser rl_step rl_inv rl_post rl_call id id rl_view rl_stop_view
proof
  fix b :: ngx_buf_t and s p r s'
  {
    assume "byte_loop rl_step (buf_mem b) (buf_pos b) (buf_last b) (id s) = (p, Next s')"
    then show "rl_call s b = (NGX_AGAIN, id s', b\<lparr>buf_pos := p\<rparr>)"
      by (cases s; cases s') (simp add: rl_call_def ngx_http_parse_request_line_def)
  next
    assume "byte_loop rl_step (buf_mem b) (buf_pos b) (buf_last b) (id s) = (p, Stop r s')" "rl_post p r s'"
    then show "fst (rl_call s b) \<noteq> NGX_AGAIN \<and> rl_view (rl_call s b) = rl_stop_view p r s'"
      by (cases s; cases s'; cases r)
        (auto simp: rl_call_def ngx_http_parse_request_line_def rl_post_def rl_done_rc split: prod.split)
  }
qed (auto intro: rl_view.cases)

lemma rl_inv_start: "rl_inv p (rl_sw_start, ngx_http_create_request)"
  by (simp add: rl_inv.simps ngx_http_create_request_def rl_no_uri_def)

text \<open>
  A request line is understood the same however the bytes arrive: fed to the parser in
  any pieces, the return code, the request structure and the position after it are those of
  one call on the whole input.
\<close>

theorem request_line_any_pieces:
  "run_pieces rl_call rl_view (rl_sw_start, ngx_http_create_request)
     \<lparr>buf_mem = [], buf_pos = 0, buf_last = 0\<rparr> cs =
   rl_view (rl_call (rl_sw_start, ngx_http_create_request)
     \<lparr>buf_mem = concat cs, buf_pos = 0, buf_last = length (concat cs)\<rparr>)"
  by (rule rlp.pieces_irrelevant) (simp add: rl_inv_start)

text \<open>
  C4: A request line written out with any method nginx knows, any target without
  space, CR, LF and NUL that starts with a slash, and any version number is accepted, the
  saved pointers delimit exactly the method, the target and the protocol in the buffer, the
  method code is that of the name, and the buffer is left after the line feed. The version
  is what 16-bit fields make of the two numbers.
\<close>

theorem request_line_roundtrip:
  assumes "(name, code) \<in> set http_methods" and "\<forall>c\<in>set t. target_char c"
    and "version_digits ma mi"
    and "mem = print_request_line name t ma mi @ rest"
    and "version = (dec_val ma mod 65536) * 1000 + dec_val mi mod 65536"
    and "b = \<lparr>buf_mem = mem, buf_pos = 0, buf_last = length mem\<rparr>"
  shows "\<exists>r. ngx_http_parse_request_line rl_sw_start ngx_http_create_request b =
      (if version = 9 \<and> code \<noteq> NGX_HTTP_GET then NGX_HTTP_PARSE_INVALID_09_METHOD else NGX_OK,
       rl_sw_start, r, b\<lparr>buf_pos := length (print_request_line name t ma mi)\<rparr>) \<and>
     r_method r = code \<and> r_http_version r = of_nat version \<and>
     seg mem (the (r_request_start r)) (the (r_method_end r) + 1) = bytes name \<and>
     seg mem (the (r_uri_start r)) (the (r_uri_end r)) = chr CHR ''/'' # t \<and>
     seg mem (the (r_http_protocol_data r)) (the (r_request_end r)) =
       bytes ''HTTP/'' @ ma @ chr CHR ''.'' # mi"
proof -
  note n = http_methods_chars [OF assms(1)]
  define us where "us = length name + 1"
  define ue where "ue = us + length t + 1"
  define pe where "pe = ue + 7 + length ma + length mi"
  have d: "drop 0 mem = print_request_line name t ma mi @ rest" using assms(4) by simp
  have r0: "r_request_end ngx_http_create_request = None" by (simp add: ngx_http_create_request_def)
  obtain r st where loop: "byte_loop rl_step mem 0 (length mem) (rl_sw_start, ngx_http_create_request) =
      (pe + 1, Stop RL_done (st, r))" and
    f: "r_method r = code" "r_request_start r = Some 0" "r_method_end r = Some (length name - 1)"
    "r_uri_start r = Some us" "r_uri_end r = Some ue"
    "r_http_protocol_data r = Some (ue + 1)" "r_request_end r = Some pe"
    "r_http_major r = of_nat (dec_val ma)" "r_http_minor r = of_nat (dec_val mi)"
    using rl_parse_loop [OF d assms(1-3) r0, of us ue pe] us_def ue_def pe_def by auto
  have len: "length (print_request_line name t ma mi) = pe + 2"
    by (simp add: print_request_line_def us_def ue_def pe_def)
  have w: "(ucast (of_nat n :: u16) :: u64) = of_nat (n mod 65536)" for n
    by (rule ucast_u16_of_nat)
  have ver: "version < 2 ^ 64"
  proof -
    have "dec_val ma mod 65536 < 65536" "dec_val mi mod 65536 < 65536" by simp_all
    then show ?thesis using assms(5) by simp
  qed
  have ver9: "(of_nat version :: u64) = 9 \<longleftrightarrow> version = 9"
    using ver by (simp add: word_unat_eq_iff unat_of_nat)
  have mem: "mem = (bytes name @ SP # 47 # t @ [SP]) @ (bytes ''HTTP/'' @ ma @ 46 # mi) @ CR # LF # rest"
    using assms(4) by (simp add: print_request_line_def)
  have seg1: "seg mem 0 (length name) = bytes name"
    using assms(4) by (simp add: print_request_line_def seg_def)
  have seg2: "seg mem us ue = 47 # t"
    using assms(4) by (simp add: print_request_line_def seg_def us_def ue_def)
  have seg3: "seg mem (ue + 1) pe = bytes ''HTTP/'' @ ma @ 46 # mi"
    unfolding mem by (rule seg_append_mid) (simp_all add: us_def ue_def pe_def)
  show ?thesis
    using loop f len seg1 seg2 seg3 n ver9
    by (auto simp: ngx_http_parse_request_line_def assms(6) rl_done_def Let_def w assms(5))
qed

theorem request_line_roundtrip_witness:
  "\<exists>r. ngx_http_parse_request_line rl_sw_start ngx_http_create_request
        \<lparr>buf_mem = bytes ''GET /a?b HTTP/65537.1'' @ [CR, LF], buf_pos = 0, buf_last = 23\<rparr>
      = (NGX_OK, rl_sw_start, r,
         \<lparr>buf_mem = bytes ''GET /a?b HTTP/65537.1'' @ [CR, LF], buf_pos = 23, buf_last = 23\<rparr>)
      \<and> r_http_version r = 1001"
proof -
  have m: "bytes ''GET /a?b HTTP/65537.1'' @ [CR, LF] =
      print_request_line ''GET'' (bytes ''a?b'') (bytes ''65537'') (bytes ''1'') @ []"
    by (simp add: print_request_line_def bytes_def)
  have n: "(''GET'', NGX_HTTP_GET) \<in> set http_methods" by (simp add: http_methods_def)
  have t: "\<forall>c\<in>set (bytes ''a?b''). target_char c" by (simp add: bytes_def target_char_def)
  have v: "version_digits (bytes ''65537'') (bytes ''1'')"
    by (simp add: version_digits_def bytes_def is_digit_def)
  have ver: "1001 = (dec_val (bytes ''65537'') mod 65536) * 1000 + dec_val (bytes ''1'') mod 65536"
    by (simp add: dec_val_def bytes_def)
  show ?thesis
    using request_line_roundtrip [OF n t v m ver refl]
    by (auto simp: print_request_line_def bytes_def eval_nat_numeral)
qed

text \<open>Where the parser stands when it has accepted a line.\<close>

lemma rl_parse_OK_loop:
  assumes "ngx_http_parse_request_line st r b = (NGX_OK, st', r', b')"
    and "rl_inv (buf_pos b) (st, r)" and "buf_wf b"
  obtains q st1 r1 where
    "byte_loop rl_step (buf_mem b) (buf_pos b) (buf_last b) (st, r) = (q, Stop RL_done (st1, r1))"
    and "rl_done q r1 = (NGX_OK, r')" and "b' = b\<lparr>buf_pos := q + 1\<rparr>" and "q < buf_last b"
    and "rl_post q RL_done (st1, r1)"
proof -
  obtain q x where qx: "byte_loop rl_step (buf_mem b) (buf_pos b) (buf_last b) (st, r) = (q, x)"
    by fastforce
  have post: "case x of Next s' \<Rightarrow> rl_inv q s' \<and> q = buf_last b
      | Stop e s' \<Rightarrow> rl_post q e s' \<and> buf_pos b \<le> q \<and> q < buf_last b"
    using rlp.parse_outcome [of b "(st, r)" q x] assms(2,3) qx by simp
  obtain st1 r1 where x: "x = Stop RL_done (st1, r1)"
    using assms(1) qx post
    by (auto simp: ngx_http_parse_request_line_def rl_post_def split: outcome.splits rl_exit.splits)
  show ?thesis
    by (rule that [of q st1 r1])
      (use assms(1) qx x post in \<open>auto simp: ngx_http_parse_request_line_def split: prod.splits\<close>)
qed

lemma rl_done_fields:
  assumes "rl_done q r1 = (rc, r')"
  shows "r_request_end r' = (case r_request_end r1 of None \<Rightarrow> Some q | Some e \<Rightarrow> Some e)"
    "rl_target_ptrs p r' = rl_target_ptrs p r1" "rl_plain r' = rl_plain r1"
    "rl_path_ok mem p r' = rl_path_ok mem p r1" "rl_path_end r' = rl_path_end r1"
    "r_uri_start r' = r_uri_start r1"
  using assms
  by (auto simp: rl_done_def Let_def rl_target_ptrs_def rl_uri_ptrs_def rl_method_ptrs_def
      rl_plain_def rl_path_ok_def rl_path_end_def split: if_splits option.splits)

text \<open>
  When the parser accepts a line, every pointer it leaves in the request lies inside the
  consumed part of the buffer and in the order the line has: the method, the target with its
  extension and its arguments in this order, the end of the line. So no length the caller
  computes as a difference of two of them wraps around.
\<close>

theorem request_line_pointers:
  assumes "ngx_http_parse_request_line rl_sw_start ngx_http_create_request b = (NGX_OK, st, r, b')"
    and "buf_wf b"
  shows "\<exists>rs me us ue re.
    r_request_start r = Some rs \<and> r_method_end r = Some me \<and> r_uri_start r = Some us \<and>
    r_uri_end r = Some ue \<and> r_request_end r = Some re \<and>
    rs \<le> me \<and> me < us \<and> us < ue \<and> ue \<le> re \<and> re < buf_pos b' \<and> buf_pos b' \<le> buf_last b \<and>
    (\<forall>e. r_uri_ext r = Some e \<longrightarrow> us < e \<and> e \<le> ue) \<and>
    (\<forall>a. r_args_start r = Some a \<longrightarrow> us < a \<and> a \<le> ue \<and>
       (\<forall>e. r_uri_ext r = Some e \<longrightarrow> e \<le> a - 1))"
proof -
  note inv = rl_inv_start [of "buf_pos b"]
  from rl_parse_OK_loop [OF assms(1) inv assms(2)] obtain q st1 r1
    where d: "rl_done q r1 = (NGX_OK, r)" and b': "b' = b\<lparr>buf_pos := q + 1\<rparr>" "q < buf_last b"
      and post: "rl_post q RL_done (st1, r1)" by metis
  obtain re where re: "r_request_end r = Some re" "re \<le> q" "rl_target_ptrs re r"
    using post rl_done_fields [OF d] by (auto simp: rl_post_def split: option.splits)
  then obtain ue where ue: "r_uri_end r = Some ue" "rl_uri_ptrs ue r" "ue \<le> re"
    by (auto simp: rl_target_ptrs_def)
  then obtain us where us: "r_uri_start r = Some us" "rl_method_ptrs us r" "us < ue"
    "\<forall>e. r_uri_ext r = Some e \<longrightarrow> us < e \<and> e \<le> ue"
    "\<forall>a. r_args_start r = Some a \<longrightarrow> us < a \<and> a \<le> ue \<and> (\<forall>e. r_uri_ext r = Some e \<longrightarrow> e < a)"
    by (auto simp: rl_uri_ptrs_def)
  from us(2) obtain rs me where "r_request_start r = Some rs" "r_method_end r = Some me"
      "rs \<le> me" "me < us" by (auto simp: rl_method_ptrs_def)
  with re ue us b' show ?thesis by fastforce
qed

theorem request_line_pointers_witness:
  "\<exists>st r b' us ue. ngx_http_parse_request_line rl_sw_start ngx_http_create_request
      \<lparr>buf_mem = bytes ''GET /a'' @ [CR, LF], buf_pos = 0, buf_last = 8\<rparr> = (NGX_OK, st, r, b') \<and>
    r_uri_start r = Some us \<and> r_uri_end r = Some ue \<and> us < ue"
proof -
  let ?b = "\<lparr>buf_mem = bytes ''GET /a'' @ [CR, LF], buf_pos = 0, buf_last = 8\<rparr>"
  have wf: "buf_wf ?b" by (simp add: buf_wf_def)
  have "fst (ngx_http_parse_request_line rl_sw_start ngx_http_create_request ?b) = NGX_OK"
    by (simp add: bytes_def ngx_http_parse_request_line_def ngx_http_create_request_def
        byte_loop.simps rl_step_def step_simps is_usual_iff ngx_strcmp_defs rl_method_code_def
        rl_method_switch_def is_alpha20_def lower20_def rl_done_def method_codes)
  then obtain st r b' where p: "ngx_http_parse_request_line rl_sw_start ngx_http_create_request ?b
      = (NGX_OK, st, r, b')"
    by (metis prod.collapse)
  from request_line_pointers [OF p wf] p show ?thesis by blast
qed

text \<open>
  C36: A target that the parser leaves without \<open>complex_uri\<close> and \<open>quoted_uri\<close> needs no
  normalisation, which is why \<open>ngx_http_process_request_uri\<close> uses the bytes of the buffer
  directly: its path (up to the arguments, if there are any) starts with a slash, contains no
  escape, fragment or NUL, and no slash in it is followed by a slash or a dot.
\<close>

theorem request_line_plain_path:
  assumes "ngx_http_parse_request_line rl_sw_start ngx_http_create_request b = (NGX_OK, st, r, b')"
    and "buf_wf b" and "\<not> r_complex_uri r" and "\<not> r_quoted_uri r"
  shows "path_clean (seg (buf_mem b) (the (r_uri_start r))
           (case r_args_start r of Some a \<Rightarrow> a - 1 | None \<Rightarrow> the (r_uri_end r)))"
proof -
  note inv = rl_inv_start [of "buf_pos b"]
  from rl_parse_OK_loop [OF assms(1) inv assms(2)] obtain q st1 r1
    where loop: "byte_loop rl_step (buf_mem b) (buf_pos b) (buf_last b)
        (rl_sw_start, ngx_http_create_request) = (q, Stop RL_done (st1, r1))"
      and d: "rl_done q r1 = (NGX_OK, r)" by metis
  have "rl_clean (buf_mem b) (buf_pos b) (rl_sw_start, ngx_http_create_request)"
    using inv by simp
  from rlc.loop_inv [OF this _ _ loop] assms(2)
  have "rl_clean_post (buf_mem b) q RL_done (st1, r1)" by (simp add: buf_wf_def)
  moreover have "rl_plain r" using assms(3,4) by (simp add: rl_plain_def)
  ultimately show ?thesis
    using rl_done_fields [OF d]
    by (simp add: rl_clean_post_def rl_path_ok_def flip: rl_path_end_def)
qed

theorem request_line_plain_path_witness:
  "\<exists>st r b'. ngx_http_parse_request_line rl_sw_start ngx_http_create_request
      \<lparr>buf_mem = bytes ''GET /a'' @ [CR, LF], buf_pos = 0, buf_last = 8\<rparr> = (NGX_OK, st, r, b') \<and>
    path_clean (seg (bytes ''GET /a'' @ [CR, LF]) (the (r_uri_start r))
      (case r_args_start r of Some a \<Rightarrow> a - 1 | None \<Rightarrow> the (r_uri_end r)))"
proof -
  let ?b = "\<lparr>buf_mem = bytes ''GET /a'' @ [CR, LF], buf_pos = 0, buf_last = 8\<rparr>"
  have wf: "buf_wf ?b" by (simp add: buf_wf_def)
  have "case ngx_http_parse_request_line rl_sw_start ngx_http_create_request ?b of
      (rc, st, r, b') \<Rightarrow> rc = NGX_OK \<and> \<not> r_complex_uri r \<and> \<not> r_quoted_uri r"
    by (simp add: bytes_def ngx_http_parse_request_line_def ngx_http_create_request_def
        byte_loop.simps rl_step_def step_simps is_usual_iff ngx_strcmp_defs rl_method_code_def
        rl_method_switch_def is_alpha20_def lower20_def rl_done_def method_codes)
  then obtain st r b' where p: "ngx_http_parse_request_line rl_sw_start ngx_http_create_request ?b
      = (NGX_OK, st, r, b')" "\<not> r_complex_uri r" "\<not> r_quoted_uri r"
    by (auto split: prod.splits)
  from request_line_plain_path [OF p(1) wf p(2,3)] p(1) show ?thesis by auto
qed

text \<open>
  The word-wise comparison macros of little endian platforms recognise the same methods
  as the byte-wise ones, wherever the code uses them (the byte after the method is the space
  that ended it), although they load bytes they do not compare.
\<close>

theorem method_macros_equivalent:
  assumes "mem ! (m + len) = SP"
  shows "rl_method_code_le mem m len = rl_method_code mem m len"
  using assms by (rule rl_method_code_le_eq)

theorem method_macros_equivalent_witness:
  "rl_method_code_le (bytes ''GET '') 0 3 = Some NGX_HTTP_GET"
proof -
  have "bytes ''GET '' ! (0 + 3) = SP" by (simp add: bytes_def)
  from method_macros_equivalent [OF this] show ?thesis
    by (simp add: rl_method_code_def rl_method_switch_def ngx_strcmp_defs bytes_def)
qed

text \<open>
  \<open>ngx_http_parse_uri\<close>, which is used where a URI does not come from a request line, agrees
  with the request line parser: for any target without space, CR, LF and NUL it accepts the
  target that the line contains and sets the same flags, extension and start of the arguments.
\<close>

theorem parse_uri_agrees:
  assumes "(name, code) \<in> set http_methods" and "\<forall>c\<in>set t. target_char c"
    and "version_digits ma mi"
    and "mem = print_request_line name t ma mi @ rest"
    and "ngx_http_parse_request_line rl_sw_start ngx_http_create_request
      \<lparr>buf_mem = mem, buf_pos = 0, buf_last = length mem\<rparr> = (rc, st, r, b)"
    and "ngx_http_parse_uri mem
      (ngx_http_create_request\<lparr>r_uri_start := r_uri_start r, r_uri_end := r_uri_end r\<rparr>) = (rc', r')"
  shows "rc' = NGX_OK \<and> uri_flags r' = uri_flags r"
proof -
  define us where "us = length name + 1"
  define ue where "ue = us + length t + 1"
  define pe where "pe = ue + 7 + length ma + length mi"
  have d: "drop 0 mem = print_request_line name t ma mi @ rest" using assms(4) by simp
  have r0: "r_request_end ngx_http_create_request = None" by (simp add: ngx_http_create_request_def)
  obtain r1 st1 st' r2 where loop: "byte_loop rl_step mem 0 (length mem) (rl_sw_start, ngx_http_create_request) =
      (pe + 1, Stop RL_done (st1, r1))" and f: "r_uri_start r1 = Some us" "r_uri_end r1 = Some ue"
    and pu: "pu_list (Suc us) t (pu_sw_after_slash_in_uri, ngx_http_create_request) = (ue, Next (st', r2))"
      "uri_flags r1 = uri_flags r2"
    using rl_parse_loop [OF d assms(1-3) r0, of us ue pe] us_def ue_def pe_def by auto
  have r: "uri_flags r = uri_flags r1" "r_uri_start r = Some us" "r_uri_end r = Some ue"
    using assms(5) loop f
    by (auto simp: ngx_http_parse_request_line_def rl_done_def Let_def uri_flags_def split: if_splits)
  let ?u = "ngx_http_create_request\<lparr>r_uri_start := Some us, r_uri_end := Some ue\<rparr>"
  have "uri_flags ngx_http_create_request = uri_flags ?u" by (simp add: uri_flags_def)
  from pu_list_flags [OF pu(1) this] obtain r3 where
    r3: "pu_list (Suc us) t (pu_sw_after_slash_in_uri, ?u) = (ue, Next (st', r3))" "uri_flags r2 = uri_flags r3" by auto
  have "mem = (bytes name @ [SP]) @ (47 # t) @ (SP # bytes ''HTTP/'' @ ma @ 46 # mi @ [CR, LF] @ rest)"
    using assms(4) by (simp add: print_request_line_def)
  then have "seg mem us ue = 47 # t" "us \<le> ue" "ue \<le> length mem"
    using seg_append_mid [of us "bytes name @ [SP]" ue "47 # t"] by (simp_all add: us_def ue_def)
  then have "byte_loop pu_step mem us ue (pu_sw_start, ?u) = (ue, Next (st', r3))"
    using r3(1) by (simp add: byte_loop_list_lim [where f = "\<lambda>p ch s. pu_case (fst s) p ch (snd s)"] pu_step_def pu_start_def)
  with assms(6) r r3(2) pu(2) show ?thesis
    by (simp add: ngx_http_parse_uri_def)
qed

theorem parse_uri_agrees_witness:
  "\<exists>rc st r b rc' r'. ngx_http_parse_request_line rl_sw_start ngx_http_create_request
      \<lparr>buf_mem = bytes ''GET /a.b?c HTTP/1.1'' @ [CR, LF], buf_pos = 0, buf_last = 21\<rparr> = (rc, st, r, b) \<and>
    ngx_http_parse_uri (bytes ''GET /a.b?c HTTP/1.1'' @ [CR, LF])
      (ngx_http_create_request\<lparr>r_uri_start := r_uri_start r, r_uri_end := r_uri_end r\<rparr>) = (rc', r') \<and>
    rc' = NGX_OK \<and> uri_flags r' = uri_flags r"
proof -
  let ?mem = "bytes ''GET /a.b?c HTTP/1.1'' @ [CR, LF]"
  have m: "?mem = print_request_line ''GET'' (bytes ''a.b?c'') (bytes ''1'') (bytes ''1'') @ []"
    by (simp add: print_request_line_def bytes_def)
  have n: "(''GET'', NGX_HTTP_GET) \<in> set http_methods" by (simp add: http_methods_def)
  have t: "\<forall>c\<in>set (bytes ''a.b?c''). target_char c" by (simp add: bytes_def target_char_def)
  have v: "version_digits (bytes ''1'') (bytes ''1'')"
    by (simp add: version_digits_def bytes_def is_digit_def)
  have len: "length ?mem = 21" by simp
  obtain rc st r b where p: "ngx_http_parse_request_line rl_sw_start ngx_http_create_request
      \<lparr>buf_mem = ?mem, buf_pos = 0, buf_last = length ?mem\<rparr> = (rc, st, r, b)" by (metis prod_cases4)
  obtain rc' r' where u: "ngx_http_parse_uri ?mem
      (ngx_http_create_request\<lparr>r_uri_start := r_uri_start r, r_uri_end := r_uri_end r\<rparr>) = (rc', r')" by fastforce
  from parse_uri_agrees [OF n t v m p u] p u show ?thesis unfolding len by blast
qed

end
