(* ===== verification/Http_Header_Line.thy ===== *)
theory Http_Header_Line
  imports Http_Types Buffer_Feed
begin

text \<open>
  \<open>ngx_http_parse_header_line\<close> (\<open>src/http/ngx_http_parse.c\<close>): one header line
  "Name: value CRLF". While the name is read, its lower-case form is stored in
  \<open>r->lowcase_header\<close> (a ring of 32 bytes) and hashed. One definition per \<open>case\<close>.
\<close>

datatype hl_state =
    hl_sw_start | hl_sw_name | hl_sw_space_before_value | hl_sw_value | hl_sw_space_after_value
  | hl_sw_ignore_line | hl_sw_almost_done | hl_sw_header_almost_done

datatype hl_exit = HL_done | HL_header_done | HL_invalid  \<comment> \<open>\<open>return NGX_HTTP_PARSE_INVALID_HEADER\<close>\<close>

text \<open>The locals of the function: \<open>hash\<close> and \<open>i\<close>, beside \<open>state\<close> and the request.\<close>

record hl_locals =
  hl_hash :: u64
  hl_i :: nat
  hl_r :: ngx_http_request_t

type_synonym hl_loc = "hl_state \<times> hl_locals"
type_synonym hl_outcome = "(hl_loc, hl_exit) outcome"

text \<open>
  \<open>lowcase[]\<close>: the lower-case letter for a letter, a digit or a dash for itself, and 0 for
  every other byte.
\<close>

definition lowcase :: "u8 list" where
  "lowcase =
    [0, 0, 0, 0, 0, 0, 0, 0, 0, 0, 0, 0, 0, 0, 0, 0, 0, 0, 0, 0, 0, 0, 0, 0, 0, 0, 0, 0, 0,
     0, 0, 0, 0, 0, 0, 0, 0, 0, 0, 0, 0, 0, 0, 0, 0, 45, 0, 0, 48, 49, 50, 51, 52, 53, 54,
     55, 56, 57, 0, 0, 0, 0, 0, 0, 0, 97, 98, 99, 100, 101, 102, 103, 104, 105, 106, 107,
     108, 109, 110, 111, 112, 113, 114, 115, 116, 117, 118, 119, 120, 121, 122, 0, 0, 0, 0,
     0, 0, 97, 98, 99, 100, 101, 102, 103, 104, 105, 106, 107, 108, 109, 110, 111, 112, 113,
     114, 115, 116, 117, 118, 119, 120, 121, 122, 0, 0, 0, 0, 0, 0, 0, 0, 0, 0, 0, 0, 0, 0,
     0, 0, 0, 0, 0, 0, 0, 0, 0, 0, 0, 0, 0, 0, 0, 0, 0, 0, 0, 0, 0, 0, 0, 0, 0, 0, 0, 0, 0,
     0, 0, 0, 0, 0, 0, 0, 0, 0, 0, 0, 0, 0, 0, 0, 0, 0, 0, 0, 0, 0, 0, 0, 0, 0, 0, 0, 0, 0,
     0, 0, 0, 0, 0, 0, 0, 0, 0, 0, 0, 0, 0, 0, 0, 0, 0, 0, 0, 0, 0, 0, 0, 0, 0, 0, 0, 0, 0,
     0, 0, 0, 0, 0, 0, 0, 0, 0, 0, 0, 0, 0, 0, 0, 0, 0, 0, 0, 0, 0, 0, 0, 0, 0, 0, 0, 0, 0,
     0, 0, 0]"

text \<open>
  Two functions of nginx's core, which is not part of this tree, are parameters: the hash step
  \<open>ngx_hash(key, c)\<close>, and \<open>ngx_strncmp(s1, s2, n)\<close>, of which the first string is given as the
  bytes it may read.
\<close>

type_synonym hash_fun = "u64 \<Rightarrow> u8 \<Rightarrow> u64"
type_synonym strncmp_fun = "u8 list \<Rightarrow> u8 list \<Rightarrow> nat \<Rightarrow> int"

text \<open>\<open>hash = ngx_hash(0, c); r->lowcase_header[0] = c; i = 1\<close>\<close>

definition hl_first_char :: "hash_fun \<Rightarrow> u8 \<Rightarrow> hl_locals \<Rightarrow> hl_locals" where
  "hl_first_char ngx_hash c l =
     l\<lparr>hl_hash := ngx_hash 0 c, hl_i := 1,
       hl_r := (hl_r l)\<lparr>r_lowcase_header := (r_lowcase_header (hl_r l))[0 := c]\<rparr>\<rparr>"

text \<open>\<open>hash = ngx_hash(hash, c); r->lowcase_header[i++] = c; i &= (NGX_HTTP_LC_HEADER_LEN - 1)\<close>\<close>

definition hl_next_char :: "hash_fun \<Rightarrow> u8 \<Rightarrow> hl_locals \<Rightarrow> hl_locals" where
  "hl_next_char ngx_hash c l =
     l\<lparr>hl_hash := ngx_hash (hl_hash l) c,
       hl_i := (hl_i l + 1) AND (NGX_HTTP_LC_HEADER_LEN - 1),
       hl_r := (hl_r l)\<lparr>r_lowcase_header := (r_lowcase_header (hl_r l))[hl_i l := c]\<rparr>\<rparr>"

abbreviation hl_upd :: "(ngx_http_request_t \<Rightarrow> ngx_http_request_t) \<Rightarrow> hl_locals \<Rightarrow> hl_locals" where
  "hl_upd f l \<equiv> l\<lparr>hl_r := f (hl_r l)\<rparr>"

subsection \<open>The cases of the switch\<close>

definition hl_start :: "hash_fun \<Rightarrow> bool \<Rightarrow> ptr \<Rightarrow> u8 \<Rightarrow> hl_locals \<Rightarrow> hl_outcome" where
  "hl_start ngx_hash allow_underscores p ch l =
    (let l = hl_upd (\<lambda>r. r\<lparr>r_header_name_start := Some p, r_invalid_header := False\<rparr>) l;
         c = lowcase ! unat ch in
     if ch = CR then Next (hl_sw_header_almost_done, hl_upd (\<lambda>r. r\<lparr>r_header_end := Some p\<rparr>) l)
     else if ch = LF
     then Stop HL_header_done (hl_sw_start, hl_upd (\<lambda>r. r\<lparr>r_header_end := Some p\<rparr>) l)
     else if c \<noteq> 0 then Next (hl_sw_name, hl_first_char ngx_hash c l)
     else if ch = chr CHR ''_'' then
       (if allow_underscores then Next (hl_sw_name, hl_first_char ngx_hash ch l)
        else Next (hl_sw_name, hl_upd (\<lambda>r. r\<lparr>r_invalid_header := True\<rparr>) l))
     else if ch = NUL then Stop HL_invalid (hl_sw_name, l)
     else Next (hl_sw_name, hl_upd (\<lambda>r. r\<lparr>r_invalid_header := True\<rparr>) l))"

definition hl_name ::
  "hash_fun \<Rightarrow> strncmp_fun \<Rightarrow> bool \<Rightarrow> memory \<Rightarrow> ptr \<Rightarrow> u8 \<Rightarrow> hl_locals \<Rightarrow> hl_outcome" where
  "hl_name ngx_hash ngx_strncmp allow_underscores mem p ch l =
    (let c = lowcase ! unat ch; ns = the (r_header_name_start (hl_r l)) in
     if c \<noteq> 0 then Next (hl_sw_name, hl_next_char ngx_hash c l)
     else if ch = chr CHR ''_'' then
       (if allow_underscores then Next (hl_sw_name, hl_next_char ngx_hash ch l)
        else Next (hl_sw_name, hl_upd (\<lambda>r. r\<lparr>r_invalid_header := True\<rparr>) l))
     else if ch = chr CHR '':''
     then Next (hl_sw_space_before_value, hl_upd (\<lambda>r. r\<lparr>r_header_name_end := Some p\<rparr>) l)
     else if ch = CR
     then Next (hl_sw_almost_done, hl_upd (\<lambda>r. r\<lparr>r_header_name_end := Some p,
            r_header_start := Some p, r_header_end := Some p\<rparr>) l)
     else if ch = LF
     then Stop HL_done (hl_sw_name, hl_upd (\<lambda>r. r\<lparr>r_header_name_end := Some p,
            r_header_start := Some p, r_header_end := Some p\<rparr>) l)
     else if ch = chr CHR ''/'' \<and> r_upstream (hl_r l) \<and> p - ns = 4
       \<and> ngx_strncmp (take 4 (drop ns mem)) (bytes ''HTTP'') 4 = 0
     then Next (hl_sw_ignore_line, l)
     else if ch = NUL then Stop HL_invalid (hl_sw_name, l)
     else Next (hl_sw_name, hl_upd (\<lambda>r. r\<lparr>r_invalid_header := True\<rparr>) l))"

definition hl_space_before_value :: "ptr \<Rightarrow> u8 \<Rightarrow> hl_locals \<Rightarrow> hl_outcome" where
  "hl_space_before_value p ch l =
    (if ch = SP then Next (hl_sw_space_before_value, l)
     else if ch = CR
     then Next (hl_sw_almost_done,
            hl_upd (\<lambda>r. r\<lparr>r_header_start := Some p, r_header_end := Some p\<rparr>) l)
     else if ch = LF
     then Stop HL_done (hl_sw_space_before_value,
            hl_upd (\<lambda>r. r\<lparr>r_header_start := Some p, r_header_end := Some p\<rparr>) l)
     else if ch = NUL then Stop HL_invalid (hl_sw_space_before_value, l)
     else Next (hl_sw_value, hl_upd (\<lambda>r. r\<lparr>r_header_start := Some p\<rparr>) l))"

definition hl_value :: "ptr \<Rightarrow> u8 \<Rightarrow> hl_locals \<Rightarrow> hl_outcome" where
  "hl_value p ch l =
    (if ch = SP then Next (hl_sw_space_after_value, hl_upd (\<lambda>r. r\<lparr>r_header_end := Some p\<rparr>) l)
     else if ch = CR then Next (hl_sw_almost_done, hl_upd (\<lambda>r. r\<lparr>r_header_end := Some p\<rparr>) l)
     else if ch = LF then Stop HL_done (hl_sw_value, hl_upd (\<lambda>r. r\<lparr>r_header_end := Some p\<rparr>) l)
     else if ch = NUL then Stop HL_invalid (hl_sw_value, l)
     else Next (hl_sw_value, l))"

definition hl_space_after_value :: "u8 \<Rightarrow> hl_locals \<Rightarrow> hl_outcome" where
  "hl_space_after_value ch l =
    (if ch = SP then Next (hl_sw_space_after_value, l)
     else if ch = CR then Next (hl_sw_almost_done, l)
     else if ch = LF then Stop HL_done (hl_sw_space_after_value, l)
     else if ch = NUL then Stop HL_invalid (hl_sw_space_after_value, l)
     else Next (hl_sw_value, l))"

definition hl_ignore_line :: "u8 \<Rightarrow> hl_locals \<Rightarrow> hl_outcome" where
  "hl_ignore_line ch l = (if ch = LF then Next (hl_sw_start, l) else Next (hl_sw_ignore_line, l))"

definition hl_almost_done :: "u8 \<Rightarrow> hl_locals \<Rightarrow> hl_outcome" where
  "hl_almost_done ch l =
    (if ch = LF then Stop HL_done (hl_sw_almost_done, l)
     else if ch = CR then Next (hl_sw_almost_done, l)
     else Stop HL_invalid (hl_sw_almost_done, l))"

definition hl_header_almost_done :: "u8 \<Rightarrow> hl_locals \<Rightarrow> hl_outcome" where
  "hl_header_almost_done ch l =
    (if ch = LF then Stop HL_header_done (hl_sw_header_almost_done, l)
     else Stop HL_invalid (hl_sw_header_almost_done, l))"

subsection \<open>The step and the function\<close>

fun hl_case ::
  "hash_fun \<Rightarrow> strncmp_fun \<Rightarrow> bool \<Rightarrow> hl_state \<Rightarrow> memory \<Rightarrow> ptr \<Rightarrow> u8 \<Rightarrow> hl_locals \<Rightarrow> hl_outcome" where
  "hl_case h cmp au hl_sw_start mem p ch l = hl_start h au p ch l"
| "hl_case h cmp au hl_sw_name mem p ch l = hl_name h cmp au mem p ch l"
| "hl_case h cmp au hl_sw_space_before_value mem p ch l = hl_space_before_value p ch l"
| "hl_case h cmp au hl_sw_value mem p ch l = hl_value p ch l"
| "hl_case h cmp au hl_sw_space_after_value mem p ch l = hl_space_after_value ch l"
| "hl_case h cmp au hl_sw_ignore_line mem p ch l = hl_ignore_line ch l"
| "hl_case h cmp au hl_sw_almost_done mem p ch l = hl_almost_done ch l"
| "hl_case h cmp au hl_sw_header_almost_done mem p ch l = hl_header_almost_done ch l"

definition hl_step :: "hash_fun \<Rightarrow> strncmp_fun \<Rightarrow> bool \<Rightarrow> memory \<Rightarrow> ptr \<Rightarrow> hl_loc \<Rightarrow> hl_outcome" where
  "hl_step h cmp au mem p s = hl_case h cmp au (fst s) mem p (mem ! p) (snd s)"

text \<open>\<open>r->header_hash = hash; r->lowcase_index = i\<close>\<close>

definition hl_save :: "hl_locals \<Rightarrow> ngx_http_request_t" where
  "hl_save l = (hl_r l)\<lparr>r_header_hash := hl_hash l, r_lowcase_index := hl_i l\<rparr>"

definition hl_load :: "ngx_http_request_t \<Rightarrow> hl_locals" where
  "hl_load r = \<lparr>hl_hash = r_header_hash r, hl_i = r_lowcase_index r, hl_r = r\<rparr>"

definition ngx_http_parse_header_line ::
  "hash_fun \<Rightarrow> strncmp_fun \<Rightarrow> hl_state \<Rightarrow> ngx_http_request_t \<Rightarrow> ngx_buf_t \<Rightarrow> bool
   \<Rightarrow> ngx_rc \<times> hl_state \<times> ngx_http_request_t \<times> ngx_buf_t" where
  "ngx_http_parse_header_line h cmp st r b allow_underscores =
    (case byte_loop (hl_step h cmp allow_underscores) (buf_mem b) (buf_pos b) (buf_last b)
            (st, hl_load r) of
       (p, Next (st', l)) \<Rightarrow> (NGX_AGAIN, st', hl_save l, b\<lparr>buf_pos := p\<rparr>)
     | (p, Stop HL_done (st', l)) \<Rightarrow> (NGX_OK, hl_sw_start, hl_save l, b\<lparr>buf_pos := p + 1\<rparr>)
     | (p, Stop HL_header_done (st', l)) \<Rightarrow>
         (NGX_HTTP_PARSE_HEADER_DONE, hl_sw_start, hl_r l, b\<lparr>buf_pos := p + 1\<rparr>)
     | (p, Stop HL_invalid (st', l)) \<Rightarrow> (NGX_HTTP_PARSE_INVALID_HEADER, st, hl_r l, b))"

lemmas [step_simps] =
  hl_start_def hl_name_def hl_space_before_value_def hl_value_def hl_space_after_value_def
  hl_ignore_line_def hl_almost_done_def hl_header_almost_done_def

subsection \<open>The contract of the loop\<close>

text \<open>
  The array \<open>lowcase_header\<close> is written inside its bounds, and the saved pointers are in order
  and below the current byte.
\<close>

definition hl_array :: "hl_locals \<Rightarrow> bool" where
  "hl_array l \<longleftrightarrow> length (r_lowcase_header (hl_r l)) = NGX_HTTP_LC_HEADER_LEN \<and> hl_i l < NGX_HTTP_LC_HEADER_LEN"

definition hl_ptrs :: "ptr \<Rightarrow> ngx_http_request_t \<Rightarrow> bool" where
  "hl_ptrs p r \<longleftrightarrow> (\<exists>ns ne hs he. r_header_name_start r = Some ns \<and> r_header_name_end r = Some ne \<and>
     r_header_start r = Some hs \<and> r_header_end r = Some he \<and> ns < ne \<and> ne \<le> hs \<and> hs \<le> he \<and> he \<le> p)"

fun hl_inv :: "ptr \<Rightarrow> hl_loc \<Rightarrow> bool" where
  "hl_inv p (st, l) \<longleftrightarrow> hl_array l \<and>
    (if st = hl_sw_start \<or> st = hl_sw_ignore_line then True
     else if st = hl_sw_name then (\<exists>ns. r_header_name_start (hl_r l) = Some ns \<and> ns < p)
     else if st = hl_sw_space_before_value
     then (\<exists>ns ne. r_header_name_start (hl_r l) = Some ns \<and> r_header_name_end (hl_r l) = Some ne \<and>
             ns < ne \<and> ne < p)
     else if st = hl_sw_value
     then (\<exists>ns ne hs. r_header_name_start (hl_r l) = Some ns \<and> r_header_name_end (hl_r l) = Some ne \<and>
             r_header_start (hl_r l) = Some hs \<and> ns < ne \<and> ne \<le> hs \<and> hs < p)
     else if st = hl_sw_header_almost_done
     then (\<exists>he. r_header_end (hl_r l) = Some he \<and> he < p)
     else 0 < p \<and> hl_ptrs (p - 1) (hl_r l))"

definition hl_post :: "ptr \<Rightarrow> hl_exit \<Rightarrow> hl_loc \<Rightarrow> bool" where
  "hl_post p x s \<longleftrightarrow> hl_array (snd s) \<and> (x = HL_done \<longrightarrow> hl_ptrs p (hl_r (snd s)))"

lemma hl_step_local:
  assumes "hl_inv p s" and "p < length mem"
  shows "hl_step h cmp au (mem @ rest) p s = hl_step h cmp au mem p s"
proof -
  obtain st l where s: "s = (st, l)" by (cases s)
  show ?thesis
  proof (cases "st = hl_sw_name")
    case True
    with assms s obtain ns where ns: "r_header_name_start (hl_r l) = Some ns" "ns < p" by auto
    have "take 4 (drop ns (mem @ rest)) = take 4 (drop ns mem)" if "p - ns = 4"
      using that assms(2) ns(2) by simp
    then have eq: "p - ns = 4 \<and> cmp (take 4 (drop ns (mem @ rest))) x 4 = 0 \<longleftrightarrow>
        p - ns = 4 \<and> cmp (take 4 (drop ns mem)) x 4 = 0" for x
      by metis
    have "hl_name h cmp au (mem @ rest) p ch l = hl_name h cmp au mem p ch l" for ch
      unfolding hl_name_def Let_def ns(1) option.sel eq by (rule refl)
    with True assms(2) s show ?thesis by (simp add: hl_step_def nth_append)
  next
    case False
    with s assms(2) show ?thesis
      by (cases st) (simp_all add: hl_step_def nth_append)
  qed
qed

lemma and_31: "(n::nat) AND 31 = n mod 32"
proof -
  have "(31::nat) = mask 5" by (simp add: mask_nat_def)
  then show ?thesis by (simp only: take_bit_eq_mask [symmetric]) (simp add: take_bit_eq_mod)
qed

lemmas hl_inv_defs = hl_ptrs_def hl_array_def hl_first_char_def hl_next_char_def
  NGX_HTTP_LC_HEADER_LEN_def and_31

lemma hl_step_inv:
  assumes "hl_inv p s" and "hl_step h cmp au mem p s = Next s'"
  shows "hl_inv (Suc p) s'"
proof -
  obtain st l where s: "s = (st, l)" by (cases s)
  show ?thesis
    using assms unfolding s
    by (cases st)
      (simp_all add: hl_step_def step_simps Let_def split: if_splits,
       auto simp: hl_inv_defs)
qed

lemma hl_step_post:
  assumes "hl_inv p s" and "hl_step h cmp au mem p s = Stop x s'"
  shows "hl_post p x s'"
proof -
  obtain st l where s: "s = (st, l)" by (cases s)
  show ?thesis
    using assms unfolding s hl_post_def
    by (cases st)
      (simp_all add: hl_step_def step_simps Let_def split: if_splits,
       auto simp: hl_inv_defs)
qed

interpretation hl: byte_parser "hl_step h cmp au" hl_inv hl_post for h cmp au
  by unfold_locales (auto intro: hl_step_local hl_step_inv hl_step_post)


declare hl_inv.simps [simp del]

text \<open>
  Between two calls \<open>hash\<close> and \<open>i\<close> live in the request. What the callers look at: the request
  after a header line or when more input is needed; after the last line and after an error
  \<open>header_hash\<close> and \<open>lowcase_index\<close> are left over and not used, nor is, after an error, the
  position.
\<close>

definition hl_norm :: "hl_loc \<Rightarrow> hl_loc" where
  "hl_norm s = (fst s, hl_load (hl_save (snd s)))"

definition hl_call :: "hash_fun \<Rightarrow> strncmp_fun \<Rightarrow> bool \<Rightarrow> hl_state \<times> ngx_http_request_t \<Rightarrow> ngx_buf_t
    \<Rightarrow> ngx_rc \<times> (hl_state \<times> ngx_http_request_t) \<times> ngx_buf_t" where
  "hl_call h cmp au s b = (case ngx_http_parse_header_line h cmp (fst s) (snd s) b au of
     (rc, st, r, b') \<Rightarrow> (rc, (st, r), b'))"

definition hl_forget :: "ngx_http_request_t \<Rightarrow> ngx_http_request_t" where
  "hl_forget r = r\<lparr>r_header_hash := 0, r_lowcase_index := 0\<rparr>"

fun hl_view :: "ngx_rc \<times> (hl_state \<times> ngx_http_request_t) \<times> ngx_buf_t
    \<Rightarrow> ngx_rc \<times> ngx_http_request_t \<times> (hl_state \<times> ptr) option" where
  "hl_view (rc, (st, r), b) =
    (rc, if rc = NGX_OK \<or> rc = NGX_AGAIN then r else hl_forget r,
     if rc = NGX_HTTP_PARSE_INVALID_HEADER then None else Some (st, buf_pos b))"

fun hl_stop_view :: "ptr \<Rightarrow> hl_exit \<Rightarrow> hl_loc
    \<Rightarrow> ngx_rc \<times> ngx_http_request_t \<times> (hl_state \<times> ptr) option" where
  "hl_stop_view p HL_done (st, l) = (NGX_OK, hl_save l, Some (hl_sw_start, p + 1))"
| "hl_stop_view p HL_header_done (st, l) =
     (NGX_HTTP_PARSE_HEADER_DONE, hl_forget (hl_r l), Some (hl_sw_start, p + 1))"
| "hl_stop_view p HL_invalid (st, l) = (NGX_HTTP_PARSE_INVALID_HEADER, hl_forget (hl_r l), None)"

lemma hl_norm_step:
  "norm_step hl_norm (hl_step h cmp au) mem p (hl_norm s) = norm_step hl_norm (hl_step h cmp au) mem p s"
proof -
  obtain st l where s: "s = (st, l)" by (cases s)
  have *: "hl_norm s = (st, hl_load (hl_save l))" by (simp add: s hl_norm_def)
  show ?thesis
    unfolding * unfolding s
    by (cases st; simp add: norm_step_def hl_step_def step_simps Let_def)
      (auto simp: hl_norm_def hl_first_char_def hl_next_char_def hl_load_def hl_save_def)
qed

lemma hl_inv_norm: "hl_inv p (hl_norm s) = hl_inv p s" and hl_post_norm: "hl_post p x (hl_norm s) = hl_post p x s"
  by (cases s; simp add: hl_norm_def hl_inv.simps hl_post_def hl_array_def hl_ptrs_def hl_load_def hl_save_def)+

lemma hl_norm_idem: "hl_norm (hl_norm s) = hl_norm s"
  by (simp add: hl_norm_def hl_load_def hl_save_def)

interpretation hlp: resumable_parser "norm_step hl_norm (hl_step h cmp au)"
    "\<lambda>p s. hl_inv p s \<and> hl_norm s = s" hl_post
    "hl_call h cmp au" "\<lambda>s. (fst s, hl_load (snd s))" "\<lambda>s. (fst s, hl_save (snd s))" hl_view hl_stop_view
  for h cmp au
proof
  fix mem rest :: memory and p and s :: hl_loc
  assume "hl_inv p s \<and> hl_norm s = s" "p < length mem"
  then show "norm_step hl_norm (hl_step h cmp au) (mem @ rest) p s = norm_step hl_norm (hl_step h cmp au) mem p s"
    by (simp add: norm_step_def hl_step_local)
next
  fix mem :: memory and p and s s' :: hl_loc
  assume "hl_inv p s \<and> hl_norm s = s" "p < length mem" "norm_step hl_norm (hl_step h cmp au) mem p s = Next s'"
  then show "hl_inv (Suc p) s' \<and> hl_norm s' = s'"
    by (auto simp: norm_step_Next hl_inv_norm hl_norm_idem intro: hl_step_inv)
next
  fix mem :: memory and p x and s s' :: hl_loc
  assume "hl_inv p s \<and> hl_norm s = s" "p < length mem" "norm_step hl_norm (hl_step h cmp au) mem p s = Stop x s'"
  then show "hl_post p x s'"
    by (auto simp: norm_step_Stop hl_post_norm intro: hl_step_post)
next
  fix b :: ngx_buf_t and s :: "hl_state \<times> ngx_http_request_t" and p x s'
  have n: "hl_norm (fst s, hl_load (snd s)) = (fst s, hl_load (snd s))"
    by (simp add: hl_norm_def hl_load_def hl_save_def)
  note loop = norm_loop [of hl_norm "hl_step h cmp au", OF hl_norm_step, of "buf_mem b" "buf_pos b" "buf_last b"
      "(fst s, hl_load (snd s))", unfolded n]
  {
    assume "byte_loop (norm_step hl_norm (hl_step h cmp au)) (buf_mem b) (buf_pos b) (buf_last b)
        (fst s, hl_load (snd s)) = (p, Next s')"
    then show "hl_call h cmp au s b = (NGX_AGAIN, (fst s', hl_save (snd s')), b\<lparr>buf_pos := p\<rparr>)"
      unfolding loop
      by (auto simp: hl_call_def ngx_http_parse_header_line_def hl_norm_def hl_save_def hl_load_def
          split: prod.splits outcome.splits)
  next
    assume "byte_loop (norm_step hl_norm (hl_step h cmp au)) (buf_mem b) (buf_pos b) (buf_last b)
        (fst s, hl_load (snd s)) = (p, Stop x s')"
    then show "fst (hl_call h cmp au s b) \<noteq> NGX_AGAIN \<and> hl_view (hl_call h cmp au s b) = hl_stop_view p x s'"
      unfolding loop
      by (cases x) (auto simp: hl_call_def ngx_http_parse_header_line_def hl_norm_def hl_save_def hl_load_def
          hl_forget_def split: prod.splits outcome.splits)
  }
qed (auto simp: hl_norm_def)

subsection \<open>Reading back a header\<close>

lemma lowcase_nth:
  "lowcase ! unat ch =
    (if is_digit ch \<or> ch = chr CHR ''-'' \<or> chr CHR ''a'' \<le> ch \<and> ch \<le> chr CHR ''z'' then ch
     else if chr CHR ''A'' \<le> ch \<and> ch \<le> chr CHR ''Z'' then ch + 32 else 0)" (is "_ = ?f ch")
proof -
  have *: "lowcase = map ?f all_bytes"
    by (simp add: all_bytes_def lowcase_def is_digit_def) (simp add: word_le_nat_alt)
  have "unat ch < 256" using unsigned_less [of ch] by simp
  then have "all_bytes ! unat ch = ch" "unat ch < length all_bytes"
    by (simp_all add: all_bytes_upt)
  then show ?thesis unfolding * by simp
qed


definition name_char :: "u8 \<Rightarrow> bool" where
  "name_char ch \<longleftrightarrow> lowcase ! unat ch \<noteq> 0"

abbreviation lows :: "u8 list \<Rightarrow> u8 list" where
  "lows xs \<equiv> map (\<lambda>c. lowcase ! unat c) xs"

lemma name_char_neq:
  "name_char ch \<Longrightarrow> ch \<noteq> CR \<and> ch \<noteq> LF \<and> ch \<noteq> NUL \<and> ch \<noteq> chr CHR '':'' \<and> ch \<noteq> chr CHR ''_'' \<and> ch \<noteq> SP"
  by (auto simp: name_char_def lowcase_nth is_digit_def word_le_nat_alt)

text \<open>The ring \<open>lowcase_header\<close> after the bytes \<open>xs\<close> were written from index \<open>i\<close> on.\<close>

definition lc_write :: "u8 list \<Rightarrow> nat \<Rightarrow> u8 list \<Rightarrow> u8 list" where
  "lc_write a i xs = foldl (\<lambda>a (k, x). a[(i + k) mod 32 := x]) a (enumerate 0 xs)"

lemma lc_write_Nil [simp]: "lc_write a i [] = a"
  by (simp add: lc_write_def)

lemma lc_write_snoc [simp]: "lc_write a i (xs @ [x]) = (lc_write a i xs)[(i + length xs) mod 32 := x]"
  by (simp add: lc_write_def enumerate_append_eq)

lemma length_lc_write [simp]: "length (lc_write a i xs) = length a"
  by (induction xs rule: rev_induct) simp_all

lemma lc_write_short:
  "length a = 32 \<Longrightarrow> i + length xs \<le> 32 \<Longrightarrow> lc_write a i xs = take i a @ xs @ drop (i + length xs) a"
proof (induction xs rule: rev_induct)
  case (snoc x xs)
  then have "drop (i + length xs) a = a ! (i + length xs) # drop (Suc (i + length xs)) a"
    by (simp add: Cons_nth_drop_Suc)
  with snoc show ?case by (simp add: list_update_append)
qed simp

abbreviation hl_list ::
  "hash_fun \<Rightarrow> strncmp_fun \<Rightarrow> bool \<Rightarrow> memory \<Rightarrow> ptr \<Rightarrow> u8 list \<Rightarrow> hl_loc \<Rightarrow> ptr \<times> hl_outcome" where
  "hl_list h cmp au mem \<equiv> list_loop (\<lambda>p ch s. hl_case h cmp au (fst s) mem p ch (snd s))"

text \<open>The loop state after the bytes \<open>xs\<close> of a name were read.\<close>

definition hl_named :: "hash_fun \<Rightarrow> hl_locals \<Rightarrow> u8 list \<Rightarrow> hl_locals" where
  "hl_named h l xs = l\<lparr>hl_hash := foldl h (hl_hash l) (lows xs), hl_i := (hl_i l + length xs) mod 32,
     hl_r := (hl_r l)\<lparr>r_lowcase_header := lc_write (r_lowcase_header (hl_r l)) (hl_i l) (lows xs)\<rparr>\<rparr>"

lemma hl_scan_name:
  assumes "\<forall>c\<in>set xs. name_char c" and "hl_i l < 32"
  shows "hl_list h cmp au mem p (xs @ ys) (hl_sw_name, l) =
    hl_list h cmp au mem (p + length xs) ys (hl_sw_name, hl_named h l xs)"
proof -
  have step: "hl_case h cmp au hl_sw_name mem q c (hl_named h l as) = Next (hl_sw_name, hl_named h l (as @ [c]))"
    if "name_char c" for q c as
    using that
    by (simp add: hl_name_def name_char_def hl_next_char_def hl_named_def NGX_HTTP_LC_HEADER_LEN_def
        and_31 mod_Suc_eq Let_def)
  have "hl_named h l [] = l" using assms(2) by (simp add: hl_named_def)
  then show ?thesis
    using list_loop_scan [OF assms(1), where g = "\<lambda>as. (hl_sw_name, hl_named h l as)" and p = p and ys = ys
      and f = "\<lambda>p ch s. hl_case h cmp au (fst s) mem p ch (snd s)"] step by simp
qed

text \<open>The state in which a header name is begun at \<open>p\<close>.\<close>

definition hl_begin :: "ptr \<Rightarrow> hl_locals \<Rightarrow> hl_locals" where
  "hl_begin p l = l\<lparr>hl_hash := 0, hl_i := 0,
     hl_r := (hl_r l)\<lparr>r_header_name_start := Some p, r_invalid_header := False\<rparr>\<rparr>"

lemma hl_scan_full_name:
  assumes "\<forall>c\<in>set xs. name_char c" and "xs \<noteq> []"
  shows "hl_list h cmp au mem p (xs @ ys) (hl_sw_start, l) =
    hl_list h cmp au mem (p + length xs) ys (hl_sw_name, hl_named h (hl_begin p l) xs)"
proof -
  obtain c cs where xs: "xs = c # cs" using assms(2) by (cases xs) auto
  have c: "name_char c" using assms(1) xs by simp
  have 1: "hl_case h cmp au hl_sw_start mem p c l = Next (hl_sw_name, hl_named h (hl_begin p l) [c])"
    using c name_char_neq [OF c]
    by (simp add: hl_start_def name_char_def Let_def hl_first_char_def hl_named_def hl_begin_def
        lc_write_def)
  have 2: "hl_named h (hl_named h l' [c]) cs = hl_named h l' (c # cs)" if "hl_i l' = 0" for l'
  proof -
    have "lc_write (lc_write a 0 [x]) 1 zs = lc_write a 0 (x # zs)" for a x zs
      by (induction zs rule: rev_induct) (simp_all flip: append_Cons add: lc_write_def [of _ _ "[x]"])
    then show ?thesis using that by (simp add: hl_named_def mod_Suc_eq)
  qed
  show ?thesis
    using 1 2 [of "hl_begin p l"] hl_scan_name [of cs "hl_named h (hl_begin p l) [c]" h cmp au mem "Suc p" ys] assms(1) xs
    by (simp add: hl_begin_def hl_named_def [of _ _ "[c]"])
qed


definition value_char :: "u8 \<Rightarrow> bool" where
  "value_char ch \<longleftrightarrow> ch \<notin> {CR, LF, NUL}"

lemma hl_scan_value:
  assumes "\<forall>c\<in>set xs. value_char c" and "st \<in> {hl_sw_value, hl_sw_space_after_value}"
  shows "\<exists>e. hl_list h cmp au mem p (xs @ ys) (st, l) =
    hl_list h cmp au mem (p + length xs) ys
      (if xs = [] then st else if last xs = SP then hl_sw_space_after_value else hl_sw_value,
       hl_upd (\<lambda>r. r\<lparr>r_header_end := e\<rparr>) l)"
  using assms
proof (induction xs arbitrary: p st l)
  case Nil
  show ?case by (rule exI [of _ "r_header_end (hl_r l)"]) simp
next
  case (Cons c xs)
  define st' where "st' = (if c = SP then hl_sw_space_after_value else hl_sw_value)"
  obtain e' where step: "hl_case h cmp au st mem p c l = Next (st', hl_upd (\<lambda>r. r\<lparr>r_header_end := e'\<rparr>) l)"
  proof (cases "st = hl_sw_value \<and> c = SP")
    case True
    with Cons.prems that [of "Some p"] show ?thesis by (simp add: hl_value_def st'_def)
  next
    case False
    with Cons.prems that [of "r_header_end (hl_r l)"] show ?thesis
      by (auto simp: hl_value_def hl_space_after_value_def value_char_def st'_def)
  qed
  have "st' \<in> {hl_sw_value, hl_sw_space_after_value}" by (simp add: st'_def)
  from Cons.IH [OF _ this, of "Suc p" "hl_upd (\<lambda>r. r\<lparr>r_header_end := e'\<rparr>) l"] Cons.prems(1)
  obtain e where "hl_list h cmp au mem (Suc p) (xs @ ys) (st', hl_upd (\<lambda>r. r\<lparr>r_header_end := e'\<rparr>) l) =
    hl_list h cmp au mem (Suc p + length xs) ys
      (if xs = [] then st' else if last xs = SP then hl_sw_space_after_value else hl_sw_value,
       hl_upd (\<lambda>r. r\<lparr>r_header_end := e\<rparr>) l)" by auto
  with step show ?case
    by (intro exI [of _ e]) (cases "xs = []"; simp add: st'_def)
qed

text \<open>A header line: a name of letters, digits and dashes, and a value without spaces around it.\<close>

definition header_ok :: "u8 list \<times> u8 list \<Rightarrow> bool" where
  "header_ok nv \<longleftrightarrow> (case nv of (n, v) \<Rightarrow> n \<noteq> [] \<and> (\<forall>c\<in>set n. name_char c) \<and> (\<forall>c\<in>set v. value_char c) \<and>
     (v \<noteq> [] \<longrightarrow> hd v \<noteq> SP \<and> last v \<noteq> SP))"

definition print_header :: "u8 list \<times> u8 list \<Rightarrow> u8 list" where
  "print_header nv = (case nv of (n, v) \<Rightarrow> n @ chr CHR '':'' # SP # v @ [CR, LF])"

text \<open>What a value and the end of the line after it do, from the colon on.\<close>

lemma hl_scan_rest:
  assumes "\<forall>c\<in>set v. value_char c" and "v \<noteq> [] \<longrightarrow> hd v \<noteq> SP \<and> last v \<noteq> SP"
  shows "hl_list h cmp au mem p (58 # SP # v @ CR # LF # rest) (hl_sw_name, l) =
    (p + length v + 3, Stop HL_done (hl_sw_almost_done, hl_upd (\<lambda>r. r\<lparr>r_header_name_end := Some p,
        r_header_start := Some (p + 2), r_header_end := Some (p + 2 + length v)\<rparr>) l))"
proof -
  have colon: "hl_case h cmp au hl_sw_name mem p 58 l =
      Next (hl_sw_space_before_value, hl_upd (\<lambda>r. r\<lparr>r_header_name_end := Some p\<rparr>) l)"
    using lowcase_nth [of 58] by (simp add: hl_name_def Let_def is_digit_def)
  show ?thesis
  proof (cases v)
    case Nil
    with colon show ?thesis
      by (simp add: hl_space_before_value_def hl_almost_done_def)
  next
    case (Cons c cs)
    let ?l = "hl_upd (\<lambda>r. r\<lparr>r_header_name_end := Some p, r_header_start := Some (Suc (Suc p))\<rparr>) l"
    have "c \<noteq> SP" "value_char c" "\<forall>c\<in>set cs. value_char c" using assms Cons by auto
    moreover have "last (c # cs) \<noteq> SP" using assms Cons by simp
    moreover obtain e where "hl_list h cmp au mem (Suc (Suc (Suc p))) (cs @ CR # LF # rest) (hl_sw_value, ?l) =
        hl_list h cmp au mem (Suc (Suc (Suc p)) + length cs) (CR # LF # rest)
          (if cs = [] then hl_sw_value else if last cs = SP then hl_sw_space_after_value else hl_sw_value,
           hl_upd (\<lambda>r. r\<lparr>r_header_end := e\<rparr>) ?l)"
      using hl_scan_value [of cs hl_sw_value h cmp au mem "Suc (Suc (Suc p))" "CR # LF # rest" ?l]
        calculation(3) by blast
    ultimately show ?thesis
      using Cons colon
      by (cases "cs = []") (simp_all add: hl_space_before_value_def value_char_def hl_value_def hl_almost_done_def)
  qed
qed

text \<open>One call of the parser at the start of a printed line, given what the name does.\<close>

definition hl_line_end :: "ptr \<Rightarrow> nat \<Rightarrow> hl_locals \<Rightarrow> hl_locals" where
  "hl_line_end q k l = hl_upd (\<lambda>r. r\<lparr>r_header_name_end := Some q, r_header_start := Some (q + 2),
      r_header_end := Some (q + 2 + k)\<rparr>) l"

lemma hl_parse_line:
  assumes "drop p mem = print_header (n, v) @ rest"
    and "b = \<lparr>buf_mem = mem, buf_pos = p, buf_last = length mem\<rparr>"
    and "\<forall>c\<in>set v. value_char c" "v \<noteq> [] \<longrightarrow> hd v \<noteq> SP \<and> last v \<noteq> SP"
    and "\<And>ys. hl_list h cmp au mem p (n @ ys) (hl_sw_start, hl_load r) =
      hl_list h cmp au mem (p + length n) ys (hl_sw_name, l)"
  shows "ngx_http_parse_header_line h cmp hl_sw_start r b au =
      (NGX_OK, hl_sw_start, hl_save (hl_line_end (p + length n) (length v) l),
       b\<lparr>buf_pos := p + length (print_header (n, v))\<rparr>)"
    and "seg mem p (p + length n) = n"
    and "seg mem (p + length n + 2) (p + length n + 2 + length v) = v"
proof -
  have d: "drop p mem = n @ (58 # SP # v @ CR # LF # rest)" using assms(1) by (simp add: print_header_def)
  have p: "p \<le> length mem" using d by (metis append_is_Nil_conv drop_all list.distinct(1) nat_le_linear)
  have "byte_loop (hl_step h cmp au) mem p (length mem) (hl_sw_start, hl_load r) =
      hl_list h cmp au mem p (drop p mem) (hl_sw_start, hl_load r)"
    using p by (intro byte_loop_list) (simp_all add: hl_step_def)
  also have "\<dots> = (p + length n + length v + 3, Stop HL_done (hl_sw_almost_done, hl_line_end (p + length n) (length v) l))"
    unfolding d assms(5) hl_scan_rest [OF assms(3,4)] hl_line_end_def by simp
  finally show "ngx_http_parse_header_line h cmp hl_sw_start r b au =
      (NGX_OK, hl_sw_start, hl_save (hl_line_end (p + length n) (length v) l),
       b\<lparr>buf_pos := p + length (print_header (n, v))\<rparr>)"
    by (simp add: ngx_http_parse_header_line_def assms(2) print_header_def)
  show "seg mem p (p + length n) = n" using seg_of_drop [OF d] by simp
  have "drop (p + length n + 2) mem = v @ CR # LF # rest"
    using drop_eq_append [of p mem "n @ [58, SP]"] d by (simp add: add.assoc)
  from seg_of_drop [OF this] show "seg mem (p + length n + 2) (p + length n + 2 + length v) = v" by simp
qed

lemma hl_parse_header:
  assumes "header_ok (n, v)" and "drop p mem = print_header (n, v) @ rest"
    and "b = \<lparr>buf_mem = mem, buf_pos = p, buf_last = length mem\<rparr>"
    and "length (r_lowcase_header r) = 32" "r_lowcase_index r < 32"
  obtains r' where "ngx_http_parse_header_line h cmp hl_sw_start r b au =
      (NGX_OK, hl_sw_start, r', b\<lparr>buf_pos := p + length (print_header (n, v))\<rparr>)"
    and "seg mem (the (r_header_name_start r')) (the (r_header_name_end r')) = n"
    and "seg mem (the (r_header_start r')) (the (r_header_end r')) = v"
    and "\<not> r_invalid_header r'" and "r_header_hash r' = foldl h 0 (lows n)"
    and "r_lowcase_index r' = length n mod 32"
    and "length n < 32 \<Longrightarrow> take (length n) (r_lowcase_header r') = lows n"
    and "length (r_lowcase_header r') = 32" "r_lowcase_index r' < 32"
proof -
  have ok: "\<forall>c\<in>set n. name_char c" "n \<noteq> []" "\<forall>c\<in>set v. value_char c" "v \<noteq> [] \<longrightarrow> hd v \<noteq> SP \<and> last v \<noteq> SP"
    using assms(1) by (auto simp: header_ok_def)
  note line = hl_parse_line [OF assms(2,3) ok(3,4) hl_scan_full_name [OF ok(1,2), of h cmp au mem p _ "hl_load r"]]
  show ?thesis
    by (rule that [OF line(1)])
      (use line(2,3) assms(4,5) in \<open>simp_all add: hl_save_def hl_line_end_def hl_named_def hl_begin_def
         hl_load_def lc_write_short\<close>)
qed

text \<open>
  A header line is understood the same however its bytes arrive, wherever the array
  \<open>lowcase_header\<close> and its index are within bounds, as they are at the start of a request and
  after every header line.
\<close>

theorem header_line_any_pieces:
  assumes "length (r_lowcase_header r) = NGX_HTTP_LC_HEADER_LEN"
    and "r_lowcase_index r < NGX_HTTP_LC_HEADER_LEN"
  shows "run_pieces (hl_call h cmp au) hl_view (hl_sw_start, r) \<lparr>buf_mem = [], buf_pos = 0, buf_last = 0\<rparr> cs =
   hl_view (hl_call h cmp au (hl_sw_start, r)
     \<lparr>buf_mem = concat cs, buf_pos = 0, buf_last = length (concat cs)\<rparr>)"
  by (rule hlp.pieces_irrelevant)
    (simp add: assms hl_inv.simps hl_array_def hl_norm_def hl_load_def hl_save_def)


theorem header_line_any_pieces_witness:
  "run_pieces (hl_call (\<lambda>k c. k) (\<lambda>a b n. 0) False) hl_view (hl_sw_start, ngx_http_create_request)
     \<lparr>buf_mem = [], buf_pos = 0, buf_last = 0\<rparr> [bytes ''Ho'', bytes ''st: a'', [CR], [LF]] =
   hl_view (hl_call (\<lambda>k c. k) (\<lambda>a b n. 0) False (hl_sw_start, ngx_http_create_request)
     \<lparr>buf_mem = bytes ''Host: a'' @ [CR, LF], buf_pos = 0, buf_last = 9\<rparr>)"
proof -
  have "concat [bytes ''Ho'', bytes ''st: a'', [CR], [LF]] = bytes ''Host: a'' @ [CR, LF]"
    by (simp add: bytes_def)
  moreover have "length (bytes ''Host: a'' @ [CR, LF]) = 9" by simp
  ultimately show ?thesis
    using header_line_any_pieces [of ngx_http_create_request "\<lambda>k c. k" "\<lambda>a b n. 0" False
        "[bytes ''Ho'', bytes ''st: a'', [CR], [LF]]"]
    by (simp only:) (simp add: ngx_http_create_request_def NGX_HTTP_LC_HEADER_LEN_def)
qed

text \<open>
  When a header line is accepted, the four pointers it leaves are in order and inside the
  consumed part of the buffer, the name is not empty, and the index and the array
  \<open>lowcase_header\<close> are still within bounds: none of the lengths that the caller computes as
  differences wraps around, and the next line writes inside the array again.
\<close>

theorem header_line_pointers:
  assumes "ngx_http_parse_header_line h cmp hl_sw_start r b au = (NGX_OK, st, r', b')"
    and "buf_wf b" and "length (r_lowcase_header r) = NGX_HTTP_LC_HEADER_LEN"
    and "r_lowcase_index r < NGX_HTTP_LC_HEADER_LEN"
  shows "\<exists>ns ne hs he. r_header_name_start r' = Some ns \<and> r_header_name_end r' = Some ne \<and>
      r_header_start r' = Some hs \<and> r_header_end r' = Some he \<and>
      ns < ne \<and> ne \<le> hs \<and> hs \<le> he \<and> he < buf_pos b' \<and> buf_pos b' \<le> buf_last b \<and>
      length (r_lowcase_header r') = NGX_HTTP_LC_HEADER_LEN \<and> r_lowcase_index r' < NGX_HTTP_LC_HEADER_LEN"
proof -
  obtain q x where qx: "byte_loop (hl_step h cmp au) (buf_mem b) (buf_pos b) (buf_last b) (hl_sw_start, hl_load r) = (q, x)"
    by fastforce
  have inv: "hl_inv (buf_pos b) (hl_sw_start, hl_load r)"
    using assms(3,4) by (simp add: hl_inv.simps hl_array_def hl_load_def)
  obtain st1 l where x: "x = Stop HL_done (st1, l)" and o: "r' = hl_save l" "b' = b\<lparr>buf_pos := q + 1\<rparr>"
    using assms(1) qx by (auto simp: ngx_http_parse_header_line_def split: outcome.splits hl_exit.splits prod.splits)
  have "hl_post q HL_done (st1, l)"
    using hl.run.loop_inv [OF inv _ _ qx] assms(2) x by (simp add: buf_wf_def)
  moreover have "q < buf_last b"
    using byte_loop_pos [OF qx] assms(2) x by (simp add: buf_wf_def)
  ultimately show ?thesis
    by (auto simp: hl_post_def hl_ptrs_def hl_array_def o hl_save_def)
qed

theorem header_line_pointers_witness:
  "\<exists>st r' b'. ngx_http_parse_header_line (\<lambda>k c. k) (\<lambda>a b n. 0) hl_sw_start ngx_http_create_request
      \<lparr>buf_mem = bytes ''A:b'' @ [LF], buf_pos = 0, buf_last = 4\<rparr> False = (NGX_OK, st, r', b') \<and>
    the (r_header_name_start r') < the (r_header_name_end r')"
proof -
  let ?b = "\<lparr>buf_mem = bytes ''A:b'' @ [LF], buf_pos = 0, buf_last = 4\<rparr>"
  have wf: "buf_wf ?b" by (simp add: buf_wf_def)
  have r: "length (r_lowcase_header ngx_http_create_request) = NGX_HTTP_LC_HEADER_LEN"
    "r_lowcase_index ngx_http_create_request < NGX_HTTP_LC_HEADER_LEN"
    by (simp_all add: ngx_http_create_request_def NGX_HTTP_LC_HEADER_LEN_def)
  have "fst (ngx_http_parse_header_line (\<lambda>k c. k) (\<lambda>a b n. 0) hl_sw_start ngx_http_create_request ?b False) = NGX_OK"
    using lowcase_nth [of 65] lowcase_nth [of 58]
    by (simp add: bytes_def ngx_http_parse_header_line_def byte_loop.simps hl_step_def step_simps Let_def
        is_digit_def)
  then obtain st r' b' where p: "ngx_http_parse_header_line (\<lambda>k c. k) (\<lambda>a b n. 0) hl_sw_start
      ngx_http_create_request ?b False = (NGX_OK, st, r', b')"
    by (metis prod.collapse)
  from header_line_pointers [OF p wf r] p show ?thesis by auto
qed

end
