(* ===== verification/Http_Headers.thy ===== *)
theory Http_Headers
  imports Http_Header_Line
begin






subsection \<open>Reading back a header\<close>








subsection \<open>A name that starts with an invalid byte\<close>






end
