(* ===== verification/Http_Complex_Uri.thy ===== *)
theory Http_Complex_Uri
  imports Http_Types
begin

text \<open>
  \<open>ngx_http_parse_complex_uri\<close> (\<open>src/http/ngx_http_parse.c\<close>): percent decoding, merging of
  slashes and removal of the segments "." and ".." from a request target, and
  \<open>ngx_http_process_request_uri\<close> (\<open>src/http/ngx_http_request.c\<close>), which decides whether it is
  needed and sets \<open>r->uri\<close>, \<open>r->exten\<close>, \<open>r->args\<close> and \<open>r->unparsed_uri\<close>.

  The output \<open>r->uri.data\<close> is a fresh block of memory; \<open>u\<close> only ever moves within what was
  written, so the model keeps the bytes \<open>[r->uri.data, u)\<close> as a list: \<open>*u++ = ch\<close> appends and
  \<open>u--\<close> drops the last byte. The loop
  \<^verbatim>\<open>ch = *p++; while (p <= r->uri_end) { switch (state) { ... ch = *p++; ... } }\<close>
  looks at the byte at \<open>p - 1\<close> in every iteration, so it is the byte loop up to \<open>uri_end\<close> (the
  code also fetches the byte at \<open>uri_end\<close> ahead, without using it).
\<close>

text \<open>
  \<open>quoted_state\<close> only ever holds one of the four states in which a '%' can occur. When the
  second hexadecimal digit is read the code sets \<open>ch\<close> to the decoded byte and enters the loop
  again in \<open>quoted_state\<close> without advancing \<open>p\<close>: here that case is called directly.
\<close>

datatype cu_plain = cu_sw_usual | cu_sw_slash | cu_sw_dot | cu_sw_dot_dot
datatype cu_state = CU cu_plain | cu_sw_quoted | cu_sw_quoted_second

datatype cu_exit = CU_done | CU_args | CU_invalid

record cu_locals =
  cu_u :: "u8 list"              \<comment> \<open>the bytes from \<open>r->uri.data\<close> to \<open>u\<close>\<close>
  cu_quoted_state :: cu_plain
  cu_decoded :: u8
  cu_uri_ext :: "nat option"     \<comment> \<open>\<open>r->uri_ext\<close>, an offset into the output\<close>
  cu_args_start :: "ptr option"
  cu_plus_in_uri :: bool
  cu_quoted_uri :: bool

type_synonym cu_loc = "cu_state \<times> cu_locals"
type_synonym cu_outcome = "(cu_loc, cu_exit) outcome"

abbreviation cu_put :: "u8 \<Rightarrow> cu_locals \<Rightarrow> cu_locals" where
  "cu_put ch l \<equiv> l\<lparr>cu_u := cu_u l @ [ch]\<rparr>"

subsection \<open>The cases of the switch\<close>

definition cu_usual :: "ptr \<Rightarrow> u8 \<Rightarrow> cu_locals \<Rightarrow> cu_outcome" where
  "cu_usual p ch l =
    (if is_usual ch then Next (CU cu_sw_usual, cu_put ch l)
     else if ch = chr CHR ''/''
     then Next (CU cu_sw_slash, cu_put ch (l\<lparr>cu_uri_ext := None\<rparr>))
     else if ch = chr CHR ''%'' then Next (cu_sw_quoted, l\<lparr>cu_quoted_state := cu_sw_usual\<rparr>)
     else if ch = chr CHR ''?'' then Stop CU_args (CU cu_sw_usual, l\<lparr>cu_args_start := Some (p + 1)\<rparr>)
     else if ch = chr CHR ''#'' then Stop CU_done (CU cu_sw_usual, l)
     else if ch = chr CHR ''.''
     then Next (CU cu_sw_usual, cu_put ch (l\<lparr>cu_uri_ext := Some (length (cu_u l) + 1)\<rparr>))
     else if ch = chr CHR ''+'' then Next (CU cu_sw_usual, cu_put ch (l\<lparr>cu_plus_in_uri := True\<rparr>))
     else Next (CU cu_sw_usual, cu_put ch l))"

definition cu_slash :: "bool \<Rightarrow> ptr \<Rightarrow> u8 \<Rightarrow> cu_locals \<Rightarrow> cu_outcome" where
  "cu_slash merge_slashes p ch l =
    (if is_usual ch then Next (CU cu_sw_usual, cu_put ch l)
     else if ch = chr CHR ''/''
     then Next (CU cu_sw_slash, if merge_slashes then l else cu_put ch l)
     else if ch = chr CHR ''.'' then Next (CU cu_sw_dot, cu_put ch l)
     else if ch = chr CHR ''%'' then Next (cu_sw_quoted, l\<lparr>cu_quoted_state := cu_sw_slash\<rparr>)
     else if ch = chr CHR ''?'' then Stop CU_args (CU cu_sw_slash, l\<lparr>cu_args_start := Some (p + 1)\<rparr>)
     else if ch = chr CHR ''#'' then Stop CU_done (CU cu_sw_slash, l)
     else if ch = chr CHR ''+'' then Next (CU cu_sw_usual, cu_put ch (l\<lparr>cu_plus_in_uri := True\<rparr>))
     else Next (CU cu_sw_usual, cu_put ch l))"

definition cu_dot :: "ptr \<Rightarrow> u8 \<Rightarrow> cu_locals \<Rightarrow> cu_outcome" where
  "cu_dot p ch l =
    (if is_usual ch then Next (CU cu_sw_usual, cu_put ch l)
     else if ch = chr CHR ''/'' then Next (CU cu_sw_slash, l\<lparr>cu_u := butlast (cu_u l)\<rparr>)
     else if ch = chr CHR ''.'' then Next (CU cu_sw_dot_dot, cu_put ch l)
     else if ch = chr CHR ''%'' then Next (cu_sw_quoted, l\<lparr>cu_quoted_state := cu_sw_dot\<rparr>)
     else if ch = chr CHR ''?'' then Stop CU_args (CU cu_sw_dot, l\<lparr>cu_args_start := Some (p + 1)\<rparr>)
     else if ch = chr CHR ''#'' then Stop CU_done (CU cu_sw_dot, l)
     else if ch = chr CHR ''+'' then Next (CU cu_sw_usual, cu_put ch (l\<lparr>cu_plus_in_uri := True\<rparr>))
     else Next (CU cu_sw_usual, cu_put ch l))"

text \<open>
  \<open>for ( ;; ) { if (u < r->uri.data) return ...; if (*u == '/') { u++; break; } u--; }\<close>, entered
  with \<open>u\<close> at offset \<open>i - 1\<close>.
\<close>

fun cu_back :: "u8 list \<Rightarrow> nat \<Rightarrow> u8 list option" where
  "cu_back u 0 = None"
| "cu_back u (Suc i) = (if u ! i = chr CHR ''/'' then Some (take (Suc i) u) else cu_back u i)"

definition cu_dot_dot :: "ptr \<Rightarrow> u8 \<Rightarrow> cu_locals \<Rightarrow> cu_outcome" where
  "cu_dot_dot p ch l =
    (if is_usual ch then Next (CU cu_sw_usual, cu_put ch l)
     else if ch = chr CHR ''/'' then
       \<comment> \<open>\<open>u -= 5\<close>: the search starts at offset \<open>length - 5\<close>\<close>
       (case cu_back (cu_u l) (length (cu_u l) - 4) of
          None \<Rightarrow> Stop CU_invalid (CU cu_sw_dot_dot, l)
        | Some u \<Rightarrow> Next (CU cu_sw_slash, l\<lparr>cu_u := u\<rparr>))
     else if ch = chr CHR ''%'' then Next (cu_sw_quoted, l\<lparr>cu_quoted_state := cu_sw_dot_dot\<rparr>)
     else if ch = chr CHR ''?''
     then Stop CU_args (CU cu_sw_dot_dot, l\<lparr>cu_args_start := Some (p + 1)\<rparr>)
     else if ch = chr CHR ''#'' then Stop CU_done (CU cu_sw_dot_dot, l)
     else if ch = chr CHR ''+'' then Next (CU cu_sw_usual, cu_put ch (l\<lparr>cu_plus_in_uri := True\<rparr>))
     else Next (CU cu_sw_usual, cu_put ch l))"

fun cu_plain_case :: "cu_plain \<Rightarrow> bool \<Rightarrow> ptr \<Rightarrow> u8 \<Rightarrow> cu_locals \<Rightarrow> cu_outcome" where
  "cu_plain_case cu_sw_usual ms p ch l = cu_usual p ch l"
| "cu_plain_case cu_sw_slash ms p ch l = cu_slash ms p ch l"
| "cu_plain_case cu_sw_dot ms p ch l = cu_dot p ch l"
| "cu_plain_case cu_sw_dot_dot ms p ch l = cu_dot_dot p ch l"

definition cu_quoted :: "u8 \<Rightarrow> cu_locals \<Rightarrow> cu_outcome" where
  "cu_quoted ch l =
    (let l = l\<lparr>cu_quoted_uri := True\<rparr> in
     if is_digit ch then Next (cu_sw_quoted_second, l\<lparr>cu_decoded := ch - chr CHR ''0''\<rparr>)
     else if is_hexalpha20 ch
     then Next (cu_sw_quoted_second, l\<lparr>cu_decoded := lower20 ch - chr CHR ''a'' + 10\<rparr>)
     else Stop CU_invalid (cu_sw_quoted, l))"

definition cu_quoted_second :: "bool \<Rightarrow> ptr \<Rightarrow> u8 \<Rightarrow> cu_locals \<Rightarrow> cu_outcome" where
  "cu_quoted_second merge_slashes p ch l =
    (if is_digit ch then
       let ch = push_bit 4 (cu_decoded l) + ch - chr CHR ''0'' in
       if ch = chr CHR ''%'' \<or> ch = chr CHR ''#'' then Next (CU cu_sw_usual, cu_put ch l)
       else if ch = NUL then Stop CU_invalid (cu_sw_quoted_second, l)
       else cu_plain_case (cu_quoted_state l) merge_slashes p ch l
     else if is_hexalpha20 ch then
       let ch = push_bit 4 (cu_decoded l) + lower20 ch - chr CHR ''a'' + 10 in
       if ch = chr CHR ''?'' then Next (CU cu_sw_usual, cu_put ch l)
       else cu_plain_case (cu_quoted_state l) merge_slashes p ch
              (if ch = chr CHR ''+'' then l\<lparr>cu_plus_in_uri := True\<rparr> else l)
     else Stop CU_invalid (cu_sw_quoted_second, l))"

fun cu_case :: "cu_state \<Rightarrow> bool \<Rightarrow> ptr \<Rightarrow> u8 \<Rightarrow> cu_locals \<Rightarrow> cu_outcome" where
  "cu_case (CU st) ms p ch l = cu_plain_case st ms p ch l"
| "cu_case cu_sw_quoted ms p ch l = cu_quoted ch l"
| "cu_case cu_sw_quoted_second ms p ch l = cu_quoted_second ms p ch l"

definition cu_step :: "bool \<Rightarrow> memory \<Rightarrow> ptr \<Rightarrow> cu_loc \<Rightarrow> cu_outcome" where
  "cu_step ms mem p s = cu_case (fst s) ms p (mem ! p) (snd s)"

subsection \<open>The function\<close>

text \<open>
  The loop at the label \<open>args\<close>: the arguments end at the first '#' before \<open>uri_end\<close>, if there
  is one; then \<open>r->args\<close> is set here and \<open>args_start\<close> cleared.
\<close>

definition cu_find_hash :: "memory \<Rightarrow> ptr \<Rightarrow> ptr \<Rightarrow> ptr option" where
  "cu_find_hash mem a e = find (\<lambda>i. mem ! i = chr CHR ''#'') [a..<e]"

record cu_result =
  cr_uri :: "u8 list"
  cr_exten :: "u8 list option"   \<comment> \<open>\<open>None\<close>: \<open>r->exten\<close> is left as it was\<close>
  cr_args :: "u8 list option"    \<comment> \<open>\<open>None\<close>: \<open>r->args\<close> is left as it was\<close>
  cr_args_start :: "ptr option"
  cr_plus_in_uri :: bool
  cr_quoted_uri :: bool

definition cu_finish :: "cu_locals \<Rightarrow> u8 list option \<Rightarrow> ptr option \<Rightarrow> cu_result" where
  "cu_finish l args as =
     \<lparr>cr_uri = cu_u l, cr_exten = map_option (\<lambda>e. drop e (cu_u l)) (cu_uri_ext l),
      cr_args = args, cr_args_start = as, cr_plus_in_uri = cu_plus_in_uri l,
      cr_quoted_uri = cu_quoted_uri l\<rparr>"

definition cu_init :: "ngx_http_request_t \<Rightarrow> cu_locals" where
  "cu_init r = \<lparr>cu_u = [], cu_quoted_state = cu_sw_usual, cu_decoded = 0, cu_uri_ext = None,
     cu_args_start = None, cu_plus_in_uri = r_plus_in_uri r, cu_quoted_uri = r_quoted_uri r\<rparr>"

text \<open>\<open>None\<close> is \<open>NGX_HTTP_PARSE_INVALID_REQUEST\<close>.\<close>

definition ngx_http_parse_complex_uri ::
  "memory \<Rightarrow> ngx_http_request_t \<Rightarrow> bool \<Rightarrow> cu_result option" where
  "ngx_http_parse_complex_uri mem r merge_slashes =
    (let uri_end = the (r_uri_end r) in
     case byte_loop (cu_step merge_slashes) mem (the (r_uri_start r)) uri_end
            (CU cu_sw_usual, cu_init r) of
       (p, Next (st, l)) \<Rightarrow> Some (cu_finish l None (cu_args_start l))
     | (p, Stop CU_done (st, l)) \<Rightarrow> Some (cu_finish l None (cu_args_start l))
     | (p, Stop CU_args (st, l)) \<Rightarrow>
         (case cu_find_hash mem (p + 1) uri_end of
            Some i \<Rightarrow> Some (cu_finish l (Some (seg mem (p + 1) i)) None)
          | None \<Rightarrow> Some (cu_finish l None (cu_args_start l)))
     | (p, Stop CU_invalid (st, l)) \<Rightarrow> None)"

text \<open>
  \<open>ngx_http_process_request_uri\<close>, for a request whose \<open>r->exten\<close> and \<open>r->args\<close> are still
  empty, as after \<open>ngx_http_create_request\<close>. \<open>None\<close>: the request is finalized with
  \<open>NGX_HTTP_BAD_REQUEST\<close>.
\<close>

record ngx_http_uri =
  q_uri :: "u8 list"
  q_unparsed_uri :: "u8 list"
  q_valid_unparsed_uri :: bool
  q_exten :: "u8 list"
  q_args :: "u8 list"

definition ngx_http_process_request_uri ::
  "memory \<Rightarrow> ngx_http_request_t \<Rightarrow> bool \<Rightarrow> ngx_http_uri option" where
  "ngx_http_process_request_uri mem r merge_slashes =
    (let us = the (r_uri_start r); ue = the (r_uri_end r);
         path_end = (case r_args_start r of Some a \<Rightarrow> a - 1 | None \<Rightarrow> ue);
         c = (if r_complex_uri r \<or> r_quoted_uri r
              then ngx_http_parse_complex_uri mem r merge_slashes
              else Some \<lparr>cr_uri = seg mem us path_end, cr_exten = None, cr_args = None,
                         cr_args_start = r_args_start r, cr_plus_in_uri = r_plus_in_uri r,
                         cr_quoted_uri = r_quoted_uri r\<rparr>);
         uri_ext = (if r_complex_uri r \<or> r_quoted_uri r then None else r_uri_ext r)
     in case c of None \<Rightarrow> None
        | Some c \<Rightarrow> Some
            \<lparr>q_uri = cr_uri c,
             q_unparsed_uri = seg mem us ue,
             q_valid_unparsed_uri = (\<not> r_space_in_uri r),
             q_exten =
               (case uri_ext of
                  Some e \<Rightarrow> seg mem e (case cr_args_start c of Some a \<Rightarrow> a - 1 | None \<Rightarrow> ue)
                | None \<Rightarrow> (case cr_exten c of Some x \<Rightarrow> x | None \<Rightarrow> [])),
             q_args =
               (case cr_args_start c of
                  Some a \<Rightarrow> if ue > a then seg mem a ue
                            else (case cr_args c of Some x \<Rightarrow> x | None \<Rightarrow> [])
                | None \<Rightarrow> (case cr_args c of Some x \<Rightarrow> x | None \<Rightarrow> []))\<rparr>)"

lemmas [step_simps] =
  cu_usual_def cu_slash_def cu_dot_def cu_dot_dot_def cu_quoted_def cu_quoted_second_def

subsection \<open>What is read: bytes and escapes\<close>

text \<open>
  The parser as a machine over decoded characters, with only the state and the output. An
  escaped '?', '#' or '%' is an ordinary character here; unescaped they end the path or begin
  an escape, so they are no characters of a path.
\<close>

definition cu_char :: "bool \<Rightarrow> u8 \<Rightarrow> cu_plain \<times> u8 list \<Rightarrow> (cu_plain \<times> u8 list) option" where
  "cu_char ms c s = (case s of (st, u) \<Rightarrow>
    (if c = chr CHR ''/''
     then (case st of cu_sw_usual \<Rightarrow> Some (cu_sw_slash, u @ [c])
           | cu_sw_slash \<Rightarrow> Some (cu_sw_slash, if ms then u else u @ [c])
           | cu_sw_dot \<Rightarrow> Some (cu_sw_slash, butlast u)
           | cu_sw_dot_dot \<Rightarrow> map_option (Pair cu_sw_slash) (cu_back u (length u - 4)))
     else if c = chr CHR ''.''
     then Some (case st of cu_sw_usual \<Rightarrow> cu_sw_usual | cu_sw_slash \<Rightarrow> cu_sw_dot
                | cu_sw_dot \<Rightarrow> cu_sw_dot_dot | cu_sw_dot_dot \<Rightarrow> cu_sw_usual, u @ [c])
     else Some (cu_sw_usual, u @ [c])))"

fun cu_chars :: "bool \<Rightarrow> u8 list \<Rightarrow> cu_plain \<times> u8 list \<Rightarrow> (cu_plain \<times> u8 list) option" where
  "cu_chars ms [] s = Some s"
| "cu_chars ms (c # cs) s = Option.bind (cu_char ms c s) (cu_chars ms cs)"

lemma cu_chars_append: "cu_chars ms (xs @ ys) s = Option.bind (cu_chars ms xs s) (cu_chars ms ys)"
  by (induction xs arbitrary: s) (auto split: bind_splits)

text \<open>A character of the path as the client writes it: as it is, or as an escape.\<close>

datatype uri_char = Raw u8 | Esc u8 u8

fun char_val :: "uri_char \<Rightarrow> u8" where
  "char_val (Raw c) = c"
| "char_val (Esc h1 h2) = push_bit 4 (hex_val h1) + hex_val h2"

fun print_char :: "uri_char \<Rightarrow> u8 list" where
  "print_char (Raw c) = [c]"
| "print_char (Esc h1 h2) = [chr CHR ''%'', h1, h2]"

fun char_ok :: "uri_char \<Rightarrow> bool" where
  "char_ok (Raw c) \<longleftrightarrow> c \<noteq> chr CHR ''%'' \<and> c \<noteq> chr CHR ''?'' \<and> c \<noteq> chr CHR ''#''"
| "char_ok (Esc h1 h2) \<longleftrightarrow> (is_digit h1 \<or> is_hexalpha20 h1) \<and> (is_digit h2 \<or> is_hexalpha20 h2) \<and>
     char_val (Esc h1 h2) \<noteq> NUL"

abbreviation cu_list :: "bool \<Rightarrow> ptr \<Rightarrow> u8 list \<Rightarrow> cu_loc \<Rightarrow> ptr \<times> cu_outcome" where
  "cu_list ms \<equiv> list_loop (\<lambda>p ch s. cu_case (fst s) ms p ch (snd s))"

text \<open>\<open>cu_sim x l o\<close>: the outcome \<open>o\<close> of the loop is that of the machine, \<open>x\<close>.\<close>

fun cu_sim :: "(cu_plain \<times> u8 list) option \<Rightarrow> cu_outcome \<Rightarrow> bool" where
  "cu_sim (Some (st, u)) (Next (st', l)) \<longleftrightarrow> st' = CU st \<and> cu_u l = u"
| "cu_sim None (Stop x s) \<longleftrightarrow> x = CU_invalid"
| "cu_sim _ _ \<longleftrightarrow> False"

lemma cu_plain_sim:
  assumes "c \<noteq> chr CHR ''%'' \<and> c \<noteq> chr CHR ''?'' \<and> c \<noteq> chr CHR ''#''"
  shows "cu_sim (cu_char ms c (st, cu_u l)) (cu_plain_case st ms p c l)"
  using assms
  by (cases st) (auto simp: cu_char_def step_simps is_usual_iff split: option.split)

text \<open>The second digit of an escape is the low half of its value.\<close>

lemma low_nibble:
  assumes "take_bit 4 b = b"
  shows "take_bit 4 (push_bit 4 a + b) = (b :: u8)"
proof -
  have "push_bit 4 a AND b = 0"
    by (subst assms [symmetric]) (auto intro!: bit_word_eqI simp: bit_simps)
  then have "push_bit 4 a + b = push_bit 4 a OR b" by (rule disjunctive_add_eq_or)
  then show ?thesis using assms by (simp add: take_bit_or take_bit_push_bit)
qed

lemma cu_escape_sim:
  assumes "char_ok (Esc h1 h2)"
  shows "cu_sim (cu_char ms (char_val (Esc h1 h2)) (st, cu_u l)) (snd (cu_list ms p [37, h1, h2] (CU st, l)))"
proof -
  define c where "c = char_val (Esc h1 h2)"
  have ok: "is_digit h1 \<or> is_hexalpha20 h1" "is_digit h2 \<or> is_hexalpha20 h2" "c \<noteq> NUL"
    using assms by (simp_all add: c_def)
  have low: "take_bit 4 c = hex_val h2"
    using low_nibble [OF hex_val_range(1) [OF ok(2)]] by (simp add: c_def)
  have pct: "cu_plain_case st ms p 37 l = Next (cu_sw_quoted, l\<lparr>cu_quoted_state := st\<rparr>)"
    by (cases st) (simp_all add: step_simps is_usual_iff)
  have first: "cu_quoted h1 l' = Next (cu_sw_quoted_second, l'\<lparr>cu_quoted_uri := True, cu_decoded := hex_val h1\<rparr>)" for l'
    using ok(1) by (auto simp: cu_quoted_def Let_def hex_val_def)
  have lit: "cu_char ms x (st, u) = Some (cu_sw_usual, u @ [x])" if "x = 37 \<or> x = 35 \<or> x = 63" for x u
    using that by (auto simp: cu_char_def)
  have second: "cu_sim (cu_char ms c (st, cu_u l')) (cu_quoted_second ms q h2 l')"
    if "cu_decoded l' = hex_val h1" "cu_quoted_state l' = st" for l' q
  proof (cases "is_digit h2")
    case True
    have "push_bit 4 (cu_decoded l') + h2 - 48 = c" using True that by (simp add: c_def hex_val_def algebra_simps)
    then have "cu_quoted_second ms q h2 l' =
        (if c = 37 \<or> c = 35 then Next (CU cu_sw_usual, cu_put c l') else cu_plain_case st ms q c l')"
      using True ok(3) that by (simp add: cu_quoted_second_def)
    moreover have "c \<noteq> 63"
    proof
      assume "c = 63"
      with low have "hex_val h2 = 15" by simp
      with hex_val_range(2) [OF ok(2)] True show False by simp
    qed
    ultimately show ?thesis using cu_plain_sim [of c ms st l' q] by (auto simp: lit)
  next
    case False
    have "push_bit 4 (cu_decoded l') + lower20 h2 - 97 + 10 = c" using False that by (simp add: c_def hex_val_def algebra_simps)
    then have "cu_quoted_second ms q h2 l' =
        (if c = 63 then Next (CU cu_sw_usual, cu_put c l')
         else cu_plain_case st ms q c (if c = 43 then l'\<lparr>cu_plus_in_uri := True\<rparr> else l'))"
      using False ok(2) that by (simp only: cu_quoted_second_def Let_def) simp
    moreover have "c \<noteq> 37 \<and> c \<noteq> 35"
    proof -
      have "c = 37 \<Longrightarrow> hex_val h2 = 5" "c = 35 \<Longrightarrow> hex_val h2 = 3" using low by simp_all
      with hex_val_range(2) [OF ok(2)] False show ?thesis by auto
    qed
    ultimately show ?thesis
      using cu_plain_sim [of c ms st l' q] cu_plain_sim [of c ms st "l'\<lparr>cu_plus_in_uri := True\<rparr>" q]
      by (cases "c = 63"; cases "c = 43") (simp_all add: lit)
  qed
  show ?thesis
    using pct first second [of "l\<lparr>cu_quoted_state := st, cu_quoted_uri := True, cu_decoded := hex_val h1\<rparr>" "Suc (Suc p)"]
    by (auto split: outcome.split simp flip: c_def simp del: char_val.simps)
qed

lemma cu_token_sim:
  assumes "char_ok t"
  shows "cu_sim (cu_char ms (char_val t) (st, cu_u l)) (snd (cu_list ms p (print_char t) (CU st, l)))"
proof (cases t)
  case (Esc h1 h2)
  with assms cu_escape_sim show ?thesis by simp
next
  case (Raw c)
  with assms cu_plain_sim [of c ms st l p] show ?thesis by (auto split: outcome.split)
qed

lemma list_loop_end: "list_loop f p xs s = (q, Next s') \<Longrightarrow> q = p + length xs"
  by (induction xs arbitrary: p s) (auto split: outcome.splits, fastforce)

lemma cu_tokens_sim:
  assumes "\<forall>t\<in>set ts. char_ok t"
  shows "cu_sim (cu_chars ms (map char_val ts) (st, cu_u l)) (snd (cu_list ms p (concat (map print_char ts)) (CU st, l)))"
  using assms
proof (induction ts arbitrary: st l p)
  case (Cons t ts)
  obtain q x where qx: "cu_list ms p (print_char t) (CU st, l) = (q, x)" by fastforce
  have sim: "cu_sim (cu_char ms (char_val t) (st, cu_u l)) x"
    using cu_token_sim [of t ms st l p] Cons.prems qx by simp
  show ?case
  proof (cases "cu_char ms (char_val t) (st, cu_u l)")
    case None
    with sim obtain s where "x = Stop CU_invalid s" by (cases x) auto
    with None qx show ?thesis by (simp add: list_loop_append)
  next
    case (Some su)
    obtain st' u where su: "su = (st', u)" by (cases su)
    with sim Some obtain l' where x: "x = Next (CU st', l')" "cu_u l' = u" by (cases x) auto
    then show ?thesis
      using Cons.IH [of st' l' q] Cons.prems Some su qx by (simp add: list_loop_append)
  qed
qed simp


subsection \<open>What is computed: the normal form of a path\<close>

text \<open>
  The directories of a path from the root, as a stack of segments: empty segments and "." are
  dropped, ".." removes the last directory and fails at the root.
\<close>

fun norm_segs :: "u8 list list \<Rightarrow> u8 list list \<Rightarrow> u8 list list option" where
  "norm_segs ds [] = Some ds"
| "norm_segs ds (s # ss) =
     (if s = [] \<or> s = bytes ''.'' then norm_segs ds ss
      else if s = bytes ''..'' then (if ds = [] then None else norm_segs (butlast ds) ss)
      else norm_segs (ds @ [s]) ss)"

definition dir_path :: "u8 list list \<Rightarrow> u8 list" where
  "dir_path ds = chr CHR ''/'' # concat (map (\<lambda>s. s @ [chr CHR ''/'']) ds)"

lemma dir_path_snoc: "dir_path (ds @ [s]) = dir_path ds @ s @ [47]"
  by (simp add: dir_path_def)

text \<open>The characters of a segment, from the slash before it on.\<close>

lemma cu_chars_segment:
  assumes "47 \<notin> set s"
  shows "cu_chars ms s (cu_sw_slash, u) =
    Some (if s = [] then cu_sw_slash else if s = bytes ''.'' then cu_sw_dot
          else if s = bytes ''..'' then cu_sw_dot_dot else cu_sw_usual, u @ s)"
  using assms
proof (induction s rule: rev_induct)
  case (snoc c s)
  then have IH: "cu_chars ms s (cu_sw_slash, u) =
    Some (if s = [] then cu_sw_slash else if s = bytes ''.'' then cu_sw_dot
          else if s = bytes ''..'' then cu_sw_dot_dot else cu_sw_usual, u @ s)" by simp
  have c: "c \<noteq> 47" using snoc.prems by simp
  have "s @ [c] = [46] \<longleftrightarrow> s = [] \<and> c = 46" "s @ [c] = [46, 46] \<longleftrightarrow> s = [46] \<and> c = 46"
    by (auto simp: append_eq_Cons_conv)
  then show ?case
    using c unfolding cu_chars_append IH by (auto simp: cu_char_def bytes_def)
qed simp

text \<open>The search for the slash before the last directory.\<close>

lemma cu_back_skip:
  assumes "\<forall>k. i \<le> k \<and> k < j \<longrightarrow> u ! k \<noteq> 47" and "i \<le> j"
  shows "cu_back u j = cu_back u i"
  using assms
proof (induction j)
  case (Suc j)
  show ?case
  proof (cases "i = Suc j")
    case False
    with Suc.prems have "u ! j \<noteq> 47" "i \<le> j" by auto
    with Suc show ?thesis by auto
  qed simp
qed simp

lemma cu_back_dir:
  assumes "s \<noteq> []" and "47 \<notin> set s"
  shows "cu_back (dir_path (ds @ [s]) @ bytes ''..'') (length (dir_path (ds @ [s]) @ bytes ''..'') - 4) =
    Some (dir_path ds)"
proof -
  let ?d = "dir_path ds" and ?u = "dir_path (ds @ [s]) @ bytes ''..''"
  have u: "?u = ?d @ s @ 47 # bytes ''..''" by (simp add: dir_path_snoc)
  have len: "length ?u - 4 = length ?d + (length s - 1)"
    using assms(1) by (cases s) (simp_all add: dir_path_snoc)
  have "\<forall>k. length ?d \<le> k \<and> k < length ?d + (length s - 1) \<longrightarrow> ?u ! k \<noteq> 47"
  proof (intro allI impI)
    fix k assume k: "length ?d \<le> k \<and> k < length ?d + (length s - 1)"
    then have "?u ! k = s ! (k - length ?d)" unfolding u by (auto simp: nth_append)
    moreover have "s ! (k - length ?d) \<in> set s" by (rule nth_mem) (use k in linarith)
    ultimately show "?u ! k \<noteq> 47" using assms(2) by metis
  qed
  from cu_back_skip [OF this] have "cu_back ?u (length ?u - 4) = cu_back ?u (length ?d)"
    using len by simp
  also have "\<dots> = Some ?d"
  proof -
    obtain k where k: "length ?d = Suc k" by (cases "length ?d") (simp_all add: dir_path_def)
    have ne: "?d \<noteq> []" by (simp add: dir_path_def)
    have "?u ! k = last ?d"
      unfolding u using k ne by (simp add: nth_append last_conv_nth)
    moreover have "last ?d = 47" by (cases ds rule: rev_cases) (simp_all add: dir_path_def)
    ultimately show ?thesis using k u by simp
  qed
  finally show ?thesis .
qed

lemma cu_chars_dirs:
  assumes "\<forall>s\<in>set ss. 47 \<notin> set s" and "\<forall>s\<in>set ds. s \<noteq> [] \<and> 47 \<notin> set s"
    and "ms \<or> [] \<notin> set ss"
  shows "cu_chars ms (concat (map (\<lambda>s. s @ [47]) ss)) (cu_sw_slash, dir_path ds) =
    map_option (\<lambda>ds. (cu_sw_slash, dir_path ds)) (norm_segs ds ss)"
  using assms
proof (induction ss arbitrary: ds)
  case (Cons s ss)
  have s: "47 \<notin> set s" using Cons.prems by simp
  consider "s = []" | "s = bytes ''.''" | "s = bytes ''..''" "ds = []" 
    | d ds' where "s = bytes ''..''" "ds = ds' @ [d]"
    | "s \<noteq> []" "s \<noteq> bytes ''.''" "s \<noteq> bytes ''..''"
    by (metis rev_exhaust)
  then have "cu_chars ms (s @ [47]) (cu_sw_slash, dir_path ds) =
      (if s = [] \<or> s = bytes ''.'' then Some (cu_sw_slash, dir_path ds)
      else if s = bytes ''..'' then (if ds = [] then None else Some (cu_sw_slash, dir_path (butlast ds)))
      else Some (cu_sw_slash, dir_path (ds @ [s])))"
  proof cases
    case 3
    then show ?thesis
      unfolding cu_chars_append cu_chars_segment [OF s]
      by (simp add: cu_char_def dir_path_def bytes_def)
  next
    case 4
    then show ?thesis
      using cu_back_dir [of d ds'] Cons.prems(2)
      unfolding cu_chars_append cu_chars_segment [OF s]
      by (simp add: cu_char_def) (simp add: bytes_def)
  next
    case 2
    then show ?thesis by (simp add: bytes_def cu_char_def)
  qed (use Cons.prems(3) in \<open>simp_all add: cu_chars_append cu_chars_segment [OF s] cu_char_def dir_path_snoc\<close>)
  then have step: "cu_chars ms (concat (map (\<lambda>s. s @ [47]) (s # ss))) (cu_sw_slash, dir_path ds) =
      Option.bind (if s = [] \<or> s = bytes ''.'' then Some (cu_sw_slash, dir_path ds)
        else if s = bytes ''..'' then (if ds = [] then None else Some (cu_sw_slash, dir_path (butlast ds)))
        else Some (cu_sw_slash, dir_path (ds @ [s]))) (cu_chars ms (concat (map (\<lambda>s. s @ [47]) ss)))"
    by (simp only: list.map concat.simps cu_chars_append [of ms "s @ [47]"])
  have "\<forall>s\<in>set (butlast ds). s \<noteq> [] \<and> 47 \<notin> set s" using Cons.prems(2) by (auto dest: in_set_butlastD)
  then have "cu_chars ms (concat (map (\<lambda>s. s @ [47]) ss)) (cu_sw_slash, dir_path (butlast ds)) =
      map_option (\<lambda>ds. (cu_sw_slash, dir_path ds)) (norm_segs (butlast ds) ss)"
    using Cons.prems by (intro Cons.IH) auto
  moreover have "cu_chars ms (concat (map (\<lambda>s. s @ [47]) ss)) (cu_sw_slash, dir_path ds) =
      map_option (\<lambda>ds. (cu_sw_slash, dir_path ds)) (norm_segs ds ss)"
    using Cons.prems by (intro Cons.IH) auto
  moreover have "cu_chars ms (concat (map (\<lambda>s. s @ [47]) ss)) (cu_sw_slash, dir_path (ds @ [s])) =
      map_option (\<lambda>ds. (cu_sw_slash, dir_path ds)) (norm_segs (ds @ [s]) ss)" if "s \<noteq> []"
    using Cons.prems that by (intro Cons.IH) auto
  ultimately show ?case unfolding step by simp
qed simp

text \<open>
  What follows the path without adding to it: the end, the arguments, a fragment, or an escape
  that is cut off.
\<close>

definition tail_quiet :: "bool \<Rightarrow> u8 list \<Rightarrow> bool" where
  "tail_quiet ms sfx \<longleftrightarrow> (\<forall>q st l. case snd (cu_list ms q sfx (CU st, l)) of
      Next (st', l') \<Rightarrow> cu_u l' = cu_u l
    | Stop e (st', l') \<Rightarrow> e \<noteq> CU_invalid \<and> cu_u l' = cu_u l)"

lemma tail_quietD:
  assumes "tail_quiet ms sfx" and "cu_list ms q sfx (CU st, l) = (q', y)"
  shows "case y of Next (st', l') \<Rightarrow> cu_u l' = cu_u l
    | Stop e (st', l') \<Rightarrow> e \<noteq> CU_invalid \<and> cu_u l' = cu_u l"
proof -
  have "case snd (cu_list ms q sfx (CU st, l)) of Next (st', l') \<Rightarrow> cu_u l' = cu_u l
    | Stop e (st', l') \<Rightarrow> e \<noteq> CU_invalid \<and> cu_u l' = cu_u l"
    using assms(1) unfolding tail_quiet_def by blast
  then show ?thesis unfolding assms(2) by simp
qed

lemma tail_quiet_cases:
  "tail_quiet ms []" "tail_quiet ms (63 # cs)" "tail_quiet ms (35 # cs)" "tail_quiet ms [37]"
  "is_digit h \<or> is_hexalpha20 h \<Longrightarrow> tail_quiet ms [37, h]"
proof -
  have "cu_plain_case st ms q 63 l = Stop CU_args (CU st, l\<lparr>cu_args_start := Some (q + 1)\<rparr>)"
    "cu_plain_case st ms q 35 l = Stop CU_done (CU st, l)"
    "cu_plain_case st ms q 37 l = Next (cu_sw_quoted, l\<lparr>cu_quoted_state := st\<rparr>)" for st q l
    by (cases st; simp add: step_simps is_usual_iff)+
  note c = this
  show "tail_quiet ms []" "tail_quiet ms (63 # cs)" "tail_quiet ms (35 # cs)" "tail_quiet ms [37]"
    by (simp_all add: tail_quiet_def c)
  show "is_digit h \<or> is_hexalpha20 h \<Longrightarrow> tail_quiet ms [37, h]"
    by (auto simp add: tail_quiet_def c cu_quoted_def Let_def)
qed

lemma complex_uri_result:
  assumes "\<forall>t\<in>set ts. char_ok t"
    and "map char_val ts = dir_path ss @ s" and "\<forall>x\<in>set ss. 47 \<notin> set x" and "47 \<notin> set s"
    and "ms \<or> [] \<notin> set ss" and "tail_quiet ms sfx"
    and "mem = pre @ concat (map print_char ts) @ sfx @ rest"
    and "r_uri_start r = Some (length pre)"
    and "r_uri_end r = Some (length pre + length (concat (map print_char ts)) + length sfx)"
  shows "map_option cr_uri (ngx_http_parse_complex_uri mem r ms) =
    map_option (\<lambda>ds. dir_path ds @ s) (norm_segs [] ss)"
proof -
  let ?src = "concat (map print_char ts)" and ?p = "length pre"
  let ?q = "?p + length ?src"
  have segs: "seg mem ?p (?q + length sfx) = ?src @ sfx"
    unfolding assms(7) by (simp add: seg_def)
  have loop: "byte_loop (cu_step ms) mem ?p (?q + length sfx) (CU cu_sw_usual, cu_init r) =
      cu_list ms ?p (?src @ sfx) (CU cu_sw_usual, cu_init r)"
    using byte_loop_list_lim [of "cu_step ms" mem "\<lambda>p ch s. cu_case (fst s) ms p ch (snd s)" ?p "?q + length sfx"]
    unfolding segs by (simp add: cu_step_def assms(7))
  have chars: "cu_chars ms (map char_val ts) (cu_sw_usual, []) =
      Option.bind (map_option (\<lambda>ds. (cu_sw_slash, dir_path ds)) (norm_segs [] ss)) (cu_chars ms s)"
    using cu_chars_dirs [of ss "[]" ms] assms(3,5) unfolding assms(2)
    by (simp add: dir_path_def [of ss] cu_char_def cu_chars_append) (simp add: dir_path_def)
  obtain q x where qx: "cu_list ms ?p ?src (CU cu_sw_usual, cu_init r) = (q, x)" by fastforce
  have sim: "cu_sim (cu_chars ms (map char_val ts) (cu_sw_usual, [])) x"
    using cu_tokens_sim [OF assms(1), of ms cu_sw_usual "cu_init r" ?p] qx by (simp add: cu_init_def)
  show ?thesis
  proof (cases "norm_segs [] ss")
    case None
    with sim chars obtain s' where "x = Stop CU_invalid s'" by (cases x) auto
    with None loop qx show ?thesis
      by (simp add: ngx_http_parse_complex_uri_def Let_def assms(8,9) list_loop_append)
  next
    case (Some ds)
    obtain st where "cu_chars ms (map char_val ts) (cu_sw_usual, []) = Some (st, dir_path ds @ s)"
      using chars Some cu_chars_segment [OF assms(4), of ms "dir_path ds"] by simp
    with sim obtain l where x: "x = Next (CU st, l)" "cu_u l = dir_path ds @ s" by (cases x) auto
    obtain q' y where y: "cu_list ms q sfx (CU st, l) = (q', y)" by fastforce
    have "case y of Next (st', l') \<Rightarrow> cu_u l' = cu_u l
        | Stop e (st', l') \<Rightarrow> e \<noteq> CU_invalid \<and> cu_u l' = cu_u l"
      using tail_quietD [OF assms(6) y] .
    with x y loop qx Some show ?thesis
      by (auto simp: ngx_http_parse_complex_uri_def Let_def assms(8,9) cu_finish_def list_loop_append
          split: outcome.splits cu_exit.splits option.splits)
  qed
qed

text \<open>
  C1: \<open>ngx_http_parse_complex_uri\<close> computes the normal form of a path: take any path, written
  with each character as it is or as a percent escape, followed by nothing, by "?arguments" or
  by "#fragment". Read as segments between slashes, the result is the stack of directories that
  is left when "." and empty segments are dropped and ".." removes the directory before it,
  then the last segment as it is (so "." and ".." at the end of a path stay); and the request
  is refused exactly when a ".." has no directory to remove. Without \<open>merge_slashes\<close> the same
  holds for paths without empty segments.
\<close>

theorem complex_uri_normalises:
  assumes "\<forall>t\<in>set ts. char_ok t"
    and "map char_val ts = dir_path ss @ s" and "\<forall>x\<in>set ss. 47 \<notin> set x" and "47 \<notin> set s"
    and "ms \<or> [] \<notin> set ss"
    and "sfx = [] \<or> hd sfx = chr CHR ''?'' \<or> hd sfx = chr CHR ''#''"
    and "mem = pre @ concat (map print_char ts) @ sfx @ rest"
    and "r_uri_start r = Some (length pre)"
    and "r_uri_end r = Some (length pre + length (concat (map print_char ts)) + length sfx)"
  shows "map_option cr_uri (ngx_http_parse_complex_uri mem r ms) =
    map_option (\<lambda>ds. dir_path ds @ s) (norm_segs [] ss)"
proof -
  have "tail_quiet ms sfx" using assms(6) by (cases sfx) (auto intro: tail_quiet_cases)
  from complex_uri_result [OF assms(1-5) this assms(7-9)] show ?thesis .
qed

theorem complex_uri_normalises_witness:
  "map_option cr_uri (ngx_http_parse_complex_uri (bytes ''/a/%2e%2E/b//c/./d%3F?x'')
     (ngx_http_create_request\<lparr>r_uri_start := Some 0, r_uri_end := Some 23\<rparr>) True) =
   Some (bytes ''/b/c/d?'')"
proof -
  let ?ts = "map Raw (bytes ''/a/'') @ [Esc 50 101, Esc 50 69] @ map Raw (bytes ''/b//c/./d'') @ [Esc 51 70]"
  let ?ss = "[bytes ''a'', bytes ''..'', bytes ''b'', [], bytes ''c'', bytes ''.'']"
  let ?r = "ngx_http_create_request\<lparr>r_uri_start := Some 0, r_uri_end := Some 23\<rparr>"
  have "map_option cr_uri (ngx_http_parse_complex_uri (bytes ''/a/%2e%2E/b//c/./d%3F?x'') ?r True) =
      map_option (\<lambda>ds. dir_path ds @ bytes ''d?'') (norm_segs [] ?ss)"
  proof (rule complex_uri_normalises)
    show "\<forall>t\<in>set ?ts. char_ok t"
      by (simp add: bytes_def is_digit_def is_hexalpha20_def lower20_def hex_val_def)
    show "map char_val ?ts = dir_path ?ss @ bytes ''d?''"
      by (simp add: bytes_def dir_path_def is_digit_def lower20_def hex_val_def)
    show "bytes ''/a/%2e%2E/b//c/./d%3F?x'' = [] @ concat (map print_char ?ts) @ bytes ''?x'' @ []"
      by (simp add: bytes_def)
  qed (simp_all add: bytes_def)
  then show ?thesis by (simp add: bytes_def dir_path_def)
qed


subsection \<open>What holds of every result\<close>

definition occurs :: "u8 list \<Rightarrow> u8 list \<Rightarrow> bool" where
  "occurs w u \<longleftrightarrow> (\<exists>a b. u = a @ w @ b)"

definition ends :: "u8 list \<Rightarrow> u8 list \<Rightarrow> bool" where
  "ends w u \<longleftrightarrow> (\<exists>a. u = a @ w)"

lemma occurs_snoc: "w \<noteq> [] \<Longrightarrow> occurs w (u @ [c]) \<longleftrightarrow> occurs w u \<or> ends w (u @ [c])"
proof
  assume "w \<noteq> []" "occurs w (u @ [c])"
  then obtain a b where ab: "u @ [c] = a @ w @ b" by (auto simp: occurs_def)
  show "occurs w u \<or> ends w (u @ [c])"
  proof (cases b rule: rev_cases)
    case Nil
    with ab show ?thesis by (auto simp: ends_def)
  next
    case (snoc b' x)
    with ab have "u = a @ w @ b'" by (simp flip: append_assoc)
    then show ?thesis by (auto simp: occurs_def)
  qed
next
  assume "w \<noteq> []" and *: "occurs w u \<or> ends w (u @ [c])"
  then show "occurs w (u @ [c])"
  proof (elim disjE)
    assume "occurs w u"
    then obtain a b where "u = a @ w @ b" by (auto simp: occurs_def)
    then have "u @ [c] = a @ w @ (b @ [c])" by simp
    then show ?thesis unfolding occurs_def by blast
  next
    assume "ends w (u @ [c])"
    then obtain a where "u @ [c] = a @ w @ []" by (auto simp: ends_def)
    then show ?thesis unfolding occurs_def by blast
  qed
qed

lemma occurs_take: "occurs w (take n u) \<Longrightarrow> occurs w u"
proof -
  assume "occurs w (take n u)"
  then obtain a b where "take n u = a @ w @ b" by (auto simp: occurs_def)
  then have "u = a @ w @ (b @ drop n u)" by (metis append.assoc append_take_drop_id)
  then show ?thesis unfolding occurs_def by blast
qed

lemma ends_snoc [simp]:
  "ends [x] (u @ [c]) \<longleftrightarrow> c = x"
  "ends (x # y # w) (u @ [c]) \<longleftrightarrow> c = last (y # w) \<and> ends (x # butlast (y # w)) u"
proof -
  show "ends [x] (u @ [c]) \<longleftrightarrow> c = x" by (auto simp: ends_def)
  have "x # y # w = (x # butlast (y # w)) @ [last (y # w)]" by simp
  then show "ends (x # y # w) (u @ [c]) \<longleftrightarrow> c = last (y # w) \<and> ends (x # butlast (y # w)) u"
    unfolding ends_def by (metis append.assoc append1_eq_conv)
qed

lemma ends_rev: "ends w u \<longleftrightarrow> (\<exists>a. rev u = rev w @ a)"
  unfolding ends_def by (metis rev_append rev_rev_ident)

lemma ends_excl:
  "ends [47] u \<Longrightarrow> \<not> ends [47, 46] u" "ends [47] u \<Longrightarrow> \<not> ends [47, 46, 46] u"
  "ends [47, 46] u \<Longrightarrow> \<not> ends [47, 46, 46] u"
  by (auto simp: ends_rev)

text \<open>No "." or ".." between two slashes and, with \<open>merge_slashes\<close>, no two slashes in a row.\<close>

definition no_dot_segment :: "bool \<Rightarrow> u8 list \<Rightarrow> bool" where
  "no_dot_segment ms u \<longleftrightarrow> \<not> occurs (bytes ''/./'') u \<and> \<not> occurs (bytes ''/../'') u \<and>
     (ms \<longrightarrow> \<not> occurs (bytes ''//'') u)"

definition cu_clean :: "bool \<Rightarrow> cu_plain \<Rightarrow> u8 list \<Rightarrow> bool" where
  "cu_clean ms st u \<longleftrightarrow> no_dot_segment ms u \<and>
    (case st of
       cu_sw_usual \<Rightarrow> \<not> ends (bytes ''/'') u \<and> \<not> ends (bytes ''/.'') u \<and> \<not> ends (bytes ''/..'') u
     | cu_sw_slash \<Rightarrow> ends (bytes ''/'') u
     | cu_sw_dot \<Rightarrow> ends (bytes ''/.'') u
     | cu_sw_dot_dot \<Rightarrow> ends (bytes ''/..'') u)"

lemma cu_back_take: "cu_back u i = Some v \<Longrightarrow> \<exists>j<i. u ! j = 47 \<and> v = take (Suc j) u"
proof (induction i)
  case (Suc i)
  show ?case
  proof (cases "u ! i = 47")
    case True
    with Suc.prems show ?thesis by auto
  next
    case False
    with Suc obtain j where "j < i" "u ! j = 47 \<and> v = take (Suc j) u" by auto
    then show ?thesis using less_SucI by blast
  qed
qed simp

lemma no_dot_segment_take: "no_dot_segment ms u \<Longrightarrow> no_dot_segment ms (take n u)"
  by (auto simp: no_dot_segment_def dest: occurs_take)

lemma no_dot_segment_snoc:
  "no_dot_segment ms (u @ [c]) \<longleftrightarrow> no_dot_segment ms u \<and>
    (c = 47 \<longrightarrow> \<not> ends (bytes ''/.'') u \<and> \<not> ends (bytes ''/..'') u \<and> (ms \<longrightarrow> \<not> ends (bytes ''/'') u))"
  by (auto simp: no_dot_segment_def bytes_def occurs_snoc)

lemma ends_single_take: "j < length u \<Longrightarrow> u ! j = x \<Longrightarrow> ends [x] (take (Suc j) u)"
  by (simp add: take_Suc_conv_app_nth)

lemma cu_char_clean:
  assumes "cu_clean ms st u" and "cu_char ms c (st, u) = Some (st', u')"
  shows "cu_clean ms st' u'"
proof -
  have nds: "no_dot_segment ms u" using assms(1) by (simp add: cu_clean_def)
  consider "c = 47" "st = cu_sw_dot" | "c = 47" "st = cu_sw_dot_dot" | "c \<noteq> 47 \<or> st = cu_sw_usual \<or> st = cu_sw_slash"
    by (cases st) auto
  then show ?thesis
  proof cases
    case 1
    then obtain a where a: "u = a @ [47, 46]" using assms(1) by (auto simp: cu_clean_def ends_def bytes_def)
    then have "st' = cu_sw_slash" "u' = a @ [47]" using assms(2) 1 by (auto simp: cu_char_def butlast_append)
    moreover have "no_dot_segment ms (a @ [47])"
      using no_dot_segment_take [OF nds, of "length a + 1"] a by simp
    ultimately show ?thesis by (simp add: cu_clean_def bytes_def)
  next
    case 2
    then obtain j where "u ! j = 47" "u' = take (Suc j) u" "j < length u - 4" "st' = cu_sw_slash"
      using assms(2) cu_back_take [of u "length u - 4" u'] by (auto simp: cu_char_def)
    then show ?thesis
      using nds by (simp add: cu_clean_def no_dot_segment_take bytes_def ends_single_take)
  next
    case 3
    with assms show ?thesis
      by (cases st) (auto simp: cu_char_def cu_clean_def no_dot_segment_snoc bytes_def dest: ends_excl split: if_splits)
  qed
qed


text \<open>
  The loop invariant: where an escape is being read, the state is the one before it and the
  output lags by the bytes of the escape. The extension is what follows the last dot of the
  last segment.
\<close>

definition cu_ext_ok :: "cu_plain \<Rightarrow> cu_locals \<Rightarrow> bool" where
  "cu_ext_ok st l \<longleftrightarrow> (\<forall>e. cu_uri_ext l = Some e \<longrightarrow> st = cu_sw_usual \<and> 0 < e \<and> e \<le> length (cu_u l) \<and>
     cu_u l ! (e - 1) = 46 \<and> 46 \<notin> set (drop e (cu_u l)) \<and> 47 \<notin> set (drop e (cu_u l)))"

definition cu_rooted :: "u8 list \<Rightarrow> bool" where
  "cu_rooted u \<longleftrightarrow> u \<noteq> [] \<and> hd u = 47"

fun cu_pending :: "cu_state \<Rightarrow> cu_locals \<Rightarrow> cu_plain \<times> nat" where
  "cu_pending (CU st) l = (st, 0)"
| "cu_pending cu_sw_quoted l = (cu_quoted_state l, 1)"
| "cu_pending cu_sw_quoted_second l = (cu_quoted_state l, 2)"

definition cu_inv :: "bool \<Rightarrow> memory \<Rightarrow> ptr \<Rightarrow> ptr \<Rightarrow> cu_loc \<Rightarrow> bool" where
  "cu_inv ms mem us p s = (case s of (st, l) \<Rightarrow> (case cu_pending st l of (q, k) \<Rightarrow>
     mem ! us = 47 \<and> us \<le> p \<and> cu_clean ms q (cu_u l) \<and> cu_ext_ok q l \<and> us + length (cu_u l) + k \<le> p \<and>
     (if p = us then st = CU cu_sw_usual \<and> cu_u l = [] else cu_rooted (cu_u l))))"

definition cu_post :: "bool \<Rightarrow> ptr \<Rightarrow> ptr \<Rightarrow> cu_exit \<Rightarrow> cu_loc \<Rightarrow> bool" where
  "cu_post ms us p x s = (case s of (st, l) \<Rightarrow> x \<noteq> CU_invalid \<longrightarrow>
     no_dot_segment ms (cu_u l) \<and> cu_rooted (cu_u l) \<and> us + length (cu_u l) \<le> p \<and>
     (\<exists>q. cu_ext_ok q l))"

text \<open>The step of one decoded character in a plain state, escapes of '?', '#' and '%' included.\<close>

definition cu_char_result :: "bool \<Rightarrow> cu_plain \<Rightarrow> cu_locals \<Rightarrow> cu_state \<Rightarrow> cu_locals \<Rightarrow> bool" where
  "cu_char_result ms st l st' l' \<longleftrightarrow> (\<exists>c q. st' = CU q \<and> cu_char ms c (st, cu_u l) = Some (q, cu_u l') \<and>
     (c = 47 \<or> c = 46 \<or> cu_uri_ext l' = cu_uri_ext l) \<and>
     (c = 47 \<longrightarrow> cu_uri_ext l' = (if st = cu_sw_usual then None else cu_uri_ext l)) \<and>
     (c = 46 \<longrightarrow> cu_uri_ext l' = (if st = cu_sw_usual then Some (length (cu_u l) + 1) else cu_uri_ext l)))"

lemma cu_plain_result:
  assumes "cu_plain_case st ms p c l = Next (st', l')" and "c \<noteq> 37"
  shows "cu_char_result ms st l st' l'"
  unfolding cu_char_result_def
  by (rule exI [of _ c]) (use assms in \<open>cases st; auto simp: cu_char_def step_simps is_usual_iff
      split: if_splits option.splits\<close>)


lemma cu_char_length:
  assumes "cu_char ms c (st, u) = Some (q, u')"
  shows "length u' \<le> Suc (length u)"
  using assms cu_back_take [of u "length u - 4" u']
  by (auto simp: cu_char_def split: if_splits cu_plain.splits)

lemma cu_char_rooted:
  assumes "cu_char ms c (st, u) = Some (q, u')" and "cu_clean ms st u"
    and "cu_rooted u \<or> u = [] \<and> c = 47 \<and> st = cu_sw_usual"
  shows "cu_rooted u'"
proof (cases "c = 47 \<and> (st = cu_sw_dot \<or> st = cu_sw_dot_dot)")
  case True
  then have r: "cu_rooted u" using assms(3) by auto
  show ?thesis
  proof (cases "st = cu_sw_dot")
    case dot: True
    then obtain a where "u = a @ [47, 46]" using assms(2) by (auto simp: cu_clean_def ends_def bytes_def)
    with True dot assms(1) r show ?thesis
      by (cases a) (auto simp: cu_char_def cu_rooted_def butlast_append)
  next
    case False
    with True obtain j where "u' = take (Suc j) u"
      using assms(1) cu_back_take [of u "length u - 4" u'] by (auto simp: cu_char_def)
    with r show ?thesis by (auto simp: cu_rooted_def hd_take)
  qed
next
  case False
  with assms(1,3) show ?thesis
    by (cases st) (auto simp: cu_char_def cu_rooted_def split: if_splits)
qed

lemma cu_result_ext:
  assumes "cu_char_result ms st l st' l'" and "cu_ext_ok st l"
  shows "\<exists>q. st' = CU q \<and> cu_ext_ok q l'"
proof -
  obtain c q where c: "st' = CU q" "cu_char ms c (st, cu_u l) = Some (q, cu_u l')"
    "c = 47 \<or> c = 46 \<or> cu_uri_ext l' = cu_uri_ext l"
    "c = 47 \<longrightarrow> cu_uri_ext l' = (if st = cu_sw_usual then None else cu_uri_ext l)"
    "c = 46 \<longrightarrow> cu_uri_ext l' = (if st = cu_sw_usual then Some (length (cu_u l) + 1) else cu_uri_ext l)"
    using assms(1) by (auto simp: cu_char_result_def)
  show ?thesis
  proof (cases "st = cu_sw_usual")
    case True
    then have u': "cu_u l' = cu_u l @ [c]" and q: "q = (if c = 47 then cu_sw_slash else cu_sw_usual)"
      using c(2) by (auto simp: cu_char_def split: if_splits)
    consider "c = 47" | "c = 46" | "c \<noteq> 47" "c \<noteq> 46" by blast
    then show ?thesis
    proof cases
      case 3
      then have "cu_uri_ext l' = cu_uri_ext l" using c(3) by blast
      with 3 True c(1) assms(2) show ?thesis
        by (cases "cu_uri_ext l") (auto simp: u' q cu_ext_ok_def nth_append)
    qed (use True c(1,4,5) in \<open>simp_all add: u' q cu_ext_ok_def\<close>)
  next
    case False
    then have "cu_uri_ext l = None" using assms(2) by (cases "cu_uri_ext l") (auto simp: cu_ext_ok_def)
    with c False show ?thesis by (auto simp: cu_ext_ok_def)
  qed
qed

lemma cu_result_inv:
  assumes "cu_char_result ms st l st' l'" and "cu_clean ms st (cu_u l)" and "cu_ext_ok st l"
    and "us + length (cu_u l) \<le> p" and "mem ! us = 47" and "us \<le> p"
    and "cu_rooted (cu_u l) \<or> cu_u l = [] \<and> st = cu_sw_usual \<and> cu_u l' = [47]"
  shows "cu_inv ms mem us (Suc p) (st', l')"
proof -
  obtain c q where c: "st' = CU q" "cu_char ms c (st, cu_u l) = Some (q, cu_u l')"
    using assms(1) by (auto simp: cu_char_result_def)
  have "cu_rooted (cu_u l')"
    using assms(7) cu_char_rooted [OF c(2) assms(2)] by (auto simp: cu_rooted_def)
  moreover have "cu_ext_ok q l'" using cu_result_ext [OF assms(1,3)] c(1) by simp
  ultimately show ?thesis
    using cu_char_clean [OF assms(2) c(2)] cu_char_length [OF c(2)] assms(4-6) c(1)
    by (simp add: cu_inv_def)
qed

text \<open>A plain state, entered with any byte: the one of the source or a decoded one.\<close>

lemma cu_plain_inv:
  assumes "cu_plain_case st ms p c l = Next (st', l')" and "cu_clean ms st (cu_u l)" and "cu_ext_ok st l"
    and "us + length (cu_u l) \<le> p" and "mem ! us = 47" and "us \<le> p"
    and "cu_rooted (cu_u l) \<or> cu_u l = [] \<and> st = cu_sw_usual \<and> c = 47"
  shows "cu_inv ms mem us (Suc p) (st', l')"
proof (cases "c = 37")
  case True
  then have "st' = cu_sw_quoted \<and> l' = l\<lparr>cu_quoted_state := st\<rparr>"
    using assms(1) by (cases st) (auto simp: step_simps is_usual_iff)
  with assms True show ?thesis by (auto simp: cu_inv_def cu_ext_ok_def)
next
  case False
  have "cu_u l' = [47]" if "cu_u l = [] \<and> st = cu_sw_usual \<and> c = 47"
    using that assms(1) by (auto simp: cu_usual_def is_usual_iff)
  then show ?thesis
    using cu_result_inv [OF cu_plain_result [OF assms(1) False] assms(2-6)] assms(7) by blast
qed

lemma cu_plain_stop:
  assumes "cu_plain_case st ms p c l = Stop x (st', l')"
  shows "cu_u l' = cu_u l \<and> cu_uri_ext l' = cu_uri_ext l"
  using assms by (cases st) (auto simp: step_simps split: if_splits option.splits)

lemma cu_literal_result:
  assumes "c = 37 \<or> c = 35 \<or> c = 63"
  shows "cu_char_result ms st l (CU cu_sw_usual) (cu_put c l)"
  using assms unfolding cu_char_result_def
  by (intro exI [of _ c] exI [of _ cu_sw_usual]) (auto simp: cu_char_def)

lemma cu_step_inv:
  assumes "cu_inv ms mem us p s" and "cu_step ms mem p s = Next s'"
  shows "cu_inv ms mem us (Suc p) s'"
proof -
  obtain st l where s: "s = (st, l)" by (cases s)
  obtain st' l' where s': "s' = (st', l')" by (cases s')
  show ?thesis
  proof (cases st)
    case (CU q)
    with assms s s' show ?thesis
      by (auto simp: cu_inv_def [of _ _ _ p] cu_step_def split: if_splits intro!: cu_plain_inv)
  next
    case cu_sw_quoted
    with assms s show ?thesis
      by (auto simp: cu_inv_def cu_step_def cu_quoted_def Let_def cu_ext_ok_def split: if_splits)
  next
    case cu_sw_quoted_second
    let ?q = "cu_quoted_state l"
    have inv: "cu_clean ms ?q (cu_u l)" "cu_ext_ok ?q l" "us + length (cu_u l) \<le> p" "mem ! us = 47" "us \<le> p"
      "cu_rooted (cu_u l)"
      using assms(1) cu_sw_quoted_second s by (auto simp: cu_inv_def split: if_splits)
    have inv': "cu_clean ms ?q (cu_u (l\<lparr>cu_plus_in_uri := True\<rparr>))" "cu_ext_ok ?q (l\<lparr>cu_plus_in_uri := True\<rparr>)"
      "us + length (cu_u (l\<lparr>cu_plus_in_uri := True\<rparr>)) \<le> p"
      using inv by (simp_all add: cu_ext_ok_def)
    have *: "(\<exists>c. (c = 37 \<or> c = 35 \<or> c = 63) \<and> st' = CU cu_sw_usual \<and> l' = cu_put c l) \<or>
        (\<exists>c. cu_plain_case ?q ms p c l = Next (st', l')) \<or>
        (\<exists>c. cu_plain_case ?q ms p c (l\<lparr>cu_plus_in_uri := True\<rparr>) = Next (st', l'))"
      using assms(2) cu_sw_quoted_second s s'
      by (auto simp: cu_step_def cu_quoted_second_def Let_def split: if_splits)
    then show ?thesis
      unfolding s' using cu_result_inv [OF cu_literal_result inv(1-5)] cu_plain_inv [OF _ inv(1-5)]
        cu_plain_inv [OF _ inv' inv(4,5)] inv(6) by auto
  qed
qed

lemma cu_step_post:
  assumes "cu_inv ms mem us p s" and "cu_step ms mem p s = Stop x s'"
  shows "cu_post ms us p x s'"
proof -
  obtain st l where s: "s = (st, l)" by (cases s)
  obtain st' l' where s': "s' = (st', l')" by (cases s')
  have same: "x \<noteq> CU_invalid \<Longrightarrow> cu_u l' = cu_u l \<and> cu_uri_ext l' = cu_uri_ext l"
    using assms(2) s s' cu_plain_stop
    by (cases st) (fastforce simp: cu_step_def cu_quoted_def cu_quoted_second_def Let_def split: if_splits)+
  have "p \<noteq> us"
  proof
    assume "p = us"
    with assms s have "cu_usual p 47 l = Stop x s'" by (auto simp: cu_inv_def cu_step_def)
    then show False by (simp add: cu_usual_def is_usual_iff)
  qed
  with assms(1) s s' same show ?thesis
    by (auto simp: cu_inv_def cu_post_def cu_clean_def cu_ext_ok_def split: prod.splits)
qed

interpretation cui: byte_invariant "cu_step ms" mem "cu_inv ms mem us" "cu_post ms us" for ms mem us
  by unfold_locales (auto intro: cu_step_inv cu_step_post)


text \<open>
  C2: Whatever the input, a path that \<open>ngx_http_parse_complex_uri\<close> accepts starts with a slash,
  has no "." or ".." between two slashes (so no directory part of it leads upwards) and, with
  \<open>merge_slashes\<close>, no two slashes in a row; it is no longer than the bytes it was made from, so
  the block allocated for it is large enough; and the extension is what follows the last dot of
  the last segment.
\<close>

theorem complex_uri_safe:
  assumes "ngx_http_parse_complex_uri mem r ms = Some c"
    and "r_uri_start r = Some us" "r_uri_end r = Some ue" "us < ue" "ue \<le> length mem"
    and "mem ! us = chr CHR ''/''"
  shows "cr_uri c \<noteq> [] \<and> hd (cr_uri c) = chr CHR ''/'' \<and> no_dot_segment ms (cr_uri c) \<and>
    length (cr_uri c) \<le> ue - us \<and>
    (\<forall>x. cr_exten c = Some x \<longrightarrow> (\<exists>a. cr_uri c = a @ chr CHR ''.'' # x) \<and>
       chr CHR ''.'' \<notin> set x \<and> chr CHR ''/'' \<notin> set x)"
proof -
  let ?s = "(CU cu_sw_usual, cu_init r)"
  obtain q x where qx: "byte_loop (cu_step ms) mem us ue ?s = (q, x)" by fastforce
  have inv: "cu_inv ms mem us us ?s"
    using assms(6) by (simp add: cu_inv_def cu_init_def cu_clean_def cu_ext_ok_def no_dot_segment_def
        occurs_def ends_def bytes_def)
  have loop: "case x of Next s' \<Rightarrow> cu_inv ms mem us q s' | Stop e s' \<Rightarrow> cu_post ms us q e s'"
    using cui.loop_inv [OF inv _ assms(5) qx] assms(4) by simp
  have q: "us \<le> q" "case x of Next _ \<Rightarrow> q = ue | Stop _ _ \<Rightarrow> q < ue"
    using byte_loop_pos [OF qx] assms(4) by simp_all
  obtain st l args where c: "c = cu_finish l (fst args) (snd args)"
      and x: "x = Next (st, l) \<or> (\<exists>e. e \<noteq> CU_invalid \<and> x = Stop e (st, l))"
    using assms(1-3) qx
    by (auto simp: ngx_http_parse_complex_uri_def Let_def split: outcome.splits cu_exit.splits option.splits)
  have res: "no_dot_segment ms (cu_u l)" "cu_rooted (cu_u l)" "us + length (cu_u l) \<le> ue" "\<exists>q. cu_ext_ok q l"
    using x loop q assms(4)
    by (auto simp: cu_inv_def cu_post_def cu_clean_def split: prod.splits if_splits)
  have "\<exists>a. cu_u l = a @ 46 # drop e (cu_u l)" if "cu_uri_ext l = Some e" for e
  proof -
    have e: "0 < e" "e \<le> length (cu_u l)" "cu_u l ! (e - 1) = 46" using res(4) that by (auto simp: cu_ext_ok_def)
    then have "cu_u l = take (e - 1) (cu_u l) @ 46 # drop e (cu_u l)"
      using id_take_nth_drop [of "e - 1" "cu_u l"] by simp
    then show ?thesis by blast
  qed
  with res show ?thesis
    by (auto simp: c cu_finish_def cu_rooted_def cu_ext_ok_def)
qed

theorem complex_uri_safe_witness:
  "\<exists>c. ngx_http_parse_complex_uri (bytes ''/a/./b%2Fc.d/..'')
      (ngx_http_create_request\<lparr>r_uri_start := Some 0, r_uri_end := Some 15\<rparr>) True = Some c \<and>
    cr_uri c = bytes ''/a/b/c.d/..'' \<and> no_dot_segment True (cr_uri c)"
proof -
  let ?r = "ngx_http_create_request\<lparr>r_uri_start := Some 0, r_uri_end := Some 15\<rparr>"
  have "map_option cr_uri (ngx_http_parse_complex_uri (bytes ''/a/./b%2Fc.d/..'') ?r True) = Some (bytes ''/a/b/c.d/..'')"
    by (simp add: bytes_def ngx_http_parse_complex_uri_def cu_init_def byte_loop.simps cu_step_def step_simps
        is_usual_iff is_digit_def is_hexalpha20_def lower20_def cu_finish_def Let_def)
  then obtain c where c: "ngx_http_parse_complex_uri (bytes ''/a/./b%2Fc.d/..'') ?r True = Some c"
      "cr_uri c = bytes ''/a/b/c.d/..''" by auto
  have "no_dot_segment True (cr_uri c)"
    using complex_uri_safe [OF c(1), of 0 15] by (simp add: bytes_def)
  with c show ?thesis by blast
qed

text \<open>
  An escape that the end of the target cuts off, "%" or "%" with one digit, is not refused
  but dropped: the result is that of the path before it.
\<close>

theorem complex_uri_truncated_escape:
  assumes "\<forall>t\<in>set ts. char_ok t"
    and "map char_val ts = dir_path ss @ s" and "\<forall>x\<in>set ss. 47 \<notin> set x" and "47 \<notin> set s"
    and "ms \<or> [] \<notin> set ss"
    and "h = [] \<or> (\<exists>d. h = [d] \<and> (is_digit d \<or> is_hexalpha20 d))"
    and "mem = pre @ concat (map print_char ts) @ (chr CHR ''%'' # h) @ rest"
    and "r_uri_start r = Some (length pre)"
    and "r_uri_end r = Some (length pre + length (concat (map print_char ts)) + length (chr CHR ''%'' # h))"
  shows "map_option cr_uri (ngx_http_parse_complex_uri mem r ms) =
    map_option (\<lambda>ds. dir_path ds @ s) (norm_segs [] ss)"
proof -
  have "tail_quiet ms (chr CHR ''%'' # h)" using assms(6) by (auto intro: tail_quiet_cases)
  from complex_uri_result [OF assms(1-5) this assms(7-9)] show ?thesis .
qed

theorem complex_uri_truncated_escape_witness:
  "map_option cr_uri (ngx_http_parse_complex_uri (bytes ''/a%2'')
     (ngx_http_create_request\<lparr>r_uri_start := Some 0, r_uri_end := Some 4\<rparr>) True) = Some (bytes ''/a'')"
proof -
  have "map_option cr_uri (ngx_http_parse_complex_uri (bytes ''/a%2'')
     (ngx_http_create_request\<lparr>r_uri_start := Some 0, r_uri_end := Some 4\<rparr>) True) =
     map_option (\<lambda>ds. dir_path ds @ bytes ''a'') (norm_segs [] [])"
  proof (rule complex_uri_truncated_escape [where ts = "[Raw 47, Raw 97]" and h = "[50]" and pre = "[]" and rest = "[]"])
    show "[50 :: u8] = [] \<or> (\<exists>d. [50] = [d] \<and> (is_digit d \<or> is_hexalpha20 d))" by (simp add: is_digit_def)
  qed (simp_all add: bytes_def dir_path_def)
  then show ?thesis by (simp add: bytes_def dir_path_def)
qed

end
