(* ===== verification/Http_Status_Line.thy ===== *)
theory Http_Status_Line
  imports Http_Types Buffer_Feed
begin

text \<open>
  \<open>ngx_http_parse_status_line\<close> (\<open>src/http/ngx_http_parse.c\<close>): the first line of an upstream's
  response, "HTTP/x.y code text CRLF".
\<close>

datatype sl_state =
    sl_sw_start | sl_sw_H | sl_sw_HT | sl_sw_HTT | sl_sw_HTTP | sl_sw_first_major_digit
  | sl_sw_major_digit | sl_sw_first_minor_digit | sl_sw_minor_digit | sl_sw_status
  | sl_sw_space_after_status | sl_sw_status_text | sl_sw_almost_done

datatype sl_exit = SL_done | SL_error

text \<open>\<open>ngx_http_status_t\<close> (\<open>src/http/ngx_http.h\<close>)\<close>

record ngx_http_status_t =
  s_http_version :: u64
  s_code :: u64
  s_count :: u64
  s_start :: "ptr option"
  s_end :: "ptr option"

text \<open>What the function works on: \<open>*r\<close>, of which it uses the two version fields, and \<open>*status\<close>.\<close>

record sl_locals =
  sl_r :: ngx_http_request_t
  sl_status :: ngx_http_status_t

type_synonym sl_loc = "sl_state \<times> sl_locals"
type_synonym sl_outcome = "(sl_loc, sl_exit) outcome"

definition sl_expect :: "u8 \<Rightarrow> u8 \<Rightarrow> sl_state \<Rightarrow> sl_state \<Rightarrow> sl_locals \<Rightarrow> sl_outcome" where
  "sl_expect c ch st st' l = (if ch = c then Next (st', l) else Stop SL_error (st, l))"

definition sl_first_major_digit :: "u8 \<Rightarrow> sl_locals \<Rightarrow> sl_outcome" where
  "sl_first_major_digit ch l =
    (if ch < chr CHR ''1'' \<or> ch > chr CHR ''9'' then Stop SL_error (sl_sw_first_major_digit, l)
     else Next (sl_sw_major_digit, l\<lparr>sl_r := (sl_r l)\<lparr>r_http_major := ucast ch - 48\<rparr>\<rparr>))"

definition sl_major_digit :: "u8 \<Rightarrow> sl_locals \<Rightarrow> sl_outcome" where
  "sl_major_digit ch l =
    (if ch = chr CHR ''.'' then Next (sl_sw_first_minor_digit, l)
     else if ch < chr CHR ''0'' \<or> ch > chr CHR ''9'' then Stop SL_error (sl_sw_major_digit, l)
     else Next (sl_sw_major_digit, l\<lparr>sl_r := (sl_r l)\<lparr>r_http_major := r_http_major (sl_r l) * 10 + ucast ch - 48\<rparr>\<rparr>))"

definition sl_first_minor_digit :: "u8 \<Rightarrow> sl_locals \<Rightarrow> sl_outcome" where
  "sl_first_minor_digit ch l =
    (if ch < chr CHR ''0'' \<or> ch > chr CHR ''9'' then Stop SL_error (sl_sw_first_minor_digit, l)
     else Next (sl_sw_minor_digit, l\<lparr>sl_r := (sl_r l)\<lparr>r_http_minor := ucast ch - 48\<rparr>\<rparr>))"

definition sl_minor_digit :: "u8 \<Rightarrow> sl_locals \<Rightarrow> sl_outcome" where
  "sl_minor_digit ch l =
    (if ch = SP then Next (sl_sw_status, l)
     else if ch < chr CHR ''0'' \<or> ch > chr CHR ''9'' then Stop SL_error (sl_sw_minor_digit, l)
     else Next (sl_sw_minor_digit, l\<lparr>sl_r := (sl_r l)\<lparr>r_http_minor := r_http_minor (sl_r l) * 10 + ucast ch - 48\<rparr>\<rparr>))"

text \<open>\<open>status->code = status->code * 10 + ch - '0'; if (++status->count == 3) ...\<close>\<close>

definition sl_status_digit :: "ptr \<Rightarrow> u8 \<Rightarrow> sl_locals \<Rightarrow> sl_outcome" where
  "sl_status_digit p ch l =
    (if ch = SP then Next (sl_sw_status, l)
     else if ch < chr CHR ''0'' \<or> ch > chr CHR ''9'' then Stop SL_error (sl_sw_status, l)
     else
       let s = (sl_status l)\<lparr>s_code := s_code (sl_status l) * 10 + ucast ch - 48,
                             s_count := s_count (sl_status l) + 1\<rparr> in
       if s_count s = 3
       then Next (sl_sw_space_after_status, l\<lparr>sl_status := s\<lparr>s_start := Some (p - 2)\<rparr>\<rparr>)
       else Next (sl_sw_status, l\<lparr>sl_status := s\<rparr>))"

definition sl_space_after_status :: "u8 \<Rightarrow> sl_locals \<Rightarrow> sl_outcome" where
  "sl_space_after_status ch l =
    (if ch = SP then Next (sl_sw_status_text, l)
     else if ch = chr CHR ''.'' then Next (sl_sw_status_text, l)
     else if ch = CR then Next (sl_sw_almost_done, l)
     else if ch = LF then Stop SL_done (sl_sw_space_after_status, l)
     else Stop SL_error (sl_sw_space_after_status, l))"

definition sl_status_text :: "u8 \<Rightarrow> sl_locals \<Rightarrow> sl_outcome" where
  "sl_status_text ch l =
    (if ch = CR then Next (sl_sw_almost_done, l)
     else if ch = LF then Stop SL_done (sl_sw_status_text, l)
     else Next (sl_sw_status_text, l))"

definition sl_almost_done :: "ptr \<Rightarrow> u8 \<Rightarrow> sl_locals \<Rightarrow> sl_outcome" where
  "sl_almost_done p ch l =
    (let l = l\<lparr>sl_status := (sl_status l)\<lparr>s_end := Some (p - 1)\<rparr>\<rparr> in
     if ch = LF then Stop SL_done (sl_sw_almost_done, l)
     else Stop SL_error (sl_sw_almost_done, l))"

fun sl_case :: "sl_state \<Rightarrow> ptr \<Rightarrow> u8 \<Rightarrow> sl_locals \<Rightarrow> sl_outcome" where
  "sl_case sl_sw_start p ch l = sl_expect (chr CHR ''H'') ch sl_sw_start sl_sw_H l"
| "sl_case sl_sw_H p ch l = sl_expect (chr CHR ''T'') ch sl_sw_H sl_sw_HT l"
| "sl_case sl_sw_HT p ch l = sl_expect (chr CHR ''T'') ch sl_sw_HT sl_sw_HTT l"
| "sl_case sl_sw_HTT p ch l = sl_expect (chr CHR ''P'') ch sl_sw_HTT sl_sw_HTTP l"
| "sl_case sl_sw_HTTP p ch l = sl_expect (chr CHR ''/'') ch sl_sw_HTTP sl_sw_first_major_digit l"
| "sl_case sl_sw_first_major_digit p ch l = sl_first_major_digit ch l"
| "sl_case sl_sw_major_digit p ch l = sl_major_digit ch l"
| "sl_case sl_sw_first_minor_digit p ch l = sl_first_minor_digit ch l"
| "sl_case sl_sw_minor_digit p ch l = sl_minor_digit ch l"
| "sl_case sl_sw_status p ch l = sl_status_digit p ch l"
| "sl_case sl_sw_space_after_status p ch l = sl_space_after_status ch l"
| "sl_case sl_sw_status_text p ch l = sl_status_text ch l"
| "sl_case sl_sw_almost_done p ch l = sl_almost_done p ch l"

definition sl_step :: "memory \<Rightarrow> ptr \<Rightarrow> sl_loc \<Rightarrow> sl_outcome" where
  "sl_step mem p s = sl_case (fst s) p (mem ! p) (snd s)"

text \<open>The code at the label \<open>done\<close>.\<close>

definition sl_finish :: "ptr \<Rightarrow> sl_locals \<Rightarrow> sl_locals" where
  "sl_finish p l =
    (let s = sl_status l;
         s = (if s_end s = None then s\<lparr>s_end := Some p\<rparr> else s)
     in l\<lparr>sl_status := s\<lparr>s_http_version := ucast (r_http_major (sl_r l)) * 1000 + ucast (r_http_minor (sl_r l))\<rparr>\<rparr>)"

definition ngx_http_parse_status_line ::
  "sl_state \<Rightarrow> ngx_http_request_t \<Rightarrow> ngx_buf_t \<Rightarrow> ngx_http_status_t
   \<Rightarrow> ngx_rc \<times> sl_state \<times> ngx_http_request_t \<times> ngx_buf_t \<times> ngx_http_status_t" where
  "ngx_http_parse_status_line st r b status =
    (case byte_loop sl_step (buf_mem b) (buf_pos b) (buf_last b)
        (st, \<lparr>sl_r = r, sl_status = status\<rparr>) of
       (p, Next (st', l)) \<Rightarrow> (NGX_AGAIN, st', sl_r l, b\<lparr>buf_pos := p\<rparr>, sl_status l)
     | (p, Stop SL_done (st', l)) \<Rightarrow>
         (NGX_OK, sl_sw_start, sl_r l, b\<lparr>buf_pos := p + 1\<rparr>, sl_status (sl_finish p l))
     | (p, Stop SL_error (st', l)) \<Rightarrow> (NGX_ERROR, st, sl_r l, b, sl_status l))"

lemmas [step_simps] =
  sl_expect_def sl_first_major_digit_def sl_major_digit_def sl_first_minor_digit_def
  sl_minor_digit_def sl_status_digit_def sl_space_after_status_def sl_status_text_def
  sl_almost_done_def

subsection \<open>The contract of the loop\<close>

text \<open>
  The number of digits read goes with the state; the code is below \<open>10 ^ count\<close>; the saved
  pointers are below the current byte.
\<close>

fun sl_inv :: "ptr \<Rightarrow> sl_loc \<Rightarrow> bool" where
  "sl_inv p (st, l) \<longleftrightarrow> s_end (sl_status l) = None \<and>
    unat (s_code (sl_status l)) < 10 ^ unat (s_count (sl_status l)) \<and>
    (if st = sl_sw_space_after_status \<or> st = sl_sw_status_text \<or> st = sl_sw_almost_done
     then s_count (sl_status l) = 3 \<and> (\<exists>a. s_start (sl_status l) = Some a \<and> a + 3 \<le> p \<and>
            (st \<noteq> sl_sw_space_after_status \<longrightarrow> a + 4 \<le> p))
     else if st = sl_sw_status
     then unat (s_count (sl_status l)) < 3 \<and> unat (s_count (sl_status l)) + 5 \<le> p
     else s_count (sl_status l) = 0 \<and>
       (st = sl_sw_H \<longrightarrow> 1 \<le> p) \<and> (st = sl_sw_HT \<longrightarrow> 2 \<le> p) \<and> (st = sl_sw_HTT \<longrightarrow> 3 \<le> p) \<and>
       (st = sl_sw_HTTP \<longrightarrow> 4 \<le> p) \<and>
       (st \<in> {sl_sw_first_major_digit, sl_sw_major_digit, sl_sw_first_minor_digit, sl_sw_minor_digit}
          \<longrightarrow> 5 \<le> p))"

definition sl_post :: "ptr \<Rightarrow> sl_exit \<Rightarrow> sl_loc \<Rightarrow> bool" where
  "sl_post p x s \<longleftrightarrow> (x = SL_done \<longrightarrow>
     (let u = sl_status (snd s) in unat (s_code u) < 1000 \<and> s_count u = 3 \<and>
        (\<exists>a. s_start u = Some a \<and> a + 3 \<le> p \<and>
           (\<forall>e. s_end u = Some e \<longrightarrow> a + 3 \<le> e \<and> e < p))))"

lemma sl_step_local: "p < length mem \<Longrightarrow> sl_step (mem @ rest) p s = sl_step mem p s"
  by (simp add: sl_step_def nth_append)

lemma sl_count_step:
  assumes "unat (c::u64) < 10 ^ unat (n::u64)" and "unat n < 3" and "is_digit ch"
  shows "unat (c * 10 + ucast ch - 48) < 10 ^ unat (n + 1)" and "unat (n + 1) = Suc (unat n)"
proof -
  show n: "unat (n + 1) = Suc (unat n)"
    using assms(2) by (simp add: unat_word_ariths)
  have c: "unat c < 100"
  proof -
    have "unat n = 0 \<or> unat n = 1 \<or> unat n = 2" using assms(2) by auto
    then show ?thesis using assms(1) by auto
  qed
  have "unat (c * 10 + ucast ch - 48) = unat c * 10 + (unat ch - 48)"
  proof -
    have "c * 10 + ucast ch - 48 = of_nat (unat c * 10 + (unat ch - 48))"
      using digit_facts [OF assms(3)] by (simp add: of_nat_diff)
    moreover have "unat (of_nat (unat c * 10 + (unat ch - 48)) :: u64) = unat c * 10 + (unat ch - 48)"
      using c digit_facts [OF assms(3)] by (intro unat_of_nat_u64) simp
    ultimately show ?thesis by (simp only:)
  qed
  then show "unat (c * 10 + ucast ch - 48) < 10 ^ unat (n + 1)"
    using n assms(1) digit_facts [OF assms(3)] by simp
qed

lemma sl_step_inv:
  assumes "sl_inv p s" and "sl_step mem p s = Next s'"
  shows "sl_inv (Suc p) s'"
proof -
  obtain st l where s: "s = (st, l)" by (cases s)
  show ?thesis
  proof (cases "st = sl_sw_status")
    case True
    let ?u = "sl_status l"
    have inv: "s_end ?u = None" "unat (s_code ?u) < 10 ^ unat (s_count ?u)" "unat (s_count ?u) < 3"
      "unat (s_count ?u) + 5 \<le> p"
      using assms(1) True s by auto
    show ?thesis
    proof (cases "mem ! p = SP")
      case True
      with assms s \<open>st = sl_sw_status\<close> show ?thesis
        by (auto simp: sl_step_def sl_status_digit_def)
    next
      case False
      with assms(2) s \<open>st = sl_sw_status\<close> have d: "is_digit (mem ! p)"
        by (auto simp: sl_step_def sl_status_digit_def is_digit_def not_less split: if_splits)
      note c = sl_count_step [OF inv(2,3) d]
      have n3: "s_count ?u + 1 = 3 \<longleftrightarrow> Suc (unat (s_count ?u)) = 3"
        using c(2) by (simp add: word_unat_eq_iff)
      show ?thesis
        using assms(2) s \<open>st = sl_sw_status\<close> inv False digit_facts [OF d] c n3
        by (auto simp: sl_step_def sl_status_digit_def Let_def split: if_splits)
    qed
  next
    case False
    with assms show ?thesis unfolding s
      by (cases st) (auto simp: sl_step_def step_simps Let_def split: if_splits)
  qed
qed

lemma sl_step_post:
  assumes "sl_inv p s" and "sl_step mem p s = Stop x s'"
  shows "sl_post p x s'"
proof -
  obtain st l where s: "s = (st, l)" by (cases s)
  show ?thesis
    using assms unfolding s sl_post_def
    by (cases st) (auto simp: sl_step_def step_simps Let_def split: if_splits)
qed


declare sl_inv.simps [simp del]

interpretation sl: byte_parser sl_step sl_inv sl_post
  by unfold_locales (auto intro: sl_step_local sl_step_inv sl_step_post)

text \<open>What \<open>ngx_http_proxy_process_status_line\<close> looks at after a call.\<close>

type_synonym sl_saved = "sl_state \<times> ngx_http_request_t \<times> ngx_http_status_t"

definition sl_call :: "sl_saved \<Rightarrow> ngx_buf_t \<Rightarrow> ngx_rc \<times> sl_saved \<times> ngx_buf_t" where
  "sl_call s b = (case s of (st, r, u) \<Rightarrow>
     (case ngx_http_parse_status_line st r b u of (rc, st', r', b', u') \<Rightarrow> (rc, (st', r', u'), b')))"

fun sl_view :: "ngx_rc \<times> sl_saved \<times> ngx_buf_t
    \<Rightarrow> ngx_rc \<times> ngx_http_request_t \<times> ngx_http_status_t \<times> (sl_state \<times> ptr) option" where
  "sl_view (rc, (st, r, u), b) = (rc, r, u, if rc = NGX_ERROR then None else Some (st, buf_pos b))"

fun sl_stop_view :: "ptr \<Rightarrow> sl_exit \<Rightarrow> sl_loc
    \<Rightarrow> ngx_rc \<times> ngx_http_request_t \<times> ngx_http_status_t \<times> (sl_state \<times> ptr) option" where
  "sl_stop_view p SL_done (st, l) =
     (NGX_OK, sl_r l, sl_status (sl_finish p l), Some (sl_sw_start, p + 1))"
| "sl_stop_view p SL_error (st, l) = (NGX_ERROR, sl_r l, sl_status l, None)"

definition sl_load :: "sl_saved \<Rightarrow> sl_loc" where
  "sl_load s = (case s of (st, r, u) \<Rightarrow> (st, \<lparr>sl_r = r, sl_status = u\<rparr>))"

definition sl_save :: "sl_loc \<Rightarrow> sl_saved" where
  "sl_save s = (case s of (st, l) \<Rightarrow> (st, sl_r l, sl_status l))"

interpretation slp: resumable_parser sl_step sl_inv sl_post sl_call sl_load sl_save sl_view sl_stop_view
proof
  fix b :: ngx_buf_t and s p x s'
  {
    assume "byte_loop sl_step (buf_mem b) (buf_pos b) (buf_last b) (sl_load s) = (p, Next s')"
    then show "sl_call s b = (NGX_AGAIN, sl_save s', b\<lparr>buf_pos := p\<rparr>)"
      by (cases s; cases s') (simp add: sl_call_def ngx_http_parse_status_line_def sl_load_def sl_save_def)
  next
    assume "byte_loop sl_step (buf_mem b) (buf_pos b) (buf_last b) (sl_load s) = (p, Stop x s')"
    then show "fst (sl_call s b) \<noteq> NGX_AGAIN \<and> sl_view (sl_call s b) = sl_stop_view p x s'"
      by (cases s; cases s'; cases x) (simp_all add: sl_call_def ngx_http_parse_status_line_def sl_load_def)
  }
qed (auto simp: sl_load_def sl_save_def)

text \<open>The status structure starts zeroed.\<close>

definition status_zero :: ngx_http_status_t where
  "status_zero = \<lparr>s_http_version = 0, s_code = 0, s_count = 0, s_start = None, s_end = None\<rparr>"

lemma sl_inv_start: "sl_inv p (sl_load (sl_sw_start, r, status_zero))"
  by (simp add: sl_inv.simps sl_load_def status_zero_def)

subsection \<open>Reading back a status line\<close>

definition print_status_line :: "u8 list \<Rightarrow> u8 list \<Rightarrow> u8 list \<Rightarrow> u8 list \<Rightarrow> u8 list" where
  "print_status_line ma mi code txt =
     bytes ''HTTP/'' @ ma @ chr CHR ''.'' # mi @ SP # code @ SP # txt @ [CR, LF]"


abbreviation sl_list :: "ptr \<Rightarrow> u8 list \<Rightarrow> sl_loc \<Rightarrow> ptr \<times> sl_outcome" where
  "sl_list \<equiv> list_loop (\<lambda>p ch s. sl_case (fst s) p ch (snd s))"

lemma sl_scan_major:
  assumes "\<forall>c\<in>set ds. is_digit c" and "r_http_major (sl_r l) = of_nat (dec_val es)"
  shows "sl_list p (ds @ ys) (sl_sw_major_digit, l) = sl_list (p + length ds) ys
      (sl_sw_major_digit, l\<lparr>sl_r := (sl_r l)\<lparr>r_http_major := of_nat (dec_val (es @ ds))\<rparr>\<rparr>)"
  using list_loop_scan [OF assms(1), where ys = ys and p = p and f = "\<lambda>p ch s. sl_case (fst s) p ch (snd s)"
     and g = "\<lambda>as. (sl_sw_major_digit, l\<lparr>sl_r := (sl_r l)\<lparr>r_http_major := of_nat (dec_val (es @ as))\<rparr>\<rparr>)"]
  by (simp add: sl_major_digit_def digit_facts dec_val_step assms(2) [symmetric])

lemma sl_scan_minor:
  assumes "\<forall>c\<in>set ds. is_digit c" and "r_http_minor (sl_r l) = of_nat (dec_val es)"
  shows "sl_list p (ds @ ys) (sl_sw_minor_digit, l) = sl_list (p + length ds) ys
      (sl_sw_minor_digit, l\<lparr>sl_r := (sl_r l)\<lparr>r_http_minor := of_nat (dec_val (es @ ds))\<rparr>\<rparr>)"
  using list_loop_scan [OF assms(1), where ys = ys and p = p and f = "\<lambda>p ch s. sl_case (fst s) p ch (snd s)"
     and g = "\<lambda>as. (sl_sw_minor_digit, l\<lparr>sl_r := (sl_r l)\<lparr>r_http_minor := of_nat (dec_val (es @ as))\<rparr>\<rparr>)"]
  by (simp add: sl_minor_digit_def digit_facts dec_val_step assms(2) [symmetric])

lemma sl_scan_text:
  assumes "\<forall>c\<in>set txt. c \<noteq> CR \<and> c \<noteq> LF"
  shows "sl_list p (txt @ ys) (sl_sw_status_text, l) = sl_list (p + length txt) ys (sl_sw_status_text, l)"
  by (rule list_loop_scan [OF assms]) (simp add: sl_status_text_def)

lemma sl_first_digits:
  assumes "is_digit c"
  shows "c \<noteq> 48 \<Longrightarrow> sl_case sl_sw_first_major_digit p c l =
      Next (sl_sw_major_digit, l\<lparr>sl_r := (sl_r l)\<lparr>r_http_major := of_nat (dec_val [c])\<rparr>\<rparr>)"
    and "sl_case sl_sw_first_minor_digit p c l =
      Next (sl_sw_minor_digit, l\<lparr>sl_r := (sl_r l)\<lparr>r_http_minor := of_nat (dec_val [c])\<rparr>\<rparr>)"
proof -
  have "\<not> c < 49" if "c \<noteq> 48"
    using that digit_facts(8) [OF assms] by (simp add: word_less_nat_alt word_unat_eq_iff)
  then show "c \<noteq> 48 \<Longrightarrow> sl_case sl_sw_first_major_digit p c l =
      Next (sl_sw_major_digit, l\<lparr>sl_r := (sl_r l)\<lparr>r_http_major := of_nat (dec_val [c])\<rparr>\<rparr>)"
    using digit_facts [OF assms] by (simp add: sl_first_major_digit_def dec_val_single [OF assms])
  show "sl_case sl_sw_first_minor_digit p c l =
      Next (sl_sw_minor_digit, l\<lparr>sl_r := (sl_r l)\<lparr>r_http_minor := of_nat (dec_val [c])\<rparr>\<rparr>)"
    using digit_facts [OF assms] by (simp add: sl_first_minor_digit_def dec_val_single [OF assms])
qed

lemma sl_scan_version:
  assumes "version_digits ma mi"
  shows "sl_list p (bytes ''HTTP/'' @ ma @ 46 # mi @ ys) (sl_sw_start, l) =
    sl_list (p + 6 + length ma + length mi) ys (sl_sw_minor_digit,
      l\<lparr>sl_r := (sl_r l)\<lparr>r_http_major := of_nat (dec_val ma), r_http_minor := of_nat (dec_val mi)\<rparr>\<rparr>)"
proof -
  obtain m ma' n mi' where c: "ma = m # ma'" "mi = n # mi'"
    using assms by (cases ma; cases mi) (auto simp: version_digits_def)
  with assms have d: "is_digit m" "m \<noteq> 48" "\<forall>c\<in>set ma'. is_digit c" "is_digit n" "\<forall>c\<in>set mi'. is_digit c"
    by (auto simp: version_digits_def)
  show ?thesis
    unfolding c using sl_scan_major [OF d(3), where es = "[m]"] sl_scan_minor [OF d(5), where es = "[n]"]
    by (simp add: bytes_def sl_expect_def sl_first_digits(1) [OF d(1) d(2)] sl_first_digits(2) [OF d(4)]
        sl_major_digit_def eval_nat_numeral del: sl_case.simps(6,8))
qed


lemma sl_scan_status:
  assumes "is_digit a" "is_digit b" "is_digit c" and "s_count (sl_status l) = 0" "s_code (sl_status l) = 0"
  shows "sl_list p (a # b # c # ys) (sl_sw_status, l) = sl_list (p + 3) ys (sl_sw_space_after_status,
      l\<lparr>sl_status := (sl_status l)\<lparr>s_code := of_nat (dec_val [a, b, c]), s_count := 3, s_start := Some p\<rparr>\<rparr>)"
  using digit_facts [OF assms(1)] digit_facts [OF assms(2)] digit_facts [OF assms(3)] assms(4,5)
    dec_val_step [OF assms(3), of "[a, b]", where 'a = 64] dec_val_step [OF assms(2), of "[a]", where 'a = 64]
    dec_val_single [OF assms(1), where 'a = 64]
  by (simp add: sl_status_digit_def Let_def eval_nat_numeral)

text \<open>
  A status line written out with any version number, a code of three digits and any text
  without line breaks is accepted: the code and the version are those written (the version as
  16-bit fields make it), the saved pointers delimit "code text", and the buffer is left after
  the line feed.
\<close>

theorem status_line_roundtrip:
  assumes "version_digits ma mi" and "is_digit c1" "is_digit c2" "is_digit c3"
    and "\<forall>c\<in>set txt. c \<noteq> CR \<and> c \<noteq> LF"
    and "mem = print_status_line ma mi [c1, c2, c3] txt @ rest"
    and "b = \<lparr>buf_mem = mem, buf_pos = 0, buf_last = length mem\<rparr>"
  shows "\<exists>r' u. ngx_http_parse_status_line sl_sw_start r b status_zero =
      (NGX_OK, sl_sw_start, r', b\<lparr>buf_pos := length (print_status_line ma mi [c1, c2, c3] txt)\<rparr>, u) \<and>
    s_code u = of_nat (dec_val [c1, c2, c3]) \<and> s_http_version u = of_nat (version_value ma mi) \<and>
    seg mem (the (s_start u)) (the (s_end u)) = c1 # c2 # c3 # SP # txt"
proof -
  let ?l = "\<lparr>sl_r = r, sl_status = status_zero\<rparr>"
  let ?n = "6 + length ma + length mi"
  have tail: "print_status_line ma mi [c1, c2, c3] txt @ rest =
      bytes ''HTTP/'' @ ma @ 46 # mi @ (SP # c1 # c2 # c3 # SP # txt @ CR # LF # rest)"
    by (simp add: print_status_line_def)
  have "byte_loop sl_step mem 0 (length mem) (sl_sw_start, ?l) = sl_list 0 mem (sl_sw_start, ?l)"
    using byte_loop_list [of sl_step mem "\<lambda>p ch s. sl_case (fst s) p ch (snd s)" 0] by (simp add: sl_step_def)
  also have "\<dots> = (?n + 6 + length txt, Stop SL_done (sl_sw_almost_done,
    \<lparr>sl_r = r\<lparr>r_http_major := of_nat (dec_val ma), r_http_minor := of_nat (dec_val mi)\<rparr>,
     sl_status = \<lparr>s_http_version = 0, s_code = of_nat (dec_val [c1, c2, c3]), s_count = 3,
       s_start = Some (?n + 1), s_end = Some (?n + 5 + length txt)\<rparr>\<rparr>))"
    unfolding assms(6) tail sl_scan_version [OF assms(1)] list_loop.simps(2) [of _ _ SP]
    by (simp add: sl_minor_digit_def sl_scan_status [OF assms(2-4)] status_zero_def del: list_loop.simps)
     (simp add: sl_space_after_status_def sl_scan_text [OF assms(5)] sl_status_text_def sl_almost_done_def)
  finally have loop: "byte_loop sl_step mem 0 (length mem) (sl_sw_start, ?l) = \<dots>" .
  have mem: "mem = (bytes ''HTTP/'' @ ma @ 46 # mi @ [SP]) @ (c1 # c2 # c3 # SP # txt) @ CR # LF # rest"
    by (simp add: assms(6) print_status_line_def)
  have "seg mem (?n + 1) (?n + 5 + length txt) = c1 # c2 # c3 # SP # txt"
    unfolding mem by (rule seg_append_mid) simp_all
  with loop show ?thesis
    by (simp add: ngx_http_parse_status_line_def assms(7) sl_finish_def version_value_word print_status_line_def)
qed


theorem status_line_roundtrip_witness:
  "\<exists>r' u. ngx_http_parse_status_line sl_sw_start ngx_http_create_request
       \<lparr>buf_mem = bytes ''HTTP/1.1 404 Not Found'' @ [CR, LF, 65], buf_pos = 0, buf_last = 25\<rparr> status_zero =
      (NGX_OK, sl_sw_start, r',
       \<lparr>buf_mem = bytes ''HTTP/1.1 404 Not Found'' @ [CR, LF, 65], buf_pos = 24, buf_last = 25\<rparr>, u) \<and>
    s_code u = 404 \<and> s_http_version u = 1001"
proof -
  have m: "bytes ''HTTP/1.1 404 Not Found'' @ [CR, LF, 65] =
      print_status_line (bytes ''1'') (bytes ''1'') [52, 48, 52] (bytes ''Not Found'') @ [65]"
    by (simp add: print_status_line_def bytes_def)
  have v: "version_digits (bytes ''1'') (bytes ''1'')"
    by (simp add: version_digits_def bytes_def is_digit_def)
  have t: "\<forall>c\<in>set (bytes ''Not Found''). c \<noteq> CR \<and> c \<noteq> LF" by (simp add: bytes_def)
  have d: "is_digit 52" "is_digit 48" by (simp_all add: is_digit_def)
  have len: "length (bytes ''HTTP/1.1 404 Not Found'' @ [CR, LF, 65]) = 25"
    "length (print_status_line (bytes ''1'') (bytes ''1'') [52, 48, 52] (bytes ''Not Found'')) = 24"
    by (simp_all add: print_status_line_def)
  have num: "of_nat (dec_val [52, 48, 52]) = (404 :: u64)"
    "of_nat (version_value (bytes ''1'') (bytes ''1'')) = (1001 :: u64)"
    by (simp_all add: dec_val_def version_value_def bytes_def)
  show ?thesis
    using status_line_roundtrip [OF v d(1) d(2) d(1) t m refl, of ngx_http_create_request, unfolded len num]
    by auto
qed

text \<open>
  A status line is understood the same however its bytes arrive.
\<close>

theorem status_line_any_pieces:
  "run_pieces sl_call sl_view (sl_sw_start, r, status_zero) \<lparr>buf_mem = [], buf_pos = 0, buf_last = 0\<rparr> cs =
   sl_view (sl_call (sl_sw_start, r, status_zero)
     \<lparr>buf_mem = concat cs, buf_pos = 0, buf_last = length (concat cs)\<rparr>)"
  by (rule slp.pieces_irrelevant) (rule sl_inv_start)

text \<open>
  Whatever line is accepted, the code has exactly three digits (so it is below 1000) and
  the text that is handed on is at least three bytes long and lies inside the consumed part of
  the buffer. It need not start with the code, though: spaces between the digits are skipped,
  and the pointer is then set as if there had been none.
\<close>

theorem status_line_accepted:
  assumes "ngx_http_parse_status_line sl_sw_start r b status_zero = (NGX_OK, st, r', b', u)"
    and "buf_wf b"
  shows "unat (s_code u) < 1000 \<and> s_count u = 3 \<and>
    (\<exists>a e. s_start u = Some a \<and> s_end u = Some e \<and> a + 3 \<le> e \<and> e < buf_pos b' \<and> buf_pos b' \<le> buf_last b)"
proof -
  obtain q x where qx: "byte_loop sl_step (buf_mem b) (buf_pos b) (buf_last b)
      (sl_load (sl_sw_start, r, status_zero)) = (q, x)" by fastforce
  note o = slp.parse_outcome [OF sl_inv_start assms(2) qx]
  obtain st1 l where x: "x = Stop SL_done (st1, l)"
    using assms(1) qx
    by (auto simp: ngx_http_parse_status_line_def sl_load_def split: outcome.splits sl_exit.splits)
  then have "u = sl_status (sl_finish q l)" "b' = b\<lparr>buf_pos := q + 1\<rparr>"
    using assms(1) qx by (auto simp: ngx_http_parse_status_line_def sl_load_def)
  with o x show ?thesis
    by (cases "s_end (sl_status l)") (auto simp: sl_post_def sl_finish_def Let_def)
qed

theorem status_line_accepted_witness:
  "\<exists>st r' b' u. ngx_http_parse_status_line sl_sw_start ngx_http_create_request
      \<lparr>buf_mem = bytes ''HTTP/1.1 2 00'' @ [LF], buf_pos = 0, buf_last = 14\<rparr> status_zero =
      (NGX_OK, st, r', b', u) \<and> s_code u = 200 \<and> unat (s_code u) < 1000 \<and>
    seg (bytes ''HTTP/1.1 2 00'' @ [LF]) (the (s_start u)) (the (s_end u)) = bytes '' 00''"
proof -
  let ?b = "\<lparr>buf_mem = bytes ''HTTP/1.1 2 00'' @ [LF], buf_pos = 0, buf_last = 14\<rparr>"
  have wf: "buf_wf ?b" by (simp add: buf_wf_def)
  have "case ngx_http_parse_status_line sl_sw_start ngx_http_create_request ?b status_zero of
      (rc, st, r, b', u) \<Rightarrow> rc = NGX_OK \<and> s_code u = 200 \<and> s_start u = Some 10 \<and> s_end u = Some 13"
    by (simp add: bytes_def ngx_http_parse_status_line_def status_zero_def byte_loop.simps
        sl_step_def step_simps Let_def sl_finish_def)
  then obtain st r b' u where p: "ngx_http_parse_status_line sl_sw_start ngx_http_create_request ?b status_zero
      = (NGX_OK, st, r, b', u)" "s_code u = 200" "s_start u = Some 10" "s_end u = Some 13"
    by (auto split: prod.splits)
  from status_line_accepted [OF p(1) wf] p show ?thesis
    by (simp add: bytes_def seg_def)
qed

end
