(* ===== verification/Http_Chunked.thy ===== *)
theory Http_Chunked
  imports Http_Types Buffer_Feed
begin

text \<open>
  Chunked bodies: \<open>ngx_http_parse_chunked\<close> (\<open>src/http/ngx_http_parse.c\<close>), which reads the framing
  up to the data of a chunk, and its caller \<open>ngx_http_request_body_chunked_filter\<close>
  (\<open>src/http/ngx_http_request_body.c\<close>), which takes the data out of the buffers.

  \<open>ctx->size\<close> and \<open>ctx->length\<close> are of type \<open>off_t\<close>: 64 bit, signed. They are kept as words and read
  by \<^const>\<open>sint\<close> where the code compares them; the arithmetic wraps around, as it does in the
  compiled code (and as the test for negative values at the end of the function expects).
\<close>

datatype ck_state =
    ck_sw_chunk_start | ck_sw_chunk_size | ck_sw_chunk_extension
  | ck_sw_chunk_extension_almost_done | ck_sw_chunk_data | ck_sw_after_data
  | ck_sw_after_data_almost_done | ck_sw_last_chunk_extension
  | ck_sw_last_chunk_extension_almost_done | ck_sw_trailer | ck_sw_trailer_almost_done
  | ck_sw_trailer_header | ck_sw_trailer_header_almost_done

datatype ck_exit = CK_data | CK_done | CK_invalid

type_synonym ck_loc = "ck_state \<times> u64"
type_synonym ck_outcome = "(ck_loc, ck_exit) outcome"

record ngx_http_chunked_t =
  ck_state_f :: ck_state  \<comment> \<open>\<open>state\<close>\<close>
  ck_size :: u64
  ck_length_f :: u64  \<comment> \<open>\<open>length\<close>\<close>

abbreviation TAB :: u8 where "TAB \<equiv> 9"

subsection \<open>The cases of the switch\<close>

definition ck_chunk_start :: "u8 \<Rightarrow> u64 \<Rightarrow> ck_outcome" where
  "ck_chunk_start ch sz =
    (if is_digit ch then Next (ck_sw_chunk_size, ucast (ch - chr CHR ''0''))
     else if is_hexalpha20 ch
     then Next (ck_sw_chunk_size, ucast (lower20 ch - chr CHR ''a'' + 10))
     else Stop CK_invalid (ck_sw_chunk_start, sz))"

definition ck_chunk_size :: "u8 \<Rightarrow> u64 \<Rightarrow> ck_outcome" where
  "ck_chunk_size ch sz =
    (if is_digit ch then Next (ck_sw_chunk_size, sz * 16 + ucast (ch - chr CHR ''0''))
     else if is_hexalpha20 ch
     then Next (ck_sw_chunk_size, sz * 16 + ucast (lower20 ch - chr CHR ''a'' + 10))
     else if sz = 0 then
       (if ch = CR then Next (ck_sw_last_chunk_extension_almost_done, sz)
        else if ch = LF then Next (ck_sw_trailer, sz)
        else if ch = chr CHR '';'' \<or> ch = SP \<or> ch = TAB then Next (ck_sw_last_chunk_extension, sz)
        else Stop CK_invalid (ck_sw_chunk_size, sz))
     else if ch = CR then Next (ck_sw_chunk_extension_almost_done, sz)
     else if ch = LF then Next (ck_sw_chunk_data, sz)
     else if ch = chr CHR '';'' \<or> ch = SP \<or> ch = TAB then Next (ck_sw_chunk_extension, sz)
     else Stop CK_invalid (ck_sw_chunk_size, sz))"

definition ck_chunk_extension :: "u8 \<Rightarrow> u64 \<Rightarrow> ck_outcome" where
  "ck_chunk_extension ch sz =
    (if ch = CR then Next (ck_sw_chunk_extension_almost_done, sz)
     else if ch = LF then Next (ck_sw_chunk_data, sz)
     else Next (ck_sw_chunk_extension, sz))"

text \<open>\<open>if (ch == LF) { state = ...; break; } goto invalid;\<close>, in five of the states.\<close>

definition ck_expect_lf :: "ck_state \<Rightarrow> ck_state \<Rightarrow> u8 \<Rightarrow> u64 \<Rightarrow> ck_outcome" where
  "ck_expect_lf st st' ch sz = (if ch = LF then Next (st', sz) else Stop CK_invalid (st, sz))"

definition ck_after_data :: "u8 \<Rightarrow> u64 \<Rightarrow> ck_outcome" where
  "ck_after_data ch sz =
    (if ch = CR then Next (ck_sw_after_data_almost_done, sz)
     else if ch = LF then Next (ck_sw_chunk_start, sz)
     else Next (ck_sw_after_data, sz))"

definition ck_last_chunk_extension :: "u8 \<Rightarrow> u64 \<Rightarrow> ck_outcome" where
  "ck_last_chunk_extension ch sz =
    (if ch = CR then Next (ck_sw_last_chunk_extension_almost_done, sz)
     else if ch = LF then Next (ck_sw_trailer, sz)
     else Next (ck_sw_last_chunk_extension, sz))"

definition ck_trailer :: "u8 \<Rightarrow> u64 \<Rightarrow> ck_outcome" where
  "ck_trailer ch sz =
    (if ch = CR then Next (ck_sw_trailer_almost_done, sz)
     else if ch = LF then Stop CK_done (ck_sw_trailer, sz)
     else Next (ck_sw_trailer_header, sz))"

definition ck_trailer_almost_done :: "u8 \<Rightarrow> u64 \<Rightarrow> ck_outcome" where
  "ck_trailer_almost_done ch sz =
    (if ch = LF then Stop CK_done (ck_sw_trailer_almost_done, sz)
     else Stop CK_invalid (ck_sw_trailer_almost_done, sz))"

definition ck_trailer_header :: "u8 \<Rightarrow> u64 \<Rightarrow> ck_outcome" where
  "ck_trailer_header ch sz =
    (if ch = CR then Next (ck_sw_trailer_header_almost_done, sz)
     else if ch = LF then Next (ck_sw_trailer, sz)
     else Next (ck_sw_trailer_header, sz))"

fun ck_case :: "ck_state \<Rightarrow> u8 \<Rightarrow> u64 \<Rightarrow> ck_outcome" where
  "ck_case ck_sw_chunk_start ch sz = ck_chunk_start ch sz"
| "ck_case ck_sw_chunk_size ch sz = ck_chunk_size ch sz"
| "ck_case ck_sw_chunk_extension ch sz = ck_chunk_extension ch sz"
| "ck_case ck_sw_chunk_extension_almost_done ch sz =
     ck_expect_lf ck_sw_chunk_extension_almost_done ck_sw_chunk_data ch sz"
| "ck_case ck_sw_chunk_data ch sz = Stop CK_data (ck_sw_chunk_data, sz)"
| "ck_case ck_sw_after_data ch sz = ck_after_data ch sz"
| "ck_case ck_sw_after_data_almost_done ch sz =
     ck_expect_lf ck_sw_after_data_almost_done ck_sw_chunk_start ch sz"
| "ck_case ck_sw_last_chunk_extension ch sz = ck_last_chunk_extension ch sz"
| "ck_case ck_sw_last_chunk_extension_almost_done ch sz =
     ck_expect_lf ck_sw_last_chunk_extension_almost_done ck_sw_trailer ch sz"
| "ck_case ck_sw_trailer ch sz = ck_trailer ch sz"
| "ck_case ck_sw_trailer_almost_done ch sz = ck_trailer_almost_done ch sz"
| "ck_case ck_sw_trailer_header ch sz = ck_trailer_header ch sz"
| "ck_case ck_sw_trailer_header_almost_done ch sz =
     ck_expect_lf ck_sw_trailer_header_almost_done ck_sw_trailer ch sz"

definition ck_step :: "memory \<Rightarrow> ptr \<Rightarrow> ck_loc \<Rightarrow> ck_outcome" where
  "ck_step mem p s = ck_case (fst s) (mem ! p) (snd s)"

subsection \<open>The function\<close>

text \<open>The switch at the label \<open>data\<close>: how many bytes the rest of the body has at least.\<close>

fun ck_length :: "ck_state \<Rightarrow> u64 \<Rightarrow> u64" where
  "ck_length ck_sw_chunk_start sz = 3"
| "ck_length ck_sw_chunk_size sz = 1 + (if sz \<noteq> 0 then sz + 4 else 1)"
| "ck_length ck_sw_chunk_extension sz = 1 + sz + 4"
| "ck_length ck_sw_chunk_extension_almost_done sz = 1 + sz + 4"
| "ck_length ck_sw_chunk_data sz = sz + 4"
| "ck_length ck_sw_after_data sz = 4"
| "ck_length ck_sw_after_data_almost_done sz = 4"
| "ck_length ck_sw_last_chunk_extension sz = 2"
| "ck_length ck_sw_last_chunk_extension_almost_done sz = 2"
| "ck_length ck_sw_trailer sz = 1"
| "ck_length ck_sw_trailer_almost_done sz = 1"
| "ck_length ck_sw_trailer_header sz = 2"
| "ck_length ck_sw_trailer_header_almost_done sz = 2"

definition ck_data :: "ngx_rc \<Rightarrow> ptr \<Rightarrow> ck_loc \<Rightarrow> ngx_buf_t \<Rightarrow> ngx_rc \<times> ngx_http_chunked_t \<times> ngx_buf_t" where
  "ck_data rc p s b =
    (let len = ck_length (fst s) (snd s) in
     (if sint (snd s) < 0 \<or> sint len < 0 then NGX_ERROR else rc,
      \<lparr>ck_state_f = fst s, ck_size = snd s, ck_length_f = len\<rparr>, b\<lparr>buf_pos := p\<rparr>))"

definition ngx_http_parse_chunked ::
  "ngx_buf_t \<Rightarrow> ngx_http_chunked_t \<Rightarrow> ngx_rc \<times> ngx_http_chunked_t \<times> ngx_buf_t" where
  "ngx_http_parse_chunked b ctx =
    (let state = (if ck_state_f ctx = ck_sw_chunk_data \<and> ck_size ctx = 0
                  then ck_sw_after_data else ck_state_f ctx) in
     case byte_loop ck_step (buf_mem b) (buf_pos b) (buf_last b) (state, ck_size ctx) of
       (p, Next s) \<Rightarrow> ck_data NGX_AGAIN p s b
     | (p, Stop CK_data s) \<Rightarrow> ck_data NGX_OK p s b
     | (p, Stop CK_done s) \<Rightarrow>
         (NGX_DONE, ctx\<lparr>ck_state_f := ck_sw_chunk_start, ck_size := snd s\<rparr>, b\<lparr>buf_pos := p + 1\<rparr>)
     | (p, Stop CK_invalid s) \<Rightarrow> (NGX_ERROR, ctx\<lparr>ck_size := snd s\<rparr>, b))"

lemmas [step_simps] =
  ck_chunk_start_def ck_chunk_size_def ck_chunk_extension_def ck_expect_lf_def ck_after_data_def
  ck_last_chunk_extension_def ck_trailer_def ck_trailer_almost_done_def ck_trailer_header_def

subsection \<open>The filter\<close>

text \<open>
  The parts of \<open>r->request_body\<close> and \<open>r->headers_in\<close> the filter keeps its state in. The buffers it
  passes on are slices of the input buffers, by their bytes; the last one is empty and has
  \<open>last_buf\<close> set. Allocation failures are not modelled, nor is the save filter that takes \<open>out\<close>.
\<close>

record ngx_http_request_body_t =
  rb_rest :: int
  rb_chunked :: ngx_http_chunked_t
  rb_content_length_n :: int

datatype out_buf = Data "u8 list" | Last_buf

datatype filter_rc = Filter_ok | HTTP_REQUEST_ENTITY_TOO_LARGE | HTTP_BAD_REQUEST

text \<open>
  The inner loop, on one buffer of the chain. It goes on as long as the parser finds data, so
  it need not end: \<open>None\<close> stands for that.
\<close>

partial_function (option) chunked_filter_buf ::
  "int \<Rightarrow> ngx_buf_t \<Rightarrow> ngx_http_request_body_t \<Rightarrow> out_buf list
   \<Rightarrow> (filter_rc \<times> ngx_http_request_body_t \<times> out_buf list) option" where
  "chunked_filter_buf max_body b rb out =
    (case ngx_http_parse_chunked b (rb_chunked rb) of (rc, ctx, b') \<Rightarrow>
     if rc = NGX_OK then
       if max_body \<noteq> 0 \<and> max_body - rb_content_length_n rb < sint (ck_size ctx)
       then Some (HTTP_REQUEST_ENTITY_TOO_LARGE, rb\<lparr>rb_chunked := ctx\<rparr>, out)
       else
         let sz = buf_last b' - buf_pos b' in
         if int sz > sint (ck_size ctx)
         then let pos = buf_pos b' + nat (sint (ck_size ctx)) in
           chunked_filter_buf max_body (b'\<lparr>buf_pos := pos\<rparr>)
             (rb\<lparr>rb_chunked := ctx\<lparr>ck_size := 0\<rparr>,
                 rb_content_length_n := rb_content_length_n rb + sint (ck_size ctx)\<rparr>)
             (out @ [Data (seg (buf_mem b') (buf_pos b') pos)])
         else
           chunked_filter_buf max_body (b'\<lparr>buf_pos := buf_last b'\<rparr>)
             (rb\<lparr>rb_chunked := ctx\<lparr>ck_size := ck_size ctx - of_nat sz\<rparr>,
                 rb_content_length_n := rb_content_length_n rb + int sz\<rparr>)
             (out @ [Data (seg (buf_mem b') (buf_pos b') (buf_last b'))])
     else if rc = NGX_DONE then Some (Filter_ok, rb\<lparr>rb_chunked := ctx, rb_rest := 0\<rparr>, out @ [Last_buf])
     else if rc = NGX_AGAIN
     then Some (Filter_ok, rb\<lparr>rb_chunked := ctx, rb_rest := sint (ck_length_f ctx)\<rparr>, out)
     else Some (HTTP_BAD_REQUEST, rb\<lparr>rb_chunked := ctx\<rparr>, out))"

fun chunked_filter_chain ::
  "int \<Rightarrow> ngx_buf_t list \<Rightarrow> ngx_http_request_body_t \<Rightarrow> out_buf list
   \<Rightarrow> (filter_rc \<times> ngx_http_request_body_t \<times> out_buf list) option" where
  "chunked_filter_chain max_body [] rb out = Some (Filter_ok, rb, out)"
| "chunked_filter_chain max_body (b # bs) rb out =
     (case chunked_filter_buf max_body b rb out of
        None \<Rightarrow> None
      | Some (rc, rb', out') \<Rightarrow>
          if rc = Filter_ok then chunked_filter_chain max_body bs rb' out' else Some (rc, rb', out'))"

definition ngx_http_request_body_chunked_filter ::
  "int \<Rightarrow> ngx_buf_t list \<Rightarrow> ngx_http_request_body_t
   \<Rightarrow> (filter_rc \<times> ngx_http_request_body_t \<times> out_buf list) option" where
  "ngx_http_request_body_chunked_filter max_body chain rb =
    chunked_filter_chain max_body chain
      (if rb_rest rb = -1
       then rb\<lparr>rb_chunked := \<lparr>ck_state_f = ck_sw_chunk_start, ck_size = 0, ck_length_f = 0\<rparr>,
               rb_content_length_n := 0, rb_rest := 3\<rparr>
       else rb) []"

subsection \<open>The bytes of a body, one by one\<close>

text \<open>
  The abstract decoder: one byte at a time, whatever buffer it lies in. \<open>Bad\<close> is an invalid
  byte or a size that is too large.
\<close>

datatype ck_run = Running ck_loc | Done "u8 list" | Bad

definition ck_bad :: "ck_loc \<Rightarrow> bool" where
  "ck_bad s \<longleftrightarrow> sint (snd s) < 0 \<or> sint (ck_length (fst s) (snd s)) < 0"

text \<open>A chunk of which no data is left is over: what the parser does first when it is called.\<close>

definition ck_norm :: "ck_loc \<Rightarrow> ck_loc" where
  "ck_norm s = (if s = (ck_sw_chunk_data, 0) then (ck_sw_after_data, 0) else s)"

fun ck_bytes :: "u8 list \<Rightarrow> ck_loc \<Rightarrow> ck_run \<times> u8 list" where
  "ck_bytes [] s = (Running s, [])"
| "ck_bytes (c # cs) (st, sz) =
     (if st = ck_sw_chunk_data
      then (case ck_bytes cs (ck_norm (st, sz - 1)) of (r, out) \<Rightarrow> (r, c # out))
      else (case ck_case st c sz of
              Next s \<Rightarrow> if ck_bad s then (Bad, []) else ck_bytes cs s
            | Stop e s \<Rightarrow> (if e = CK_done then Done cs else Bad, [])))"

lemma ck_bytes_append:
  "ck_bytes (xs @ ys) s = (case ck_bytes xs s of
      (Running s', out) \<Rightarrow> (case ck_bytes ys s' of (r, out') \<Rightarrow> (r, out @ out'))
    | (Done rest, out) \<Rightarrow> (Done (rest @ ys), out)
    | (Bad, out) \<Rightarrow> (Bad, out))"
proof (induction xs arbitrary: s)
  case (Cons c cs)
  then show ?case by (cases s) (auto split: outcome.split ck_run.split prod.splits)
qed (simp split: prod.split)

text \<open>In the states of a chunk that has data to come, the size is not 0.\<close>

definition ck_ok :: "ck_loc \<Rightarrow> bool" where
  "ck_ok s \<longleftrightarrow> \<not> ck_bad s \<and>
    (fst s \<in> {ck_sw_chunk_extension, ck_sw_chunk_extension_almost_done, ck_sw_chunk_data} \<longrightarrow> snd s \<noteq> 0)"

lemma ck_case_ok:
  assumes "ck_ok (st, sz)" and "ck_case st c sz = Next s" and "\<not> ck_bad s"
  shows "ck_ok s"
  using assms by (cases st) (auto simp: ck_ok_def step_simps split: if_splits)

lemma ck_case_stop:
  assumes "ck_case st c sz = Stop e s" and "st \<noteq> ck_sw_chunk_data"
  shows "e \<noteq> CK_data"
  using assms by (cases st) (auto simp: step_simps split: if_splits)

abbreviation ck_list :: "ptr \<Rightarrow> u8 list \<Rightarrow> ck_loc \<Rightarrow> ptr \<times> ck_outcome" where
  "ck_list \<equiv> list_loop (\<lambda>p ch s. ck_case (fst s) ch (snd s))"

text \<open>The loop of the parser reads framing bytes, up to the first byte of data.\<close>

lemma ck_list_bytes:
  assumes "ck_bytes xs s = (r, out)" and "r \<noteq> Bad" and "ck_ok s"
  obtains (again) s' where "ck_list p xs s = (p + length xs, Next s')" "r = Running s'" "out = []" "ck_ok s'"
  | (finished) k s' where "ck_list p xs s = (p + k, Stop CK_done s')" "k < length xs" "r = Done (drop (Suc k) xs)" "out = []"
  | (data) k sz where "ck_list p xs s = (p + k, Stop CK_data (ck_sw_chunk_data, sz))" "k < length xs"
      "ck_ok (ck_sw_chunk_data, sz)" "ck_bytes (drop k xs) (ck_sw_chunk_data, sz) = (r, out)"
  using assms
proof (induction xs arbitrary: p s thesis)
  case Nil
  then show ?case by auto
next
  case (Cons c cs)
  obtain st sz where s: "s = (st, sz)" by (cases s)
  show ?case
  proof (cases "st = ck_sw_chunk_data")
    case True
    with Cons.prems s show ?thesis by (intro Cons.prems(3) [of 0 sz]) auto
  next
    case False
    show ?thesis
    proof (cases "ck_case st c sz")
      case (Next s1)
      with Cons.prems(4,5) s False have 1: "ck_bytes cs s1 = (r, out)" "\<not> ck_bad s1"
        by (auto split: if_splits)
      have ok: "ck_ok s1" using ck_case_ok [OF _ Next 1(2)] Cons.prems(6) s by simp
      show ?thesis
      proof (rule Cons.IH [OF _ _ _ 1(1) Cons.prems(5) ok, of "Suc p"])
        fix s' assume "ck_list (Suc p) cs s1 = (Suc p + length cs, Next s')" "r = Running s'" "out = []" "ck_ok s'"
        with Next s show ?thesis by (intro Cons.prems(1)) simp_all
      next
        fix k s' assume "ck_list (Suc p) cs s1 = (Suc p + k, Stop CK_done s')" "k < length cs" "r = Done (drop (Suc k) cs)" "out = []"
        with Next s show ?thesis by (intro Cons.prems(2) [of "Suc k" s']) simp_all
      next
        fix k sz' assume "ck_list (Suc p) cs s1 = (Suc p + k, Stop CK_data (ck_sw_chunk_data, sz'))" "k < length cs"
          "ck_ok (ck_sw_chunk_data, sz')" "ck_bytes (drop k cs) (ck_sw_chunk_data, sz') = (r, out)"
        with Next s show ?thesis by (intro Cons.prems(3) [of "Suc k" sz']) simp_all
      qed
    next
      case (Stop e s1)
      with Cons.prems(4,5) s False have "e = CK_done" "r = Done cs" "out = []"
        by (auto split: if_splits)
      with Stop s show ?thesis by (intro Cons.prems(2) [of 0 s1]) simp_all
    qed
  qed
qed

text \<open>A block of data.\<close>

lemma ck_bytes_data:
  assumes "n \<le> length xs" and "n \<le> unat sz"
  shows "ck_bytes xs (ck_norm (ck_sw_chunk_data, sz)) =
    (case ck_bytes (drop n xs) (ck_norm (ck_sw_chunk_data, sz - of_nat n)) of (r, out) \<Rightarrow> (r, take n xs @ out))"
  using assms
proof (induction n arbitrary: xs sz)
  case 0
  then show ?case by simp
next
  case (Suc n)
  then obtain c cs where xs: "xs = c # cs" by (cases xs) auto
  have sz: "sz \<noteq> 0" using Suc.prems(2) by auto
  have "unat (sz - 1) = unat sz - 1" using sz by (simp add: unat_minus_one)
  with Suc.IH [of cs "sz - 1"] Suc.prems xs
  have "ck_bytes cs (ck_norm (ck_sw_chunk_data, sz - 1)) =
    (case ck_bytes (drop n cs) (ck_norm (ck_sw_chunk_data, sz - 1 - of_nat n)) of (r, out) \<Rightarrow> (r, take n cs @ out))"
    by simp
  moreover have "ck_norm (ck_sw_chunk_data, sz) = (ck_sw_chunk_data, sz)" using sz by (simp add: ck_norm_def)
  ultimately show ?case
    by (simp add: xs algebra_simps split: prod.split)
qed


subsection \<open>The filter decodes the body\<close>

definition ck_ctx :: "ngx_http_chunked_t \<Rightarrow> ck_loc" where
  "ck_ctx c = ck_norm (ck_state_f c, ck_size c)"

fun out_data :: "out_buf list \<Rightarrow> u8 list" where
  "out_data [] = []"
| "out_data (Data xs # os) = xs @ out_data os"
| "out_data (Last_buf # os) = out_data os"

lemma out_data_append [simp]: "out_data (xs @ ys) = out_data xs @ out_data ys"
  by (induction xs rule: out_data.induct) simp_all

abbreviation buf_bytes :: "ngx_buf_t \<Rightarrow> u8 list" where
  "buf_bytes b \<equiv> seg (buf_mem b) (buf_pos b) (buf_last b)"

lemma ck_parse_loop:
  assumes "buf_wf b"
  shows "ngx_http_parse_chunked b ctx =
    (case ck_list (buf_pos b) (buf_bytes b) (ck_ctx ctx) of
       (p, Next s) \<Rightarrow> ck_data NGX_AGAIN p s b
     | (p, Stop CK_data s) \<Rightarrow> ck_data NGX_OK p s b
     | (p, Stop CK_done s) \<Rightarrow>
         (NGX_DONE, ctx\<lparr>ck_state_f := ck_sw_chunk_start, ck_size := snd s\<rparr>, b\<lparr>buf_pos := p + 1\<rparr>)
     | (p, Stop CK_invalid s) \<Rightarrow> (NGX_ERROR, ctx\<lparr>ck_size := snd s\<rparr>, b))"
proof -
  have "byte_loop ck_step (buf_mem b) (buf_pos b) (buf_last b) s = ck_list (buf_pos b) (buf_bytes b) s" for s
    using assms by (intro byte_loop_list_lim) (simp_all add: ck_step_def buf_wf_def)
  then show ?thesis by (simp add: ngx_http_parse_chunked_def ck_ctx_def ck_norm_def Let_def)
qed

lemma ck_ok_norm: "ck_ok s \<Longrightarrow> ck_norm s = s"
  by (cases s) (auto simp: ck_norm_def ck_ok_def)

lemma ck_data_ok:
  assumes "ck_ok s"
  shows "ck_data rc p s b = (rc, \<lparr>ck_state_f = fst s, ck_size = snd s, ck_length_f = ck_length (fst s) (snd s)\<rparr>, b\<lparr>buf_pos := p\<rparr>)"
  using assms by (simp add: ck_data_def ck_ok_def ck_bad_def Let_def)

lemma ck_ok_data: "ck_ok (ck_sw_chunk_data, sz) \<longleftrightarrow> 0 < unat sz \<and> unat sz + 4 < 2 ^ 63"
  by (simp add: ck_ok_def ck_bad_def not_less sint_nonneg_u64_iff unat_plus_if' unat_gt_0) auto

lemma ck_ok_rest:
  assumes "ck_ok (ck_sw_chunk_data, sz)" and "n \<le> unat sz"
  shows "ck_ok (ck_norm (ck_sw_chunk_data, sz - of_nat n))"
proof (cases "n = unat sz")
  case True
  then show ?thesis by (simp add: ck_norm_def ck_ok_def ck_bad_def)
next
  case False
  with assms have "unat (sz - of_nat n) = unat sz - n" "0 < unat (sz - of_nat n)"
    by (simp_all add: unat_diff_u64)
  with assms(1) show ?thesis by (auto simp: ck_norm_def ck_ok_data)
qed

lemma drop_seg: "drop k (seg mem i j) = seg mem (i + k) j"
  by (simp add: seg_def drop_take add.commute)

lemma take_seg: "i + n \<le> j \<Longrightarrow> take n (seg mem i j) = seg mem i (i + n)"
  by (simp add: seg_def min_def)

text \<open>The two branches of the filter on data: what there is of the chunk, or all of it.\<close>

lemma chunked_filter_data:
  assumes parse: "ngx_http_parse_chunked b (rb_chunked rb) = (NGX_OK, ctx, b')"
    and sz: "sint (ck_size ctx) = int m" "ck_size ctx = of_nat m"
    and n: "n = min (buf_last b' - buf_pos b') m" and le: "buf_pos b' \<le> buf_last b'"
    and max: "max_body = 0 \<or> int m \<le> max_body - rb_content_length_n rb"
  shows "chunked_filter_buf max_body b rb out =
    chunked_filter_buf max_body (b'\<lparr>buf_pos := buf_pos b' + n\<rparr>)
      (rb\<lparr>rb_chunked := ctx\<lparr>ck_size := ck_size ctx - of_nat n\<rparr>,
          rb_content_length_n := rb_content_length_n rb + int n\<rparr>)
      (out @ [Data (seg (buf_mem b') (buf_pos b') (buf_pos b' + n))])"
proof -
  have "\<not> (max_body \<noteq> 0 \<and> max_body - rb_content_length_n rb < sint (ck_size ctx))" using max sz by linarith
  then have *: "chunked_filter_buf max_body b rb out =
    (let sz = buf_last b' - buf_pos b' in
         if int sz > int m
         then let pos = buf_pos b' + m in
           chunked_filter_buf max_body (b'\<lparr>buf_pos := pos\<rparr>)
             (rb\<lparr>rb_chunked := ctx\<lparr>ck_size := 0\<rparr>, rb_content_length_n := rb_content_length_n rb + int m\<rparr>)
             (out @ [Data (seg (buf_mem b') (buf_pos b') pos)])
         else
           chunked_filter_buf max_body (b'\<lparr>buf_pos := buf_last b'\<rparr>)
             (rb\<lparr>rb_chunked := ctx\<lparr>ck_size := ck_size ctx - of_nat sz\<rparr>,
                 rb_content_length_n := rb_content_length_n rb + int sz\<rparr>)
             (out @ [Data (seg (buf_mem b') (buf_pos b') (buf_last b'))]))"
    by (subst chunked_filter_buf.simps) (simp only: parse prod.case if_False refl if_True sz(1) nat_int simp_thms)
  show ?thesis
  proof (cases "m < buf_last b' - buf_pos b'")
    case True
    then have "n = m" using n by simp
    with True * sz(2) show ?thesis by (simp only: Let_def of_nat_less_iff if_True diff_self)
  next
    case False
    then have "n = buf_last b' - buf_pos b'" "buf_pos b' + n = buf_last b'" using n le by simp_all
    with False * show ?thesis by (simp only: Let_def of_nat_less_iff if_False)
  qed
qed

text \<open>
  The refinement: on one buffer the filter does what the decoder does on its bytes, copying
  blocks where the decoder copies bytes.
\<close>

fun filter_matches :: "ck_run \<Rightarrow> ngx_http_request_body_t \<Rightarrow> bool" where
  "filter_matches (Running s) rb \<longleftrightarrow> ck_ok s \<and> ck_ctx (rb_chunked rb) = s \<and> rb_rest rb = sint (ck_length (fst s) (snd s))"
| "filter_matches (Done rest) rb \<longleftrightarrow> rb_rest rb = 0"
| "filter_matches Bad rb \<longleftrightarrow> False"

lemma chunked_filter_buf_bytes:
  assumes "ck_bytes (buf_bytes b) (ck_ctx (rb_chunked rb)) = (r, data)" and "r \<noteq> Bad"
    and "buf_wf b" and "ck_ok (ck_ctx (rb_chunked rb))"
  shows "\<exists>rb' os. chunked_filter_buf 0 b rb out = Some (Filter_ok, rb', out @ os) \<and> out_data os = data \<and>
    rb_content_length_n rb' = rb_content_length_n rb + int (length data) \<and> filter_matches r rb'"
  using assms
proof (induction "length (buf_bytes b)" arbitrary: b rb data out rule: less_induct)
  case less
  let ?p = "buf_pos b" and ?xs = "buf_bytes b"
  note unfold = chunked_filter_buf.simps [of 0 b rb out]
  have len: "length ?xs = buf_last b - ?p" using less.prems(3) by (simp add: buf_wf_def length_seg)
  show ?case
  proof (rule ck_list_bytes [OF less.prems(1,2,4), of ?p])
    fix s' assume *: "ck_list ?p ?xs (ck_ctx (rb_chunked rb)) = (?p + length ?xs, Next s')" "r = Running s'" "data = []" "ck_ok s'"
    then show ?thesis
      unfolding unfold using less.prems(3) by (auto simp: ck_parse_loop ck_data_ok ck_ctx_def ck_ok_norm)
  next
    fix k s' assume "ck_list ?p ?xs (ck_ctx (rb_chunked rb)) = (?p + k, Stop CK_done s')" "k < length ?xs"
      "r = Done (drop (Suc k) ?xs)" "data = []"
    then show ?thesis
      unfolding unfold using less.prems(3) by (auto simp: ck_parse_loop)
  next
    fix k sz assume l: "ck_list ?p ?xs (ck_ctx (rb_chunked rb)) = (?p + k, Stop CK_data (ck_sw_chunk_data, sz))"
      and k: "k < length ?xs" and ok: "ck_ok (ck_sw_chunk_data, sz)"
      and bytes: "ck_bytes (drop k ?xs) (ck_sw_chunk_data, sz) = (r, data)"
    let ?q = "?p + k"
    let ?ctx = "\<lparr>ck_state_f = ck_sw_chunk_data, ck_size = sz, ck_length_f = ck_length ck_sw_chunk_data sz\<rparr>"
    have sz: "sint sz = int (unat sz)" "0 < unat sz"
      using ok by (simp_all add: ck_ok_data sint_nonneg_u64 sint_nonneg_u64_iff)
    define n where "n = min (buf_last b - ?q) (unat sz)"
    have n: "n \<le> length (drop k ?xs)" "n \<le> unat sz" "0 < n" "?q + n \<le> buf_last b"
      using k len sz by (auto simp: n_def)
    define b2 where "b2 = b\<lparr>buf_pos := ?q + n\<rparr>"
    define rb2 where "rb2 = rb\<lparr>rb_chunked := ?ctx\<lparr>ck_size := sz - of_nat n\<rparr>,
       rb_content_length_n := rb_content_length_n rb + int n\<rparr>"
    have parse: "ngx_http_parse_chunked b (rb_chunked rb) = (NGX_OK, ?ctx, b\<lparr>buf_pos := ?q\<rparr>)"
      using less.prems(3) l ok by (simp add: ck_parse_loop ck_data_ok)
    have step: "chunked_filter_buf 0 b rb out = chunked_filter_buf 0 b2 rb2 (out @ [Data (seg (buf_mem b) ?q (?q + n))])"
      using chunked_filter_data [OF parse, of "unat sz" n 0 out] sz n k len by (simp add: n_def b2_def rb2_def)
    have bb: "buf_bytes b2 = drop n (drop k ?xs)" by (simp add: b2_def drop_seg add.commute add.left_commute)
    have ctx2: "ck_ctx (rb_chunked rb2) = ck_norm (ck_sw_chunk_data, sz - of_nat n)" by (simp add: rb2_def ck_ctx_def)
    obtain data2 where d2: "ck_bytes (buf_bytes b2) (ck_ctx (rb_chunked rb2)) = (r, data2)" "data = take n (drop k ?xs) @ data2"
      using bytes ck_bytes_data [OF n(1,2)] ck_ok_norm [OF ok] unfolding bb ctx2 by (auto split: prod.splits)
    have "ck_ok (ck_ctx (rb_chunked rb2))" unfolding ctx2 using ok n(2) by (rule ck_ok_rest)
    moreover have "length (buf_bytes b2) < length ?xs" using bb n k by simp
    moreover have "buf_wf b2" using less.prems(3) n by (simp add: b2_def buf_wf_def)
    ultimately obtain rb' os where
      "chunked_filter_buf 0 b2 rb2 (out @ [Data (seg (buf_mem b) ?q (?q + n))]) =
         Some (Filter_ok, rb', (out @ [Data (seg (buf_mem b) ?q (?q + n))]) @ os)" "out_data os = data2"
      "rb_content_length_n rb' = rb_content_length_n rb2 + int (length data2)" "filter_matches r rb'"
      using less.hyps [OF _ d2(1) less.prems(2)] by blast
    moreover have "seg (buf_mem b) ?q (?q + n) = take n (drop k ?xs)"
      using n(4) by (simp add: drop_seg take_seg)
    moreover have "length (take n (drop k ?xs)) = n" using n(1) by simp
    ultimately show ?thesis
      unfolding step using d2(2)
      by (intro exI [of _ rb'] exI [of _ "Data (seg (buf_mem b) ?q (?q + n)) # os"]) (simp add: rb2_def)
  qed
qed

subsection \<open>Encoded bodies\<close>

text \<open>
  The wire form of a body: every chunk has its size in hexadecimal digits (upper or lower case,
  leading zeros allowed) and its data, and the last chunk has size 0.
\<close>

definition chunk_bytes :: "u8 list \<times> u8 list \<Rightarrow> u8 list" where
  "chunk_bytes c = fst c @ [CR, LF] @ snd c @ [CR, LF]"

definition chunked_body :: "(u8 list \<times> u8 list) list \<Rightarrow> u8 list" where
  "chunked_body cs = concat (map chunk_bytes cs) @ [chr CHR ''0'', CR, LF, CR, LF]"

definition chunk_wf :: "u8 list \<times> u8 list \<Rightarrow> bool" where
  "chunk_wf c \<longleftrightarrow> list_all is_hex (fst c) \<and> hex_num (fst c) = length (snd c) \<and>
     0 < length (snd c) \<and> length (snd c) < 2 ^ 62"

lemma ck_hex_start:
  "is_hex c \<Longrightarrow> ck_case ck_sw_chunk_start c sz = Next (ck_sw_chunk_size, of_nat (hex_num [c]))"
  by (auto simp: ck_chunk_start_def is_hex_def hex_val_def hex_num_def)

lemma ck_hex_step:
  "is_hex c \<Longrightarrow> ck_case ck_sw_chunk_size c (of_nat (hex_num ds)) =
     Next (ck_sw_chunk_size, of_nat (hex_num (ds @ [c])))"
  by (auto simp: ck_chunk_size_def is_hex_def hex_val_def)

lemma ck_small:
  assumes "n < 2 ^ 62" and "st \<noteq> ck_sw_chunk_start"
  shows "\<not> ck_bad (st, of_nat n)"
proof -
  have "unat (of_nat n :: u64) = n" using assms(1) by (intro unat_of_nat_u64) simp
  with assms show ?thesis
    by (cases st) (simp_all add: ck_bad_def not_less sint_nonneg_u64_iff unat_plus_if')
qed

lemma hex_num_mono: "hex_num xs \<le> hex_num (xs @ ys)"
proof (induction ys rule: rev_induct)
  case (snoc y ys)
  then show ?case using hex_num_simps(2) [of "xs @ ys" y] by (simp del: hex_num_simps)
qed simp

lemma ck_bytes_digits:
  assumes "list_all is_hex ds" and "hex_num (as @ ds) < 2 ^ 62"
  shows "ck_bytes (ds @ ys) (ck_sw_chunk_size, of_nat (hex_num as)) =
    ck_bytes ys (ck_sw_chunk_size, of_nat (hex_num (as @ ds)))"
  using assms
proof (induction ds arbitrary: as)
  case (Cons d ds)
  have "hex_num (as @ [d]) < 2 ^ 62" using hex_num_mono [of "as @ [d]" ds] Cons.prems(2) by simp
  from ck_small [OF this] have "\<not> ck_bad (ck_sw_chunk_size, of_nat (hex_num (as @ [d])))" by simp
  with Cons.IH [of "as @ [d]"] Cons.prems show ?case
    by (simp add: ck_hex_step del: hex_num_simps ck_case.simps)
qed simp

lemma ck_bytes_size:
  assumes "list_all is_hex ds" and "hex_num ds < 2 ^ 62" and "ds \<noteq> []"
  shows "ck_bytes (ds @ ys) (ck_sw_chunk_start, sz) = ck_bytes ys (ck_sw_chunk_size, of_nat (hex_num ds))"
proof -
  obtain d es where ds: "ds = d # es" using assms(3) by (cases ds) auto
  have "hex_num [d] < 2 ^ 62" using hex_num_mono [of "[d]" es] assms(2) ds by simp
  from ck_small [OF this] have "\<not> ck_bad (ck_sw_chunk_size, of_nat (hex_num [d]))" by simp
  then show ?thesis
    using ck_bytes_digits [of es "[d]" ys] assms(1,2) ds by (simp add: ck_hex_start del: ck_case.simps)
qed

lemma ck_bytes_chunk:
  assumes "chunk_wf c"
  shows "ck_bytes (chunk_bytes c @ ys) (ck_sw_chunk_start, sz) =
    (case ck_bytes ys (ck_sw_chunk_start, 0) of (r, out) \<Rightarrow> (r, snd c @ out))"
proof -
  obtain ds xs where c: "c = (ds, xs)" by (cases c)
  let ?n = "of_nat (length xs) :: u64"
  have wf: "list_all is_hex ds" "hex_num ds = length xs" "0 < length xs" "length xs < 2 ^ 62"
    using assms by (simp_all add: c chunk_wf_def)
  have "ds \<noteq> []" using wf(2,3) by auto
  have u: "unat ?n = length xs" using wf(4) by (intro unat_of_nat_u64) simp
  with wf(3) have nz: "?n \<noteq> 0" by auto
  have "ck_bytes (ds @ [CR, LF] @ xs @ [CR, LF] @ ys) (ck_sw_chunk_start, sz) =
      ck_bytes ([CR, LF] @ xs @ [CR, LF] @ ys) (ck_sw_chunk_size, ?n)"
    using ck_bytes_size [OF wf(1) _ \<open>ds \<noteq> []\<close>] wf(2,4) by simp
  also have "\<dots> = ck_bytes (xs @ [CR, LF] @ ys) (ck_norm (ck_sw_chunk_data, ?n))"
    using nz ck_small [OF wf(4)]
    by (simp add: step_simps is_digit_def is_hexalpha20_def lower20_def word_le_nat_alt ck_norm_def)
  also have "\<dots> = (case ck_bytes ([CR, LF] @ ys) (ck_sw_after_data, 0) of (r, out) \<Rightarrow> (r, xs @ out))"
    using ck_bytes_data [of "length xs" "xs @ [CR, LF] @ ys" ?n] u by (simp add: ck_norm_def)
  also have "ck_bytes ([CR, LF] @ ys) (ck_sw_after_data, 0) = ck_bytes ys (ck_sw_chunk_start, 0)"
    by (simp add: step_simps ck_bad_def)
  finally show ?thesis by (simp add: c chunk_bytes_def)
qed

lemma ck_bytes_body:
  assumes "list_all chunk_wf cs"
  shows "ck_bytes (chunked_body cs) (ck_sw_chunk_start, sz) = (Done [], concat (map snd cs))"
  using assms
proof (induction cs arbitrary: sz)
  case Nil
  show ?case
    using ck_bytes_size [of "[chr CHR ''0'']" "[CR, LF, CR, LF]" sz]
    by (simp add: chunked_body_def is_hex_def is_digit_def is_hexalpha20_def lower20_def word_le_nat_alt
        hex_num_def hex_val_def step_simps ck_bad_def)
next
  case (Cons c cs)
  then show ?case by (simp add: chunked_body_def ck_bytes_chunk)
qed

subsection \<open>Calls of the filter\<close>

text \<open>
  The body arrives with several reads, and the filter is called for each of them with the
  buffers read. An error ends the request.
\<close>

fun chunked_filter_calls ::
  "int \<Rightarrow> ngx_buf_t list list \<Rightarrow> ngx_http_request_body_t
   \<Rightarrow> (filter_rc \<times> ngx_http_request_body_t \<times> out_buf list) option" where
  "chunked_filter_calls max_body [] rb = Some (Filter_ok, rb, [])"
| "chunked_filter_calls max_body (bs # bss) rb =
     (case ngx_http_request_body_chunked_filter max_body bs rb of
        Some (Filter_ok, rb', out) \<Rightarrow>
          map_option (\<lambda>(rc, rb'', out'). (rc, rb'', out @ out')) (chunked_filter_calls max_body bss rb')
      | x \<Rightarrow> x)"

text \<open>What the first call sets up.\<close>

abbreviation rb_init :: "ngx_http_request_body_t \<Rightarrow> ngx_http_request_body_t" where
  "rb_init rb \<equiv> rb\<lparr>rb_chunked := \<lparr>ck_state_f = ck_sw_chunk_start, ck_size = 0, ck_length_f = 0\<rparr>,
               rb_content_length_n := 0, rb_rest := 3\<rparr>"

lemma chunked_filter_init:
  "rb_rest rb = -1 \<Longrightarrow> ngx_http_request_body_chunked_filter m bs rb = ngx_http_request_body_chunked_filter m bs (rb_init rb)"
  "rb_rest rb \<ge> 0 \<Longrightarrow> ngx_http_request_body_chunked_filter m bs rb = chunked_filter_chain m bs rb []"
  by (simp_all add: ngx_http_request_body_chunked_filter_def)

abbreviation chain_bytes :: "ngx_buf_t list \<Rightarrow> u8 list" where
  "chain_bytes bs \<equiv> concat (map buf_bytes bs)"

lemma ck_ok_length: "ck_ok s \<Longrightarrow> 0 \<le> sint (ck_length (fst s) (snd s))"
  by (simp add: ck_ok_def ck_bad_def)

lemma ck_bytes_ok:
  assumes "ck_bytes xs s = (Running s', out)" and "ck_ok s"
  shows "ck_ok s'"
  using assms
proof (induction xs s arbitrary: out rule: ck_bytes.induct)
  case (2 c cs st sz)
  show ?case
  proof (cases "st = ck_sw_chunk_data")
    case True
    have "0 < unat sz" using "2.prems"(2) by (simp add: True ck_ok_data)
    with ck_ok_rest [of sz 1] "2.prems" True show ?thesis
      by (auto intro: "2.IH" split: prod.splits)
  next
    case False
    then show ?thesis using "2.prems" by (auto split: outcome.splits if_splits intro: "2.IH" ck_case_ok)
  qed
qed simp

text \<open>A chain of buffers: the data of the buffers in order.\<close>

lemma chunked_filter_chain_running:
  assumes "ck_bytes (chain_bytes bs) (ck_ctx (rb_chunked rb)) = (Running s, data)"
    and "list_all buf_wf bs" and "ck_ok (ck_ctx (rb_chunked rb))" and "rb_rest rb \<ge> 0"
  shows "\<exists>rb' os. chunked_filter_chain 0 bs rb out = Some (Filter_ok, rb', out @ os) \<and> out_data os = data \<and>
    rb_content_length_n rb' = rb_content_length_n rb + int (length data) \<and>
    ck_ctx (rb_chunked rb') = s \<and> ck_ok s \<and> rb_rest rb' \<ge> 0"
  using assms
proof (induction bs arbitrary: rb data out)
  case Nil
  then show ?case by auto
next
  case (Cons b bs)
  obtain r1 d1 where 1: "ck_bytes (buf_bytes b) (ck_ctx (rb_chunked rb)) = (r1, d1)" by fastforce
  with Cons.prems(1) obtain s1 d2 where r1: "r1 = Running s1" "ck_bytes (chain_bytes bs) s1 = (Running s, d2)" "data = d1 @ d2"
    by (auto simp: ck_bytes_append split: ck_run.splits prod.splits)
  obtain rb1 os1 where f: "chunked_filter_buf 0 b rb out = Some (Filter_ok, rb1, out @ os1)" "out_data os1 = d1"
      "rb_content_length_n rb1 = rb_content_length_n rb + int (length d1)" "filter_matches (Running s1) rb1"
    using chunked_filter_buf_bytes [OF 1, of out] Cons.prems r1(1) by auto
  have "ck_bytes (chain_bytes bs) (ck_ctx (rb_chunked rb1)) = (Running s, d2)" "ck_ok (ck_ctx (rb_chunked rb1))" "rb_rest rb1 \<ge> 0"
    using f(4) r1(2) ck_ok_length [of s1] by auto
  from Cons.IH [OF this(1) _ this(2,3), of "out @ os1"] Cons.prems(2) obtain rb2 os2 where
    "chunked_filter_chain 0 bs rb1 (out @ os1) = Some (Filter_ok, rb2, (out @ os1) @ os2)" "out_data os2 = d2"
    "rb_content_length_n rb2 = rb_content_length_n rb1 + int (length d2)"
    "ck_ctx (rb_chunked rb2) = s" "ck_ok s" "rb_rest rb2 \<ge> 0"
    by auto
  then show ?case
    using f r1 by (intro exI [of _ rb2] exI [of _ "os1 @ os2"]) simp
qed

lemma chunked_filter_chain_append:
  assumes "chunked_filter_chain m bs rb out = Some (Filter_ok, rb', out')"
  shows "chunked_filter_chain m (bs @ cs) rb out = chunked_filter_chain m cs rb' out'"
  using assms
  by (induction bs arbitrary: rb out) (auto split: option.splits if_splits prod.splits)

lemma chunked_filter_chain_done:
  assumes "ck_bytes (chain_bytes (bs @ [b])) (ck_ctx (rb_chunked rb)) = (Done [], data)" and "buf_bytes b \<noteq> []"
    and "list_all buf_wf (bs @ [b])" and "ck_ok (ck_ctx (rb_chunked rb))" and "rb_rest rb \<ge> 0"
  shows "\<exists>rb' os. chunked_filter_chain 0 (bs @ [b]) rb out = Some (Filter_ok, rb', out @ os) \<and> out_data os = data \<and>
    rb_content_length_n rb' = rb_content_length_n rb + int (length data) \<and> rb_rest rb' = 0"
proof -
  obtain s d1 d2 where 1: "ck_bytes (chain_bytes bs) (ck_ctx (rb_chunked rb)) = (Running s, d1)"
      "ck_bytes (buf_bytes b) s = (Done [], d2)" "data = d1 @ d2"
    using assms(1,2) by (auto simp: ck_bytes_append split: ck_run.splits prod.splits)
  obtain rb1 os1 where f: "chunked_filter_chain 0 bs rb out = Some (Filter_ok, rb1, out @ os1)" "out_data os1 = d1"
      "rb_content_length_n rb1 = rb_content_length_n rb + int (length d1)" "ck_ctx (rb_chunked rb1) = s" "ck_ok s"
    using chunked_filter_chain_running [OF 1(1), of out] assms(3-5) by auto
  obtain rb2 os2 where g: "chunked_filter_buf 0 b rb1 (out @ os1) = Some (Filter_ok, rb2, (out @ os1) @ os2)" "out_data os2 = d2"
      "rb_content_length_n rb2 = rb_content_length_n rb1 + int (length d2)" "rb_rest rb2 = 0"
    using chunked_filter_buf_bytes [of b rb1 "Done []" d2 "out @ os1"] 1(2) assms(3) f by auto
  show ?thesis
    using f g 1(3) by (intro exI [of _ rb2] exI [of _ "os1 @ os2"]) (simp add: chunked_filter_chain_append)
qed

lemma chunked_filter_calls_done:
  assumes "ck_bytes (chain_bytes (concat bss @ bs @ [b])) (ck_ctx (rb_chunked rb)) = (Done [], data)" and "buf_bytes b \<noteq> []"
    and "list_all (list_all buf_wf) bss" and "list_all buf_wf (bs @ [b])"
    and "ck_ok (ck_ctx (rb_chunked rb))" and "rb_rest rb \<ge> 0"
  shows "\<exists>rb' os. chunked_filter_calls 0 (bss @ [bs @ [b]]) rb = Some (Filter_ok, rb', os) \<and> out_data os = data \<and>
    rb_content_length_n rb' = rb_content_length_n rb + int (length data) \<and> rb_rest rb' = 0"
  using assms
proof (induction bss arbitrary: rb data)
  case Nil
  then obtain rb' os where "chunked_filter_chain 0 (bs @ [b]) rb [] = Some (Filter_ok, rb', os)" "out_data os = data"
    "rb_content_length_n rb' = rb_content_length_n rb + int (length data)" "rb_rest rb' = 0"
    using chunked_filter_chain_done [of bs b rb data "[]"] by auto
  with Nil(6) show ?case by (simp add: chunked_filter_init(2))
next
  case (Cons cs bss)
  let ?rest = "chain_bytes (concat bss @ bs @ [b])"
  obtain s d1 d2 where 1: "ck_bytes (chain_bytes cs) (ck_ctx (rb_chunked rb)) = (Running s, d1)"
      "ck_bytes ?rest s = (Done [], d2)" "data = d1 @ d2"
    using Cons.prems(1,2) ck_bytes_append [of "chain_bytes cs" ?rest "ck_ctx (rb_chunked rb)"]
    by (auto split: ck_run.splits prod.splits)
  obtain rb1 os1 where f: "chunked_filter_chain 0 cs rb [] = Some (Filter_ok, rb1, os1)" "out_data os1 = d1"
      "rb_content_length_n rb1 = rb_content_length_n rb + int (length d1)" "ck_ctx (rb_chunked rb1) = s" "ck_ok s" "rb_rest rb1 \<ge> 0"
    using chunked_filter_chain_running [OF 1(1), of "[]"] Cons.prems(3,5,6) by auto
  obtain rb2 os2 where "chunked_filter_calls 0 (bss @ [bs @ [b]]) rb1 = Some (Filter_ok, rb2, os2)" "out_data os2 = d2"
      "rb_content_length_n rb2 = rb_content_length_n rb1 + int (length d2)" "rb_rest rb2 = 0"
    using Cons.IH [of rb1 d2] 1(2) f Cons.prems(2,3,4) by auto
  with f 1(3) Cons.prems(6) show ?case by (simp add: chunked_filter_init(2))
qed

lemma ck_ok_init: "ck_ok (ck_ctx \<lparr>ck_state_f = ck_sw_chunk_start, ck_size = 0, ck_length_f = 0\<rparr>)"
  by (simp add: ck_ctx_def ck_norm_def ck_ok_def ck_bad_def)

lemma chunked_filter_decodes:
  assumes "list_all chunk_wf cs" and "rb_rest rb = -1"
    and "concat (map chain_bytes (bss @ [bs @ [b]])) = chunked_body cs" and "buf_bytes b \<noteq> []"
    and "list_all (list_all buf_wf) bss" and "list_all buf_wf (bs @ [b])"
  shows "\<exists>rb' os. chunked_filter_calls 0 (bss @ [bs @ [b]]) rb = Some (Filter_ok, rb', os) \<and>
    out_data os = concat (map snd cs) \<and>
    rb_content_length_n rb' = int (length (concat (map snd cs))) \<and> rb_rest rb' = 0"
proof -
  have "concat (map chain_bytes (bss @ [bs @ [b]])) = chain_bytes (concat bss @ bs @ [b])"
    by (induction bss) simp_all
  with assms(3) have "ck_bytes (chain_bytes (concat bss @ bs @ [b])) (ck_ctx (rb_chunked (rb_init rb))) = (Done [], concat (map snd cs))"
    using ck_bytes_body [OF assms(1)] by (simp add: ck_ctx_def ck_norm_def)
  from chunked_filter_calls_done [OF this assms(4-6)]
  have "\<exists>rb' os. chunked_filter_calls 0 (bss @ [bs @ [b]]) (rb_init rb) = Some (Filter_ok, rb', os) \<and>
    out_data os = concat (map snd cs) \<and>
    rb_content_length_n rb' = int (length (concat (map snd cs))) \<and> rb_rest rb' = 0"
    by (simp add: ck_ok_init)
  moreover have "chunked_filter_calls 0 (bss @ [bs @ [b]]) rb = chunked_filter_calls 0 (bss @ [bs @ [b]]) (rb_init rb)"
    using chunked_filter_init(1) [OF assms(2)] by (cases bss) simp_all
  ultimately show ?thesis by simp
qed

text \<open>
  C5: chunked bodies are decoded. Take any chunks, their sizes written with any hexadecimal
  digits of that value, and the bytes of the encoded body split in any way into buffers and
  calls of the filter (the last buffer not empty). The filter accepts every call, the data of the
  buffers it passes on is the data of the chunks in order, \<open>content_length_n\<close> is its length
  and \<open>rest\<close> is 0, which ends the reading of the body.
\<close>

theorem chunked_roundtrip:
  assumes "list_all chunk_wf cs" and "rb_rest rb = -1"
    and "concat (map chain_bytes (bss @ [bs @ [b]])) = chunked_body cs" and "buf_bytes b \<noteq> []"
    and "list_all (list_all buf_wf) bss" and "list_all buf_wf (bs @ [b])"
  shows "\<exists>rb' os. chunked_filter_calls 0 (bss @ [bs @ [b]]) rb = Some (Filter_ok, rb', os) \<and>
    out_data os = concat (map snd cs) \<and>
    rb_content_length_n rb' = int (length (concat (map snd cs))) \<and> rb_rest rb' = 0"
  using assms by (rule chunked_filter_decodes)

text \<open>Two chunks, the second with a leading zero and an upper-case digit, in three buffers of two calls.\<close>

lemma chunked_roundtrip_witness:
  "\<exists>rb' os. chunked_filter_calls 0
      ([[\<lparr>buf_mem = bytes ''2'' @ [CR, LF] @ bytes ''h'', buf_pos = 0, buf_last = 4\<rparr>]] @
       [[\<lparr>buf_mem = bytes ''i'' @ [CR, LF] @ bytes ''0A'' @ [CR, LF] @ bytes ''0123456789'', buf_pos = 0, buf_last = 17\<rparr>] @
        [\<lparr>buf_mem = [CR, LF] @ bytes ''0'' @ [CR, LF, CR, LF], buf_pos = 0, buf_last = 7\<rparr>]])
      \<lparr>rb_rest = -1, rb_chunked = \<lparr>ck_state_f = ck_sw_trailer, ck_size = 7, ck_length_f = 0\<rparr>, rb_content_length_n = -1\<rparr>
     = Some (Filter_ok, rb', os) \<and>
    out_data os = concat (map snd [(bytes ''2'', bytes ''hi''), (bytes ''0A'', bytes ''0123456789'')]) \<and>
    rb_content_length_n rb' = int (length (concat (map snd [(bytes ''2'', bytes ''hi''), (bytes ''0A'', bytes ''0123456789'')]))) \<and>
    rb_rest rb' = 0"
  by (rule chunked_roundtrip)
    (simp_all add: chunk_wf_def chunked_body_def chunk_bytes_def is_hex_def is_digit_def is_hexalpha20_def lower20_def
      word_le_nat_alt hex_num_def hex_val_def bytes_def seg_def buf_wf_def)

subsection \<open>Any input\<close>

lemma ck_loop_data:
  assumes "byte_loop ck_step mem p lim s = (q, Stop CK_data s')"
  shows "fst s' = ck_sw_chunk_data \<and> (fst s \<noteq> ck_sw_chunk_data \<longrightarrow> p < q)"
  using assms
proof (induction ck_step mem p lim s rule: byte_loop.induct)
  case (1 mem p lim s)
  have p: "p < lim" using "1.prems" by (cases "p < lim") simp_all
  show ?case
  proof (cases "ck_step mem p s")
    case (Next s1)
    then have l: "byte_loop ck_step mem (Suc p) lim s1 = (q, Stop CK_data s')"
      using "1.prems" p by (simp add: byte_loop_Next)
    have "Suc p \<le> q" using byte_loop_pos [OF l] p by simp
    with "1.hyps" [OF p Next l] show ?thesis by simp
  next
    case (Stop e s1)
    then have "e = CK_data" "s1 = s'" using "1.prems" p by (simp_all add: byte_loop_Stop)
    with Stop ck_case_stop [of "fst s" "mem ! p" "snd s"] have "fst s = ck_sw_chunk_data"
      by (auto simp: ck_step_def)
    with Stop \<open>s1 = s'\<close> show ?thesis by (auto simp: ck_step_def)
  qed
qed

text \<open>What the parser has done when it reports data.\<close>

lemma ck_parse_ok:
  assumes "ngx_http_parse_chunked b ctx = (NGX_OK, ctx', b')" and "buf_wf b"
  obtains q sz where "b' = b\<lparr>buf_pos := q\<rparr>" "ctx' = \<lparr>ck_state_f = ck_sw_chunk_data, ck_size = sz, ck_length_f = sz + 4\<rparr>"
    "buf_pos b \<le> q" "q < buf_last b" "0 \<le> sint sz"
    "ck_state_f ctx = ck_sw_chunk_data \<Longrightarrow> ck_size ctx = 0 \<Longrightarrow> buf_pos b < q"
proof -
  let ?s = "ck_ctx ctx"
  have le: "buf_pos b \<le> buf_last b" using assms(2) by (simp add: buf_wf_def)
  obtain q x where l: "byte_loop ck_step (buf_mem b) (buf_pos b) (buf_last b) ?s = (q, x)" by fastforce
  obtain s where x: "x = Stop CK_data s" "ck_data NGX_OK q s b = (NGX_OK, ctx', b')"
    using assms(1) l
    by (auto simp: ngx_http_parse_chunked_def Let_def ck_ctx_def ck_norm_def ck_data_def
        split: outcome.splits ck_exit.splits if_splits)
  have pos: "buf_pos b \<le> q" "q < buf_last b" using byte_loop_pos [OF l le] x(1) by simp_all
  obtain sz where s: "s = (ck_sw_chunk_data, sz)" using ck_loop_data [OF l [unfolded x(1)]] by (cases s) auto
  show thesis
  proof (rule that [of q sz])
    assume "ck_state_f ctx = ck_sw_chunk_data" "ck_size ctx = 0"
    then have "fst ?s \<noteq> ck_sw_chunk_data" by (simp add: ck_ctx_def ck_norm_def)
    then show "buf_pos b < q" using ck_loop_data [OF l [unfolded x(1)]] by simp
  qed (use x(2) s pos in \<open>auto simp: ck_data_def Let_def split: if_splits\<close>)
qed

text \<open>The measure of the loop: the bytes left, and whether a chunk with no data left is open.\<close>

definition filter_measure :: "ngx_buf_t \<Rightarrow> ngx_http_request_body_t \<Rightarrow> nat" where
  "filter_measure b rb = 2 * (buf_last b - buf_pos b) +
     (if ck_state_f (rb_chunked rb) = ck_sw_chunk_data \<and> ck_size (rb_chunked rb) = 0 then 0 else 1)"

text \<open>One round of the loop: the filter returns, or it passes data on and goes round again.\<close>

lemma chunked_filter_round:
  assumes "buf_wf b"
  obtains (stop) rc rb' os where "chunked_filter_buf max_body b rb out = Some (rc, rb', out @ os)"
      "rb_content_length_n rb' = rb_content_length_n rb" "out_data os = []"
  | (data) b2 rb2 xs where
      "chunked_filter_buf max_body b rb out = chunked_filter_buf max_body b2 rb2 (out @ [Data xs])"
      "filter_measure b2 rb2 < filter_measure b rb" "buf_wf b2"
      "rb_content_length_n rb2 = rb_content_length_n rb + int (length xs)"
      "max_body = 0 \<or> rb_content_length_n rb2 \<le> max_body"
proof -
  obtain rc ctx b' where parse: "ngx_http_parse_chunked b (rb_chunked rb) = (rc, ctx, b')" by (metis prod_cases3)
  show thesis
  proof (cases "rc = NGX_OK \<and> (max_body = 0 \<or> sint (ck_size ctx) \<le> max_body - rb_content_length_n rb)")
    case False
    then have "\<exists>rc rb' os. chunked_filter_buf max_body b rb out = Some (rc, rb', out @ os) \<and>
        rb_content_length_n rb' = rb_content_length_n rb \<and> out_data os = []"
      by (subst chunked_filter_buf.simps) (auto simp: parse)
    then show ?thesis using stop by blast
  next
    case True
    obtain q sz where q: "b' = b\<lparr>buf_pos := q\<rparr>"
        "ctx = \<lparr>ck_state_f = ck_sw_chunk_data, ck_size = sz, ck_length_f = sz + 4\<rparr>"
        "buf_pos b \<le> q" "q < buf_last b" "0 \<le> sint sz"
        "ck_state_f (rb_chunked rb) = ck_sw_chunk_data \<Longrightarrow> ck_size (rb_chunked rb) = 0 \<Longrightarrow> buf_pos b < q"
      using ck_parse_ok [of b "rb_chunked rb" ctx b'] parse True assms by metis
    define n where "n = min (buf_last b' - buf_pos b') (unat sz)"
    let ?b = "b'\<lparr>buf_pos := buf_pos b' + n\<rparr>"
    let ?rb = "rb\<lparr>rb_chunked := ctx\<lparr>ck_size := ck_size ctx - of_nat n\<rparr>,
                  rb_content_length_n := rb_content_length_n rb + int n\<rparr>"
    let ?xs = "seg (buf_mem b') (buf_pos b') (buf_pos b' + n)"
    have "n = 0 \<Longrightarrow> sz = 0" using q by (auto simp: n_def min_def unat_eq_0 split: if_splits)
    then have "filter_measure ?b ?rb < filter_measure b rb"
      using q by (cases "n = 0") (auto simp: filter_measure_def)
    moreover have wf: "buf_wf ?b" using assms q by (simp add: buf_wf_def n_def)
    moreover have "int n \<le> int (unat sz)" unfolding n_def of_nat_le_iff by (rule min.cobounded2)
    then have "max_body = 0 \<or> rb_content_length_n ?rb \<le> max_body"
      using True q(2) sint_nonneg_u64 [OF q(5)] by auto
    moreover have "length ?xs = n" using wf q by (simp add: length_seg buf_wf_def)
    moreover have "chunked_filter_buf max_body b rb out = chunked_filter_buf max_body ?b ?rb (out @ [Data ?xs])"
      using chunked_filter_data [of b rb ctx b' "unat sz" n max_body out] parse True q
      by (simp add: n_def sint_nonneg_u64)
    ultimately show thesis by (intro data [of ?b ?rb ?xs]) simp_all
  qed
qed

lemma chunked_filter_buf_returns:
  assumes "buf_wf b"
  shows "\<exists>r. chunked_filter_buf max_body b rb out = Some r"
  using assms
proof (induction "filter_measure b rb" arbitrary: b rb out rule: less_induct)
  case less
  show ?case
    by (rule chunked_filter_round [OF less.prems, of max_body rb out]) (use less.hyps in \<open>simp_all del: not_None_eq split_paired_Ex\<close>)
qed

text \<open>
  C6: the filter returns. On any chain of well-formed buffers and from any state, the one
  without data left and the ones with a size of 0 included, the loop of the filter ends: each
  round takes bytes off the buffer, or leaves a chunk of which no data is left, on which the
  next call of the parser takes a byte.
\<close>

theorem chunked_filter_returns:
  assumes "list_all buf_wf chain"
  shows "\<exists>r. ngx_http_request_body_chunked_filter max_body chain rb = Some r"
proof -
  have "\<exists>r. chunked_filter_chain max_body chain rb out = Some r" for rb out
    using assms
  proof (induction chain arbitrary: rb out)
    case (Cons b bs)
    then show ?case
      using chunked_filter_buf_returns [of b max_body rb out] by (fastforce split: prod.split)
  qed simp
  then show ?thesis by (simp add: ngx_http_request_body_chunked_filter_def)
qed

text \<open>A chunk size of 0 left behind by an extension, which the parser never writes itself.\<close>

lemma chunked_filter_returns_witness:
  "\<exists>r. ngx_http_request_body_chunked_filter 5
     [\<lparr>buf_mem = [CR, LF, LF], buf_pos = 0, buf_last = 3\<rparr>]
     \<lparr>rb_rest = 1, rb_chunked = \<lparr>ck_state_f = ck_sw_chunk_extension, ck_size = 0, ck_length_f = 0\<rparr>, rb_content_length_n = 0\<rparr>
   = Some r"
  by (rule chunked_filter_returns) (simp add: buf_wf_def)

text \<open>What the filter passes on is counted, and the count stays within the limit.\<close>

definition within_limit :: "int \<Rightarrow> ngx_http_request_body_t \<Rightarrow> bool" where
  "within_limit max_body rb \<longleftrightarrow> max_body = 0 \<or> rb_content_length_n rb \<le> max_body"

definition uncounted :: "ngx_http_request_body_t \<Rightarrow> out_buf list \<Rightarrow> int" where
  "uncounted rb out = rb_content_length_n rb - int (length (out_data out))"

lemma chunked_filter_buf_limit:
  assumes "chunked_filter_buf max_body b rb out = Some (rc, rb', out')"
    and "buf_wf b" and "within_limit max_body rb"
  shows "within_limit max_body rb' \<and> uncounted rb' out' = uncounted rb out"
  using assms
proof (induction "filter_measure b rb" arbitrary: b rb out rule: less_induct)
  case less
  show ?case
  proof (rule chunked_filter_round [OF less.prems(2), of max_body rb out])
    fix rc1 rb1 os
    assume "chunked_filter_buf max_body b rb out = Some (rc1, rb1, out @ os)"
      "rb_content_length_n rb1 = rb_content_length_n rb" "out_data os = []"
    then show ?thesis using less.prems(1,3) by (simp add: within_limit_def uncounted_def)
  next
    fix b2 rb2 xs
    assume r: "chunked_filter_buf max_body b rb out = chunked_filter_buf max_body b2 rb2 (out @ [Data xs])"
      and m: "filter_measure b2 rb2 < filter_measure b rb" and wf: "buf_wf b2"
      and cl: "rb_content_length_n rb2 = rb_content_length_n rb + int (length xs)"
      and lim: "max_body = 0 \<or> rb_content_length_n rb2 \<le> max_body"
    from less.hyps [OF m _ wf] less.prems(1) r lim show ?thesis
      by (simp add: within_limit_def uncounted_def cl)
  qed
qed

lemma chunked_filter_chain_limit:
  assumes "chunked_filter_chain max_body bs rb out = Some (rc, rb', out')"
    and "list_all buf_wf bs" and "within_limit max_body rb"
  shows "within_limit max_body rb' \<and> uncounted rb' out' = uncounted rb out"
  using assms
proof (induction bs arbitrary: rb out)
  case (Cons b bs)
  obtain rc1 rb1 out1 where 1: "chunked_filter_buf max_body b rb out = Some (rc1, rb1, out1)"
    using Cons.prems(1) by (auto split: option.splits)
  have "within_limit max_body rb1 \<and> uncounted rb1 out1 = uncounted rb out"
    using chunked_filter_buf_limit [OF 1] Cons.prems by simp
  with 1 Cons.IH [of rb1 out1] Cons.prems(1,2) show ?case by (auto split: if_splits)
qed simp

text \<open>
  C7: the limit of the body size is kept. Whatever the chain holds, when
  \<open>client_max_body_size\<close> is not 0 the count \<open>content_length_n\<close> never exceeds it, and the count is
  the number of bytes passed on by this call and the ones before (the first call starts at 0).
\<close>

theorem chunked_filter_limit:
  assumes "ngx_http_request_body_chunked_filter max_body chain rb = Some (rc, rb', out)"
    and "list_all buf_wf chain" and "0 < max_body"
    and "rb_rest rb = -1 \<or> rb_content_length_n rb \<le> max_body"
  shows "rb_content_length_n rb' \<le> max_body \<and>
    rb_content_length_n rb' = (if rb_rest rb = -1 then 0 else rb_content_length_n rb) + int (length (out_data out))"
  using chunked_filter_chain_limit [OF assms(1) [unfolded ngx_http_request_body_chunked_filter_def] assms(2)] assms(3,4)
  by (auto simp: within_limit_def uncounted_def)

text \<open>Three bytes are allowed: the chunk of five is refused and nothing of it passed on.\<close>

lemma chunked_filter_limit_witness:
  "\<exists>rc rb' out. ngx_http_request_body_chunked_filter 3
     [\<lparr>buf_mem = bytes ''5'' @ [LF] @ bytes ''hello'', buf_pos = 0, buf_last = 7\<rparr>]
     \<lparr>rb_rest = -1, rb_chunked = \<lparr>ck_state_f = ck_sw_chunk_start, ck_size = 0, ck_length_f = 0\<rparr>, rb_content_length_n = -1\<rparr>
   = Some (rc, rb', out) \<and> rc = HTTP_REQUEST_ENTITY_TOO_LARGE \<and> rb_content_length_n rb' \<le> 3 \<and>
     rb_content_length_n rb' = int (length (out_data out))"
  (is "\<exists>rc rb' out. ?f = Some (rc, rb', out) \<and> _")
proof -
  have "\<exists>rb'. ?f = Some (HTTP_REQUEST_ENTITY_TOO_LARGE, rb', [])"
    by (simp add: ngx_http_request_body_chunked_filter_def chunked_filter_buf.simps ngx_http_parse_chunked_def
        ck_data_def byte_loop.simps ck_step_def step_simps bytes_def is_digit_def is_hexalpha20_def lower20_def
        word_le_nat_alt Let_def)
  then obtain rb' where *: "?f = Some (HTTP_REQUEST_ENTITY_TOO_LARGE, rb', [])" ..
  from chunked_filter_limit [OF this] show ?thesis
    by (intro exI conjI) (rule *, simp_all add: buf_wf_def bytes_def)
qed

text \<open>
  The size of a chunk is the number its digits denote, modulo $2^{64}$. There is no test
  for overflow while the digits are read: only a result that is negative, as a signed number, is
  refused, so a number that wraps around to a small positive one is taken for it.
\<close>

theorem chunk_size_modulo:
  assumes "buf_wf b" and "buf_bytes b = ds @ [CR, LF, x]" and "list_all is_hex ds" and "ds \<noteq> []"
    and "ck_state_f ctx = ck_sw_chunk_start"
    and "0 < hex_num ds mod 2 ^ 64" and "hex_num ds mod 2 ^ 64 + 4 < 2 ^ 63"
  shows "\<exists>ctx'. ngx_http_parse_chunked b ctx = (NGX_OK, ctx', b\<lparr>buf_pos := buf_pos b + length ds + 2\<rparr>) \<and>
    ck_state_f ctx' = ck_sw_chunk_data \<and> unat (ck_size ctx') = hex_num ds mod 2 ^ 64"
proof -
  obtain d es where ds: "ds = d # es" using assms(4) by (cases ds) auto
  let ?n = "of_nat (hex_num ds) :: u64"
  have u: "unat ?n = hex_num ds mod 2 ^ 64" by (simp add: unsigned_of_nat take_bit_nat_def)
  have nz: "?n \<noteq> 0" using u assms(6) by auto
  have ok: "ck_ok (ck_sw_chunk_data, ?n)" using u assms(6,7) by (simp add: ck_ok_data)
  have "ck_list (buf_pos b) (ds @ [CR, LF, x]) (ck_sw_chunk_start, ck_size ctx) =
    ck_list (Suc (buf_pos b)) (es @ [CR, LF, x]) (ck_sw_chunk_size, of_nat (hex_num [d]))"
    using assms(3) by (simp add: ds ck_hex_start del: ck_case.simps)
  also have "\<dots> = ck_list (Suc (buf_pos b) + length es) [CR, LF, x] (ck_sw_chunk_size, ?n)"
    using list_loop_scan [of es is_hex "\<lambda>p ch s. ck_case (fst s) ch (snd s)" _ "\<lambda>as. (ck_sw_chunk_size, of_nat (hex_num ([d] @ as)))"]
      assms(3) ck_hex_step [of _ "d # as" for as] by (simp add: ds list_all_iff del: ck_case.simps hex_num_simps)
  also have "\<dots> = (buf_pos b + length ds + 2, Stop CK_data (ck_sw_chunk_data, ?n))"
    using nz by (simp add: ds step_simps is_digit_def is_hexalpha20_def lower20_def word_le_nat_alt)
  finally show ?thesis
    using assms(1,2,5) ok u by (simp add: ck_parse_loop ck_ctx_def ck_norm_def ck_data_ok)
qed

text \<open>Seventeen digits: the size read is 5.\<close>

lemma chunk_size_modulo_witness:
  "\<exists>ctx'. ngx_http_parse_chunked \<lparr>buf_mem = bytes ''10000000000000005'' @ [CR, LF, 120], buf_pos = 0, buf_last = 20\<rparr>
      \<lparr>ck_state_f = ck_sw_chunk_start, ck_size = 0, ck_length_f = 0\<rparr> =
    (NGX_OK, ctx', \<lparr>buf_mem = bytes ''10000000000000005'' @ [CR, LF, 120],
       buf_pos = length ''10000000000000005'' + 2, buf_last = 20\<rparr>) \<and>
    ck_state_f ctx' = ck_sw_chunk_data \<and> unat (ck_size ctx') = 5"
  using chunk_size_modulo [of "\<lparr>buf_mem = bytes ''10000000000000005'' @ [CR, LF, 120], buf_pos = 0, buf_last = 20\<rparr>"
      "bytes ''10000000000000005''" 120 "\<lparr>ck_state_f = ck_sw_chunk_start, ck_size = 0, ck_length_f = 0\<rparr>"]
  by (simp add: buf_wf_def seg_def is_hex_def is_digit_def is_hexalpha20_def lower20_def
      word_le_nat_alt hex_num_def hex_val_def bytes_def)

end
