(* ===== verification/Http_Args.thy ===== *)
theory Http_Args
  imports Http_Types
begin

text \<open>
  The helpers at the end of \<open>src/http/ngx_http_parse.c\<close>: \<open>ngx_http_parse_unsafe_uri\<close> (URIs that
  an upstream, an SSI directive or a DAV header names), \<open>ngx_http_parse_multi_header_lines\<close>
  (values in \<open>Cookie\<close> and similar headers), \<open>ngx_http_arg\<close> and \<open>ngx_http_split_args\<close>.

  The string functions of the nginx core they call (\<open>ngx_unescape_uri\<close>, \<open>ngx_strncasecmp\<close>,
  \<open>ngx_strlcasestrn\<close>, \<open>ngx_strlchr\<close>) are parameters.
\<close>

record ngx_str_t =
  str_data :: ptr
  str_len :: nat

subsection \<open>Unsafe URIs\<close>

text \<open>\<open>ngx_path_separator\<close>, \<open>src/os/unix/ngx_files.h\<close>\<close>

definition ngx_path_separator :: "u8 \<Rightarrow> bool" where
  "ngx_path_separator c \<longleftrightarrow> c = chr CHR ''/''"

text \<open>
  \<open>p[0] == '.' && p[1] == '.' && (len == ... || ngx_path_separator(p[2]))\<close>, together with the
  test that there are two bytes: \<open>p\<close> points to the list, and the length is compared with the
  number of bytes up to its second one.
\<close>

fun uu_dot_dot :: "u8 list \<Rightarrow> bool" where
  "uu_dot_dot (a # b # rest) \<longleftrightarrow>
     a = chr CHR ''.'' \<and> b = chr CHR ''.'' \<and> (rest = [] \<or> ngx_path_separator (hd rest))"
| "uu_dot_dot _ \<longleftrightarrow> False"

text \<open>
  The first loop. \<open>None\<close> is \<open>goto unsafe\<close>; otherwise the flag \<open>quoted\<close> and, when a question mark
  ended the loop, the bytes after it.
\<close>

fun uu_scan :: "bool \<Rightarrow> u8 list \<Rightarrow> (bool \<times> u8 list option) option" where
  "uu_scan quoted [] = Some (quoted, None)"
| "uu_scan quoted (ch # p) =
     (if ch = chr CHR ''%'' then uu_scan True p
      else if is_usual ch then uu_scan quoted p
      else if ch = chr CHR ''?'' then Some (quoted, Some p)
      else if ch = NUL then None
      else if ngx_path_separator ch \<and> uu_dot_dot p then None
      else uu_scan quoted p)"

text \<open>The second loop, on the unescaped URI: whether it ends without \<open>goto unsafe\<close>.\<close>

fun uu_rescan :: "u8 list \<Rightarrow> bool" where
  "uu_rescan [] \<longleftrightarrow> True"
| "uu_rescan (ch # p) \<longleftrightarrow>
     ch \<noteq> NUL \<and> \<not> (ngx_path_separator ch \<and> uu_dot_dot p) \<and> uu_rescan p"

text \<open>
  The function, on the bytes of \<open>uri\<close>. \<open>args\<close> is \<open>None\<close> when it is not set. On an empty unescaped
  URI the code reads \<open>p[0]\<close> before it compares the length; the byte does not change the result.
\<close>

definition ngx_http_parse_unsafe_uri ::
  "(u8 list \<Rightarrow> u8 list) \<Rightarrow> u8 list \<Rightarrow> ngx_rc \<times> u8 list \<times> u8 list option" where
  "ngx_http_parse_unsafe_uri ngx_unescape_uri uri =
    (if uri = [] \<or> hd uri = chr CHR ''?'' then (NGX_ERROR, uri, None)
     else if uu_dot_dot uri then (NGX_ERROR, uri, None)
     else case uu_scan False uri of
       None \<Rightarrow> (NGX_ERROR, uri, None)
     | Some (quoted, args) \<Rightarrow>
         let uri1 = (case args of None \<Rightarrow> uri | Some a \<Rightarrow> take (length uri - (length a + 1)) uri) in
         if quoted then
           let uri2 = ngx_unescape_uri uri1 in
           if uu_dot_dot uri2 then (NGX_ERROR, uri2, args)
           else if uu_rescan uri2 then (NGX_OK, uri2, args)
           else (NGX_ERROR, uri2, args)
         else (NGX_OK, uri1, args))"

subsection \<open>Values in headers\<close>

text \<open>\<open>while (p < end && P(*p)) p++;\<close>\<close>

function scan_while :: "(u8 \<Rightarrow> bool) \<Rightarrow> memory \<Rightarrow> ptr \<Rightarrow> ptr \<Rightarrow> ptr" where
  "scan_while P mem p lim = (if p < lim \<and> P (mem ! p) then scan_while P mem (Suc p) lim else p)"
  by pat_completeness auto
termination by (relation "measure (\<lambda>(P, mem, p, lim). lim - p)") auto

declare scan_while.simps [simp del]

text \<open>The label \<open>skip\<close>: to the byte after the next separator, and over the spaces there.\<close>

definition mh_skip :: "memory \<Rightarrow> ptr \<Rightarrow> ptr \<Rightarrow> ptr" where
  "mh_skip mem start lim =
    (let q = scan_while (\<lambda>ch. ch \<noteq> chr CHR '';'' \<and> ch \<noteq> chr CHR '','') mem start lim in
     scan_while (\<lambda>ch. ch = SP) mem (if q < lim then q + 1 else q) lim)"

lemma scan_while_ge: "p \<le> scan_while P mem p lim"
proof (induction P mem p lim rule: scan_while.induct)
  case (1 P mem p lim)
  then show ?case by (subst scan_while.simps) auto
qed

lemma mh_skip_greater:
  assumes "start < lim" and "start \<le> s"
  shows "start < mh_skip mem s lim"
proof -
  let ?q = "scan_while (\<lambda>ch. ch \<noteq> chr CHR '';'' \<and> ch \<noteq> chr CHR '','') mem s lim"
  have "s \<le> ?q" by (rule scan_while_ge)
  then have "start < (if ?q < lim then ?q + 1 else ?q)" using assms by auto
  also have "\<dots> \<le> mh_skip mem s lim" unfolding mh_skip_def Let_def by (rule scan_while_ge)
  finally show ?thesis .
qed

text \<open>
  What the loop does at the start of an element: it returns (\<open>Inr\<close>, with the value for the caller
  when \<open>want\<close> says that there is one to fill in), or it goes to \<open>skip\<close> (\<open>Inl\<close>, with \<open>start\<close> there).
\<close>

definition mh_element ::
  "(memory \<Rightarrow> ptr \<Rightarrow> u8 list \<Rightarrow> bool) \<Rightarrow> memory \<Rightarrow> u8 list \<Rightarrow> bool \<Rightarrow> ptr \<Rightarrow> ptr \<Rightarrow> ptr + ngx_str_t option" where
  "mh_element ngx_strncasecmp mem name want start lim =
    (if \<not> ngx_strncasecmp mem start name then Inl start
     else
       let s1 = scan_while (\<lambda>ch. ch = SP) mem (start + length name) lim in
       if \<not> want then if s1 = lim \<or> mem ! s1 = chr CHR '','' then Inr None else Inl s1
       else if s1 = lim then Inl s1
       else if mem ! s1 \<noteq> chr CHR ''='' then Inl (s1 + 1)
       else
         let s2 = scan_while (\<lambda>ch. ch = SP) mem (s1 + 1) lim;
             e = scan_while (\<lambda>ch. ch \<noteq> chr CHR '';'') mem s2 lim in
         Inr (Some \<lparr>str_data = s2, str_len = e - s2\<rparr>))"

lemma mh_element_ge:
  assumes "mh_element ngx_strncasecmp mem name want start lim = Inl s"
  shows "start \<le> s"
  using assms scan_while_ge [of "start + length name" "\<lambda>ch. ch = SP" mem lim]
  by (auto simp: mh_element_def Let_def split: if_splits)

text \<open>The loop over one value; \<open>None\<close> when it comes to the end of the value.\<close>

function mh_value ::
  "(memory \<Rightarrow> ptr \<Rightarrow> u8 list \<Rightarrow> bool) \<Rightarrow> memory \<Rightarrow> u8 list \<Rightarrow> bool \<Rightarrow> ptr \<Rightarrow> ptr \<Rightarrow> ngx_str_t option option" where
  "mh_value ngx_strncasecmp mem name want start lim =
    (if start < lim then
       case mh_element ngx_strncasecmp mem name want start lim of
         Inr v \<Rightarrow> Some v
       | Inl s \<Rightarrow> mh_value ngx_strncasecmp mem name want (mh_skip mem s lim) lim
     else None)"
  by pat_completeness auto
termination
  by (relation "measure (\<lambda>(cmp, mem, name, want, start, lim). lim - start)")
    (auto dest: mh_element_ge mh_skip_greater intro: diff_less_mono2)

declare mh_value.simps [simp del]

text \<open>
  The loop over the headers, by the strings of their values: the index of the header and the
  value found; \<open>None\<close> is \<open>NGX_DECLINED\<close>.
\<close>

fun mh_headers ::
  "(memory \<Rightarrow> ptr \<Rightarrow> u8 list \<Rightarrow> bool) \<Rightarrow> memory \<Rightarrow> u8 list \<Rightarrow> bool \<Rightarrow> nat \<Rightarrow> ngx_str_t list
   \<Rightarrow> (nat \<times> ngx_str_t option) option" where
  "mh_headers ngx_strncasecmp mem name want i [] = None"
| "mh_headers ngx_strncasecmp mem name want i (h # hs) =
     (if length name > str_len h then mh_headers ngx_strncasecmp mem name want (Suc i) hs
      else case mh_value ngx_strncasecmp mem name want (str_data h) (str_data h + str_len h) of
        None \<Rightarrow> mh_headers ngx_strncasecmp mem name want (Suc i) hs
      | Some v \<Rightarrow> Some (i, v))"

definition ngx_http_parse_multi_header_lines ::
  "(memory \<Rightarrow> ptr \<Rightarrow> u8 list \<Rightarrow> bool) \<Rightarrow> memory \<Rightarrow> ngx_str_t list \<Rightarrow> u8 list \<Rightarrow> bool
   \<Rightarrow> (nat \<times> ngx_str_t option) option" where
  "ngx_http_parse_multi_header_lines ngx_strncasecmp mem headers name want =
    mh_headers ngx_strncasecmp mem name want 0 headers"

subsection \<open>Arguments\<close>

text \<open>
  The loop of \<open>ngx_http_arg\<close>. It ends because the search goes forward, which is a matter of
  \<open>ngx_strlcasestrn\<close>: \<open>None\<close> stands for a loop that does not end.
\<close>

partial_function (option) arg_loop ::
  "(memory \<Rightarrow> ptr \<Rightarrow> ptr \<Rightarrow> u8 list \<Rightarrow> ptr option) \<Rightarrow> (memory \<Rightarrow> ptr \<Rightarrow> ptr \<Rightarrow> u8 \<Rightarrow> ptr option)
   \<Rightarrow> memory \<Rightarrow> ngx_str_t \<Rightarrow> u8 list \<Rightarrow> ptr \<Rightarrow> (ngx_rc \<times> ngx_str_t option) option" where
  "arg_loop ngx_strlcasestrn ngx_strlchr mem args name p =
    (let lim = str_data args + str_len args in
     if p < lim then
       case ngx_strlcasestrn mem p (lim - 1) name of
         None \<Rightarrow> Some (NGX_DECLINED, None)
       | Some q \<Rightarrow>
           if (q = str_data args \<or> mem ! (q - 1) = chr CHR ''&'') \<and> mem ! (q + length name) = chr CHR ''=''
           then
             let v = q + length name + 1;
                 e = (case ngx_strlchr mem q lim (chr CHR ''&'') of None \<Rightarrow> lim | Some e \<Rightarrow> e) in
             Some (NGX_OK, Some \<lparr>str_data = v, str_len = e - v\<rparr>)
           else arg_loop ngx_strlcasestrn ngx_strlchr mem args name (q + 1)
     else Some (NGX_DECLINED, None))"

definition ngx_http_arg ::
  "(memory \<Rightarrow> ptr \<Rightarrow> ptr \<Rightarrow> u8 list \<Rightarrow> ptr option) \<Rightarrow> (memory \<Rightarrow> ptr \<Rightarrow> ptr \<Rightarrow> u8 \<Rightarrow> ptr option)
   \<Rightarrow> memory \<Rightarrow> ngx_str_t \<Rightarrow> u8 list \<Rightarrow> (ngx_rc \<times> ngx_str_t option) option" where
  "ngx_http_arg ngx_strlcasestrn ngx_strlchr mem args name =
    (if str_len args = 0 then Some (NGX_DECLINED, None)
     else arg_loop ngx_strlcasestrn ngx_strlchr mem args name (str_data args))"

text \<open>\<open>ngx_http_split_args\<close>: the new \<open>uri\<close> and \<open>args\<close>.\<close>

definition ngx_http_split_args ::
  "(memory \<Rightarrow> ptr \<Rightarrow> ptr \<Rightarrow> u8 \<Rightarrow> ptr option) \<Rightarrow> memory \<Rightarrow> ngx_str_t \<Rightarrow> ngx_str_t \<Rightarrow> ngx_str_t \<times> ngx_str_t" where
  "ngx_http_split_args ngx_strlchr mem uri args =
    (let lim = str_data uri + str_len uri in
     case ngx_strlchr mem (str_data uri) lim (chr CHR ''?'') of
       Some p \<Rightarrow> (uri\<lparr>str_len := p - str_data uri\<rparr>, \<lparr>str_data = p + 1, str_len = lim - (p + 1)\<rparr>)
     | None \<Rightarrow> (uri, args\<lparr>str_len := 0\<rparr>))"

subsection \<open>Accepted URIs\<close>

text \<open>A \<open>..\<close> that stands for the parent directory: between two slashes or the ends.\<close>

definition dot_dot_at :: "u8 list \<Rightarrow> u8 list \<Rightarrow> u8 list \<Rightarrow> bool" where
  "dot_dot_at uri pre post \<longleftrightarrow> uri = pre @ bytes ''..'' @ post \<and>
     (pre = [] \<or> last pre = chr CHR ''/'') \<and> (post = [] \<or> hd post = chr CHR ''/'')"

lemma uu_dot_dot_iff:
  "uu_dot_dot xs \<longleftrightarrow> (\<exists>post. xs = bytes ''..'' @ post \<and> (post = [] \<or> hd post = chr CHR ''/''))"
  by (cases xs rule: uu_dot_dot.cases) (auto simp: bytes_def ngx_path_separator_def)

lemma dot_dot_at_cases:
  assumes "dot_dot_at uri pre post"
  shows "pre = [] \<and> uu_dot_dot uri \<or> (\<exists>ds rest. uri = ds @ chr CHR ''/'' # rest \<and> pre = ds @ [chr CHR ''/''] \<and> uu_dot_dot rest)"
proof (cases pre rule: rev_cases)
  case Nil
  with assms show ?thesis by (auto simp: dot_dot_at_def uu_dot_dot_iff)
next
  case (snoc ds d)
  with assms have "uri = ds @ chr CHR ''/'' # (bytes ''..'' @ post)" "d = chr CHR ''/''" "uu_dot_dot (bytes ''..'' @ post)"
    by (auto simp: dot_dot_at_def uu_dot_dot_iff)
  with snoc show ?thesis by blast
qed

lemma uu_rescan_iff:
  "uu_rescan xs \<longleftrightarrow> NUL \<notin> set xs \<and> (\<forall>ds rest. xs = ds @ chr CHR ''/'' # rest \<longrightarrow> \<not> uu_dot_dot rest)"
proof (induction xs)
  case (Cons x xs)
  have "(\<forall>ds rest. x # xs = ds @ chr CHR ''/'' # rest \<longrightarrow> \<not> uu_dot_dot rest) \<longleftrightarrow>
      (x = chr CHR ''/'' \<longrightarrow> \<not> uu_dot_dot xs) \<and> (\<forall>ds rest. xs = ds @ chr CHR ''/'' # rest \<longrightarrow> \<not> uu_dot_dot rest)"
    by (auto simp: Cons_eq_append_conv)
  with Cons show ?case by (auto simp: ngx_path_separator_def)
qed simp

lemma uu_scan_some:
  assumes "uu_scan q xs = Some (q', args)"
  obtains path where "xs = path @ (case args of None \<Rightarrow> [] | Some a \<Rightarrow> chr CHR ''?'' # a)"
    "chr CHR ''?'' \<notin> set path" "NUL \<notin> set path" "q' \<longleftrightarrow> q \<or> chr CHR ''%'' \<in> set path"
    "\<And>ds rest. path = ds @ chr CHR ''/'' # rest \<Longrightarrow> \<not> uu_dot_dot (rest @ (case args of None \<Rightarrow> [] | Some a \<Rightarrow> chr CHR ''?'' # a))"
  using assms
proof (induction xs arbitrary: q thesis)
  case Nil
  then show ?case by auto
next
  case (Cons x xs)
  let ?tail = "case args of None \<Rightarrow> [] | Some a \<Rightarrow> chr CHR ''?'' # a"
  show ?case
  proof (cases "x = chr CHR ''?''")
    case True
    with Cons.prems(2) have "q' = q" "args = Some xs" by (simp_all add: is_usual_iff)
    with True show ?thesis by (intro Cons.prems(1) [of "[]"]) auto
  next
    case False
    define q1 where "q1 = (q \<or> x = chr CHR ''%'')"
    have 1: "uu_scan q1 xs = Some (q', args)" "x \<noteq> NUL" "x = chr CHR ''/'' \<Longrightarrow> \<not> uu_dot_dot xs"
      using Cons.prems(2) False
      by (auto simp: q1_def is_usual_iff ngx_path_separator_def split: if_splits)
    show ?thesis
    proof (rule Cons.IH [OF _ 1(1)])
      fix path assume p: "xs = path @ ?tail" "chr CHR ''?'' \<notin> set path" "NUL \<notin> set path"
        "q' \<longleftrightarrow> q1 \<or> chr CHR ''%'' \<in> set path"
        "\<And>ds rest. path = ds @ chr CHR ''/'' # rest \<Longrightarrow> \<not> uu_dot_dot (rest @ ?tail)"
      show ?thesis
      proof (rule Cons.prems(1) [of "x # path"])
        fix ds rest assume "x # path = ds @ chr CHR ''/'' # rest"
        then show "\<not> uu_dot_dot (rest @ ?tail)" using 1(3) p(1,5) by (auto simp: Cons_eq_append_conv)
      qed (use p 1(2) False in \<open>auto simp: q1_def\<close>)
    qed
  qed
qed

text \<open>
  C35: what \<open>ngx_http_parse_unsafe_uri\<close> accepts. The URI is split at the first question mark, and
  its path is unescaped when it has a percent sign. The path handed on is free of NUL bytes, and of
  \<open>..\<close> segments, with one exception: an unescaped path that ends in \<open>..\<close> right before the question
  mark is not noticed, since the loop looks for the end of the whole URI there. This holds for
  any \<open>ngx_unescape_uri\<close>: the result of unescaping is checked again.
\<close>

theorem unsafe_uri_accepted:
  assumes "ngx_http_parse_unsafe_uri ngx_unescape_uri uri = (NGX_OK, uri', args)"
  shows "(\<exists>path. uri = path @ (case args of None \<Rightarrow> [] | Some a \<Rightarrow> chr CHR ''?'' # a) \<and>
            chr CHR ''?'' \<notin> set path \<and> path \<noteq> [] \<and>
            uri' = (if chr CHR ''%'' \<in> set path then ngx_unescape_uri path else path) \<and>
            (\<forall>pre post. dot_dot_at uri' pre post \<longrightarrow> post = [] \<and> args \<noteq> None \<and> chr CHR ''%'' \<notin> set path)) \<and>
         NUL \<notin> set uri'"
proof -
  have start: "uri \<noteq> []" "hd uri \<noteq> chr CHR ''?''" "\<not> uu_dot_dot uri"
    using assms by (auto simp: ngx_http_parse_unsafe_uri_def split: if_splits)
  then obtain q as where scan: "uu_scan False uri = Some (q, as)"
    using assms by (cases "uu_scan False uri") (auto simp: ngx_http_parse_unsafe_uri_def)
  have "args = as" using assms start scan
    by (auto simp: ngx_http_parse_unsafe_uri_def Let_def split: if_splits)
  let ?tail = "case args of None \<Rightarrow> [] | Some a \<Rightarrow> chr CHR ''?'' # a"
  obtain path where p: "uri = path @ ?tail"
      "chr CHR ''?'' \<notin> set path" "NUL \<notin> set path" "q \<longleftrightarrow> chr CHR ''%'' \<in> set path"
      "\<And>ds rest. path = ds @ chr CHR ''/'' # rest \<Longrightarrow> \<not> uu_dot_dot (rest @ ?tail)"
    using uu_scan_some [OF scan] \<open>args = as\<close> by (metis (no_types, lifting))
  have ne: "path \<noteq> []" using p(1) start(1,2) by (auto split: option.splits)
  have uri1: "(case args of None \<Rightarrow> uri | Some a \<Rightarrow> take (length uri - (length a + 1)) uri) = path"
    using p(1) by (simp split: option.split)
  show ?thesis
  proof (cases q)
    case True
    then have u: "uri' = ngx_unescape_uri path" "\<not> uu_dot_dot uri'" "uu_rescan uri'"
      using assms start scan uri1 \<open>args = as\<close>
      by (auto simp: ngx_http_parse_unsafe_uri_def Let_def split: if_splits)
    then have "\<not> dot_dot_at uri' pre post" for pre post
      using dot_dot_at_cases [of uri' pre post] by (auto simp: uu_rescan_iff)
    with u p ne True show ?thesis by (auto simp: uu_rescan_iff)
  next
    case False
    then have u: "uri' = path" using assms start scan uri1 \<open>args = as\<close>
      by (auto simp: ngx_http_parse_unsafe_uri_def Let_def split: if_splits)
    have "post = [] \<and> args \<noteq> None" if d: "dot_dot_at path pre post" for pre post
    proof (rule ccontr)
      assume n: "\<not> (post = [] \<and> args \<noteq> None)"
      have e: "path = pre @ bytes ''..'' @ post" "pre = [] \<or> last pre = chr CHR ''/''" "post = [] \<or> hd post = chr CHR ''/''"
        using d by (simp_all add: dot_dot_at_def)
      then have dd: "uu_dot_dot ((bytes ''..'' @ post) @ ?tail)" using n by (auto simp: uu_dot_dot_iff split: option.splits)
      show False
      proof (cases pre rule: rev_cases)
        case Nil
        with e(1) p(1) dd start(3) show False by simp
      next
        case (snoc ds x)
        with e(1,2) have "path = ds @ chr CHR ''/'' # (bytes ''..'' @ post)" by simp
        from p(5) [OF this] dd show False by simp
      qed
    qed
    with u p ne False show ?thesis by auto
  qed
qed

text \<open>The exception: the parent of \<open>/a\<close> is accepted when arguments follow.\<close>

lemma unsafe_uri_accepted_witness:
  "ngx_http_parse_unsafe_uri id (bytes ''/a/..?x'') = (NGX_OK, bytes ''/a/..'', Some (bytes ''x'')) \<and>
   ngx_http_parse_unsafe_uri id (bytes ''/a/..'') = (NGX_ERROR, bytes ''/a/..'', None) \<and>
   NUL \<notin> set (bytes ''/a/..'')"
proof -
  have 1: "ngx_http_parse_unsafe_uri id (bytes ''/a/..?x'') = (NGX_OK, bytes ''/a/..'', Some (bytes ''x''))"
    and 2: "ngx_http_parse_unsafe_uri id (bytes ''/a/..'') = (NGX_ERROR, bytes ''/a/..'', None)"
    by (simp_all add: ngx_http_parse_unsafe_uri_def bytes_def is_usual_iff ngx_path_separator_def Let_def)
  from unsafe_uri_accepted [OF 1] 1 2 show ?thesis by simp
qed

subsection \<open>What the string functions promise\<close>

definition lower_byte :: "u8 \<Rightarrow> u8" where
  "lower_byte c = (if chr CHR ''A'' \<le> c \<and> c \<le> chr CHR ''Z'' then c OR 0x20 else c)"

definition same_nocase :: "u8 list \<Rightarrow> u8 list \<Rightarrow> bool" where
  "same_nocase xs ys \<longleftrightarrow> map lower_byte xs = map lower_byte ys"

lemma lower_byte_special:
  "lower_byte c = lower_byte x \<longleftrightarrow> c = x" if "x \<in> {NUL, SP, chr CHR ''&'', chr CHR ''='', chr CHR '';'', chr CHR '',''}"
  using that by (elim insertE emptyE)
    (rule u8_cases [where x = c], simp add: lower_byte_def all_bytes_def word_le_nat_alt)+

lemma same_nocase_special:
  assumes "same_nocase xs ys" and "x \<in> {NUL, SP, chr CHR ''&'', chr CHR ''='', chr CHR '';'', chr CHR '',''}"
  shows "x \<in> set xs \<longleftrightarrow> x \<in> set ys"
proof -
  have "lower_byte x \<in> lower_byte ` set zs \<longleftrightarrow> x \<in> set zs" for zs
    using lower_byte_special [OF assms(2)] by (metis image_iff)
  from this [of xs] this [of ys] show ?thesis
    using arg_cong [OF assms(1) [unfolded same_nocase_def], of set] by simp
qed

lemma same_nocase_length: "same_nocase xs ys \<Longrightarrow> length xs = length ys"
  by (auto simp: same_nocase_def dest: map_eq_imp_length_eq)

text \<open>
  \<open>ngx_strlchr(p, last, c)\<close>: the first \<open>c\<close> in \<open>[p, last)\<close>. \<open>ngx_strlcasestrn(p, last, s, n)\<close>: the
  first place in \<open>[p, last)\<close> where the \<open>n + 1\<close> bytes of \<open>s\<close> are found, up to case, before \<open>last\<close>.
\<close>

definition strlchr_spec :: "(memory \<Rightarrow> ptr \<Rightarrow> ptr \<Rightarrow> u8 \<Rightarrow> ptr option) \<Rightarrow> bool" where
  "strlchr_spec f \<longleftrightarrow> (\<forall>mem p lim c. lim \<le> length mem \<longrightarrow>
     (case f mem p lim c of
        None \<Rightarrow> \<forall>i. p \<le> i \<and> i < lim \<longrightarrow> mem ! i \<noteq> c
      | Some q \<Rightarrow> p \<le> q \<and> q < lim \<and> mem ! q = c \<and> (\<forall>i. p \<le> i \<and> i < q \<longrightarrow> mem ! i \<noteq> c)))"

definition strlcasestrn_spec :: "(memory \<Rightarrow> ptr \<Rightarrow> ptr \<Rightarrow> u8 list \<Rightarrow> ptr option) \<Rightarrow> bool" where
  "strlcasestrn_spec f \<longleftrightarrow> (\<forall>mem p lim s. lim \<le> length mem \<and> s \<noteq> [] \<and> NUL \<notin> set s \<longrightarrow>
     (case f mem p lim s of
        None \<Rightarrow> \<forall>i. p \<le> i \<and> i + length s \<le> lim \<longrightarrow> \<not> same_nocase (seg mem i (i + length s)) s
      | Some q \<Rightarrow> p \<le> q \<and> q + length s \<le> lim \<and> same_nocase (seg mem q (q + length s)) s \<and>
          (\<forall>i. p \<le> i \<and> i < q \<longrightarrow> \<not> same_nocase (seg mem i (i + length s)) s)))"

subsection \<open>Finding an argument\<close>

text \<open>The specification: the first of the \<open>&\<close>-separated pieces that is the name, a \<open>=\<close> and a value.\<close>

definition arg_piece :: "u8 list \<Rightarrow> u8 list \<Rightarrow> bool" where
  "arg_piece name q \<longleftrightarrow> length name < length q \<and> same_nocase (take (length name) q) name \<and>
     q ! length name = chr CHR ''=''"

fun arg_lookup :: "u8 list \<Rightarrow> u8 list list \<Rightarrow> u8 list option" where
  "arg_lookup name [] = None"
| "arg_lookup name (q # qs) =
     (if arg_piece name q then Some (drop (length name + 1) q) else arg_lookup name qs)"

fun join_args :: "u8 list list \<Rightarrow> u8 list" where
  "join_args [] = []"
| "join_args [q] = q"
| "join_args (q # qs) = q @ chr CHR ''&'' # join_args qs"

text \<open>A place in the argument string where the code stops: offset \<open>k\<close> of the bytes \<open>xs\<close>.\<close>

definition arg_hit :: "u8 list \<Rightarrow> u8 list \<Rightarrow> nat \<Rightarrow> bool" where
  "arg_hit name xs k \<longleftrightarrow> k + length name < length xs \<and> same_nocase (take (length name) (drop k xs)) name \<and>
     (k = 0 \<or> xs ! (k - 1) = chr CHR ''&'') \<and> xs ! (k + length name) = chr CHR ''=''"

lemma arg_hit_piece:
  assumes "chr CHR ''&'' \<notin> set name"
  shows "arg_hit name (q @ chr CHR ''&'' # ys) 0 \<longleftrightarrow> arg_piece name q"
proof
  let ?n = "length name" and ?xs = "q @ chr CHR ''&'' # ys"
  assume h: "arg_hit name ?xs 0"
  then have "chr CHR ''&'' \<notin> set (take ?n ?xs)"
    using same_nocase_special [of "take ?n ?xs" name "chr CHR ''&''"] assms by (simp add: arg_hit_def)
  then have le: "?n \<le> length q" by (rule contrapos_np) (simp add: take_Cons')
  moreover have "?n \<noteq> length q" using h by (auto simp: arg_hit_def)
  ultimately show "arg_piece name q" using h by (simp add: arg_hit_def arg_piece_def nth_append)
next
  assume "arg_piece name q"
  then show "arg_hit name (q @ chr CHR ''&'' # ys) 0" by (simp add: arg_hit_def arg_piece_def nth_append)
qed

lemma arg_hit_later:
  assumes "chr CHR ''&'' \<notin> set q" and "0 < k"
  shows "arg_hit name (q @ chr CHR ''&'' # ys) k \<longleftrightarrow> length q < k \<and> arg_hit name ys (k - length q - 1)"
proof (cases "length q < k")
  case True
  then obtain j where "k = Suc (length q + j)" by (metis less_iff_Suc_add)
  then show ?thesis by (cases j) (auto simp: arg_hit_def nth_append)
next
  case False
  then have "(q @ chr CHR ''&'' # ys) ! (k - 1) \<in> set q" using assms(2) by (auto simp: nth_append)
  with assms(1) have "(q @ chr CHR ''&'' # ys) ! (k - 1) \<noteq> chr CHR ''&''" by metis
  with assms(2) False show ?thesis by (simp add: arg_hit_def)
qed

text \<open>The first hit of the code is the first piece of the specification.\<close>

definition first_hit :: "u8 list \<Rightarrow> u8 list \<Rightarrow> nat \<Rightarrow> bool" where
  "first_hit name xs k \<longleftrightarrow> arg_hit name xs k \<and> (\<forall>i<k. \<not> arg_hit name xs i)"

lemma arg_lookup_hit:
  assumes "\<forall>q\<in>set qs. chr CHR ''&'' \<notin> set q" and "chr CHR ''&'' \<notin> set name" and "qs \<noteq> []"
  shows "case arg_lookup name qs of
      None \<Rightarrow> \<forall>k. \<not> arg_hit name (join_args qs) k
    | Some v \<Rightarrow> \<exists>k. first_hit name (join_args qs) k \<and>
        v = takeWhile (\<lambda>c. c \<noteq> chr CHR ''&'') (drop (k + length name + 1) (join_args qs))"
  using assms
proof (induction qs rule: join_args.induct)
  case (2 q)
  have no: "\<not> arg_hit name q k" if "0 < k" for k
  proof
    assume h: "arg_hit name q k"
    then have "q ! (k - 1) \<in> set q" by (intro nth_mem) (auto simp: arg_hit_def)
    with h that "2.prems"(1) show False by (simp add: arg_hit_def)
  qed
  have hits: "arg_hit name q k \<longleftrightarrow> k = 0 \<and> arg_piece name q" for k
    using no [of k] by (cases "k = 0") (simp_all add: arg_hit_def arg_piece_def)
  have "takeWhile (\<lambda>c. c \<noteq> chr CHR ''&'') (drop (length name + 1) q) = drop (length name + 1) q"
    using "2.prems"(1) by (auto simp: takeWhile_eq_all_conv dest: in_set_dropD)
  from this [symmetric] show ?case by (simp add: first_hit_def hits)
next
  case (3 q q' qs)
  let ?ys = "join_args (q' # qs)" and ?n = "length name"
  let ?xs = "q @ chr CHR ''&'' # ?ys"
  have amp: "chr CHR ''&'' \<notin> set q" using "3.prems"(1) by simp
  note first = arg_hit_piece [OF "3.prems"(2), of q ?ys] and later = arg_hit_later [OF amp, of _ name ?ys]
  show ?case
  proof (cases "arg_piece name q")
    case True
    then have "takeWhile (\<lambda>c. c \<noteq> chr CHR ''&'') (drop (?n + 1) ?xs) = drop (?n + 1) q"
      using amp by (subst drop_append) (auto simp: arg_piece_def takeWhile_tail dest: in_set_dropD)
    with True first show ?thesis by (auto simp: first_hit_def intro!: exI [of _ 0])
  next
    case False
    have IH: "case arg_lookup name (q' # qs) of
        None \<Rightarrow> \<forall>k. \<not> arg_hit name ?ys k
      | Some v \<Rightarrow> \<exists>k. first_hit name ?ys k \<and> v = takeWhile (\<lambda>c. c \<noteq> chr CHR ''&'') (drop (k + ?n + 1) ?ys)"
      using "3.IH" "3.prems" by simp
    show ?thesis
    proof (cases "arg_lookup name (q' # qs)")
      case None
      have "\<not> arg_hit name ?xs k" for k
        using IH None first False later [of k] by (cases "k = 0") simp_all
      with None False show ?thesis by (simp del: arg_lookup.simps(2) add: arg_lookup.simps(2) [of name q])
    next
      case (Some v)
      with IH obtain k where k: "first_hit name ?ys k" "v = takeWhile (\<lambda>c. c \<noteq> chr CHR ''&'') (drop (k + ?n + 1) ?ys)"
        by auto
      let ?k = "length q + 1 + k"
      have "arg_hit name ?xs ?k" using later [of ?k] k(1) by (simp add: first_hit_def)
      moreover have "\<not> arg_hit name ?xs i" if "i < ?k" for i
        using later [of i] first False k(1) that by (cases "i = 0") (auto simp: first_hit_def)
      ultimately have "first_hit name ?xs ?k" by (simp add: first_hit_def)
      moreover have "drop (?k + ?n + 1) ?xs = drop (k + ?n + 1) ?ys" by simp
      ultimately have "first_hit name ?xs ?k \<and> v = takeWhile (\<lambda>c. c \<noteq> chr CHR ''&'') (drop (?k + ?n + 1) ?xs)"
        using k(2) by (simp only: simp_thms)
      then have "\<exists>k. first_hit name ?xs k \<and> v = takeWhile (\<lambda>c. c \<noteq> chr CHR ''&'') (drop (k + ?n + 1) ?xs)" by blast
      moreover have "arg_lookup name (q # q' # qs) = Some v" using Some False by simp
      ultimately show ?thesis by (simp only: option.case join_args.simps(3))
    qed
  qed
qed simp

lemma strlchr_takeWhile:
  assumes "strlchr_spec f" and "p \<le> lim" and "lim \<le> length mem"
  shows "(case f mem p lim c of None \<Rightarrow> lim | Some e \<Rightarrow> e) = p + length (takeWhile (\<lambda>x. x \<noteq> c) (seg mem p lim))"
proof -
  define e where "e = (case f mem p lim c of None \<Rightarrow> lim | Some e \<Rightarrow> e)"
  have "p \<le> e \<and> e \<le> lim \<and> (\<forall>i. p \<le> i \<and> i < e \<longrightarrow> mem ! i \<noteq> c) \<and> (e < lim \<longrightarrow> mem ! e = c)"
    using assms(1) [unfolded strlchr_spec_def, rule_format, OF assms(3), of p c] assms(2)
    by (auto simp: e_def split: option.splits)
  then have e: "p \<le> e" "e \<le> lim" "\<And>i. p \<le> i \<Longrightarrow> i < e \<Longrightarrow> mem ! i \<noteq> c" "e < lim \<Longrightarrow> mem ! e = c" by auto
  have "takeWhile (\<lambda>x. x \<noteq> c) (seg mem p lim) = take (e - p) (seg mem p lim)"
    using e assms(2,3) by (intro takeWhile_eq_take_P_nth) (simp_all add: length_seg nth_seg)
  then show ?thesis using e assms(2,3) by (simp add: length_seg flip: e_def)
qed

lemma arg_hit_seg:
  assumes "data \<le> q" and "q + length name < data + len" and "data + len \<le> length mem"
  shows "arg_hit name (seg mem data (data + len)) (q - data) \<longleftrightarrow>
    same_nocase (seg mem q (q + length name)) name \<and>
    (q = data \<or> mem ! (q - 1) = chr CHR ''&'') \<and> mem ! (q + length name) = chr CHR ''=''"
proof -
  let ?xs = "seg mem data (data + len)"
  have "length ?xs = len" using assms(3) by (simp add: length_seg)
  moreover have "take (length name) (drop (q - data) ?xs) = seg mem q (q + length name)"
    using assms by (simp add: seg_def drop_take min_def)
  moreover have "?xs ! (q - data + length name) = mem ! (q + length name)"
    using assms by (subst nth_seg) simp_all
  moreover have "q - data = 0 \<or> ?xs ! (q - data - 1) = chr CHR ''&'' \<longleftrightarrow> q = data \<or> mem ! (q - 1) = chr CHR ''&''"
  proof (cases "q = data")
    case False
    with assms have "?xs ! (q - data - 1) = mem ! (q - 1)" by (subst nth_seg) simp_all
    with False assms(1) show ?thesis by simp
  qed simp
  moreover have "q - data + length name < len" using assms by simp
  ultimately show ?thesis unfolding arg_hit_def by metis
qed

lemma arg_value_end:
  assumes "strlchr_spec ngx_strlchr" and "arg_hit name xs k" and "xs = seg mem data (data + len)"
    and "data + len \<le> length mem" and "chr CHR ''&'' \<notin> set name"
  shows "(case ngx_strlchr mem (data + k) (data + len) (chr CHR ''&'') of None \<Rightarrow> data + len | Some e \<Rightarrow> e) =
    data + k + length name + 1 + length (takeWhile (\<lambda>c. c \<noteq> chr CHR ''&'') (drop (k + length name + 1) xs))"
proof -
  let ?n = "length name" and ?P = "\<lambda>c. c \<noteq> chr CHR ''&''"
  have k: "k + ?n < len" using assms(2,3,4) by (simp add: arg_hit_def length_seg)
  have "chr CHR ''&'' \<notin> set (take ?n (drop k xs))"
    using assms(2,5) same_nocase_special [of "take ?n (drop k xs)" name "chr CHR ''&''"] by (simp add: arg_hit_def)
  then have "\<forall>c\<in>set (take ?n (drop k xs) @ [xs ! (k + ?n)]). ?P c" using assms(2) by (auto simp: arg_hit_def)
  moreover have split: "drop k xs = (take ?n (drop k xs) @ [xs ! (k + ?n)]) @ drop (k + ?n + 1) xs"
    using k assms(3,4) id_take_nth_drop [of ?n "drop k xs"] by (simp add: length_seg add.commute)
  ultimately have "takeWhile ?P (drop k xs) = (take ?n (drop k xs) @ [xs ! (k + ?n)]) @ takeWhile ?P (drop (k + ?n + 1) xs)"
    by (subst split) (rule takeWhile_append2, blast)
  then have "length (takeWhile ?P (drop k xs)) = ?n + 1 + length (takeWhile ?P (drop (k + ?n + 1) xs))"
    using k assms(3,4) by (simp add: length_seg)
  moreover have "seg mem (data + k) (data + len) = drop k xs"
    using assms(3) by (simp add: seg_def drop_take add.commute)
  ultimately show ?thesis
    using strlchr_takeWhile [OF assms(1), of "data + k" "data + len" mem "chr CHR ''&''"] k assms(4) by simp
qed

text \<open>The loop stops at the first hit from \<open>p\<close> on, or finds none.\<close>

definition arg_value :: "u8 list \<Rightarrow> u8 list \<Rightarrow> ptr \<Rightarrow> nat \<Rightarrow> ngx_str_t" where
  "arg_value name xs d k = \<lparr>str_data = d + k + length name + 1,
     str_len = length (takeWhile (\<lambda>c. c \<noteq> chr CHR ''&'') (drop (k + length name + 1) xs))\<rparr>"

definition arg_from :: "u8 list \<Rightarrow> u8 list \<Rightarrow> ptr \<Rightarrow> ptr \<Rightarrow> ngx_rc \<times> ngx_str_t option \<Rightarrow> bool" where
  "arg_from name xs d p res \<longleftrightarrow>
     res = (NGX_DECLINED, None) \<and> (\<forall>k. p \<le> d + k \<longrightarrow> \<not> arg_hit name xs k) \<or>
     (\<exists>k. res = (NGX_OK, Some (arg_value name xs d k)) \<and> p \<le> d + k \<and> arg_hit name xs k \<and>
        (\<forall>i. p \<le> d + i \<and> i < k \<longrightarrow> \<not> arg_hit name xs i))"

lemma arg_from_skip:
  assumes "arg_from name xs d q res" and "\<And>k. p \<le> d + k \<Longrightarrow> d + k < q \<Longrightarrow> \<not> arg_hit name xs k" and "p \<le> q"
  shows "arg_from name xs d p res"
  using assms(1) unfolding arg_from_def
proof (elim disjE exE conjE)
  assume "res = (NGX_DECLINED, None)" "\<forall>k. q \<le> d + k \<longrightarrow> \<not> arg_hit name xs k"
  with assms(2) show "res = (NGX_DECLINED, None) \<and> (\<forall>k. p \<le> d + k \<longrightarrow> \<not> arg_hit name xs k) \<or>
     (\<exists>k. res = (NGX_OK, Some (arg_value name xs d k)) \<and> p \<le> d + k \<and> arg_hit name xs k \<and>
        (\<forall>i. p \<le> d + i \<and> i < k \<longrightarrow> \<not> arg_hit name xs i))" by (metis not_le)
next
  fix k assume "res = (NGX_OK, Some (arg_value name xs d k))" "q \<le> d + k" "arg_hit name xs k"
    and no: "\<forall>i. q \<le> d + i \<and> i < k \<longrightarrow> \<not> arg_hit name xs i"
  moreover have "\<not> arg_hit name xs i" if "p \<le> d + i" "i < k" for i
    using assms(2) [of i] no that by (cases "q \<le> d + i") auto
  ultimately show "res = (NGX_DECLINED, None) \<and> (\<forall>k. p \<le> d + k \<longrightarrow> \<not> arg_hit name xs k) \<or>
     (\<exists>k. res = (NGX_OK, Some (arg_value name xs d k)) \<and> p \<le> d + k \<and> arg_hit name xs k \<and>
        (\<forall>i. p \<le> d + i \<and> i < k \<longrightarrow> \<not> arg_hit name xs i))"
    using assms(3) by (intro disjI2 exI [of _ k]) simp
qed

lemma arg_loop_first:
  assumes spec: "strlcasestrn_spec ngx_strlcasestrn" "strlchr_spec ngx_strlchr"
    and name: "name \<noteq> []" "NUL \<notin> set name" "chr CHR ''&'' \<notin> set name"
    and xs: "xs = seg mem (str_data args) (str_data args + str_len args)" "str_data args + str_len args \<le> length mem"
    and p: "str_data args \<le> p"
  shows "\<exists>res. arg_loop ngx_strlcasestrn ngx_strlchr mem args name p = Some res \<and> arg_from name xs (str_data args) p res"
  using p
proof (induction "str_data args + str_len args - p" arbitrary: p rule: less_induct)
  case less
  let ?d = "str_data args" and ?n = "length name"
  let ?lim = "?d + str_len args"
  let ?loop = "arg_loop ngx_strlcasestrn ngx_strlchr mem args name"
  have len: "length xs = str_len args" using xs by (simp add: length_seg)
  have hit: "arg_hit name xs (q - ?d) \<longleftrightarrow> same_nocase (seg mem q (q + ?n)) name \<and>
      (q = ?d \<or> mem ! (q - 1) = chr CHR ''&'') \<and> mem ! (q + ?n) = chr CHR ''=''" if "?d \<le> q" "q + ?n < ?lim" for q
    using arg_hit_seg [OF that xs(2)] xs(1) by simp
  have hitD: "?d + j + ?n \<le> ?lim - 1 \<and> same_nocase (seg mem (?d + j) (?d + j + ?n)) name" if "arg_hit name xs j" for j
    using that len hit [of "?d + j"] by (auto simp: arg_hit_def)
  show ?case
  proof (cases "p < ?lim")
    case False
    then have "?loop p = Some (NGX_DECLINED, None)" by (subst arg_loop.simps) simp
    moreover have "\<not> arg_hit name xs k" if "p \<le> ?d + k" for k using that False len by (auto simp: arg_hit_def)
    ultimately show ?thesis by (auto simp: arg_from_def)
  next
    case True
    have lim: "?lim - 1 \<le> length mem" using xs(2) by simp
    note find = spec(1) [unfolded strlcasestrn_spec_def, rule_format, of "?lim - 1" mem name p, OF conjI [OF lim conjI [OF name(1,2)]]]
    show ?thesis
    proof (cases "ngx_strlcasestrn mem p (?lim - 1) name")
      case None
      then have "?loop p = Some (NGX_DECLINED, None)" using True by (subst arg_loop.simps) simp
      moreover have "\<not> arg_hit name xs k" if "p \<le> ?d + k" for k using find None hitD [of k] that by auto
      ultimately show ?thesis by (auto simp: arg_from_def)
    next
      case (Some q)
      with find have q: "p \<le> q" "q + ?n \<le> ?lim - 1" "same_nocase (seg mem q (q + ?n)) name"
        "\<And>i. p \<le> i \<Longrightarrow> i < q \<Longrightarrow> \<not> same_nocase (seg mem i (i + ?n)) name" by auto
      have d: "?d \<le> q" "q + ?n < ?lim" "?d + (q - ?d) = q" using less.prems q(1,2) True by auto
      have earlier: "\<not> arg_hit name xs k" if "p \<le> ?d + k" "?d + k < q" for k using hitD [of k] q(4) that by auto
      show ?thesis
      proof (cases "arg_hit name xs (q - ?d)")
        case True
        note v = arg_value_end [OF spec(2) this xs name(3)]
        have "?loop p = Some (NGX_OK, Some (arg_value name xs ?d (q - ?d)))"
          using Some \<open>p < ?lim\<close> True hit [OF d(1,2)] v d by (subst arg_loop.simps) (simp add: arg_value_def Let_def)
        moreover have "arg_from name xs ?d p (NGX_OK, Some (arg_value name xs ?d (q - ?d)))"
          unfolding arg_from_def using True earlier q(1) d by (intro disjI2 exI [of _ "q - ?d"]) auto
        ultimately show ?thesis by blast
      next
        case False
        have "?loop p = ?loop (q + 1)"
          using Some \<open>p < ?lim\<close> False hit [OF d(1,2)] q(3) by (subst arg_loop.simps) (auto simp: Let_def)
        moreover have "\<not> arg_hit name xs k" if "p \<le> ?d + k" "?d + k < q + 1" for k
          using earlier [of k] False that by (cases "?d + k = q") auto
        ultimately show ?thesis
          using less.hyps [of "q + 1"] q(1) d True arg_from_skip [of name xs ?d "q + 1" _ p] by fastforce
      qed
    qed
  qed
qed

lemma arg_from_first:
  assumes "arg_from name xs d d res" and "first_hit name xs k"
  shows "res = (NGX_OK, Some (arg_value name xs d k))"
  using assms unfolding arg_from_def first_hit_def by (metis le_add1 linorder_neqE_nat)

text \<open>
  C10: \<open>ngx_http_arg\<close> finds arguments. For any argument string, cut at the ampersands into pieces,
  and any name without an ampersand, the function returns the value of the first piece that is the
  name up to case, an equals sign and the value, and \<open>NGX_DECLINED\<close> when there is none; the name
  inside of another name or of a value is passed over. It returns in every case. What is used of
  \<open>ngx_strlcasestrn\<close> and \<open>ngx_strlchr\<close> is that they find the first occurrence.
\<close>

theorem http_arg_lookup:
  assumes "strlcasestrn_spec ngx_strlcasestrn" and "strlchr_spec ngx_strlchr"
    and "name \<noteq> []" and "NUL \<notin> set name" and "chr CHR ''&'' \<notin> set name"
    and "str_data args + str_len args \<le> length mem"
    and "seg mem (str_data args) (str_data args + str_len args) = join_args qs"
    and "\<forall>q\<in>set qs. chr CHR ''&'' \<notin> set q"
  shows "case arg_lookup name qs of
      None \<Rightarrow> ngx_http_arg ngx_strlcasestrn ngx_strlchr mem args name = Some (NGX_DECLINED, None)
    | Some v \<Rightarrow> \<exists>value. ngx_http_arg ngx_strlcasestrn ngx_strlchr mem args name = Some (NGX_OK, Some value) \<and>
        seg mem (str_data value) (str_data value + str_len value) = v"
proof (cases "str_len args = 0")
  case True
  then have "qs = [] \<or> qs = [[]]" using assms(7) by (cases qs rule: join_args.cases) simp_all
  with True show ?thesis by (auto simp: ngx_http_arg_def arg_piece_def)
next
  case False
  let ?d = "str_data args"
  let ?xs = "seg mem ?d (?d + str_len args)"
  have len: "length ?xs = str_len args" using assms(6) by (simp add: length_seg)
  have ne: "qs \<noteq> []" using False assms(7) len by auto
  obtain res where res: "ngx_http_arg ngx_strlcasestrn ngx_strlchr mem args name = Some res" "arg_from name ?xs ?d ?d res"
    using arg_loop_first [OF assms(1-5) refl assms(6) order_refl] False by (auto simp: ngx_http_arg_def)
  note lookup = arg_lookup_hit [OF assms(8,5) ne, folded assms(7)]
  show ?thesis
  proof (cases "arg_lookup name qs")
    case None
    with lookup res show ?thesis by (auto simp: arg_from_def)
  next
    case (Some v)
    with lookup obtain k where k: "first_hit name ?xs k" "v = takeWhile (\<lambda>c. c \<noteq> chr CHR ''&'') (drop (k + length name + 1) ?xs)"
      by auto
    let ?s = "k + length name + 1"
    have "?s \<le> str_len args" using k(1) len by (simp add: first_hit_def arg_hit_def)
    moreover have "length v \<le> str_len args - ?s"
      using length_takeWhile_le [of "\<lambda>c. c \<noteq> chr CHR ''&''" "drop ?s ?xs"] k(2) len by simp
    ultimately have le: "?s + length v \<le> str_len args" by simp
    have "v = take (length v) (drop ?s ?xs)" using k(2) by (metis takeWhile_eq_take)
    also have "\<dots> = seg mem (?d + ?s) (?d + ?s + length v)" using le by (simp add: seg_def drop_take min_def add.commute)
    finally show ?thesis
      using Some res arg_from_first [OF res(2) k(1)] k(2) by (simp add: arg_value_def add.assoc)
  qed
qed

text \<open>
  The hypotheses hold for searches of every place in turn. The name is found as the third piece,
  not inside of \<open>xid=\<close> or after the equals sign.
\<close>

lemma find_upt:
  "case find P [p..<n] of
     None \<Rightarrow> \<forall>i. p \<le> i \<and> i < n \<longrightarrow> \<not> P i
   | Some q \<Rightarrow> p \<le> q \<and> q < n \<and> P q \<and> (\<forall>i. p \<le> i \<and> i < q \<longrightarrow> \<not> P i)"
proof (cases "find P [p..<n]")
  case (Some q)
  then obtain j where j: "j < n - p" "P (p + j)" "q = p + j" "\<forall>i<j. \<not> P (p + i)"
    by (auto simp: find_Some_iff)
  have "\<not> P i" if "p \<le> i" "i < q" for i using j(3,4) that by (metis le_Suc_ex nat_add_left_cancel_less)
  with Some j show ?thesis by auto
next
  case None
  then have "\<forall>i. p \<le> i \<and> i < n \<longrightarrow> \<not> P i" by (auto simp: find_None_iff)
  with None show ?thesis by simp
qed

lemma find_strlchr_spec: "strlchr_spec (\<lambda>mem p lim c. find (\<lambda>i. mem ! i = c) [p..<lim])"
  unfolding strlchr_spec_def by (intro allI impI) (rule find_upt)

lemma find_strlcasestrn_spec:
  "strlcasestrn_spec (\<lambda>mem p lim s. find (\<lambda>i. same_nocase (seg mem i (i + length s)) s) [p..<lim + 1 - length s])"
  unfolding strlcasestrn_spec_def
proof (intro allI impI)
  fix mem :: memory and p lim :: ptr and s :: "u8 list"
  assume "lim \<le> length mem \<and> s \<noteq> [] \<and> NUL \<notin> set s"
  have "i < lim + 1 - length s \<longleftrightarrow> i + length s \<le> lim" for i by auto
  with find_upt [where P = "\<lambda>i. same_nocase (seg mem i (i + length s)) s" and p = p and n = "lim + 1 - length s"]
  show "case find (\<lambda>i. same_nocase (seg mem i (i + length s)) s) [p..<lim + 1 - length s] of
        None \<Rightarrow> \<forall>i. p \<le> i \<and> i + length s \<le> lim \<longrightarrow> \<not> same_nocase (seg mem i (i + length s)) s
      | Some q \<Rightarrow> p \<le> q \<and> q + length s \<le> lim \<and> same_nocase (seg mem q (q + length s)) s \<and>
          (\<forall>i. p \<le> i \<and> i < q \<longrightarrow> \<not> same_nocase (seg mem i (i + length s)) s)"
    by (simp split: option.splits)
qed

lemma http_arg_lookup_witness:
  "\<exists>value. ngx_http_arg
      (\<lambda>mem p lim s. find (\<lambda>i. same_nocase (seg mem i (i + length s)) s) [p..<lim + 1 - length s])
      (\<lambda>mem p lim c. find (\<lambda>i. mem ! i = c) [p..<lim])
      (bytes ''/?xid=1&a=id&ID=42&id=7'') \<lparr>str_data = 2, str_len = 21\<rparr> (bytes ''id'') = Some (NGX_OK, Some value) \<and>
    seg (bytes ''/?xid=1&a=id&ID=42&id=7'') (str_data value) (str_data value + str_len value) = bytes ''42''"
proof -
  have "arg_lookup (bytes ''id'') [bytes ''xid=1'', bytes ''a=id'', bytes ''ID=42'', bytes ''id=7''] = Some (bytes ''42'')"
    by (simp add: bytes_def arg_piece_def same_nocase_def lower_byte_def word_le_nat_alt)
  then show ?thesis
    using http_arg_lookup [OF find_strlcasestrn_spec find_strlchr_spec, of "bytes ''id''" "\<lparr>str_data = 2, str_len = 21\<rparr>"
        "bytes ''/?xid=1&a=id&ID=42&id=7''" "[bytes ''xid=1'', bytes ''a=id'', bytes ''ID=42'', bytes ''id=7'']"]
    by (simp add: bytes_def seg_def)
qed

text \<open>
  \<open>ngx_http_split_args\<close> cuts a URI at its first question mark; without one the arguments are
  empty and the URI is kept.
\<close>

theorem split_args_cuts:
  assumes "strlchr_spec ngx_strlchr" and "str_data uri + str_len uri \<le> length mem"
    and "seg mem (str_data uri) (str_data uri + str_len uri) = us"
    and "ngx_http_split_args ngx_strlchr mem uri args = (uri', args')"
  shows "seg mem (str_data uri') (str_data uri' + str_len uri') = takeWhile (\<lambda>c. c \<noteq> chr CHR ''?'') us \<and>
    seg mem (str_data args') (str_data args' + str_len args') = drop 1 (dropWhile (\<lambda>c. c \<noteq> chr CHR ''?'') us)"
proof -
  let ?d = "str_data uri" and ?P = "\<lambda>c. c \<noteq> chr CHR ''?''"
  let ?lim = "?d + str_len uri" and ?n = "length (takeWhile ?P us)"
  have len: "length us = str_len uri" using assms(2,3) by (auto simp: length_seg)
  have n: "(case ngx_strlchr mem ?d ?lim (chr CHR ''?'') of None \<Rightarrow> ?lim | Some e \<Rightarrow> e) = ?d + ?n"
    using strlchr_takeWhile [OF assms(1) _ assms(2), of ?d] assms(3) by simp
  have s: "seg mem (?d + i) (?d + j) = take (j - i) (drop i us)" if "i \<le> j" "j \<le> str_len uri" for i j
    using that unfolding assms(3) [symmetric] by (simp add: seg_def drop_take min_def add.commute)
  have d: "dropWhile ?P us = drop ?n us" by (rule dropWhile_eq_drop)
  have t: "takeWhile ?P us = take ?n us" by (rule takeWhile_eq_take)
  have le: "?n \<le> str_len uri" using len length_takeWhile_le [of ?P us] by simp
  show ?thesis
  proof (cases "ngx_strlchr mem ?d ?lim (chr CHR ''?'')")
    case None
    with n len have "?n = str_len uri" by simp
    then have "takeWhile ?P us = us" "dropWhile ?P us = []" using d t len by simp_all
    moreover have "uri' = uri" "args' = args\<lparr>str_len := 0\<rparr>"
      using None assms(4) by (simp_all add: ngx_http_split_args_def Let_def)
    ultimately show ?thesis using assms(3) by (simp del: takeWhile_eq_all_conv dropWhile_eq_Nil_conv)
  next
    case (Some e)
    have "e < ?lim" using assms(1) [unfolded strlchr_spec_def, rule_format, OF assms(2), of ?d "chr CHR ''?''"] Some by simp
    with n Some have e: "e = ?d + ?n" "?n < str_len uri" by simp_all
    with Some assms(4) s [of 0 ?n] s [of "?n + 1" "str_len uri"] d t len show ?thesis
      by (auto simp: ngx_http_split_args_def Let_def)
  qed
qed

lemma split_args_cuts_witness:
  "ngx_http_split_args (\<lambda>mem p lim c. find (\<lambda>i. mem ! i = c) [p..<lim]) (bytes ''/a?b?c'')
      \<lparr>str_data = 0, str_len = 6\<rparr> \<lparr>str_data = 9, str_len = 9\<rparr> = (\<lparr>str_data = 0, str_len = 2\<rparr>, \<lparr>str_data = 3, str_len = 3\<rparr>) \<and>
   seg (bytes ''/a?b?c'') 0 2 = takeWhile (\<lambda>c. c \<noteq> chr CHR ''?'') (bytes ''/a?b?c'')"
proof -
  have *: "ngx_http_split_args (\<lambda>mem p lim c. find (\<lambda>i. mem ! i = c) [p..<lim]) (bytes ''/a?b?c'')
      \<lparr>str_data = 0, str_len = 6\<rparr> \<lparr>str_data = 9, str_len = 9\<rparr> = (\<lparr>str_data = 0, str_len = 2\<rparr>, \<lparr>str_data = 3, str_len = 3\<rparr>)"
    by (simp add: ngx_http_split_args_def bytes_def upt_rec)
  from split_args_cuts [OF find_strlchr_spec _ _ this, of "bytes ''/a?b?c''"] * show ?thesis
    by (simp add: bytes_def seg_def)
qed

subsection \<open>Finding a value in a header\<close>

text \<open>
  \<open>ngx_strncasecmp(p, s, n) == 0\<close>, for \<open>n\<close> the length of \<open>s\<close>: the bytes at \<open>p\<close> are those of \<open>s\<close> up
  to case. The comparison ends at a NUL byte.
\<close>

definition strncasecmp_spec :: "(memory \<Rightarrow> ptr \<Rightarrow> u8 list \<Rightarrow> bool) \<Rightarrow> bool" where
  "strncasecmp_spec f \<longleftrightarrow> (\<forall>mem p s. NUL \<notin> set s \<and> (p + length s \<le> length mem \<or> NUL \<in> set (drop p mem)) \<longrightarrow>
     f mem p s = same_nocase (take (length s) (drop p mem)) s)"

text \<open>The values of cookies: \<open>name=value\<close>, separated by \<open>"; "\<close>.\<close>

definition token_byte :: "u8 \<Rightarrow> bool" where
  "token_byte c \<longleftrightarrow> c \<notin> {NUL, SP, chr CHR ''='', chr CHR '';'', chr CHR '',''}"

definition crumb_ok :: "u8 list \<times> u8 list \<Rightarrow> bool" where
  "crumb_ok c \<longleftrightarrow> fst c \<noteq> [] \<and> list_all token_byte (fst c) \<and>
     list_all (\<lambda>b. b \<notin> {NUL, chr CHR '';'', chr CHR '',''}) (snd c) \<and> (snd c = [] \<or> hd (snd c) \<noteq> SP)"

definition crumb :: "u8 list \<times> u8 list \<Rightarrow> u8 list" where
  "crumb c = fst c @ chr CHR ''='' # snd c"

fun join_crumbs :: "(u8 list \<times> u8 list) list \<Rightarrow> u8 list" where
  "join_crumbs [] = []"
| "join_crumbs [c] = crumb c"
| "join_crumbs (c # cs) = crumb c @ chr CHR '';'' # SP # join_crumbs cs"

fun crumb_lookup :: "u8 list \<Rightarrow> (u8 list \<times> u8 list) list \<Rightarrow> u8 list option" where
  "crumb_lookup name [] = None"
| "crumb_lookup name (c # cs) = (if same_nocase (fst c) name then Some (snd c) else crumb_lookup name cs)"

lemma scan_while_stop:
  assumes "drop p mem = xs @ ys" and "\<forall>x\<in>set xs. P x"
    and "p + length xs \<le> lim" and "p + length xs < lim \<Longrightarrow> ys \<noteq> [] \<and> \<not> P (hd ys)"
  shows "scan_while P mem p lim = p + length xs"
  using assms
proof (induction xs arbitrary: p)
  case Nil
  then have "\<not> (p < lim \<and> P (mem ! p))" by (cases ys) (auto dest: drop_eq_Cons)
  then show ?case by (subst scan_while.simps) auto
next
  case (Cons x xs)
  have "drop p mem = x # (xs @ ys)" using Cons.prems(1) by simp
  from drop_eq_Cons [OF this] have "mem ! p = x" "drop (Suc p) mem = xs @ ys" by simp_all
  with Cons.IH [of "Suc p"] Cons.prems show ?case by (subst scan_while.simps) simp
qed

lemma mh_skip_end:
  assumes "drop s mem = xs @ ys" and "chr CHR '';'' \<notin> set xs" and "chr CHR '','' \<notin> set xs" and "lim = s + length xs"
  shows "mh_skip mem s lim = lim"
proof -
  have "scan_while (\<lambda>ch. ch \<noteq> chr CHR '';'' \<and> ch \<noteq> chr CHR '','') mem s lim = lim"
    using assms by (subst scan_while_stop [of s mem xs ys]) auto
  moreover have "scan_while (\<lambda>ch. ch = SP) mem lim lim = lim" by (subst scan_while.simps) simp
  ultimately show ?thesis by (simp add: mh_skip_def)
qed

lemma mh_skip_next:
  assumes "drop s mem = xs @ chr CHR '';'' # SP # y # ys" and "chr CHR '';'' \<notin> set xs" and "chr CHR '','' \<notin> set xs"
    and "y \<noteq> SP" and "s + length xs + 2 < lim"
  shows "mh_skip mem s lim = s + length xs + 2"
proof -
  have "scan_while (\<lambda>ch. ch \<noteq> chr CHR '';'' \<and> ch \<noteq> chr CHR '','') mem s lim = s + length xs"
    using assms by (intro scan_while_stop) auto
  moreover have "drop (s + length xs + 1) mem = [SP] @ y # ys"
    using drop_eq_Cons [OF drop_eq_append [OF assms(1)]] by simp
  then have "scan_while (\<lambda>ch. ch = SP) mem (s + length xs + 1) lim = s + length xs + 2"
    using scan_while_stop [of "s + length xs + 1" mem "[SP]" "y # ys" "\<lambda>ch. ch = SP" lim] assms(4,5) by simp
  ultimately show ?thesis using assms(5) by (simp add: mh_skip_def)
qed

text \<open>One crumb: the value when the name is the one wanted, otherwise the loop skips from inside of it.\<close>

lemma mh_element_crumb:
  assumes spec: "strncasecmp_spec ngx_strncasecmp" and name: "name \<noteq> []" "list_all token_byte name"
    and mem: "drop p mem = crumb c @ tail" and c: "crumb_ok c" and nul: "NUL \<in> set tail"
    and lim: "p + length (crumb c) \<le> lim" "p + length (crumb c) < lim \<Longrightarrow> hd tail = chr CHR '';''"
  shows "if same_nocase (fst c) name
    then mh_element ngx_strncasecmp mem name True p lim = Inr (Some \<lparr>str_data = p + length (fst c) + 1, str_len = length (snd c)\<rparr>)
    else \<exists>j \<le> length (crumb c). mh_element ngx_strncasecmp mem name True p lim = Inl (p + j)"
proof -
  obtain k v where kv: "c = (k, v)" by (cases c)
  let ?n = "length name"
  have m: "drop p mem = k @ chr CHR ''='' # v @ tail" using mem by (simp add: kv crumb_def)
  have ok: "list_all token_byte k" "chr CHR '';'' \<notin> set v" "v = [] \<or> hd v \<noteq> SP"
    using c by (auto simp: kv crumb_ok_def list_all_iff)
  have "NUL \<notin> set name" "chr CHR ''='' \<notin> set name" using name(2) by (auto simp: list_all_iff token_byte_def)
  then have cmp: "ngx_strncasecmp mem p name \<longleftrightarrow> same_nocase (take ?n (k @ chr CHR ''='' # v @ tail)) name"
    using spec [unfolded strncasecmp_spec_def, rule_format, of name p mem] nul m by simp
  have prefix: "?n \<le> length k" if "ngx_strncasecmp mem p name"
  proof (rule ccontr)
    assume "\<not> ?n \<le> length k"
    then have "chr CHR ''='' \<in> set (take ?n (k @ chr CHR ''='' # v @ tail))" by (simp add: take_Cons')
    moreover have "same_nocase (take ?n (k @ chr CHR ''='' # v @ tail)) name" using that cmp by blast
    ultimately have "chr CHR ''='' \<in> set name"
      using same_nocase_special [of "take ?n (k @ chr CHR ''='' # v @ tail)" name "chr CHR ''=''"] by blast
    with \<open>chr CHR ''='' \<notin> set name\<close> show False ..
  qed
  have len: "length (crumb c) = length k + 1 + length v" by (simp add: kv crumb_def)
  show ?thesis
  proof (cases "same_nocase k name")
    case True
    have n: "?n = length k" using same_nocase_length [OF True] by simp
    have 1: "drop (p + ?n) mem = [] @ chr CHR ''='' # v @ tail" using drop_eq_append [OF m] n by simp
    then have 2: "drop (p + ?n + 1) mem = v @ tail" "mem ! (p + ?n) = chr CHR ''=''" using drop_eq_Cons by fastforce+
    have s1: "scan_while (\<lambda>ch. ch = SP) mem (p + ?n) lim = p + ?n"
      using scan_while_stop [OF 1, of "\<lambda>ch. ch = SP" lim] lim(1) len n by simp
    have "tail \<noteq> []" using nul by auto
    then have ne: "v @ tail \<noteq> []" "p + ?n + 1 < lim \<Longrightarrow> hd (v @ tail) \<noteq> SP"
      using ok(3) lim(2) len n by (cases v; simp)+
    have s2: "scan_while (\<lambda>ch. ch = SP) mem (p + ?n + 1) lim = p + ?n + 1"
      using scan_while_stop [of "p + ?n + 1" mem "[]" "v @ tail" "\<lambda>ch. ch = SP" lim, OF _ _ _ conjI [OF ne]] 2(1) lim(1) len n
      by simp
    have e: "scan_while (\<lambda>ch. ch \<noteq> chr CHR '';'') mem (p + ?n + 1) lim = p + ?n + 1 + length v"
      using 2(1) lim len n ok(2) nul by (intro scan_while_stop [of _ mem v tail]) auto
    have "ngx_strncasecmp mem p name" using cmp True n by simp
    with s1 s2 e 2(2) lim(1) len n show ?thesis by (simp add: kv True mh_element_def Let_def)
  next
    case False
    show ?thesis
    proof (cases "ngx_strncasecmp mem p name")
      case True
      have "?n \<noteq> length k" using True False cmp by auto
      with prefix [OF True] have n: "?n < length k" by simp
      then obtain x xs where x: "drop ?n k = x # xs" "x \<in> set k" by (metis Cons_nth_drop_Suc nth_mem)
      have 1: "drop (p + ?n) mem = x # (xs @ chr CHR ''='' # v @ tail)"
        using arg_cong [OF m, of "drop ?n"] n x(1) by (simp add: add.commute)
      have tok: "x \<noteq> SP" "x \<noteq> chr CHR ''=''" using ok(1) x(2) by (auto simp: list_all_iff token_byte_def)
      have "scan_while (\<lambda>ch. ch = SP) mem (p + ?n) lim = p + ?n"
        using scan_while_stop [of "p + ?n" mem "[]" _ "\<lambda>ch. ch = SP" lim] 1 lim(1) len n tok by simp
      with True 1 drop_eq_Cons [OF 1] tok lim(1) len n
      have "mh_element ngx_strncasecmp mem name True p lim = Inl (p + (?n + 1))"
        by (simp add: mh_element_def Let_def)
      with False n len show ?thesis by (auto simp: kv intro!: exI [of _ "?n + 1"])
    next
      case notcmp: False
      then have "mh_element ngx_strncasecmp mem name True p lim = Inl (p + 0)" by (simp add: mh_element_def)
      with False show ?thesis by (auto simp: kv intro!: exI [of _ 0])
    qed
  qed
qed

lemma crumb_no_separator: "crumb_ok c \<Longrightarrow> chr CHR '';'' \<notin> set (crumb c) \<and> chr CHR '','' \<notin> set (crumb c)"
  by (auto simp: crumb_ok_def crumb_def list_all_iff token_byte_def)

lemma join_crumbs_start:
  assumes "crumb_ok c"
  shows "\<exists>y ys. join_crumbs (c # cs) = y # ys \<and> y \<noteq> SP"
proof -
  obtain y ys where "fst c = y # ys" "y \<noteq> SP"
    using assms by (cases "fst c") (auto simp: crumb_ok_def token_byte_def)
  then show ?thesis by (cases cs) (auto simp: crumb_def)
qed

lemma mh_skip_crumb:
  assumes "drop p mem = crumb c @ tail" and "j \<le> length (crumb c)" and "crumb_ok c"
  shows "lim = p + length (crumb c) \<Longrightarrow> mh_skip mem (p + j) lim = lim"
    and "tail = chr CHR '';'' # SP # y # ys \<Longrightarrow> y \<noteq> SP \<Longrightarrow> p + length (crumb c) + 2 < lim \<Longrightarrow>
      mh_skip mem (p + j) lim = p + length (crumb c) + 2"
proof -
  have d: "drop (p + j) mem = drop j (crumb c) @ tail"
    using arg_cong [OF assms(1), of "drop j"] assms(2) by (simp add: add.commute)
  have no: "chr CHR '';'' \<notin> set (drop j (crumb c))" "chr CHR '','' \<notin> set (drop j (crumb c))"
    using crumb_no_separator [OF assms(3)] by (auto dest: in_set_dropD)
  show "lim = p + length (crumb c) \<Longrightarrow> mh_skip mem (p + j) lim = lim"
    using mh_skip_end [OF d no] assms(2) by simp
  show "tail = chr CHR '';'' # SP # y # ys \<Longrightarrow> y \<noteq> SP \<Longrightarrow> p + length (crumb c) + 2 < lim \<Longrightarrow>
      mh_skip mem (p + j) lim = p + length (crumb c) + 2"
    using mh_skip_next [of "p + j" mem "drop j (crumb c)" y ys lim] d no assms(2) by simp
qed

lemma mh_value_crumbs:
  assumes "strncasecmp_spec ngx_strncasecmp" and "name \<noteq> []" and "list_all token_byte name"
    and "drop p mem = join_crumbs cs @ NUL # rest" and "list_all crumb_ok cs"
  shows "case crumb_lookup name cs of
      None \<Rightarrow> mh_value ngx_strncasecmp mem name True p (p + length (join_crumbs cs)) = None
    | Some v \<Rightarrow> \<exists>s. mh_value ngx_strncasecmp mem name True p (p + length (join_crumbs cs)) = Some (Some s) \<and>
        seg mem (str_data s) (str_data s + str_len s) = v"
  using assms(4,5)
proof (induction cs arbitrary: p rule: join_crumbs.induct)
  case 1
  then show ?case by (simp add: mh_value.simps)
next
  case (2 c)
  let ?lim = "p + length (crumb c)"
  have c: "crumb_ok c" "drop p mem = crumb c @ NUL # rest" using "2.prems" by simp_all
  have ne: "p < ?lim" by (simp add: crumb_def)
  note el = mh_element_crumb [OF assms(1-3) c(2,1), of ?lim]
  show ?case
  proof (cases "same_nocase (fst c) name")
    case True
    have "drop (p + length (fst c) + 1) mem = snd c @ NUL # rest"
      using c(2) drop_eq_append [of p mem "fst c @ [chr CHR ''='']"] by (simp add: crumb_def)
    with True el ne show ?thesis by (subst mh_value.simps) (simp add: seg_of_drop)
  next
    case False
    with el obtain j where "j \<le> length (crumb c)" "mh_element ngx_strncasecmp mem name True p ?lim = Inl (p + j)" by auto
    with mh_skip_crumb(1) [OF c(2) _ c(1)] ne False show ?thesis
      by (subst mh_value.simps) (simp, simp add: mh_value.simps)
  qed
next
  case (3 c c' cs)
  let ?r = "join_crumbs (c' # cs)"
  let ?lim = "p + length (join_crumbs (c # c' # cs))"
  have c: "crumb_ok c" "drop p mem = crumb c @ chr CHR '';'' # SP # ?r @ NUL # rest" using "3.prems" by simp_all
  obtain y ys where y: "?r = y # ys" "y \<noteq> SP" using join_crumbs_start [of c' cs] "3.prems"(2) by auto
  have lim: "p < ?lim" "?lim = p + length (crumb c) + 2 + length ?r" "p + length (crumb c) + 2 < ?lim"
    using y(1) by simp_all
  note el = mh_element_crumb [OF assms(1-3) c(2,1), of ?lim]
  show ?case
  proof (cases "same_nocase (fst c) name")
    case True
    have "drop (p + length (fst c) + 1) mem = snd c @ chr CHR '';'' # SP # ?r @ NUL # rest"
      using c(2) drop_eq_append [of p mem "fst c @ [chr CHR ''='']"] by (simp add: crumb_def)
    with True el lim show ?thesis by (subst mh_value.simps) (simp add: seg_of_drop)
  next
    case False
    with el lim obtain j where j: "j \<le> length (crumb c)" "mh_element ngx_strncasecmp mem name True p ?lim = Inl (p + j)" by auto
    have "mh_skip mem (p + j) ?lim = p + length (crumb c) + 2"
      using mh_skip_crumb(2) [OF c(2) j(1) c(1), of y "ys @ NUL # rest" ?lim] y lim(3) by simp
    then have "mh_value ngx_strncasecmp mem name True p ?lim = mh_value ngx_strncasecmp mem name True (p + length (crumb c) + 2) ?lim"
      using j(2) lim(1) by (subst mh_value.simps) simp
    note step = this [unfolded lim(2)]
    have lookup: "crumb_lookup name (c # c' # cs) = crumb_lookup name (c' # cs)" using False by simp
    have "drop (p + length (crumb c) + 2) mem = ?r @ NUL # rest"
      using c(2) drop_eq_append [of p mem "crumb c @ [chr CHR '';'', SP]"] by simp
    from "3.IH" [OF this] "3.prems"(2) show ?thesis unfolding lookup lim(2) step by simp
  qed
qed

text \<open>The headers: strings in memory, each ended by the NUL byte that the header parser leaves there.\<close>

definition cookie_header :: "memory \<Rightarrow> ngx_str_t \<Rightarrow> (u8 list \<times> u8 list) list \<Rightarrow> bool" where
  "cookie_header mem h cs \<longleftrightarrow> list_all crumb_ok cs \<and> str_len h = length (join_crumbs cs) \<and>
     (\<exists>rest. drop (str_data h) mem = join_crumbs cs @ NUL # rest)"

fun cookie_lookup :: "u8 list \<Rightarrow> nat \<Rightarrow> (u8 list \<times> u8 list) list list \<Rightarrow> (nat \<times> u8 list) option" where
  "cookie_lookup name i [] = None"
| "cookie_lookup name i (cs # css) =
     (case crumb_lookup name cs of Some v \<Rightarrow> Some (i, v) | None \<Rightarrow> cookie_lookup name (Suc i) css)"

lemma crumb_lookup_length:
  assumes "crumb_lookup name cs = Some v"
  shows "length name < length (join_crumbs cs)"
  using assms
  by (induction cs rule: join_crumbs.induct)
    (auto simp: crumb_def dest: same_nocase_length split: if_splits)

text \<open>
  \<open>ngx_http_parse_multi_header_lines\<close> finds cookies. For any headers that hold
  \<open>name=value\<close> pairs separated by \<open>"; "\<close>, and any name, the result is the index of the first header
  that has a pair of this name, up to case, and the value of the first such pair there, and
  \<open>NGX_DECLINED\<close> when there is none. A longer name that begins with the one wanted is passed over.
\<close>

theorem multi_header_lookup:
  assumes "strncasecmp_spec ngx_strncasecmp" and "name \<noteq> []" and "list_all token_byte name"
    and "list_all2 (cookie_header mem) headers css"
  shows "case cookie_lookup name 0 css of
      None \<Rightarrow> ngx_http_parse_multi_header_lines ngx_strncasecmp mem headers name True = None
    | Some (i, v) \<Rightarrow> \<exists>s. ngx_http_parse_multi_header_lines ngx_strncasecmp mem headers name True = Some (i, Some s) \<and>
        seg mem (str_data s) (str_data s + str_len s) = v"
proof -
  have "case cookie_lookup name i css of
      None \<Rightarrow> mh_headers ngx_strncasecmp mem name True i headers = None
    | Some (i', v) \<Rightarrow> \<exists>s. mh_headers ngx_strncasecmp mem name True i headers = Some (i', Some s) \<and>
        seg mem (str_data s) (str_data s + str_len s) = v" for i
    using assms(4)
  proof (induction arbitrary: i rule: list_all2_induct)
    case (Cons h hs cs css)
    have h: "list_all crumb_ok cs" "str_len h = length (join_crumbs cs)"
      using Cons.hyps(1) by (simp_all add: cookie_header_def)
    obtain rest where "drop (str_data h) mem = join_crumbs cs @ NUL # rest"
      using Cons.hyps(1) by (auto simp: cookie_header_def)
    note v = mh_value_crumbs [OF assms(1-3) this h(1), folded h(2)]
    show ?case
    proof (cases "crumb_lookup name cs")
      case None
      with v have "mh_headers ngx_strncasecmp mem name True i (h # hs) = mh_headers ngx_strncasecmp mem name True (Suc i) hs"
        by simp
      with Cons.IH [of "Suc i"] None show ?thesis by (simp del: mh_headers.simps split: option.splits prod.splits)
    next
      case (Some x)
      with crumb_lookup_length [OF Some] v h(2) show ?thesis by auto
    qed
  qed simp
  then show ?thesis unfolding ngx_http_parse_multi_header_lines_def .
qed

text \<open>Two headers; \<open>idx\<close> and the first header do not answer for \<open>id\<close>.\<close>

lemma take_strncasecmp_spec: "strncasecmp_spec (\<lambda>mem p s. same_nocase (take (length s) (drop p mem)) s)"
  by (simp add: strncasecmp_spec_def)

lemma multi_header_lookup_witness:
  "\<exists>s. ngx_http_parse_multi_header_lines (\<lambda>mem p s. same_nocase (take (length s) (drop p mem)) s)
      (bytes ''idx=1'' @ NUL # bytes ''a=b c; ID=7'' @ [NUL]) [\<lparr>str_data = 0, str_len = 5\<rparr>, \<lparr>str_data = 6, str_len = 11\<rparr>]
      (bytes ''id'') True = Some (1, Some s) \<and>
    seg (bytes ''idx=1'' @ NUL # bytes ''a=b c; ID=7'' @ [NUL]) (str_data s) (str_data s + str_len s) = bytes ''7''"
proof -
  have "cookie_lookup (bytes ''id'') 0 [[(bytes ''idx'', bytes ''1'')], [(bytes ''a'', bytes ''b c''), (bytes ''ID'', bytes ''7'')]]
      = Some (1, bytes ''7'')"
    by (simp add: bytes_def same_nocase_def lower_byte_def word_le_nat_alt)
  then show ?thesis
    using multi_header_lookup [OF take_strncasecmp_spec, of "bytes ''id''" "bytes ''idx=1'' @ NUL # bytes ''a=b c; ID=7'' @ [NUL]"
        "[\<lparr>str_data = 0, str_len = 5\<rparr>, \<lparr>str_data = 6, str_len = 11\<rparr>]"
        "[[(bytes ''idx'', bytes ''1'')], [(bytes ''a'', bytes ''b c''), (bytes ''ID'', bytes ''7'')]]"]
    by (simp add: bytes_def cookie_header_def crumb_ok_def crumb_def token_byte_def)
qed

end
