(* ===== verification/Http_Parse_Time.thy ===== *)
theory Http_Parse_Time
  imports Prelude "HOL-Library.Monad_Syntax"
begin

text \<open>
  \<open>ngx_http_parse_time\<close> (\<open>src/http/ngx_http_parse_time.c\<close>): dates of HTTP headers, in their three
  formats, to seconds since 1970. The function is a straight line of tests, each of which may return
  \<open>NGX_ERROR\<close> (\<open>None\<close> here), broken up below at the changes of format.

  The numbers of a date are small (at most four digits); the last formula computes with
  \<open>ngx_uint_t\<close>, 64 bit and unsigned, and wraps around for dates before 1970.
\<close>

subsection \<open>Reading the fields\<close>

datatype pt_fmt = pt_no | rfc822 | rfc850 | isoc

definition mday :: "nat list" where
  "mday = [31, 28, 31, 30, 31, 30, 31, 31, 30, 31, 30, 31]"

text \<open>The first loop: to the comma or space after the day of the week.\<close>

function pt_scan :: "memory \<Rightarrow> ptr \<Rightarrow> ptr \<Rightarrow> ptr \<times> pt_fmt" where
  "pt_scan mem p lim =
    (if p < lim then
       if mem ! p = chr CHR '','' then (p, pt_no)
       else if mem ! p = SP then (p, isoc)
       else pt_scan mem (Suc p) lim
     else (p, pt_no))"
  by pat_completeness auto
termination by (relation "measure (\<lambda>(mem, p, lim). lim - p)") auto

declare pt_scan.simps [simp del]

text \<open>The second loop: over spaces.\<close>

function pt_spaces :: "memory \<Rightarrow> ptr \<Rightarrow> ptr \<Rightarrow> ptr" where
  "pt_spaces mem p lim = (if p < lim \<and> mem ! p = SP then pt_spaces mem (Suc p) lim else p)"
  by pat_completeness auto
termination by (relation "measure (\<lambda>(mem, p, lim). lim - p)") auto

declare pt_spaces.simps [simp del]

definition pt_guard :: "bool \<Rightarrow> unit option" where
  "pt_guard b = (if b then Some () else None)"

definition digit_at :: "memory \<Rightarrow> ptr \<Rightarrow> nat" where
  "digit_at mem p = unat (mem ! p - chr CHR ''0'')"

definition pt_two :: "memory \<Rightarrow> ptr \<Rightarrow> nat option" where
  "pt_two mem p = do {
     pt_guard (is_digit (mem ! p) \<and> is_digit (mem ! (p + 1)));
     Some (digit_at mem p * 10 + digit_at mem (p + 1)) }"

definition pt_four :: "memory \<Rightarrow> ptr \<Rightarrow> nat option" where
  "pt_four mem p = do {
     pt_guard (is_digit (mem ! p) \<and> is_digit (mem ! (p + 1)) \<and> is_digit (mem ! (p + 2)) \<and> is_digit (mem ! (p + 3)));
     Some (digit_at mem p * 1000 + digit_at mem (p + 1) * 100 + digit_at mem (p + 2) * 10 + digit_at mem (p + 3)) }"

text \<open>
  The day, when it comes first, and the format that the byte after it tells. The fields read so far
  are the format, the day and the position.
\<close>

definition pt_day_first :: "memory \<Rightarrow> ptr \<Rightarrow> ptr \<Rightarrow> (pt_fmt \<times> nat \<times> ptr) option" where
  "pt_day_first mem p lim = do {
     day \<leftarrow> pt_two mem p;
     if mem ! (p + 2) = SP
     then do { pt_guard (\<not> lim - (p + 2) < 18); Some (rfc822, day, p + 3) }
     else if mem ! (p + 2) = chr CHR ''-'' then Some (rfc850, day, p + 3)
     else None }"

definition pt_month :: "memory \<Rightarrow> ptr \<Rightarrow> nat option" where
  "pt_month mem p =
    (let c = mem ! p in
     if c = chr CHR ''J'' then Some (if mem ! (p + 1) = chr CHR ''a'' then 0 else if mem ! (p + 2) = chr CHR ''n'' then 5 else 6)
     else if c = chr CHR ''F'' then Some 1
     else if c = chr CHR ''M'' then Some (if mem ! (p + 2) = chr CHR ''r'' then 2 else 4)
     else if c = chr CHR ''A'' then Some (if mem ! (p + 1) = chr CHR ''p'' then 3 else 7)
     else if c = chr CHR ''S'' then Some 8
     else if c = chr CHR ''O'' then Some 9
     else if c = chr CHR ''N'' then Some 10
     else if c = chr CHR ''D'' then Some 11
     else None)"

text \<open>The year after the month (the first two formats), with \<open>p\<close> after it.\<close>

definition pt_year :: "pt_fmt \<Rightarrow> memory \<Rightarrow> ptr \<Rightarrow> (nat \<times> ptr) option" where
  "pt_year fmt mem p =
    (if fmt = rfc822 then do { y \<leftarrow> pt_four mem p; Some (y, p + 4) }
     else do { y \<leftarrow> pt_two mem p; Some (y + (if y < 70 then 2000 else 1900), p + 2) })"

text \<open>The day after the month (the third format), one or two digits.\<close>

definition pt_day_isoc :: "memory \<Rightarrow> ptr \<Rightarrow> ptr \<Rightarrow> (nat \<times> ptr) option" where
  "pt_day_isoc mem p0 lim = do {
     let p = (if mem ! p0 = SP then p0 + 1 else p0);
     pt_guard (is_digit (mem ! p));
     (day, p) \<leftarrow> (if mem ! (p + 1) \<noteq> SP
        then do { pt_guard (is_digit (mem ! (p + 1))); Some (digit_at mem p * 10 + digit_at mem (p + 1), p + 2) }
        else Some (digit_at mem p, p + 1));
     pt_guard (\<not> lim - p < 14);
     Some (day, p) }"

text \<open>\<open>" hh:mm:ss"\<close>\<close>

definition pt_clock :: "memory \<Rightarrow> ptr \<Rightarrow> (nat \<times> nat \<times> nat) option" where
  "pt_clock mem p = do {
     pt_guard (mem ! p = SP);
     hour \<leftarrow> pt_two mem (p + 1);
     pt_guard (mem ! (p + 3) = chr CHR '':'');
     minute \<leftarrow> pt_two mem (p + 4);
     pt_guard (mem ! (p + 6) = chr CHR '':'');
     sec \<leftarrow> pt_two mem (p + 7);
     Some (hour, minute, sec) }"

text \<open>All fields: day, month, year, hour, minute and second.\<close>

definition pt_fields :: "memory \<Rightarrow> ptr \<Rightarrow> nat \<Rightarrow> (nat \<times> nat \<times> nat \<times> nat \<times> nat \<times> nat) option" where
  "pt_fields mem value len =
    (let lim = value + len; (p0, fmt0) = pt_scan mem value lim; p1 = pt_spaces mem (p0 + 1) lim in do {
       pt_guard (\<not> lim - p1 < 18);
       (fmt, day, p) \<leftarrow> (if fmt0 \<noteq> isoc then pt_day_first mem p1 lim else Some (isoc, 32, p1));
       month \<leftarrow> pt_month mem p;
       pt_guard (\<not> (fmt = rfc822 \<and> mem ! (p + 3) \<noteq> SP \<or> fmt = rfc850 \<and> mem ! (p + 3) \<noteq> chr CHR ''-''));
       if fmt = isoc then do {
         (day, q) \<leftarrow> pt_day_isoc mem (p + 4) lim;
         (hour, minute, sec) \<leftarrow> pt_clock mem q;
         pt_guard (mem ! (q + 9) = SP);
         year \<leftarrow> pt_four mem (q + 10);
         Some (day, month, year, hour, minute, sec) }
       else do {
         (year, q) \<leftarrow> pt_year fmt mem (p + 4);
         (hour, minute, sec) \<leftarrow> pt_clock mem q;
         Some (day, month, year, hour, minute, sec) } })"

subsection \<open>The time\<close>

text \<open>The checks of the ranges, \<open>month\<close> counting from 0.\<close>

definition pt_valid :: "nat \<Rightarrow> nat \<Rightarrow> nat \<Rightarrow> nat \<Rightarrow> nat \<Rightarrow> nat \<Rightarrow> bool" where
  "pt_valid day month year hour minute sec \<longleftrightarrow>
    \<not> (hour > 23 \<or> minute > 59 \<or> sec > 59) \<and>
    (if day = 29 \<and> month = 1
     then \<not> (year mod 4 \<noteq> 0 \<or> year mod 100 = 0 \<and> year mod 400 \<noteq> 0)
     else \<not> day > mday ! month)"

text \<open>Gauss' formula, in \<open>ngx_uint_t\<close> arithmetic.\<close>

definition pt_gauss :: "nat \<Rightarrow> nat \<Rightarrow> nat \<Rightarrow> nat \<Rightarrow> nat \<Rightarrow> nat \<Rightarrow> u64" where
  "pt_gauss day month0 year0 hour minute sec =
    (let month = (if int month0 - 1 \<le> 0 then int month0 - 1 + 12 else int month0 - 1);
         year = (if int month0 - 1 \<le> 0 then of_nat year0 - 1 else of_nat year0) :: u64 in
     (365 * year + year div 4 - year div 100 + year div 400
      + of_int (367 * month div 12) - 30 + of_nat day - 1 - 719527 + 31 + 28) * 86400
     + of_nat (hour * 3600) + of_nat (minute * 60) + of_nat sec)"

definition ngx_http_parse_time :: "memory \<Rightarrow> ptr \<Rightarrow> nat \<Rightarrow> u64 option" where
  "ngx_http_parse_time mem value len = do {
     (day, month, year, hour, minute, sec) \<leftarrow> pt_fields mem value len;
     pt_guard (pt_valid day month year hour minute sec);
     Some (pt_gauss day month year hour minute sec) }"

subsection \<open>The Gregorian calendar\<close>

text \<open>The reference: days counted year by year and month by month.\<close>

definition leap_year :: "nat \<Rightarrow> bool" where
  "leap_year y \<longleftrightarrow> y mod 4 = 0 \<and> (y mod 100 \<noteq> 0 \<or> y mod 400 = 0)"

definition year_days :: "nat \<Rightarrow> nat" where
  "year_days y = (if leap_year y then 366 else 365)"

definition month_days :: "nat \<Rightarrow> nat \<Rightarrow> nat" where
  "month_days y m = (if m = 1 \<and> leap_year y then 29 else mday ! m)"

text \<open>Days from 1 January of the year 1 to the given day, months counting from 0 and days from 1.\<close>

definition calendar_days :: "nat \<Rightarrow> nat \<Rightarrow> nat \<Rightarrow> int" where
  "calendar_days y m d = int (\<Sum>i = 1..<y. year_days i) + int (\<Sum>j < m. month_days y j) + int d - 1"

definition epoch_seconds :: "nat \<Rightarrow> nat \<Rightarrow> nat \<Rightarrow> nat \<Rightarrow> nat \<Rightarrow> nat \<Rightarrow> int" where
  "epoch_seconds y m d hour minute sec =
     (calendar_days y m d - calendar_days 1970 0 1) * 86400 + int (hour * 3600 + minute * 60 + sec)"

lemma div_Suc_if: "int (Suc n div k) = int (n div k) + (if k dvd Suc n then 1 else 0)"
  by (simp add: div_Suc dvd_eq_mod_eq_0)

lemma year_days_int:
  "int (year_days n) = 365 + (if 4 dvd n then 1 else 0) + (if 400 dvd n then 1 else 0) - (if 100 dvd n then 1 else 0)"
proof -
  have "400 dvd n \<Longrightarrow> 100 dvd n" "100 dvd n \<Longrightarrow> 4 dvd n"
    using dvd_trans [of 100 400 n] dvd_trans [of 4 100 n] by simp_all
  then show ?thesis
    by (cases "400 dvd n"; cases "100 dvd n"; cases "4 dvd n") (simp_all add: year_days_def leap_year_def mod_eq_0_iff_dvd)
qed

lemma sum_year_days:
  "int (\<Sum>i = 1..<Suc y. year_days i) = int (365 * y + y div 4 + y div 400) - int (y div 100)"
proof (induction y)
  case (Suc y)
  have "(\<Sum>i = 1..<Suc (Suc y). year_days i) = (\<Sum>i = 1..<Suc y. year_days i) + year_days (Suc y)"
    by (rule sum.atLeastLessThan_Suc) simp
  with Suc.IH show ?case
    by (simp only: of_nat_add of_nat_mult div_Suc_if year_days_int) (simp only: of_nat_Suc algebra_simps of_nat_numeral)
qed simp

lemma month_cases: "m < 12 \<Longrightarrow> m \<in> {0, 1, 2, 3, 4, 5, 6, 7, 8, 9, 10, 11}" for m :: nat
  by (auto simp: eval_nat_numeral less_Suc_eq)

lemma sum_month_days:
  assumes "m < 12"
  shows "int (\<Sum>j < m. month_days y j) =
    (if m < 2 then 31 * int m else 367 * (int m - 1) div 12 - 30 + 59 + (if leap_year y then 1 else 0))"
  using month_cases [OF assms]
  by (elim insertE emptyE) (simp_all add: month_days_def mday_def lessThan_nat_numeral lessThan_Suc)

text \<open>Gauss' formula, with integers.\<close>

definition gauss_days :: "nat \<Rightarrow> nat \<Rightarrow> nat \<Rightarrow> int" where
  "gauss_days day month year =
    (let m = (if month \<le> 1 then int month + 11 else int month - 1);
         y = (if month \<le> 1 then year - 1 else year) in
     int (365 * y + y div 4 + y div 400) - int (y div 100) + 367 * m div 12 - 30 + int day - 1 - 719527 + 31 + 28)"

lemma calendar_1970: "calendar_days 1970 0 1 = 719162"
  using sum_year_days [of 1969] by (simp add: calendar_days_def)

lemma gauss_calendar:
  assumes "month < 12" and "1 \<le> year"
  shows "gauss_days day month year = calendar_days year month day - calendar_days 1970 0 1"
proof (cases "month < 2")
  case True
  obtain y where y: "year = Suc y" using assms(2) by (cases year) auto
  have "month = 0 \<or> month = 1" using True by auto
  then show ?thesis
    using sum_year_days [of y] sum_month_days [OF assms(1), of year] unfolding calendar_1970
    by (auto simp: gauss_days_def calendar_days_def y Let_def)
next
  case False
  have "(\<Sum>i = 1..<Suc year. year_days i) = (\<Sum>i = 1..<year. year_days i) + year_days year"
    using assms(2) by (simp add: sum.atLeastLessThan_Suc)
  with False show ?thesis
    using sum_year_days [of year] sum_month_days [OF assms(1), of year] unfolding calendar_1970
    by (auto simp: gauss_days_def calendar_days_def Let_def year_days_def)
qed

lemma u64_of_nat_div: "n < 2 ^ 64 \<Longrightarrow> k < 2 ^ 64 \<Longrightarrow> (of_nat n :: u64) div of_nat k = of_nat (n div k)"
  by (simp add: word_arith_nat_div unat_of_nat_u64)

lemma pt_gauss_word:
  assumes "1 \<le> year" and "year < 2 ^ 32"
  shows "pt_gauss day month year hour minute sec =
    of_int (gauss_days day month year * 86400 + int (hour * 3600 + minute * 60 + sec))"
proof -
  define y where "y = (if month \<le> 1 then year - 1 else year)"
  have y: "y < 2 ^ 64" using assms(2) by (auto simp: y_def)
  have yw: "(if int month - 1 \<le> 0 then of_nat year - 1 else of_nat year :: u64) = of_nat y"
    using assms(1) by (auto simp: y_def)
  have div: "(of_nat y :: u64) div 4 = of_nat (y div 4)" "(of_nat y :: u64) div 100 = of_nat (y div 100)"
    "(of_nat y :: u64) div 400 = of_nat (y div 400)"
    using u64_of_nat_div [OF y, of 4] u64_of_nat_div [OF y, of 100] u64_of_nat_div [OF y, of 400] by simp_all
  have m: "(if int month - 1 \<le> 0 then int month - 1 + 12 else int month - 1) = (if month \<le> 1 then int month + 11 else int month - 1)"
    by auto
  show ?thesis
    unfolding pt_gauss_def gauss_days_def Let_def yw m y_def [symmetric] div by simp
qed

lemma sint_of_int_u64: "- (2 ^ 63) \<le> i \<Longrightarrow> i < 2 ^ 63 \<Longrightarrow> sint (of_int i :: u64) = i"
  by (simp add: signed_of_int signed_take_bit_int_eq_self)

lemma gauss_days_bound:
  assumes "month < 12" and "year < 10000" and "day < 100"
  shows "\<bar>gauss_days day month year\<bar> < 10000000"
proof -
  define y where "y = (if month \<le> 1 then year - 1 else year)"
  define m where "m = (if month \<le> 1 then int month + 11 else int month - 1)"
  have "y < 10000" "0 \<le> m" "m \<le> 12" using assms by (auto simp: y_def m_def)
  moreover have "y div 4 \<le> y" "y div 100 \<le> y" "y div 400 \<le> y" by simp_all
  moreover have "0 \<le> 367 * m div 12" "367 * m div 12 \<le> 367" using calculation(2,3) by simp_all
  moreover have "gauss_days day month year =
      int (365 * y + y div 4 + y div 400) - int (y div 100) + 367 * m div 12 - 30 + int day - 1 - 719527 + 31 + 28"
    by (simp add: gauss_days_def Let_def y_def m_def)
  ultimately show ?thesis using assms(3) by linarith
qed

text \<open>
  The formula is right for every date of the calendar from the year 1 on, before 1970 too, where
  the unsigned arithmetic wraps around to the negative number of seconds.
\<close>

lemma pt_gauss_epoch:
  assumes "month < 12" and "1 \<le> year" and "year < 10000" and "day < 100"
    and "hour < 100" and "minute < 100" and "sec < 100"
  shows "sint (pt_gauss day month year hour minute sec) = epoch_seconds year month day hour minute sec"
proof -
  let ?s = "gauss_days day month year * 86400 + int (hour * 3600 + minute * 60 + sec)"
  have "- (2 ^ 63) \<le> ?s \<and> ?s < 2 ^ 63" using gauss_days_bound [OF assms(1,3,4)] assms(5-7) by (auto simp: abs_less_iff)
  moreover have "pt_gauss day month year hour minute sec = of_int ?s" using assms(2,3) by (intro pt_gauss_word) simp_all
  ultimately have "sint (pt_gauss day month year hour minute sec) = ?s" by (simp only: sint_of_int_u64)
  then show ?thesis unfolding gauss_calendar [OF assms(1,2)] epoch_seconds_def .
qed

subsection \<open>Dates in the three formats\<close>

definition digit_char :: "nat \<Rightarrow> u8" where
  "digit_char n = of_nat (48 + n)"

definition print_two :: "nat \<Rightarrow> u8 list" where
  "print_two n = [digit_char (n div 10), digit_char (n mod 10)]"

definition print_four :: "nat \<Rightarrow> u8 list" where
  "print_four n = print_two (n div 100) @ print_two (n mod 100)"

definition month_name :: "nat \<Rightarrow> u8 list" where
  "month_name m = bytes ([''Jan'', ''Feb'', ''Mar'', ''Apr'', ''May'', ''Jun'',
                          ''Jul'', ''Aug'', ''Sep'', ''Oct'', ''Nov'', ''Dec''] ! m)"

definition print_clock :: "nat \<Rightarrow> nat \<Rightarrow> nat \<Rightarrow> u8 list" where
  "print_clock hour minute sec = print_two hour @ bytes '':'' @ print_two minute @ bytes '':'' @ print_two sec"

text \<open>What follows the day of the week in each format; the years of RFC 850 are 1970 to 2069.\<close>

fun print_date :: "pt_fmt \<Rightarrow> nat \<Rightarrow> nat \<Rightarrow> nat \<Rightarrow> nat \<Rightarrow> nat \<Rightarrow> nat \<Rightarrow> u8 list" where
  "print_date rfc850 y m d hour minute sec =
     bytes '', '' @ print_two d @ bytes ''-'' @ month_name m @ bytes ''-'' @ print_two (y mod 100) @ bytes '' '' @
     print_clock hour minute sec"
| "print_date isoc y m d hour minute sec =
     bytes '' '' @ month_name m @ bytes '' '' @ (if d < 10 then [SP, digit_char d] else print_two d) @ bytes '' '' @
     print_clock hour minute sec @ bytes '' '' @ print_four y"
| "print_date _ y m d hour minute sec =
     bytes '', '' @ print_two d @ bytes '' '' @ month_name m @ bytes '' '' @ print_four y @ bytes '' '' @
     print_clock hour minute sec"

definition date_ok :: "pt_fmt \<Rightarrow> nat \<Rightarrow> nat \<Rightarrow> nat \<Rightarrow> nat \<Rightarrow> nat \<Rightarrow> nat \<Rightarrow> bool" where
  "date_ok fmt y m d hour minute sec \<longleftrightarrow>
     (if fmt = rfc850 then 1970 \<le> y \<and> y < 2070 else 1 \<le> y \<and> y < 10000) \<and>
     m < 12 \<and> 1 \<le> d \<and> d \<le> month_days y m \<and> hour < 24 \<and> minute < 60 \<and> sec < 60"

lemma digit_char_facts:
  assumes "n < 10"
  shows "is_digit (digit_char n)" "unat (digit_char n - 48) = n" "digit_char n \<noteq> SP"
proof -
  have u: "unat (digit_char n) = 48 + n" using assms by (simp add: digit_char_def unsigned_of_nat take_bit_nat_def del: of_nat_add)
  then show "is_digit (digit_char n)" using assms by (simp add: is_digit_unat)
  show "unat (digit_char n - 48) = n" using u by (subst unat_sub) (simp_all add: word_le_nat_alt)
  show "digit_char n \<noteq> SP" using u by auto
qed

lemma drop_nth_eq: "drop p mem = xs \<Longrightarrow> i < length xs \<Longrightarrow> mem ! (p + i) = xs ! i"
  by auto

lemma pt_two_print:
  assumes "drop p mem = print_two n @ rest" and "n < 100"
  shows "pt_two mem p = Some n"
proof -
  have "mem ! p = digit_char (n div 10)" "mem ! (p + 1) = digit_char (n mod 10)"
    using drop_nth_eq [OF assms(1), of 0] drop_nth_eq [OF assms(1), of 1] by (simp_all add: print_two_def)
  moreover have "n div 10 < 10" "n mod 10 < 10" using assms(2) by simp_all
  ultimately show ?thesis by (simp add: pt_two_def pt_guard_def digit_at_def digit_char_facts)
qed

lemma pt_four_print:
  assumes "drop p mem = print_four n @ rest" and "n < 10000"
  shows "pt_four mem p = Some n"
proof -
  have "mem ! p = digit_char (n div 100 div 10)" "mem ! (p + 1) = digit_char (n div 100 mod 10)"
    "mem ! (p + 2) = digit_char (n mod 100 div 10)" "mem ! (p + 3) = digit_char (n mod 100 mod 10)"
    using drop_nth_eq [OF assms(1), of 0] drop_nth_eq [OF assms(1), of 1] drop_nth_eq [OF assms(1), of 2]
      drop_nth_eq [OF assms(1), of 3]
    by (simp_all add: print_two_def print_four_def)
  moreover have "n div 100 div 10 < 10" "n div 100 mod 10 < 10" "n mod 100 div 10 < 10" "n mod 100 mod 10 < 10"
    using assms(2) by simp_all
  moreover have "n div 100 div 10 * 1000 + n div 100 mod 10 * 100 + n mod 100 div 10 * 10 + n mod 100 mod 10 = n"
    using div_mult_mod_eq [of "n div 100" 10] div_mult_mod_eq [of "n mod 100" 10] div_mult_mod_eq [of n 100] by linarith
  ultimately show ?thesis by (simp add: pt_four_def pt_guard_def digit_at_def digit_char_facts)
qed

lemma length_print [simp]:
  "length (print_two n) = 2" "length (print_four n) = 4" "length (print_clock h mi s) = 8"
  by (simp_all add: print_two_def print_four_def print_clock_def)

lemma length_month_name [simp]: "m < 12 \<Longrightarrow> length (month_name m) = 3"
  by (drule month_cases, elim insertE emptyE) (simp_all add: month_name_def)

lemma pt_month_name:
  assumes "m < 12" and "drop p mem = month_name m @ rest"
  shows "pt_month mem p = Some m" "mem ! p \<noteq> SP"
  using drop_nth_eq [OF assms(2), of 0] drop_nth_eq [OF assms(2), of 1] drop_nth_eq [OF assms(2), of 2] month_cases [OF assms(1)]
  by (atomize (full), elim insertE emptyE) (simp_all add: month_name_def bytes_def pt_month_def Let_def)

lemma drop_more: "drop p mem = xs \<Longrightarrow> drop (p + k) mem = drop k xs"
  by (auto simp: add.commute)

lemma pt_clock_print:
  assumes "drop p mem = SP # print_clock hour minute sec @ rest" and "hour < 100" and "minute < 100" and "sec < 100"
  shows "pt_clock mem p = Some (hour, minute, sec)"
proof -
  have "pt_two mem (p + 1) = Some hour" "pt_two mem (p + 4) = Some minute" "pt_two mem (p + 7) = Some sec"
    using drop_more [OF assms(1), of 1] drop_more [OF assms(1), of 4] drop_more [OF assms(1), of 7] assms(2-)
    by (simp_all add: print_clock_def pt_two_print)
  moreover have "mem ! p = SP" "mem ! (p + 3) = chr CHR '':''" "mem ! (p + 6) = chr CHR '':''"
    using drop_nth_eq [OF assms(1), of 0] drop_nth_eq [OF assms(1), of 3] drop_nth_eq [OF assms(1), of 6]
    by (simp_all add: print_clock_def bytes_def print_two_def)
  ultimately show ?thesis by (simp add: pt_clock_def pt_guard_def)
qed

lemma pt_scan_stop:
  assumes "drop p mem = ws @ c # rest" and "chr CHR '','' \<notin> set ws" and "SP \<notin> set ws"
    and "c = chr CHR '','' \<or> c = SP" and "p + length ws < lim"
  shows "pt_scan mem p lim = (p + length ws, if c = SP then isoc else pt_no)"
  using assms
proof (induction ws arbitrary: p)
  case Nil
  have "mem ! p = c" using drop_nth_eq [OF Nil(1), of 0] by simp
  with Nil show ?case by (subst pt_scan.simps) auto
next
  case (Cons w ws)
  have "mem ! p = w" using drop_nth_eq [OF Cons.prems(1), of 0] by simp
  moreover have "drop (Suc p) mem = ws @ c # rest" using drop_more [OF Cons.prems(1), of 1] by simp
  ultimately show ?case using Cons.IH [of "Suc p"] Cons.prems by (subst pt_scan.simps) auto
qed

lemma pt_spaces_stop:
  assumes "drop p mem = c # rest" and "c \<noteq> SP"
  shows "pt_spaces mem p lim = p"
  using drop_nth_eq [OF assms(1), of 0] assms(2) by (subst pt_spaces.simps) simp

lemma print_two_start: "n < 100 \<Longrightarrow> \<exists>c cs. print_two n = c # cs \<and> c \<noteq> SP"
  by (simp add: print_two_def digit_char_facts)

text \<open>The name of the day and what follows it are passed over.\<close>

lemma pt_start_comma:
  assumes "drop v mem = ws @ bytes '', '' @ c # rest" and "chr CHR '','' \<notin> set ws" and "SP \<notin> set ws"
    and "length ws + 2 < len" and "c \<noteq> SP"
  shows "pt_scan mem v (v + len) = (v + length ws, pt_no)"
    and "pt_spaces mem (v + length ws + 1) (v + len) = v + length ws + 2"
    and "drop (v + length ws + 2) mem = c # rest"
proof -
  show "pt_scan mem v (v + len) = (v + length ws, pt_no)"
    using pt_scan_stop [of v mem ws "chr CHR '',''" _ "v + len"] assms by (simp add: bytes_def)
  show 2: "drop (v + length ws + 2) mem = c # rest"
    using drop_more [OF assms(1), of "length ws + 2"] by (simp add: bytes_def add.assoc)
  have "drop (v + length ws + 1) mem = SP # c # rest"
    using drop_more [OF assms(1), of "length ws + 1"] by (simp add: bytes_def add.assoc)
  from drop_nth_eq [OF this, of 0] have "mem ! (v + length ws + 1) = SP" by simp
  with pt_spaces_stop [OF 2 assms(5)] show "pt_spaces mem (v + length ws + 1) (v + len) = v + length ws + 2"
    using assms(4) by (subst pt_spaces.simps) simp
qed

text \<open>The fields are read back, in each format.\<close>

lemma pt_fields_rfc822:
  assumes "drop v mem = ws @ print_date rfc822 y m d hour minute sec @ rest" and "chr CHR '','' \<notin> set ws" and "SP \<notin> set ws"
    and "y < 10000" and "m < 12" and "d < 100" and "hour < 100" and "minute < 100" and "sec < 100"
    and "length ws + length (print_date rfc822 y m d hour minute sec) \<le> len"
  shows "pt_fields mem v len = Some (d, m, y, hour, minute, sec)"
proof -
  let ?p = "v + length ws + 2"
  obtain c cs where c: "print_two d = c # cs" "c \<noteq> SP" using print_two_start [OF assms(6)] by auto
  have len: "20 + length ws + 2 \<le> len" using assms(5,10) by (simp add: bytes_def)
  note start = pt_start_comma [of v mem ws c _ len, OF _ assms(2,3) _ c(2)]
  have body: "drop ?p mem = print_two d @ SP # month_name m @ SP # print_four y @ SP # print_clock hour minute sec @ rest"
    using start(3) assms(1) len by (simp add: c(1) bytes_def)
  have "pt_day_first mem ?p (v + len) = Some (rfc822, d, ?p + 3)"
    using pt_two_print [OF body assms(6)] drop_nth_eq [OF body, of 2] len by (simp add: pt_day_first_def pt_guard_def nth_append)
  moreover have "pt_month mem (?p + 3) = Some m"
    using drop_more [OF body, of 3] assms(5) by (intro pt_month_name(1)) simp_all
  moreover have "mem ! (?p + 3 + 3) = SP"
    using drop_nth_eq [OF body, of 6] assms(5) by (simp add: nth_append)
  moreover have "pt_year rfc822 mem (?p + 3 + 4) = Some (y, ?p + 3 + 4 + 4)"
    using drop_more [OF body, of 7] assms(4,5) by (simp add: pt_year_def pt_four_print)
  moreover have "pt_clock mem (?p + 3 + 4 + 4) = Some (hour, minute, sec)"
    using drop_more [OF body, of 11] assms(5,7-9) by (intro pt_clock_print) simp_all
  moreover have "pt_scan mem v (v + len) = (v + length ws, pt_no)" "pt_spaces mem (v + length ws + 1) (v + len) = ?p"
    using start(1,2) assms(1) len by (simp_all add: c(1) bytes_def)
  ultimately show ?thesis using len by (simp add: pt_fields_def pt_guard_def Let_def)
qed

lemma short_year:
  assumes "1970 \<le> q * 100 + r" and "q * 100 + r < 2070" and "r < 100"
  shows "r + (if r < 70 then 2000 else 1900) = q * 100 + (r :: nat)"
proof -
  have "q = 19 \<or> q = 20" using assms by presburger
  with assms show ?thesis by auto
qed

lemma pt_fields_rfc850:
  assumes "drop v mem = ws @ print_date rfc850 y m d hour minute sec @ rest" and "chr CHR '','' \<notin> set ws" and "SP \<notin> set ws"
    and "1970 \<le> y" and "y < 2070" and "m < 12" and "d < 100" and "hour < 100" and "minute < 100" and "sec < 100"
    and "length ws + length (print_date rfc850 y m d hour minute sec) \<le> len"
  shows "pt_fields mem v len = Some (d, m, y, hour, minute, sec)"
proof -
  let ?p = "v + length ws + 2"
  obtain c cs where c: "print_two d = c # cs" "c \<noteq> SP" using print_two_start [OF assms(7)] by auto
  have len: "18 + length ws + 2 \<le> len" using assms(6,11) by (simp add: bytes_def)
  note start = pt_start_comma [of v mem ws c _ len, OF _ assms(2,3) _ c(2)]
  have body: "drop ?p mem = print_two d @ chr CHR ''-'' # month_name m @ chr CHR ''-'' # print_two (y mod 100) @
      SP # print_clock hour minute sec @ rest"
    using start(3) assms(1) len by (simp add: c(1) bytes_def)
  have "y mod 100 + (if y mod 100 < 70 then 2000 else 1900) = y"
    using short_year [of "y div 100" "y mod 100"] assms(4,5) by simp
  then have "pt_year rfc850 mem (?p + 3 + 4) = Some (y, ?p + 3 + 4 + 2)"
    using drop_more [OF body, of 7] assms(6) pt_two_print [of "?p + 3 + 4" mem "y mod 100"] by (simp add: pt_year_def)
  moreover have "pt_day_first mem ?p (v + len) = Some (rfc850, d, ?p + 3)"
    using pt_two_print [OF body assms(7)] drop_nth_eq [OF body, of 2] by (simp add: pt_day_first_def nth_append)
  moreover have "pt_month mem (?p + 3) = Some m"
    using drop_more [OF body, of 3] assms(6) by (intro pt_month_name(1)) simp_all
  moreover have "mem ! (?p + 3 + 3) = chr CHR ''-''"
    using drop_nth_eq [OF body, of 6] assms(6) by (simp add: nth_append)
  moreover have "pt_clock mem (?p + 3 + 4 + 2) = Some (hour, minute, sec)"
    using drop_more [OF body, of 9] assms(6,8-10) by (intro pt_clock_print) simp_all
  moreover have "pt_scan mem v (v + len) = (v + length ws, pt_no)" "pt_spaces mem (v + length ws + 1) (v + len) = ?p"
    using start(1,2) assms(1) len by (simp_all add: c(1) bytes_def)
  ultimately show ?thesis using len by (simp add: pt_fields_def pt_guard_def Let_def)
qed

lemma pt_day_isoc_print:
  assumes "drop p mem = (if d < 10 then [SP, digit_char d] else print_two d) @ SP # rest" and "d < 100" and "\<not> lim - (p + 2) < 14"
  shows "pt_day_isoc mem p lim = Some (d, p + 2)"
proof (cases "d < 10")
  case True
  with assms(1) have b: "drop p mem = SP # digit_char d # SP # rest" by simp
  from drop_nth_eq [OF b, of 0] drop_nth_eq [OF b, of 1] drop_nth_eq [OF b, of 2]
  have "mem ! p = SP" "mem ! (p + 1) = digit_char d" "mem ! (p + 2) = SP" by simp_all
  with True assms(3) show ?thesis
    by (simp add: pt_day_isoc_def pt_guard_def digit_at_def digit_char_facts)
next
  case False
  with assms(1) have b: "drop p mem = print_two d @ SP # rest" by simp
  from drop_nth_eq [OF b, of 0] drop_nth_eq [OF b, of 1]
  have "mem ! p = digit_char (d div 10)" "mem ! (p + 1) = digit_char (d mod 10)" by (simp_all add: print_two_def)
  moreover have "d div 10 < 10" "d mod 10 < 10" using assms(2) by simp_all
  ultimately show ?thesis using assms(3)
    by (simp add: pt_day_isoc_def pt_guard_def digit_at_def digit_char_facts)
qed

lemma pt_fields_isoc:
  assumes "drop v mem = ws @ print_date isoc y m d hour minute sec @ rest" and "chr CHR '','' \<notin> set ws" and "SP \<notin> set ws"
    and "y < 10000" and "m < 12" and "d < 100" and "hour < 100" and "minute < 100" and "sec < 100"
    and "length ws + length (print_date isoc y m d hour minute sec) \<le> len"
  shows "pt_fields mem v len = Some (d, m, y, hour, minute, sec)"
proof -
  let ?p = "v + length ws + 1"
  let ?day = "if d < 10 then [SP, digit_char d] else print_two d"
  have ld: "length ?day = 2" by simp
  have len: "20 + length ws + 1 \<le> len" using assms(5,10) by (simp add: bytes_def ld)
  have "pt_scan mem v (v + len) = (v + length ws, isoc)"
    using pt_scan_stop [of v mem ws SP _ "v + len"] assms(1-3) len by (simp add: bytes_def)
  moreover have body: "drop ?p mem = month_name m @ SP # ?day @ SP # print_clock hour minute sec @ SP # print_four y @ rest"
    using drop_more [OF assms(1), of "length ws + 1"] by (simp add: bytes_def add.assoc)
  moreover have "pt_spaces mem ?p (v + len) = ?p"
    using pt_month_name(2) [OF assms(5) body] by (subst pt_spaces.simps) simp
  moreover have "pt_month mem ?p = Some m" by (rule pt_month_name(1) [OF assms(5) body])
  moreover have "pt_day_isoc mem (?p + 4) (v + len) = Some (d, ?p + 4 + 2)"
    using drop_more [OF body, of 4] assms(5,6) len by (intro pt_day_isoc_print) simp_all
  moreover have q: "drop (?p + 4 + 2) mem = SP # print_clock hour minute sec @ SP # print_four y @ rest"
    using drop_more [OF body, of 6] assms(5) ld by (simp add: ld)
  moreover have "pt_clock mem (?p + 4 + 2) = Some (hour, minute, sec)" using q assms(7-9) by (rule pt_clock_print)
  moreover have "mem ! (?p + 4 + 2 + 9) = SP" using drop_nth_eq [OF q, of 9] by (simp add: nth_append)
  moreover have "pt_four mem (?p + 4 + 2 + 10) = Some y"
    using drop_more [OF q, of 10] assms(4) by (intro pt_four_print) simp_all
  ultimately show ?thesis using len by (simp add: pt_fields_def pt_guard_def Let_def)
qed

lemma pt_valid_date:
  "pt_valid d m y hour minute sec \<longleftrightarrow> d \<le> month_days y m \<and> hour < 24 \<and> minute < 60 \<and> sec < 60"
proof -
  have leap: "\<not> (y mod 4 \<noteq> 0 \<or> y mod 100 = 0 \<and> y mod 400 \<noteq> 0) \<longleftrightarrow> leap_year y" by (auto simp: leap_year_def)
  have "(if d = 29 \<and> m = 1 then leap_year y else \<not> d > mday ! m) \<longleftrightarrow> d \<le> month_days y m"
    by (cases "m = 1"; cases "leap_year y") (auto simp: month_days_def mday_def)
  moreover have "\<not> (hour > 23 \<or> minute > 59 \<or> sec > 59) \<longleftrightarrow> hour < 24 \<and> minute < 60 \<and> sec < 60" by auto
  ultimately show ?thesis unfolding pt_valid_def leap by blast
qed

lemma month_days_bound: "m < 12 \<Longrightarrow> month_days y m \<le> 31"
  by (drule month_cases) (auto simp: month_days_def mday_def)

text \<open>
  C8: dates are read. A date of the calendar printed in any of the three formats of HTTP, with any
  name of the day without comma and space before it and anything after it, is read as its number of
  seconds from 1 January 1970 in the calendar: the count of days by years and months that
  Gauss' formula replaces. It holds from the year 1 on (for RFC 850, 1970 to 2069).
\<close>

theorem parse_time_formats:
  assumes "drop v mem = ws @ print_date fmt y m d hour minute sec @ rest"
    and "chr CHR '','' \<notin> set ws" and "SP \<notin> set ws"
    and "length ws + length (print_date fmt y m d hour minute sec) \<le> len"
    and "date_ok fmt y m d hour minute sec"
  shows "\<exists>t. ngx_http_parse_time mem v len = Some t \<and> sint t = epoch_seconds y m d hour minute sec"
proof -
  have ok: "1 \<le> y" "y < 10000" "m < 12" "d \<le> month_days y m" "hour < 24" "minute < 60" "sec < 60"
    using assms(5) by (auto simp: date_ok_def split: if_splits)
  then have "d < 100" "hour < 100" "minute < 100" "sec < 100" using month_days_bound [of m y] by simp_all
  have "pt_fields mem v len = Some (d, m, y, hour, minute, sec)"
  proof (cases fmt)
    case rfc850
    then show ?thesis
      using pt_fields_rfc850 [of v mem ws y m d hour minute sec rest len] assms ok \<open>d < 100\<close>
      by (simp add: date_ok_def)
  next
    case isoc
    then show ?thesis
      using pt_fields_isoc [of v mem ws y m d hour minute sec rest len] assms ok \<open>d < 100\<close> by simp
  qed (use pt_fields_rfc822 [of v mem ws y m d hour minute sec rest len] assms ok \<open>d < 100\<close> in simp_all)
  moreover have "pt_valid d m y hour minute sec" using ok by (simp add: pt_valid_date)
  ultimately show ?thesis
    using pt_gauss_epoch [of m y d hour minute sec] ok \<open>d < 100\<close>
    by (simp add: ngx_http_parse_time_def pt_guard_def)
qed

text \<open>A leap day before 1970.\<close>

lemma parse_time_formats_witness:
  "\<exists>t. ngx_http_parse_time (bytes ''Sat Feb 29 12:30:05 1964'') 0 24 = Some t \<and> sint t = epoch_seconds 1964 1 29 12 30 5"
  by (rule parse_time_formats [where ws = "bytes ''Sat''" and rest = "[]" and fmt = isoc])
    (simp_all add: bytes_def print_clock_def print_two_def print_four_def digit_char_def month_name_def
      date_ok_def month_days_def leap_year_def)

lemma pt_month_bound: "pt_month mem p = Some m \<Longrightarrow> m < 12"
  by (auto simp: pt_month_def Let_def split: if_splits)

lemma digit_at_bound: "is_digit (mem ! p) \<Longrightarrow> digit_at mem p < 10"
  by (auto simp: digit_at_def is_digit_def unat_sub word_le_nat_alt)

lemma pt_two_bound: "pt_two mem p = Some n \<Longrightarrow> n < 100"
  by (auto simp: pt_two_def pt_guard_def dest!: digit_at_bound split: if_splits)

lemma pt_four_bound: "pt_four mem p = Some n \<Longrightarrow> n < 10000"
  by (auto simp: pt_four_def pt_guard_def dest!: digit_at_bound split: if_splits)

lemma pt_fields_bound:
  assumes "pt_fields mem v len = Some (d, m, y, hour, minute, sec)"
  shows "m < 12 \<and> y < 10000"
  using assms
  by (auto simp: pt_fields_def pt_year_def pt_guard_def Let_def bind_eq_Some_conv
      dest: pt_month_bound pt_two_bound pt_four_bound split: if_splits prod.splits)

text \<open>
  C9: only dates of the calendar are accepted, up to the days with number 0. Whatever the header
  holds, a result comes from a month, a day of it, an hour, a minute and a second in their
  ranges, leap years taken into account, and is their time; a day 0 is taken for the last day of
  the month before. The year 0 is left out: the formula wraps around there.
\<close>

theorem parse_time_accepted:
  assumes "ngx_http_parse_time mem v len = Some t"
  shows "\<exists>y m d hour minute sec. pt_fields mem v len = Some (d, m, y, hour, minute, sec) \<and>
    m < 12 \<and> d \<le> month_days y m \<and> hour < 24 \<and> minute < 60 \<and> sec < 60 \<and>
    (y \<noteq> 0 \<longrightarrow> sint t = epoch_seconds y m d hour minute sec)"
proof -
  obtain d m y hour minute sec where f: "pt_fields mem v len = Some (d, m, y, hour, minute, sec)"
      "pt_valid d m y hour minute sec" "t = pt_gauss d m y hour minute sec"
    using assms by (auto simp: ngx_http_parse_time_def pt_guard_def bind_eq_Some_conv split: if_splits)
  have b: "m < 12" "y < 10000" using pt_fields_bound [OF f(1)] by simp_all
  have v: "d \<le> month_days y m" "hour < 24" "minute < 60" "sec < 60" using f(2) pt_valid_date [of d m y] by simp_all
  have "d < 100" using v(1) month_days_bound [OF b(1), of y] by simp
  with f b v pt_gauss_epoch [of m y d hour minute sec] show ?thesis by auto
qed

text \<open>The day 0 of March 2014 is taken for 28 February.\<close>

lemma parse_time_accepted_witness:
  "\<exists>t. ngx_http_parse_time (bytes ''Sat, 00 Mar 2014 00:00:00 GMT'') 0 29 = Some t \<and>
     sint t = epoch_seconds 2014 2 0 0 0 0 \<and> epoch_seconds 2014 2 0 0 0 0 = epoch_seconds 2014 1 28 0 0 0"
proof -
  have f: "pt_fields (bytes ''Sat, 00 Mar 2014 00:00:00 GMT'') 0 29 = Some (0, 2, 2014, 0, 0, 0)"
    by (rule pt_fields_rfc822 [where ws = "bytes ''Sat''" and rest = "bytes '' GMT''"])
      (simp_all add: bytes_def print_clock_def print_two_def print_four_def digit_char_def month_name_def)
  then obtain t where t: "ngx_http_parse_time (bytes ''Sat, 00 Mar 2014 00:00:00 GMT'') 0 29 = Some t"
    by (simp add: ngx_http_parse_time_def pt_guard_def pt_valid_def mday_def)
  from parse_time_accepted [OF this] f have "sint t = epoch_seconds 2014 2 0 0 0 0" by simp
  moreover have "epoch_seconds 2014 2 0 0 0 0 = epoch_seconds 2014 1 28 0 0 0"
    by (simp add: epoch_seconds_def calendar_days_def month_days_def mday_def leap_year_def lessThan_nat_numeral)
  ultimately show ?thesis using t by simp
qed

subsection \<open>Reads stay inside of the value\<close>

definition agree :: "memory \<Rightarrow> memory \<Rightarrow> ptr \<Rightarrow> ptr \<Rightarrow> bool" where
  "agree mem mem' lo hi \<longleftrightarrow> (\<forall>i. lo \<le> i \<and> i < hi \<longrightarrow> mem ! i = mem' ! i)"

lemma agreeD: "agree mem mem' lo hi \<Longrightarrow> lo \<le> i \<Longrightarrow> i < hi \<Longrightarrow> mem ! i = mem' ! i"
  by (simp add: agree_def)

lemma pt_scan_local:
  assumes "agree mem mem' lo lim" and "lo \<le> p"
  shows "pt_scan mem p lim = pt_scan mem' p lim \<and> p \<le> fst (pt_scan mem p lim)"
  using assms
proof (induction mem p lim rule: pt_scan.induct)
  case (1 mem p lim)
  show ?case
  proof (cases "p < lim \<and> mem ! p \<noteq> chr CHR '','' \<and> mem ! p \<noteq> SP")
    case True
    then have "pt_scan mem p lim = pt_scan mem (Suc p) lim" by (subst pt_scan.simps) simp
    moreover have "pt_scan mem' p lim = pt_scan mem' (Suc p) lim"
      using True agreeD [OF "1.prems"] by (subst pt_scan.simps) simp
    ultimately show ?thesis using "1.IH" True "1.prems" by (metis Suc_leD le_SucI)
  next
    case False
    then show ?thesis using agreeD [OF "1.prems"] by (subst (1 2 3) pt_scan.simps) auto
  qed
qed

lemma pt_spaces_local:
  assumes "agree mem mem' lo lim" and "lo \<le> p"
  shows "pt_spaces mem p lim = pt_spaces mem' p lim \<and> p \<le> pt_spaces mem p lim"
  using assms
proof (induction mem p lim rule: pt_spaces.induct)
  case (1 mem p lim)
  show ?case
  proof (cases "p < lim \<and> mem ! p = SP")
    case True
    then have "pt_spaces mem p lim = pt_spaces mem (Suc p) lim" by (subst pt_spaces.simps) simp
    moreover have "pt_spaces mem' p lim = pt_spaces mem' (Suc p) lim"
      using True agreeD [OF "1.prems"] by (subst pt_spaces.simps) simp
    ultimately show ?thesis using "1.IH" [OF True] "1.prems" by simp
  next
    case False
    then show ?thesis using agreeD [OF "1.prems"] by (subst (1 2 3) pt_spaces.simps) auto
  qed
qed

lemma pt_field_local:
  assumes "agree mem mem' lo lim" and "lo \<le> p"
  shows pt_two_local: "p + 1 < lim \<Longrightarrow> pt_two mem p = pt_two mem' p"
    and pt_four_local: "p + 3 < lim \<Longrightarrow> pt_four mem p = pt_four mem' p"
    and pt_month_local: "p + 2 < lim \<Longrightarrow> pt_month mem p = pt_month mem' p"
    and pt_day_first_local: "p + 2 < lim \<Longrightarrow> pt_day_first mem p lim = pt_day_first mem' p lim"
    and pt_day_isoc_local: "p + 2 < lim \<Longrightarrow> pt_day_isoc mem p lim = pt_day_isoc mem' p lim"
    and pt_clock_local: "p + 8 < lim \<Longrightarrow> pt_clock mem p = pt_clock mem' p"
proof -
  have eq: "mem ! i = mem' ! i" if "p \<le> i" "i < lim" for i using agreeD [OF assms(1)] assms(2) that by simp
  have two: "pt_two mem i = pt_two mem' i" if "p \<le> i" "i + 1 < lim" for i
    using that eq [of i] eq [of "i + 1"] by (simp add: pt_two_def digit_at_def)
  show "p + 1 < lim \<Longrightarrow> pt_two mem p = pt_two mem' p" by (simp add: two)
  show "p + 3 < lim \<Longrightarrow> pt_four mem p = pt_four mem' p"
    using eq [of p] eq [of "p + 1"] eq [of "p + 2"] eq [of "p + 3"] by (simp add: pt_four_def digit_at_def)
  show "p + 2 < lim \<Longrightarrow> pt_month mem p = pt_month mem' p"
    using eq [of p] eq [of "p + 1"] eq [of "p + 2"] by (simp add: pt_month_def)
  show "p + 2 < lim \<Longrightarrow> pt_day_first mem p lim = pt_day_first mem' p lim"
    using two [of p] eq [of "p + 2"] by (simp add: pt_day_first_def cong: if_cong)
  show "p + 2 < lim \<Longrightarrow> pt_day_isoc mem p lim = pt_day_isoc mem' p lim"
    using eq [of p] eq [of "p + 1"] eq [of "p + 2"] by (simp add: pt_day_isoc_def digit_at_def cong: if_cong)
  show "p + 8 < lim \<Longrightarrow> pt_clock mem p = pt_clock mem' p"
    using eq [of p] eq [of "p + 3"] eq [of "p + 6"] two [of "p + 1"] two [of "p + 4"] two [of "p + 7"]
    by (simp add: pt_clock_def)
qed

lemma pt_day_first_pos:
  assumes "pt_day_first mem p lim = Some (fmt, day, q)"
  shows "q = p + 3 \<and> (fmt = rfc822 \<and> \<not> lim - (p + 2) < 18 \<or> fmt = rfc850)"
  using assms by (auto simp: pt_day_first_def pt_guard_def bind_eq_Some_conv split: if_splits)

lemma pt_day_isoc_pos:
  assumes "pt_day_isoc mem p lim = Some (day, q)"
  shows "p < q \<and> \<not> lim - q < 14"
  using assms by (auto simp: pt_day_isoc_def pt_guard_def Let_def bind_eq_Some_conv split: if_splits)

text \<open>The two ways through the function after its start.\<close>

definition pt_after_isoc :: "memory \<Rightarrow> ptr \<Rightarrow> ptr \<Rightarrow> (nat \<times> nat \<times> nat \<times> nat \<times> nat \<times> nat) option" where
  "pt_after_isoc mem p lim = do {
     month \<leftarrow> pt_month mem p;
     (day, q) \<leftarrow> pt_day_isoc mem (p + 4) lim;
     (hour, minute, sec) \<leftarrow> pt_clock mem q;
     pt_guard (mem ! (q + 9) = SP);
     year \<leftarrow> pt_four mem (q + 10);
     Some (day, month, year, hour, minute, sec) }"

definition pt_after_day :: "pt_fmt \<Rightarrow> nat \<Rightarrow> memory \<Rightarrow> ptr \<Rightarrow> (nat \<times> nat \<times> nat \<times> nat \<times> nat \<times> nat) option" where
  "pt_after_day fmt day mem p = do {
     month \<leftarrow> pt_month mem p;
     pt_guard (mem ! (p + 3) = (if fmt = rfc822 then SP else chr CHR ''-''));
     (year, q) \<leftarrow> pt_year fmt mem (p + 4);
     (hour, minute, sec) \<leftarrow> pt_clock mem q;
     Some (day, month, year, hour, minute, sec) }"

lemma pt_fields_ways:
  assumes "pt_scan mem v (v + len) = (p0, fmt0)" and "pt_spaces mem (p0 + 1) (v + len) = p1"
  shows "pt_fields mem v len =
    (if v + len - p1 < 18 then None
     else if fmt0 = isoc then pt_after_isoc mem p1 (v + len)
     else pt_day_first mem p1 (v + len) \<bind> (\<lambda>(fmt, day, p). pt_after_day fmt day mem p))"
proof (cases "v + len - p1 < 18")
  case True
  then show ?thesis using assms by (simp add: pt_fields_def pt_guard_def)
next
  case False
  show ?thesis
  proof (cases "fmt0 = isoc")
    case True
    with False assms show ?thesis by (simp add: pt_fields_def pt_guard_def pt_after_isoc_def)
  next
    case no_isoc: False
    show ?thesis
    proof (cases "pt_day_first mem p1 (v + len)")
      case None
      with False no_isoc assms show ?thesis by (simp add: pt_fields_def pt_guard_def)
    next
      case (Some x)
      obtain fmt day q where x: "x = (fmt, day, q)" by (cases x)
      with pt_day_first_pos [of mem p1 "v + len" fmt day q] Some have "fmt = rfc822 \<or> fmt = rfc850" by auto
      with False no_isoc assms Some x show ?thesis
        by (elim disjE) (simp_all add: pt_fields_def pt_guard_def pt_after_day_def)
    qed
  qed
qed

lemma pt_after_isoc_local:
  assumes "agree mem mem' lo lim" and "lo \<le> p" and "p + 17 < lim"
  shows "pt_after_isoc mem p lim = pt_after_isoc mem' p lim"
proof -
  have d: "pt_day_isoc mem (p + 4) lim = pt_day_isoc mem' (p + 4) lim"
    using pt_day_isoc_local [OF assms(1), of "p + 4"] assms(2,3) by simp
  have m: "pt_month mem p = pt_month mem' p" using pt_month_local [OF assms(1,2)] assms(3) by simp
  show ?thesis
  proof (cases "pt_day_isoc mem' (p + 4) lim")
    case (Some x)
    obtain day q where x: "x = (day, q)" by (cases x)
    have q: "p + 4 < q" "q + 13 < lim" using pt_day_isoc_pos [of mem' "p + 4" lim day q] Some x by auto
    then have "pt_clock mem q = pt_clock mem' q" "mem ! (q + 9) = mem' ! (q + 9)" "pt_four mem (q + 10) = pt_four mem' (q + 10)"
      using pt_clock_local [OF assms(1), of q] pt_four_local [OF assms(1), of "q + 10"] agreeD [OF assms(1), of "q + 9"] assms(2)
      by simp_all
    then show ?thesis using Some x by (simp add: pt_after_isoc_def d m)
  qed (simp add: pt_after_isoc_def d m)
qed

lemma pt_after_day_local:
  assumes "agree mem mem' lo lim" and "lo \<le> p" and "fmt = rfc822 \<and> p + 16 < lim \<or> fmt = rfc850 \<and> p + 14 < lim"
  shows "pt_after_day fmt day mem p = pt_after_day fmt day mem' p"
proof -
  have m: "pt_month mem p = pt_month mem' p" "mem ! (p + 3) = mem' ! (p + 3)"
    using pt_month_local [OF assms(1,2)] agreeD [OF assms(1), of "p + 3"] assms(2,3) by auto
  have "pt_four mem (p + 4) = pt_four mem' (p + 4) \<and> pt_clock mem (p + 4 + 4) = pt_clock mem' (p + 4 + 4)" if "fmt = rfc822"
    using pt_four_local [OF assms(1), of "p + 4"] pt_clock_local [OF assms(1), of "p + 4 + 4"] assms(2,3) that by simp
  moreover have "pt_two mem (p + 4) = pt_two mem' (p + 4) \<and> pt_clock mem (p + 4 + 2) = pt_clock mem' (p + 4 + 2)" if "fmt = rfc850"
    using pt_two_local [OF assms(1), of "p + 4"] pt_clock_local [OF assms(1), of "p + 4 + 2"] assms(2,3) that by simp
  ultimately show ?thesis using m assms(3)
    by (elim disjE) (simp_all add: pt_after_day_def pt_year_def)
qed

text \<open>
  \<open>ngx_http_parse_time\<close> reads no byte outside of the value it is given: its result is the same
  on any two memories that agree there. The three tests of the remaining length make up for the
  reads at fixed distances that follow them.
\<close>

theorem parse_time_reads_inside:
  assumes "agree mem mem' v (v + len)"
  shows "ngx_http_parse_time mem v len = ngx_http_parse_time mem' v len"
proof -
  let ?lim = "v + len"
  obtain p0 fmt0 where s: "pt_scan mem v ?lim = (p0, fmt0)" by fastforce
  define p1 where "p1 = pt_spaces mem (p0 + 1) ?lim"
  have p0: "v \<le> p0" "pt_scan mem' v ?lim = (p0, fmt0)" using pt_scan_local [OF assms order_refl] s by (metis fst_conv)+
  have p1: "v \<le> p1" "pt_spaces mem' (p0 + 1) ?lim = p1"
    using pt_spaces_local [OF assms, of "p0 + 1"] p0(1) by (auto simp: p1_def)
  note ways = pt_fields_ways [OF s p1_def [symmetric]] pt_fields_ways [OF p0(2) p1(2)]
  have "pt_fields mem v len = pt_fields mem' v len"
  proof (cases "?lim - p1 < 18")
    case False
    then have room: "p1 + 17 < ?lim" by simp
    have d: "pt_day_first mem p1 ?lim = pt_day_first mem' p1 ?lim"
      using pt_day_first_local [OF assms p1(1)] room by simp
    have "pt_after_day fmt day mem q = pt_after_day fmt day mem' q" if "pt_day_first mem' p1 ?lim = Some (fmt, day, q)" for fmt day q
      using pt_day_first_pos [OF that] p1(1) room by (intro pt_after_day_local [OF assms]) auto
    then have "pt_day_first mem p1 ?lim \<bind> (\<lambda>(fmt, day, p). pt_after_day fmt day mem p) =
      pt_day_first mem' p1 ?lim \<bind> (\<lambda>(fmt, day, p). pt_after_day fmt day mem' p)"
      unfolding d by (cases "pt_day_first mem' p1 ?lim") auto
    then show ?thesis using ways pt_after_isoc_local [OF assms p1(1) room] by simp
  qed (simp add: ways)
  then show ?thesis by (simp add: ngx_http_parse_time_def)
qed

text \<open>What lies after the value does not matter.\<close>

lemma parse_time_reads_inside_witness:
  "ngx_http_parse_time (bytes ''Sat, 08 Mar 2014 00:00:00 GMT'') 0 8 = ngx_http_parse_time (bytes ''Sat, 08 '') 0 8"
  by (rule parse_time_reads_inside) (auto simp: agree_def bytes_def less_Suc_eq numeral_eq_Suc)

end
