(* ===== verification/Mail_Session.thy ===== *)
theory Mail_Session
  imports Buffer_Feed
begin

text \<open>
  What the command parsers of the mail proxy (\<open>src/mail/ngx_mail_parse.c\<close>) share: the fields
  of \<open>ngx_mail_session_t\<close> (\<open>src/mail/ngx_mail.h\<close>) they read and write, the arguments they
  collect in \<open>s->args\<close>, and the scan of arguments separated by spaces, which the POP3, IMAP and
  SMTP parsers do alike (the locale \<open>argument_scan\<close>).

  \<open>s->buffer->start\<close> is the start of the memory, offset 0; its address is a field, because the
  code may subtract pointers one of which is NULL. \<open>ngx_array_push\<close> and \<open>ngx_toupper\<close> belong
  to the nginx core: whether there is room for one more argument (\<open>room\<close>) and the upper-case
  function are parameters.
\<close>

subsection \<open>The session\<close>

record mail_str =
  ms_data :: "ptr option"
  ms_len :: u64

text \<open>
  A string in a block of its own: the bytes of the block from the pointer on, and the length.
\<close>

record heap_str =
  hs_data :: "u8 list"
  hs_len :: u64

definition hs_bytes :: "heap_str \<Rightarrow> u8 list" where
  "hs_bytes h = take (unat (hs_len h)) (hs_data h)"

record ngx_mail_session_t =
  m_buffer_start :: u64  \<comment> \<open>the address \<open>s->buffer->start\<close>\<close>
  m_quoted :: bool
  m_backslash :: bool
  m_no_sync_literal :: bool
  m_auth_method :: u64
  m_login :: heap_str
  m_passwd :: heap_str
  m_smtp_helo :: heap_str
  m_smtp_from :: heap_str
  m_smtp_to :: heap_str
  m_tag :: mail_str
  m_cmd :: mail_str
  m_command :: u64
  m_args :: "mail_str list"
  m_cmd_start :: "ptr option"
  m_arg_start :: "ptr option"
  m_arg_end :: "ptr option"
  m_literal_len :: u64

text \<open>The session is allocated zeroed (\<open>ngx_pcalloc\<close>), and the array of arguments is empty.\<close>

definition no_str :: mail_str where
  "no_str = \<lparr>ms_data = None, ms_len = 0\<rparr>"

definition no_hs :: heap_str where
  "no_hs = \<lparr>hs_data = [], hs_len = 0\<rparr>"

definition new_session :: "u64 \<Rightarrow> ngx_mail_session_t" where
  "new_session a = \<lparr>m_buffer_start = a, m_quoted = False, m_backslash = False,
     m_no_sync_literal = False, m_auth_method = 0, m_login = no_hs, m_passwd = no_hs,
     m_smtp_helo = no_hs, m_smtp_from = no_hs, m_smtp_to = no_hs, m_tag = no_str,
     m_cmd = no_str, m_command = 0, m_args = [], m_cmd_start = None, m_arg_start = None,
     m_arg_end = None, m_literal_len = 0\<rparr>"

text \<open>The address of a pointer, and the difference of two.\<close>

definition m_addr :: "ngx_mail_session_t \<Rightarrow> ptr option \<Rightarrow> u64" where
  "m_addr s p = (case p of None \<Rightarrow> 0 | Some a \<Rightarrow> m_buffer_start s + of_nat a)"

definition ptr_diff :: "ngx_mail_session_t \<Rightarrow> ptr option \<Rightarrow> ptr option \<Rightarrow> u64" where
  "ptr_diff s p q = m_addr s p - m_addr s q"

lemma ptr_diff_Some: "b \<le> a \<Longrightarrow> ptr_diff s (Some a) (Some b) = of_nat (a - b)"
  by (simp add: ptr_diff_def m_addr_def of_nat_diff)

text \<open>
  The code that closes an argument:
  \<^verbatim>\<open>
    arg = ngx_array_push(&s->args); if (arg == NULL) { return NGX_ERROR; }
    arg->len = p - s->arg_start; arg->data = s->arg_start; s->arg_start = NULL;
  \<close>
\<close>

definition push_arg :: "(nat \<Rightarrow> bool) \<Rightarrow> ptr option \<Rightarrow> ngx_mail_session_t \<Rightarrow> ngx_mail_session_t option" where
  "push_arg room p s =
    (if room (length (m_args s))
     then Some (s\<lparr>m_args := m_args s @ [\<lparr>ms_data = m_arg_start s, ms_len = ptr_diff s p (m_arg_start s)\<rparr>],
                  m_arg_start := None\<rparr>)
     else None)"

text \<open>The bytes of an argument.\<close>

definition arg_bytes :: "memory \<Rightarrow> mail_str \<Rightarrow> u8 list" where
  "arg_bytes mem a = take (unat (ms_len a)) (drop (the (ms_data a)) mem)"

text \<open>How a parser leaves its loop.\<close>

datatype mail_exit = M_done | M_invalid | M_error | M_refuse | M_next

subsection \<open>Letters\<close>

definition is_letter :: "u8 \<Rightarrow> bool" where
  "is_letter ch \<longleftrightarrow> \<not> ((ch < chr CHR ''A'' \<or> ch > chr CHR ''Z'') \<and> (ch < chr CHR ''a'' \<or> ch > chr CHR ''z''))"

text \<open>\<open>ngx_toupper\<close>, a macro of the nginx core, as it is documented.\<close>

definition toupper_spec :: "(u8 \<Rightarrow> u8) \<Rightarrow> bool" where
  "toupper_spec up \<longleftrightarrow> (\<forall>c. up c = (if chr CHR ''a'' \<le> c \<and> c \<le> chr CHR ''z'' then c - 0x20 else c))"

definition ascii_upper :: "u8 \<Rightarrow> u8" where
  "ascii_upper c = (if chr CHR ''a'' \<le> c \<and> c \<le> chr CHR ''z'' then c - 0x20 else c)"

lemma toupper_specD: "toupper_spec up \<Longrightarrow> up = ascii_upper"
  by (auto simp: toupper_spec_def ascii_upper_def)

lemma ascii_upper_spec: "toupper_spec ascii_upper"
  by (simp add: toupper_spec_def ascii_upper_def)

text \<open>\<open>(c[0] == 'X' || c[0] == 'x') && (c[1] == ...\<close>, for a word in capitals.\<close>

definition either_case :: "u8 list \<Rightarrow> string \<Rightarrow> bool" where
  "either_case w u \<longleftrightarrow> list_all2 (\<lambda>c a. c = chr a \<or> c = chr a + 0x20) w u"

lemma ascii_upper_is:
  assumes "chr CHR ''A'' \<le> x" and "x \<le> chr CHR ''Z''"
  shows "ascii_upper c = x \<longleftrightarrow> c = x \<or> c = x + 0x20"
proof -
  have x: "65 \<le> unat x" "unat x \<le> 90" using assms by (simp_all add: word_le_nat_alt)
  then have s: "unat (x + 0x20) = unat x + 32" by (simp add: unat_word_ariths)
  have d: "unat (c - 0x20) = unat c - 32" if "97 \<le> unat c"
    using that by (subst unat_sub) (simp_all add: word_le_nat_alt)
  show ?thesis
    using x s d by (auto simp: ascii_upper_def word_unat_eq_iff word_le_nat_alt)
qed

lemma either_case_upper:
  assumes "\<forall>a\<in>set u. chr CHR ''A'' \<le> (chr a :: u8) \<and> (chr a :: u8) \<le> chr CHR ''Z''"
  shows "either_case w u \<longleftrightarrow> map ascii_upper w = bytes u"
  using assms
proof (induction u arbitrary: w)
  case Nil
  then show ?case by (simp add: either_case_def bytes_def)
next
  case (Cons a u)
  then show ?case
    by (cases w) (auto simp: either_case_def bytes_def ascii_upper_is)
qed

text \<open>A word whose upper-case form is in capitals consists of letters.\<close>

lemma ascii_upper_letter:
  assumes "chr CHR ''A'' \<le> ascii_upper c" and "ascii_upper c \<le> chr CHR ''Z''"
  shows "is_letter c"
  using ascii_upper_is [OF assms, of c] assms
proof -
  have "unat (ascii_upper c + 0x20) = unat (ascii_upper c) + 32"
    using assms by (simp add: unat_word_ariths word_le_nat_alt)
  then show ?thesis
    using ascii_upper_is [OF assms, of c] assms
    by (auto simp: is_letter_def word_le_nat_alt word_less_nat_alt)
qed

subsection \<open>Tables of commands\<close>

text \<open>
  A specification of the comparisons: the code of a word, in either case, in a table of
  commands in capitals.
\<close>

definition command_lookup :: "(string \<times> u64) list \<Rightarrow> u8 list \<Rightarrow> u64 option" where
  "command_lookup tab w = map_of (map (\<lambda>(u, c). (bytes u, c)) tab) (map ascii_upper w)"

definition capitals :: "string \<Rightarrow> bool" where
  "capitals u \<longleftrightarrow> (\<forall>a\<in>set u. chr CHR ''A'' \<le> (chr a :: u8) \<and> (chr a :: u8) \<le> chr CHR ''Z'')"

lemma command_lookup_letters:
  assumes "command_lookup tab w = Some code" and "\<forall>(u, c)\<in>set tab. capitals u"
  shows "\<forall>c\<in>set w. is_letter c" "length w \<in> length ` fst ` set tab"
proof -
  obtain u where u: "(u, code) \<in> set tab" "map ascii_upper w = bytes u"
    using map_of_SomeD [OF assms(1) [unfolded command_lookup_def]] by auto
  then have "capitals u" using assms(2) by auto
  then have cap: "\<forall>x\<in>set (bytes u). 65 \<le> x \<and> x \<le> 90"
    by (auto simp: capitals_def bytes_def)
  have "length w = length u" using u(2) by (metis length_bytes length_map)
  then show "length w \<in> length ` fst ` set tab" using u(1) by force
  show "\<forall>c\<in>set w. is_letter c"
  proof
    fix c assume "c \<in> set w"
    then have "ascii_upper c \<in> set (bytes u)" unfolding u(2) [symmetric] by simp
    with cap show "is_letter c" by (intro ascii_upper_letter) auto
  qed
qed

lemma nth_drop_append:
  assumes "drop c mem = w @ ys" and "i < length w"
  shows "mem ! (c + i) = w ! i"
proof -
  have "c \<le> length mem"
    using assms by (cases "c \<le> length mem") auto
  then have "mem ! (c + i) = drop c mem ! i" by simp
  with assms show ?thesis by (simp add: nth_append)
qed

lemma map_upper_length: "length w \<noteq> length u \<Longrightarrow> map ascii_upper w \<noteq> bytes u"
  by (metis length_bytes length_map)

subsection \<open>Words separated by spaces\<close>

fun split_sp :: "u8 list \<Rightarrow> u8 list list" where
  "split_sp [] = [[]]"
| "split_sp (c # cs) =
     (if c = SP then [] # split_sp cs else (c # hd (split_sp cs)) # tl (split_sp cs))"

definition sp_words :: "u8 list \<Rightarrow> u8 list list" where
  "sp_words l = filter (\<lambda>w. w \<noteq> []) (split_sp l)"

lemma split_sp_nonempty [simp]: "split_sp l \<noteq> []"
  by (induction l) auto

lemma sp_words_space [simp]: "sp_words (SP # l) = sp_words l"
  by (simp add: sp_words_def)

lemma sp_words_Nil [simp]: "sp_words [] = []"
  by (simp add: sp_words_def)

lemma split_sp_word: "SP \<notin> set w \<Longrightarrow> split_sp (w @ l) = (w @ hd (split_sp l)) # tl (split_sp l)"
  by (induction w) (auto simp: neq_Nil_conv)

lemma sp_words_word:
  assumes "SP \<notin> set w" and "w \<noteq> []"
  shows "sp_words w = [w]" "sp_words (w @ SP # l) = w # sp_words l"
  using assms split_sp_word [of w "[]"] split_sp_word [of w "SP # l"] by (auto simp: sp_words_def)

text \<open>
  The same words as the arguments the parsers store: \<open>p\<close> is the offset of the first byte, and
  \<open>Some a\<close> says that a word is open that started at \<open>a\<close>.
\<close>

definition mk_arg :: "ptr \<Rightarrow> ptr \<Rightarrow> mail_str" where
  "mk_arg a p = \<lparr>ms_data = Some a, ms_len = of_nat (p - a)\<rparr>"

fun words_from :: "ptr \<Rightarrow> ptr option \<Rightarrow> u8 list \<Rightarrow> mail_str list" where
  "words_from p None [] = []"
| "words_from p (Some a) [] = [mk_arg a p]"
| "words_from p None (c # cs) =
     (if c = SP then words_from (Suc p) None cs else words_from (Suc p) (Some p) cs)"
| "words_from p (Some a) (c # cs) =
     (if c = SP then mk_arg a p # words_from (Suc p) None cs else words_from (Suc p) (Some a) cs)"

lemma arg_bytes_mk:
  assumes "drop a mem = w @ ys" and "p = a + length w" and "length mem < 2 ^ 64"
  shows "arg_bytes mem (mk_arg a p) = w"
proof -
  have "length w < 2 ^ 64"
    using assms(1,3) length_drop [of a mem] by simp
  then show ?thesis using assms(1,2) by (simp add: arg_bytes_def mk_arg_def unat_of_nat_u64 del: unat_of_nat)
qed

lemma words_from_bytes:
  assumes "length mem < 2 ^ 64"
  shows "drop p mem = l @ ys \<Longrightarrow> map (arg_bytes mem) (words_from p None l) = sp_words l"
    and "drop a mem = w @ l @ ys \<Longrightarrow> w \<noteq> [] \<Longrightarrow> SP \<notin> set w \<Longrightarrow> p = a + length w \<Longrightarrow>
      map (arg_bytes mem) (words_from p (Some a) l) = sp_words (w @ l)"
proof (induction l arbitrary: p a w)
  case Nil
  {
    case 1
    then show ?case by simp
  next
    case 2
    then show ?case using assms by (simp add: arg_bytes_mk sp_words_word)
  }
next
  case (Cons c l)
  {
    case 1
    then have d: "drop (Suc p) mem = l @ ys" using drop_eq_Cons [of p mem c "l @ ys"] by simp
    show ?case
    proof (cases "c = SP")
      case True
      with d Cons(1) show ?thesis by simp
    next
      case False
      with 1 Cons(2) [of p "[c]" "Suc p"] show ?thesis by simp
    qed
  next
    case 2
    then have d: "drop p mem = c # l @ ys" using drop_eq_append [of a mem w] by simp
    show ?case
    proof (cases "c = SP")
      case True
      with 2 d assms Cons(1) [of "Suc p"] drop_eq_Cons [OF d] show ?thesis
        by (simp add: arg_bytes_mk sp_words_word)
    next
      case False
      with 2 Cons(2) [of a "w @ [c]" "Suc p"] show ?thesis by simp
    qed
  }
qed

lemma words_from_length [simp]:
  "length (words_from p (Some a) l) \<ge> 1"
  by (induction p "Some a" l rule: words_from.induct) auto

subsection \<open>The scan of arguments\<close>

text \<open>The end of a line, with or without a carriage return.\<close>

definition line_end :: "u8 list \<Rightarrow> bool" where
  "line_end t \<longleftrightarrow> t = [LF] \<or> t = [CR, LF]"

text \<open>
  What the code in the states \<open>sw_spaces_before_argument\<close>, \<open>sw_argument\<close> and \<open>sw_almost_done\<close>
  has in common, for a command whose arguments end at a space: \<open>plain\<close> are the bytes that start
  such an argument, \<open>ctx\<close> says that the session is one of such a command, and \<open>limit\<close> is the
  constant \<open>s->args.nelts\<close> is compared with.
\<close>

locale argument_scan =
  fixes f :: "ptr \<Rightarrow> u8 \<Rightarrow> 'st \<times> ngx_mail_session_t \<Rightarrow> ('st \<times> ngx_mail_session_t, mail_exit) outcome"
    and room :: "nat \<Rightarrow> bool"
    and spaces argument almost :: 'st
    and limit :: nat
    and plain :: "u8 \<Rightarrow> bool"
    and ctx :: "ngx_mail_session_t \<Rightarrow> bool"
  assumes spaces_sp: "f p SP (spaces, s) = Next (spaces, s)"
    and spaces_cr: "f p CR (spaces, s) = Next (almost, s\<lparr>m_arg_end := Some p\<rparr>)"
    and spaces_lf: "f p LF (spaces, s) = Stop M_done (spaces, s\<lparr>m_arg_end := Some p\<rparr>)"
    and spaces_start: "plain c \<Longrightarrow> c \<notin> {SP, CR, LF} \<Longrightarrow> f p c (spaces, s) =
      (if length (m_args s) \<le> limit then Next (argument, s\<lparr>m_arg_start := Some p\<rparr>)
       else Stop M_invalid (spaces, s))"
    and arg_inside: "ctx s \<Longrightarrow> c \<notin> {SP, CR, LF} \<Longrightarrow> f p c (argument, s) = Next (argument, s)"
    and arg_close: "ctx s \<Longrightarrow> c \<in> {SP, CR, LF} \<Longrightarrow> f p c (argument, s) =
      (case push_arg room (Some p) s of
         None \<Rightarrow> Stop M_error (argument, s)
       | Some s' \<Rightarrow> if c = SP then Next (spaces, s') else if c = CR then Next (almost, s')
                    else Stop M_done (argument, s'))"
    and almost_lf: "f p LF (almost, s) = Stop M_done (almost, s)"
    and ctx_frame: "ctx (s\<lparr>m_args := as, m_arg_start := a, m_arg_end := e\<rparr>) = ctx s"
begin

lemma ctx_frames:
  "ctx (s\<lparr>m_arg_start := a\<rparr>) = ctx s" "ctx (s\<lparr>m_args := as, m_arg_start := a\<rparr>) = ctx s"
  using ctx_frame [where s = s and as = "m_args s" and a = a and e = "m_arg_end s"]
    ctx_frame [where s = s and as = as and a = a and e = "m_arg_end s"] by simp_all

lemma close_room:
  assumes "ctx s" and "room (length (m_args s))" and "m_arg_start s = Some a" and "a \<le> p"
  shows "f p SP (argument, s) = Next (spaces, s\<lparr>m_args := m_args s @ [mk_arg a p], m_arg_start := None\<rparr>)"
    and "f p CR (argument, s) = Next (almost, s\<lparr>m_args := m_args s @ [mk_arg a p], m_arg_start := None\<rparr>)"
    and "f p LF (argument, s) = Stop M_done (argument, s\<lparr>m_args := m_args s @ [mk_arg a p], m_arg_start := None\<rparr>)"
  using assms by (simp_all add: arg_close push_arg_def mk_arg_def ptr_diff_Some)

text \<open>One word: it is open up to the byte that ends it.\<close>

lemma scan_word:
  assumes "ctx s" and "plain c" and "\<forall>d\<in>set (c # cs). d \<notin> {SP, CR, LF}" and "length (m_args s) \<le> limit"
  shows "list_loop f p ((c # cs) @ ys) (spaces, s) =
    list_loop f (p + length (c # cs)) ys (argument, s\<lparr>m_arg_start := Some p\<rparr>)"
proof -
  have "list_loop f p ((c # cs) @ ys) (spaces, s) =
      list_loop f (Suc p) (cs @ ys) (argument, s\<lparr>m_arg_start := Some p\<rparr>)"
    using assms by (simp add: spaces_start)
  also have "\<dots> = list_loop f (Suc p + length cs) ys (argument, s\<lparr>m_arg_start := Some p\<rparr>)"
    using assms by (intro list_loop_scan [where P = "\<lambda>d. d \<notin> {SP, CR, LF}"]) (auto simp: arg_inside ctx_frames)
  finally show ?thesis by simp
qed

text \<open>
  A whole line of arguments: they are stored one by one, unless there are too many.
\<close>

lemma scan_words:
  assumes "\<forall>n\<le>limit. room n" and "line_end t"
  shows "m_arg_start s = None \<Longrightarrow> ctx s \<Longrightarrow> \<forall>c\<in>set l. c \<noteq> CR \<and> c \<noteq> LF \<and> plain c \<Longrightarrow>
      length (m_args s) \<le> limit + 1 \<Longrightarrow>
      (if length (m_args s) + length (words_from p None l) \<le> limit + 1
       then \<exists>st e. list_loop f p (l @ t @ r) (spaces, s) = (p + length l + (length t - 1), Stop M_done
              (st, s\<lparr>m_args := m_args s @ words_from p None l, m_arg_start := None, m_arg_end := e\<rparr>))
       else \<exists>q x. list_loop f p (l @ t @ r) (spaces, s) = (q, Stop M_invalid x))"
    and "m_arg_start s = Some a \<Longrightarrow> a \<le> p \<Longrightarrow> ctx s \<Longrightarrow> \<forall>c\<in>set l. c \<noteq> CR \<and> c \<noteq> LF \<and> plain c \<Longrightarrow>
      length (m_args s) \<le> limit \<Longrightarrow>
      (if length (m_args s) + length (words_from p (Some a) l) \<le> limit + 1
       then \<exists>st e. list_loop f p (l @ t @ r) (argument, s) = (p + length l + (length t - 1), Stop M_done
              (st, s\<lparr>m_args := m_args s @ words_from p (Some a) l, m_arg_start := None, m_arg_end := e\<rparr>))
       else \<exists>q x. list_loop f p (l @ t @ r) (argument, s) = (q, Stop M_invalid x))"
proof (induction l arbitrary: p s a)
  case Nil
  {
    case 1
    have e: "s\<lparr>m_arg_end := Some p\<rparr> = s\<lparr>m_args := m_args s @ words_from p None [], m_arg_start := None, m_arg_end := Some p\<rparr>"
      using 1(1) by (cases s) simp
    have "\<exists>st. list_loop f p (t @ r) (spaces, s) = (p + (length t - 1), Stop M_done (st, s\<lparr>m_arg_end := Some p\<rparr>))"
      using assms(2) unfolding line_end_def by (auto simp: spaces_lf spaces_cr almost_lf)
    then show ?case using 1(4) unfolding e by auto
  next
    case 2
    show ?case
      using assms(2) 2 close_room [OF 2(3) assms(1) [rule_format, OF 2(5)] 2(1,2)] unfolding line_end_def
      by (auto simp: almost_lf intro!: exI [of _ "m_arg_end s"])
  }
next
  case (Cons c l)
  {
    case 1
    show ?case
    proof (cases "c = SP")
      case True
      with 1 Cons(1) [of s "Suc p"] show ?thesis by (simp add: spaces_sp split: if_split_asm)
    next
      case False
      let ?s = "s\<lparr>m_arg_start := Some p\<rparr>"
      show ?thesis
      proof (cases "length (m_args s) \<le> limit")
        case True
        then have "f p c (spaces, s) = Next (argument, ?s)"
          using 1 False by (simp add: spaces_start)
        moreover have "ctx ?s" using 1 by (simp add: ctx_frames)
        ultimately show ?thesis
          using 1 False True Cons(2) [of ?s p "Suc p"] by (simp split: if_split_asm)
      next
        case False
        then have "f p c (spaces, s) = Stop M_invalid (spaces, s)"
          using 1 \<open>c \<noteq> SP\<close> by (simp add: spaces_start)
        moreover have "length (words_from (Suc p) (Some p) l) \<ge> 1" by (rule words_from_length)
        ultimately show ?thesis using False \<open>c \<noteq> SP\<close> by (simp add: not_le)
      qed
    qed
  next
    case 2
    show ?case
    proof (cases "c = SP")
      case True
      let ?s = "s\<lparr>m_args := m_args s @ [mk_arg a p], m_arg_start := None\<rparr>"
      have "f p c (argument, s) = Next (spaces, ?s)"
        unfolding True by (rule close_room(1) [OF 2(3) assms(1) [rule_format, OF 2(5)] 2(1,2)])
      moreover have "ctx ?s" using 2(3) unfolding ctx_frames(2) .
      ultimately show ?thesis
        using 2 True Cons(1) [of ?s "Suc p"] by (simp split: if_split_asm)
    next
      case False
      have "f p c (argument, s) = Next (argument, s)"
        using 2 False by (simp add: arg_inside)
      then show ?thesis
        using 2 False Cons(2) [of s a "Suc p"] by (simp split: if_split_asm)
    qed
  }
qed

end

subsection \<open>What the parsers keep and show\<close>

text \<open>
  The arguments stored lie below the current byte.
\<close>

definition args_below :: "ptr \<Rightarrow> mail_str list \<Rightarrow> bool" where
  "args_below p as \<longleftrightarrow> (\<forall>a\<in>set as. \<exists>d. ms_data a = Some d \<and> d + unat (ms_len a) \<le> p)"

lemma args_below_Suc: "args_below p as \<Longrightarrow> args_below (Suc p) as"
  unfolding args_below_def by fastforce

lemma args_below_push:
  assumes "push_arg room (Some p) s = Some s'" and "args_below p (m_args s)"
    and "m_arg_start s = Some a" and "a \<le> p"
  shows "args_below p (m_args s')" "m_arg_start s' = None"
proof -
  have "unat (of_nat (p - a) :: u64) \<le> p - a"
    by (simp add: unat_of_nat)
  with assms show "args_below p (m_args s')" "m_arg_start s' = None"
    by (auto simp: push_arg_def args_below_def ptr_diff_Some split: if_splits)
qed

lemma push_arg_frame:
  assumes "push_arg room p s = Some s'"
  shows "m_command s' = m_command s" "m_cmd_start s' = m_cmd_start s"
  using assms by (auto simp: push_arg_def split: if_splits)

text \<open>
  What \<open>ngx_mail_read_command\<close> and its callers look at after a call: after a refused command
  only that it was refused.
\<close>

fun mail_view :: "ngx_rc \<times> ('st \<times> ngx_mail_session_t) \<times> ngx_buf_t \<Rightarrow> ngx_rc \<times> ('st \<times> ngx_mail_session_t \<times> ptr) option" where
  "mail_view (rc, (st, s), b) =
     (rc, if rc = NGX_ERROR \<or> rc = NGX_MAIL_PARSE_INVALID_COMMAND then None else Some (st, s, buf_pos b))"

end
