(* ===== verification/Mail_Pop3.thy ===== *)
theory Mail_Pop3
  imports Mail_Session
begin

text \<open>
  \<open>ngx_mail_pop3_parse_command\<close> (\<open>src/mail/ngx_mail_parse.c\<close>): one command line of a POP3
  client. The command stands at the start of the buffer (the handlers empty the buffer after
  each command). The argument of USER and PASS may contain spaces. The build is one with
  \<open>NGX_MAIL_SSL\<close>.
\<close>

subsection \<open>The commands\<close>

definition NGX_POP3_USER :: u64 where "NGX_POP3_USER = 1"
definition NGX_POP3_PASS :: u64 where "NGX_POP3_PASS = 2"
definition NGX_POP3_CAPA :: u64 where "NGX_POP3_CAPA = 3"
definition NGX_POP3_QUIT :: u64 where "NGX_POP3_QUIT = 4"
definition NGX_POP3_NOOP :: u64 where "NGX_POP3_NOOP = 5"
definition NGX_POP3_STLS :: u64 where "NGX_POP3_STLS = 6"
definition NGX_POP3_APOP :: u64 where "NGX_POP3_APOP = 7"
definition NGX_POP3_AUTH :: u64 where "NGX_POP3_AUTH = 8"

lemmas pop3_codes =
  NGX_POP3_USER_def NGX_POP3_PASS_def NGX_POP3_CAPA_def NGX_POP3_QUIT_def NGX_POP3_NOOP_def
  NGX_POP3_STLS_def NGX_POP3_APOP_def NGX_POP3_AUTH_def

text \<open>The comparison of the first four bytes; \<open>None\<close> is \<open>goto invalid\<close>.\<close>

definition pop3_four :: "u8 \<Rightarrow> u8 \<Rightarrow> u8 \<Rightarrow> u8 \<Rightarrow> u64 option" where
  "pop3_four c0 c1 c2 c3 =
    (let w = [c0, c1, c2, c3] in
     if w = bytes ''USER'' then Some NGX_POP3_USER
     else if w = bytes ''PASS'' then Some NGX_POP3_PASS
     else if w = bytes ''APOP'' then Some NGX_POP3_APOP
     else if w = bytes ''QUIT'' then Some NGX_POP3_QUIT
     else if w = bytes ''CAPA'' then Some NGX_POP3_CAPA
     else if w = bytes ''AUTH'' then Some NGX_POP3_AUTH
     else if w = bytes ''NOOP'' then Some NGX_POP3_NOOP
     else if w = bytes ''STLS'' then Some NGX_POP3_STLS
     else None)"

definition pop3_command :: "(u8 \<Rightarrow> u8) \<Rightarrow> memory \<Rightarrow> ptr \<Rightarrow> u64 option" where
  "pop3_command toupper mem p =
    (if p = 4
     then pop3_four (toupper (mem ! 0)) (toupper (mem ! 1)) (toupper (mem ! 2)) (toupper (mem ! 3))
     else None)"

subsection \<open>The loop\<close>

datatype pop3_state =
    pop3_sw_start | pop3_sw_spaces_before_argument | pop3_sw_argument | pop3_sw_almost_done

type_synonym pop3_loc = "pop3_state \<times> ngx_mail_session_t"
type_synonym pop3_outcome = "(pop3_loc, mail_exit) outcome"

definition pop3_start :: "(u8 \<Rightarrow> u8) \<Rightarrow> memory \<Rightarrow> ptr \<Rightarrow> u8 \<Rightarrow> ngx_mail_session_t \<Rightarrow> pop3_outcome" where
  "pop3_start toupper mem p ch s =
    (if ch = SP \<or> ch = CR \<or> ch = LF
     then (case pop3_command toupper mem p of
             None \<Rightarrow> Stop M_invalid (pop3_sw_start, s)
           | Some code \<Rightarrow>
               let s = s\<lparr>m_command := code\<rparr> in
               if ch = SP then Next (pop3_sw_spaces_before_argument, s)
               else if ch = CR then Next (pop3_sw_almost_done, s)
               else Stop M_done (pop3_sw_start, s))
     else if \<not> is_letter ch then Stop M_invalid (pop3_sw_start, s)
     else Next (pop3_sw_start, s))"

definition pop3_spaces :: "ptr \<Rightarrow> u8 \<Rightarrow> ngx_mail_session_t \<Rightarrow> pop3_outcome" where
  "pop3_spaces p ch s =
    (if ch = SP then Next (pop3_sw_spaces_before_argument, s)
     else if ch = CR then Next (pop3_sw_almost_done, s\<lparr>m_arg_end := Some p\<rparr>)
     else if ch = LF then Stop M_done (pop3_sw_spaces_before_argument, s\<lparr>m_arg_end := Some p\<rparr>)
     else if length (m_args s) \<le> 2 then Next (pop3_sw_argument, s\<lparr>m_arg_start := Some p\<rparr>)
     else Stop M_invalid (pop3_sw_spaces_before_argument, s))"

definition pop3_argument :: "(nat \<Rightarrow> bool) \<Rightarrow> ptr \<Rightarrow> u8 \<Rightarrow> ngx_mail_session_t \<Rightarrow> pop3_outcome" where
  "pop3_argument room p ch s =
    (if ch = SP \<and> (m_command s = NGX_POP3_USER \<or> m_command s = NGX_POP3_PASS)
     then Next (pop3_sw_argument, s)
     else if ch = SP \<or> ch = CR \<or> ch = LF
     then (case push_arg room (Some p) s of
             None \<Rightarrow> Stop M_error (pop3_sw_argument, s)
           | Some s \<Rightarrow>
               if ch = SP then Next (pop3_sw_spaces_before_argument, s)
               else if ch = CR then Next (pop3_sw_almost_done, s)
               else Stop M_done (pop3_sw_argument, s))
     else Next (pop3_sw_argument, s))"

definition pop3_almost_done :: "u8 \<Rightarrow> ngx_mail_session_t \<Rightarrow> pop3_outcome" where
  "pop3_almost_done ch s =
    (if ch = LF then Stop M_done (pop3_sw_almost_done, s) else Stop M_invalid (pop3_sw_almost_done, s))"

fun pop3_case :: "(u8 \<Rightarrow> u8) \<Rightarrow> (nat \<Rightarrow> bool) \<Rightarrow> memory \<Rightarrow> pop3_state \<Rightarrow> ptr \<Rightarrow> u8 \<Rightarrow> ngx_mail_session_t \<Rightarrow> pop3_outcome" where
  "pop3_case up room mem pop3_sw_start p ch s = pop3_start up mem p ch s"
| "pop3_case up room mem pop3_sw_spaces_before_argument p ch s = pop3_spaces p ch s"
| "pop3_case up room mem pop3_sw_argument p ch s = pop3_argument room p ch s"
| "pop3_case up room mem pop3_sw_almost_done p ch s = pop3_almost_done ch s"

definition pop3_step :: "(u8 \<Rightarrow> u8) \<Rightarrow> (nat \<Rightarrow> bool) \<Rightarrow> memory \<Rightarrow> ptr \<Rightarrow> pop3_loc \<Rightarrow> pop3_outcome" where
  "pop3_step up room mem p x = pop3_case up room mem (fst x) p (mem ! p) (snd x)"

text \<open>The code at the label \<open>done\<close>; \<open>None\<close> is \<open>return NGX_ERROR\<close>.\<close>

definition pop3_finish :: "(nat \<Rightarrow> bool) \<Rightarrow> ngx_mail_session_t \<Rightarrow> (pop3_state \<times> ngx_mail_session_t) option" where
  "pop3_finish room s =
    (case (if m_arg_start s \<noteq> None then push_arg room (m_arg_end s) s else Some s) of
       None \<Rightarrow> None
     | Some s \<Rightarrow> Some (if m_command s \<noteq> NGX_POP3_AUTH then pop3_sw_start else pop3_sw_argument, s))"

definition ngx_mail_pop3_parse_command ::
  "(u8 \<Rightarrow> u8) \<Rightarrow> (nat \<Rightarrow> bool) \<Rightarrow> pop3_state \<Rightarrow> ngx_mail_session_t \<Rightarrow> ngx_buf_t
   \<Rightarrow> ngx_rc \<times> pop3_state \<times> ngx_mail_session_t \<times> ngx_buf_t" where
  "ngx_mail_pop3_parse_command toupper room st s b =
    (case byte_loop (pop3_step toupper room) (buf_mem b) (buf_pos b) (buf_last b) (st, s) of
       (p, Next (st', s')) \<Rightarrow> (NGX_AGAIN, st', s', b\<lparr>buf_pos := p\<rparr>)
     | (p, Stop M_done (_, s')) \<Rightarrow>
         (case pop3_finish room s' of
            None \<Rightarrow> (NGX_ERROR, st, s', b\<lparr>buf_pos := p + 1\<rparr>)
          | Some (st', s'') \<Rightarrow> (NGX_OK, st', s'', b\<lparr>buf_pos := p + 1\<rparr>))
     | (p, Stop M_invalid (_, s')) \<Rightarrow>
         (NGX_MAIL_PARSE_INVALID_COMMAND, pop3_sw_start, s'\<lparr>m_arg_start := None\<rparr>, b)
     | (p, Stop _ (_, s')) \<Rightarrow> (NGX_ERROR, st, s', b))"

lemmas pop3_steps = pop3_start_def pop3_spaces_def pop3_argument_def pop3_almost_done_def

subsection \<open>The contract of the loop\<close>

fun pop3_inv :: "ptr \<Rightarrow> pop3_loc \<Rightarrow> bool" where
  "pop3_inv p (st, s) \<longleftrightarrow> args_below p (m_args s) \<and>
    (if st = pop3_sw_argument then (\<exists>a. m_arg_start s = Some a \<and> a \<le> p) else m_arg_start s = None)"

definition pop3_post :: "ptr \<Rightarrow> mail_exit \<Rightarrow> pop3_loc \<Rightarrow> bool" where
  "pop3_post p x y \<longleftrightarrow> args_below p (m_args (snd y)) \<and> (x = M_done \<longrightarrow> m_arg_start (snd y) = None)"

lemma pop3_step_local:
  assumes "p < length mem"
  shows "pop3_step up room (mem @ rest) p x = pop3_step up room mem p x"
  using assms by (cases "fst x")
    (auto simp: pop3_step_def nth_append pop3_start_def pop3_command_def)

lemma pop3_step_inv:
  assumes "pop3_inv p x" and "pop3_step up room mem p x = Next x'"
  shows "pop3_inv (Suc p) x'"
proof -
  obtain st s where x: "x = (st, s)" by (cases x)
  have a: "args_below p (m_args s)" "args_below (Suc p) (m_args s)"
    using assms(1) x args_below_Suc by auto
  show ?thesis
  proof (cases "st = pop3_sw_argument")
    case True
    then obtain d where d: "m_arg_start s = Some d" "d \<le> p" using assms(1) x by auto
    show ?thesis
      using assms(2) x True a d args_below_push [OF _ a(1) d]
      by (auto simp: pop3_step_def pop3_argument_def args_below_Suc split: option.splits if_splits)
  next
    case False
    with assms x a show ?thesis
      by (cases st) (auto simp: pop3_step_def pop3_steps Let_def split: option.splits if_splits)
  qed
qed

lemma pop3_step_post:
  assumes "pop3_inv p x" and "pop3_step up room mem p x = Stop r x'"
  shows "pop3_post p r x'"
proof -
  obtain st s where x: "x = (st, s)" by (cases x)
  show ?thesis
  proof (cases "st = pop3_sw_argument")
    case True
    then obtain d where d: "m_arg_start s = Some d" "d \<le> p" "args_below p (m_args s)"
      using assms(1) x by auto
    show ?thesis
      using assms(2) x True d args_below_push [OF _ d(3,1,2)]
      by (auto simp: pop3_step_def pop3_argument_def pop3_post_def split: option.splits if_splits)
  next
    case False
    with assms x show ?thesis
      by (cases st) (auto simp: pop3_step_def pop3_steps pop3_post_def Let_def split: option.splits if_splits)
  qed
qed

declare pop3_inv.simps [simp del]

interpretation pop3: byte_parser "pop3_step up room" pop3_inv pop3_post for up room
  by unfold_locales (auto intro: pop3_step_local pop3_step_inv pop3_step_post)

definition pop3_call :: "(u8 \<Rightarrow> u8) \<Rightarrow> (nat \<Rightarrow> bool) \<Rightarrow> pop3_loc \<Rightarrow> ngx_buf_t \<Rightarrow> ngx_rc \<times> pop3_loc \<times> ngx_buf_t" where
  "pop3_call up room x b = (case ngx_mail_pop3_parse_command up room (fst x) (snd x) b of
     (rc, st, s, b') \<Rightarrow> (rc, (st, s), b'))"

fun pop3_stop_view :: "(nat \<Rightarrow> bool) \<Rightarrow> ptr \<Rightarrow> mail_exit \<Rightarrow> pop3_loc \<Rightarrow> ngx_rc \<times> (pop3_state \<times> ngx_mail_session_t \<times> ptr) option" where
  "pop3_stop_view room p M_done (st, s) =
     (case pop3_finish room s of None \<Rightarrow> (NGX_ERROR, None) | Some (st', s') \<Rightarrow> (NGX_OK, Some (st', s', p + 1)))"
| "pop3_stop_view room p M_invalid x = (NGX_MAIL_PARSE_INVALID_COMMAND, None)"
| "pop3_stop_view room p _ x = (NGX_ERROR, None)"

interpretation pop3p: resumable_parser "pop3_step up room" pop3_inv pop3_post "pop3_call up room" "\<lambda>x. x" "\<lambda>x. x"
    mail_view "pop3_stop_view room" for up room
proof
  fix b :: ngx_buf_t and x p r x'
  {
    assume "byte_loop (pop3_step up room) (buf_mem b) (buf_pos b) (buf_last b) x = (p, Next x')"
    then show "pop3_call up room x b = (NGX_AGAIN, x', b\<lparr>buf_pos := p\<rparr>)"
      by (cases x; cases x') (simp add: pop3_call_def ngx_mail_pop3_parse_command_def)
  next
    assume "byte_loop (pop3_step up room) (buf_mem b) (buf_pos b) (buf_last b) x = (p, Stop r x')"
    then show "fst (pop3_call up room x b) \<noteq> NGX_AGAIN \<and>
        mail_view (pop3_call up room x b) = pop3_stop_view room p r x'"
      by (cases x; cases x'; cases r)
        (auto simp: pop3_call_def ngx_mail_pop3_parse_command_def split: option.split prod.split)
  }
qed auto

subsection \<open>What a line is understood as\<close>

definition pop3_table :: "(string \<times> u64) list" where
  "pop3_table =
     [(''USER'', NGX_POP3_USER), (''PASS'', NGX_POP3_PASS), (''APOP'', NGX_POP3_APOP),
      (''QUIT'', NGX_POP3_QUIT), (''CAPA'', NGX_POP3_CAPA), (''AUTH'', NGX_POP3_AUTH),
      (''NOOP'', NGX_POP3_NOOP), (''STLS'', NGX_POP3_STLS)]"

text \<open>The rest of a USER or PASS line is one argument, spaces included.\<close>

definition pop3_args :: "u64 \<Rightarrow> u8 list \<Rightarrow> u8 list list" where
  "pop3_args code k =
    (if code = NGX_POP3_USER \<or> code = NGX_POP3_PASS
     then (case dropWhile (\<lambda>c. c = SP) k of [] \<Rightarrow> [] | a \<Rightarrow> [a])
     else sp_words k)"

definition pop3_line_spec :: "u8 list \<Rightarrow> (u64 \<times> u8 list list) option" where
  "pop3_line_spec l =
    (case command_lookup pop3_table (takeWhile (\<lambda>c. c \<noteq> SP) l) of
       None \<Rightarrow> None
     | Some code \<Rightarrow>
         let args = pop3_args code (dropWhile (\<lambda>c. c \<noteq> SP) l) in
         if length args \<le> 3 then Some (code, args) else None)"

lemma pop3_lookup_letters:
  assumes "command_lookup pop3_table w = Some code"
  shows "\<forall>c\<in>set w. is_letter c" "length w = 4"
  using command_lookup_letters [OF assms] by (auto simp: pop3_table_def capitals_def)

lemma pop3_command_lookup:
  assumes "toupper_spec up" and "mem = w @ ys"
  shows "pop3_command up mem (length w) = command_lookup pop3_table w"
proof (cases "length w = 4")
  case True
  then obtain c0 c1 c2 c3 where w: "w = [c0, c1, c2, c3]"
    by (auto simp: numeral_eq_Suc length_Suc_conv)
  with assms toupper_specD [OF assms(1)] show ?thesis
    by (simp add: pop3_command_def pop3_four_def command_lookup_def pop3_table_def bytes_def Let_def)
next
  case False
  then show ?thesis
    using pop3_lookup_letters(2) [of w] by (cases "command_lookup pop3_table w") (auto simp: pop3_command_def)
qed

abbreviation pop3_list :: "(u8 \<Rightarrow> u8) \<Rightarrow> (nat \<Rightarrow> bool) \<Rightarrow> memory \<Rightarrow> ptr \<Rightarrow> u8 list \<Rightarrow> pop3_loc \<Rightarrow> ptr \<times> pop3_outcome" where
  "pop3_list up room mem \<equiv> list_loop (\<lambda>p ch x. pop3_case up room mem (fst x) p ch (snd x))"

interpretation pop3a: argument_scan "\<lambda>p ch x. pop3_case up room mem (fst x) p ch (snd x)" room
    pop3_sw_spaces_before_argument pop3_sw_argument pop3_sw_almost_done 2 "\<lambda>_. True"
    "\<lambda>s. m_command s \<noteq> NGX_POP3_USER \<and> m_command s \<noteq> NGX_POP3_PASS" for up room mem
  by unfold_locales
    (auto simp: pop3_spaces_def pop3_argument_def pop3_almost_done_def split: option.splits)

lemma pop3_scan_command:
  assumes "\<forall>c\<in>set w. c \<noteq> SP \<and> c \<noteq> CR \<and> c \<noteq> LF" and "\<exists>x xs. ys = x # xs \<and> x \<in> {SP, CR, LF}"
  shows "if \<forall>c\<in>set w. is_letter c
    then pop3_list up room mem p (w @ ys) (pop3_sw_start, s) =
         pop3_list up room mem (p + length w) ys (pop3_sw_start, s)
    else \<exists>q x. pop3_list up room mem p (w @ ys) (pop3_sw_start, s) = (q, Stop M_invalid x)"
  using assms(1)
proof (induction w arbitrary: p)
  case Nil
  then show ?case by simp
next
  case (Cons c w)
  then show ?case
    using Cons.IH [of "Suc p"] by (auto simp: pop3_start_def split: if_split_asm)
qed

text \<open>The argument of USER and PASS: everything after the leading spaces.\<close>

lemma pop3_scan_whole:
  assumes "\<forall>n\<le>2. room n" and "line_end t" and "length mem < 2 ^ 64"
    and "\<forall>c\<in>set k. c \<noteq> CR \<and> c \<noteq> LF" and "drop p mem = k @ ys"
    and "m_args s = []" and "m_arg_start s = None"
    and "m_command s = NGX_POP3_USER \<or> m_command s = NGX_POP3_PASS"
  shows "\<exists>st s'. pop3_list up room mem p (k @ t @ r) (pop3_sw_spaces_before_argument, s) =
          (p + length k + (length t - 1), Stop M_done (st, s')) \<and> m_arg_start s' = None \<and>
        m_command s' = m_command s \<and> map (arg_bytes mem) (m_args s') = pop3_args (m_command s) k"
proof -
  define sp where "sp = takeWhile (\<lambda>c. c = SP) k"
  define a where "a = dropWhile (\<lambda>c. c = SP) k"
  have k: "k = sp @ a" by (simp add: sp_def a_def)
  have sp: "\<forall>c\<in>set sp. c = SP" by (auto simp: sp_def dest: set_takeWhileD)
  let ?q = "p + length sp"
  have lead: "pop3_list up room mem p (k @ t @ r) (pop3_sw_spaces_before_argument, s) =
      pop3_list up room mem ?q (a @ t @ r) (pop3_sw_spaces_before_argument, s)"
    unfolding k append_assoc by (rule list_loop_scan [OF sp]) (simp add: pop3_spaces_def)
  have d: "drop ?q mem = a @ ys"
    using drop_eq_append [of p mem sp] assms(5) by (simp add: k)
  show ?thesis
  proof (cases a)
    case Nil
    then have "pop3_args (m_command s) k = []"
      using assms(8) by (simp add: pop3_args_def a_def [symmetric])
    with Nil assms(2,6,7) show ?thesis
      unfolding lead by (auto simp: k line_end_def pop3_spaces_def pop3_almost_done_def)
  next
    case (Cons c cs)
    then have c: "c \<noteq> SP" using dropWhile_eq_Cons_conv [of "\<lambda>c. c = SP" k c cs] by (simp add: a_def)
    have cs: "\<forall>c\<in>set cs. c \<noteq> CR \<and> c \<noteq> LF" "c \<noteq> CR" "c \<noteq> LF" using assms(4) k Cons by auto
    let ?s = "s\<lparr>m_arg_start := Some ?q\<rparr>"
    define e where "e = Suc ?q + length cs"
    have e: "e = p + length k" "?q \<le> e" "e = ?q + length a" by (simp_all add: e_def k Cons)
    have "pop3_list up room mem ?q (a @ t @ r) (pop3_sw_spaces_before_argument, s) =
        pop3_list up room mem (Suc ?q) (cs @ t @ r) (pop3_sw_argument, ?s)"
      using c cs assms(6) by (simp add: Cons pop3_spaces_def)
    also have "\<dots> = pop3_list up room mem e (t @ r) (pop3_sw_argument, ?s)"
      unfolding e_def using assms(8) by (intro list_loop_scan [OF cs(1)]) (auto simp: pop3_argument_def)
    finally have arg: "pop3_list up room mem ?q (a @ t @ r) (pop3_sw_spaces_before_argument, s) = \<dots>" .
    have bytes: "arg_bytes mem (mk_arg ?q e) = a"
      by (rule arg_bytes_mk [OF d e(3) assms(3)])
    have close: "push_arg room (Some e) ?s = Some (s\<lparr>m_args := [mk_arg ?q e], m_arg_start := None\<rparr>)"
      using assms(1,6) e(2) by (simp add: push_arg_def ptr_diff_Some mk_arg_def)
    have spec: "pop3_args (m_command s) k = [a]"
      using assms(8) Cons by (simp add: pop3_args_def a_def [symmetric])
    show ?thesis
      using assms(2) bytes unfolding spec lead arg e(1) [symmetric]
      by (auto simp: line_end_def pop3_argument_def close pop3_almost_done_def)
  qed
qed

lemma pop3_args_loop:
  assumes "\<forall>n\<le>2. room n" and "line_end t" and "length mem < 2 ^ 64"
    and "\<forall>c\<in>set k. c \<noteq> CR \<and> c \<noteq> LF" and "drop p mem = k @ ys"
    and "m_args s = []" and "m_arg_start s = None"
  shows "if length (pop3_args (m_command s) k) \<le> 3
    then \<exists>st s'. pop3_list up room mem p (k @ t @ r) (pop3_sw_spaces_before_argument, s) =
          (p + length k + (length t - 1), Stop M_done (st, s')) \<and> m_arg_start s' = None \<and>
        m_command s' = m_command s \<and> map (arg_bytes mem) (m_args s') = pop3_args (m_command s) k
    else \<exists>q x. pop3_list up room mem p (k @ t @ r) (pop3_sw_spaces_before_argument, s) = (q, Stop M_invalid x)"
proof (cases "m_command s = NGX_POP3_USER \<or> m_command s = NGX_POP3_PASS")
  case True
  then have "length (pop3_args (m_command s) k) \<le> 3"
    by (simp add: pop3_args_def split: list.split)
  with pop3_scan_whole [OF assms True, of up r] show ?thesis by simp
next
  case False
  note w = words_from_bytes(1) [OF assms(3,5)]
  have len: "length (words_from p None k) = length (sp_words k)"
    unfolding w [symmetric] by simp
  show ?thesis
    using pop3a.scan_words(1) [OF assms(1,2), of s k p up mem r] assms(4,6,7) w False
    by (auto simp: len pop3_args_def split: if_split_asm)
qed

lemma pop3_line_loop:
  assumes "toupper_spec up" and "\<forall>n\<le>2. room n" and "line_end t" and "length mem < 2 ^ 64"
    and "\<forall>c\<in>set l. c \<noteq> CR \<and> c \<noteq> LF" and "mem = l @ t @ r"
    and "m_args s = []" and "m_arg_start s = None"
  shows "case pop3_line_spec l of
      None \<Rightarrow> \<exists>q x. pop3_list up room mem 0 (l @ t @ r) (pop3_sw_start, s) = (q, Stop M_invalid x)
    | Some (code, args) \<Rightarrow> \<exists>st s'. pop3_list up room mem 0 (l @ t @ r) (pop3_sw_start, s) =
          (length l + (length t - 1), Stop M_done (st, s')) \<and> m_arg_start s' = None \<and>
        m_command s' = code \<and> map (arg_bytes mem) (m_args s') = args"
proof -
  define w where "w = takeWhile (\<lambda>c. c \<noteq> SP) l"
  define k where "k = dropWhile (\<lambda>c. c \<noteq> SP) l"
  have l: "l = w @ k" by (simp add: w_def k_def)
  have w: "\<forall>c\<in>set w. c \<noteq> SP \<and> c \<noteq> CR \<and> c \<noteq> LF"
    using assms(5) by (auto simp: w_def dest: set_takeWhileD)
  have k: "k = [] \<or> (\<exists>k'. k = SP # k')"
    by (cases k) (auto simp: k_def dropWhile_eq_Cons_conv)
  have "\<exists>x xs. k @ t @ r = x # xs \<and> x \<in> {SP, CR, LF}"
    using k assms(3) by (auto simp: line_end_def)
  then obtain x xs where x: "k @ t @ r = x # xs" "x \<in> {SP, CR, LF}" by blast
  note scan = pop3_scan_command [OF w, of "x # xs" up room mem 0 s]
  have look: "pop3_command up mem (length w) = command_lookup pop3_table w"
    using assms(6) l by (intro pop3_command_lookup [OF assms(1)]) simp
  have lx: "l @ t @ r = w @ x # xs" using x(1) by (simp add: l)
  show ?thesis
  proof (cases "command_lookup pop3_table w")
    case None
    then have "\<exists>q x'. pop3_list up room mem 0 (w @ x # xs) (pop3_sw_start, s) = (q, Stop M_invalid x')"
      using scan x(2) look by (auto simp: pop3_start_def split: if_split_asm)
    with None show ?thesis unfolding lx by (simp add: pop3_line_spec_def w_def [symmetric])
  next
    case (Some code)
    let ?s1 = "s\<lparr>m_command := code\<rparr>"
    have cmd: "pop3_list up room mem 0 (w @ x # xs) (pop3_sw_start, s) =
        pop3_list up room mem (length w) (x # xs) (pop3_sw_start, s)"
      using scan pop3_lookup_letters(1) [OF Some] x(2) by auto
    have step: "pop3_start up mem (length w) x s =
        (if x = SP then Next (pop3_sw_spaces_before_argument, ?s1)
         else if x = CR then Next (pop3_sw_almost_done, ?s1) else Stop M_done (pop3_sw_start, ?s1))"
      using x(2) Some look by (auto simp: pop3_start_def)
    have spec: "pop3_line_spec l = (if length (pop3_args code k) \<le> 3 then Some (code, pop3_args code k) else None)"
      by (simp add: pop3_line_spec_def w_def [symmetric] k_def [symmetric] Some Let_def)
    show ?thesis
    proof (cases k)
      case Nil
      then have "pop3_args code k = []" by (simp add: pop3_args_def)
      with Nil x(1) step assms(3,7,8) show ?thesis
        unfolding spec lx cmd by (auto simp: line_end_def l pop3_almost_done_def)
    next
      case (Cons c k')
      with k have c: "c = SP" by simp
      with Cons x(1) have xs: "x = SP" "xs = k' @ t @ r" by auto
      have d: "drop (Suc (length w)) mem = k' @ t @ r"
        using assms(6) l Cons by simp
      have k': "\<forall>c\<in>set k'. c \<noteq> CR \<and> c \<noteq> LF" using assms(5) l Cons by simp
      have args: "pop3_args code k = pop3_args code k'" using Cons c by (simp add: pop3_args_def)
      have "pop3_list up room mem (length w) (x # xs) (pop3_sw_start, s) =
          pop3_list up room mem (Suc (length w)) (k' @ t @ r) (pop3_sw_spaces_before_argument, ?s1)"
        using step xs by simp
      then show ?thesis
        using pop3_args_loop [OF assms(2-4) k' d, of ?s1 up r] assms(7,8) Cons c
        unfolding spec lx cmd args by (auto simp: l split: if_split_asm)
    qed
  qed
qed

text \<open>
  A POP3 command line, ended by LF or CRLF, is read as the specification says: the word
  names the command in any case, the rest of a USER or PASS line is one argument with the spaces
  in it and after it, other arguments end at spaces, and at most three are taken. The next
  state is the start, or an argument after AUTH, and the buffer is left after the line feed.
  Every other line is refused.
\<close>

theorem pop3_line:
  assumes "toupper_spec up" and "\<forall>n\<le>2. room n" and "line_end t" and "length mem < 2 ^ 64"
    and "\<forall>c\<in>set l. c \<noteq> CR \<and> c \<noteq> LF" and "mem = l @ t @ rest"
    and "m_args s = []" and "m_arg_start s = None"
    and "b = \<lparr>buf_mem = mem, buf_pos = 0, buf_last = length mem\<rparr>"
  shows "case pop3_line_spec l of
      None \<Rightarrow> \<exists>s'. ngx_mail_pop3_parse_command up room pop3_sw_start s b =
        (NGX_MAIL_PARSE_INVALID_COMMAND, pop3_sw_start, s', b) \<and> m_arg_start s' = None
    | Some (code, args) \<Rightarrow> \<exists>s'. ngx_mail_pop3_parse_command up room pop3_sw_start s b =
        (NGX_OK, if code = NGX_POP3_AUTH then pop3_sw_argument else pop3_sw_start, s',
         b\<lparr>buf_pos := length (l @ t)\<rparr>) \<and>
        m_command s' = code \<and> map (arg_bytes mem) (m_args s') = args"
proof -
  have "byte_loop (pop3_step up room) mem 0 (length mem) (pop3_sw_start, s) =
      pop3_list up room mem 0 (drop 0 mem) (pop3_sw_start, s)"
    by (rule byte_loop_list) (simp_all add: pop3_step_def)
  then have loop: "byte_loop (pop3_step up room) mem 0 (length mem) (pop3_sw_start, s) =
      pop3_list up room mem 0 (l @ t @ rest) (pop3_sw_start, s)"
    using assms(6) by simp
  note res = pop3_line_loop [OF assms(1-8)]
  have t: "length t > 0" using assms(3) by (auto simp: line_end_def)
  show ?thesis
  proof (cases "pop3_line_spec l")
    case None
    with res loop show ?thesis
      by (auto simp: ngx_mail_pop3_parse_command_def assms(9))
  next
    case (Some a)
    then obtain code args where "a = (code, args)" by (cases a)
    with Some res loop t show ?thesis
      by (auto simp: ngx_mail_pop3_parse_command_def assms(9) pop3_finish_def)
  qed
qed

text \<open>A password with spaces.\<close>

theorem pop3_line_witness:
  "\<exists>s'. ngx_mail_pop3_parse_command ascii_upper (\<lambda>_. True) pop3_sw_start (new_session 4096)
      \<lparr>buf_mem = bytes ''pAss  my word '' @ [CR, LF], buf_pos = 0, buf_last = 16\<rparr> =
    (NGX_OK, pop3_sw_start, s', \<lparr>buf_mem = bytes ''pAss  my word '' @ [CR, LF], buf_pos = 16, buf_last = 16\<rparr>) \<and>
    m_command s' = NGX_POP3_PASS \<and>
    map (arg_bytes (bytes ''pAss  my word '' @ [CR, LF])) (m_args s') = [bytes ''my word '']"
proof -
  let ?mem = "bytes ''pAss  my word '' @ [CR, LF]"
  have mem: "?mem = bytes ''pAss  my word '' @ [CR, LF] @ []" by simp
  have l: "\<forall>c\<in>set (bytes ''pAss  my word ''). c \<noteq> CR \<and> c \<noteq> LF" by (simp add: bytes_def)
  have spec: "pop3_line_spec (bytes ''pAss  my word '') = Some (NGX_POP3_PASS, [bytes ''my word ''])"
    by (simp add: pop3_line_spec_def command_lookup_def pop3_table_def pop3_args_def bytes_def ascii_upper_def)
  have n: "NGX_POP3_PASS \<noteq> NGX_POP3_AUTH" by (simp add: pop3_codes)
  have args: "m_args (new_session 4096) = []" "m_arg_start (new_session 4096) = None"
    by (simp_all add: new_session_def)
  have len: "length ?mem = 16" by simp
  have b: "\<lparr>buf_mem = ?mem, buf_pos = 0, buf_last = 16\<rparr> = \<lparr>buf_mem = ?mem, buf_pos = 0, buf_last = length ?mem\<rparr>"
    unfolding len ..
  have e: "line_end [CR, LF]" by (simp add: line_end_def)
  have small: "length ?mem < 2 ^ 64" unfolding len by simp
  from pop3_line [OF ascii_upper_spec _ e small l mem args b, of "\<lambda>_. True"]
  show ?thesis unfolding spec len option.case prod.case using n by auto
qed

end
