(* ===== verification/Mail_Auth.thy ===== *)
theory Mail_Auth
  imports Mail_Session "HOL-Library.Monad_Syntax"
begin

text \<open>
  What the session handlers of the mail proxy share (\<open>src/mail/ngx_mail_handler.c\<close>): reading a
  command (\<open>ngx_mail_read_command\<close>) and the authentication commands \<open>ngx_mail_auth_plain\<close>,
  \<open>ngx_mail_auth_login_username\<close>, \<open>ngx_mail_auth_login_password\<close>, \<open>ngx_mail_auth_cram_md5\<close>, with
  \<open>ngx_mail_auth_parse\<close> (\<open>src/mail/ngx_mail_parse.c\<close>).

  A handler reads \<open>arg[n]\<close> without looking at \<open>s->args.nelts\<close> again. \<open>arg_at\<close> is \<open>None\<close> when there
  is no such argument, or when it is not inside the buffer, and so is the handler that reads
  it: that this does not happen is a theorem about the sessions.

  Allocation, base64 and case-insensitive comparison belong to the nginx core and are
  parameters, kept in one record.
\<close>

subsection \<open>The surroundings\<close>

record mail_env =
  env_room :: "nat \<Rightarrow> bool"  \<comment> \<open>\<open>ngx_array_push\<close> gets memory\<close>
  env_toupper :: "u8 \<Rightarrow> u8"
  env_palloc :: "nat \<Rightarrow> u8 list option"  \<comment> \<open>a block of that size, with whatever is in it\<close>
  env_decoded_length :: "nat \<Rightarrow> nat"  \<comment> \<open>\<open>ngx_base64_decoded_length\<close>\<close>
  env_encoded_length :: "nat \<Rightarrow> nat"
  env_decode_base64 :: "u8 list \<Rightarrow> u8 list option"
  env_strncasecmp :: "u8 list \<Rightarrow> u8 list \<Rightarrow> nat \<Rightarrow> int"

datatype mail_starttls = STARTTLS_OFF | STARTTLS_ON | STARTTLS_ONLY

record mail_conf =
  cf_starttls :: mail_starttls
  cf_auth_methods :: u64

definition NGX_MAIL_AUTH_PLAIN :: u64 where "NGX_MAIL_AUTH_PLAIN = 0"
definition NGX_MAIL_AUTH_APOP :: u64 where "NGX_MAIL_AUTH_APOP = 3"
definition NGX_MAIL_AUTH_CRAM_MD5 :: u64 where "NGX_MAIL_AUTH_CRAM_MD5 = 4"
definition NGX_MAIL_AUTH_NONE :: u64 where "NGX_MAIL_AUTH_NONE = 5"

definition NGX_MAIL_AUTH_APOP_ENABLED :: u64 where "NGX_MAIL_AUTH_APOP_ENABLED = 0x0008"
definition NGX_MAIL_AUTH_CRAM_MD5_ENABLED :: u64 where "NGX_MAIL_AUTH_CRAM_MD5_ENABLED = 0x0010"
definition NGX_MAIL_AUTH_NONE_ENABLED :: u64 where "NGX_MAIL_AUTH_NONE_ENABLED = 0x0020"

definition auth_enabled :: "mail_conf \<Rightarrow> u64 \<Rightarrow> bool" where
  "auth_enabled conf m \<longleftrightarrow> cf_auth_methods conf AND m \<noteq> 0"

text \<open>\<open>c->ssl\<close> is the flag \<open>tls\<close>.\<close>

definition ngx_mail_starttls_only :: "mail_conf \<Rightarrow> bool \<Rightarrow> bool" where
  "ngx_mail_starttls_only conf tls \<longleftrightarrow> (if tls then False else cf_starttls conf = STARTTLS_ONLY)"

definition arg_at :: "memory \<Rightarrow> ngx_mail_session_t \<Rightarrow> nat \<Rightarrow> u8 list option" where
  "arg_at mem s n =
    (if n < length (m_args s)
     then (case ms_data (m_args s ! n) of
             None \<Rightarrow> None
           | Some d \<Rightarrow> if d + unat (ms_len (m_args s ! n)) \<le> length mem
                      then Some (arg_bytes mem (m_args s ! n)) else None)
     else None)"

lemma arg_at_below:
  assumes "args_below p (m_args s)" and "p \<le> length mem" and "n < length (m_args s)"
  shows "arg_at mem s n = Some (arg_bytes mem (m_args s ! n))"
proof -
  have "m_args s ! n \<in> set (m_args s)" using assms(3) by simp
  then obtain d where "ms_data (m_args s ! n) = Some d" "d + unat (ms_len (m_args s ! n)) \<le> p"
    using assms(1) by (auto simp: args_below_def)
  with assms(2,3) show ?thesis by (simp add: arg_at_def)
qed

subsection \<open>Copies of arguments\<close>

text \<open>
  \<^verbatim>\<open>
    s->login.len = arg[n].len; s->login.data = ngx_pnalloc(c->pool, s->login.len);
    if (s->login.data == NULL) { return NGX_ERROR; }
    ngx_memcpy(s->login.data, arg[n].data, s->login.len);
  \<close>
  \<open>Inl\<close> is the string as it is when the allocation fails.
\<close>

definition copy_bytes :: "mail_env \<Rightarrow> u8 list \<Rightarrow> heap_str + heap_str" where
  "copy_bytes env w =
    (case env_palloc env (length w) of
       None \<Rightarrow> Inl \<lparr>hs_data = [], hs_len = of_nat (length w)\<rparr>
     | Some _ \<Rightarrow> Inr \<lparr>hs_data = w, hs_len = of_nat (length w)\<rparr>)"

subsection \<open>Authentication commands\<close>

text \<open>
  \<open>s->login.data\<close> is the new block before it is decoded into: when decoding fails, the length
  is still the old one.
\<close>

definition decode_into :: "mail_env \<Rightarrow> u8 list \<Rightarrow> heap_str \<Rightarrow> (ngx_rc \<times> heap_str) + heap_str" where
  "decode_into env a old =
    (case env_palloc env (env_decoded_length env (length a)) of
       None \<Rightarrow> Inl (NGX_ERROR, old\<lparr>hs_data := []\<rparr>)
     | Some block \<Rightarrow>
         (case env_decode_base64 env a of
            None \<Rightarrow> Inl (NGX_MAIL_PARSE_INVALID_COMMAND, old\<lparr>hs_data := block\<rparr>)
          | Some w \<Rightarrow> Inr \<lparr>hs_data = w, hs_len = of_nat (length w)\<rparr>))"

text \<open>\<open>authzid NUL login NUL password\<close>: the two loops \<open>while (p < last && *p)\<close>.\<close>

definition split_plain :: "u8 list \<Rightarrow> ngx_mail_session_t \<Rightarrow> ngx_rc \<times> ngx_mail_session_t" where
  "split_plain plain s =
    (let p = drop 1 (dropWhile (\<lambda>c. c \<noteq> NUL) plain) in
     if p = [] then (NGX_MAIL_PARSE_INVALID_COMMAND, s)
     else
       let s = s\<lparr>m_login := (m_login s)\<lparr>hs_data := p\<rparr>\<rparr>;
           q = dropWhile (\<lambda>c. c \<noteq> NUL) p in
       if q = [] then (NGX_MAIL_PARSE_INVALID_COMMAND, s)
       else (NGX_DONE, s\<lparr>m_login := (m_login s)\<lparr>hs_len := of_nat (length (takeWhile (\<lambda>c. c \<noteq> NUL) p))\<rparr>,
                         m_passwd := \<lparr>hs_data = tl q, hs_len = of_nat (length (tl q))\<rparr>\<rparr>))"

definition ngx_mail_auth_plain :: "mail_env \<Rightarrow> memory \<Rightarrow> ngx_mail_session_t \<Rightarrow> nat \<Rightarrow> (ngx_rc \<times> ngx_mail_session_t) option" where
  "ngx_mail_auth_plain env mem s n = do {
     a \<leftarrow> arg_at mem s n;
     Some (case decode_into env a no_hs of
             Inl (rc, _) \<Rightarrow> (rc, s)
           | Inr plain \<Rightarrow> split_plain (hs_bytes plain) s) }"

definition ngx_mail_auth_login_username :: "mail_env \<Rightarrow> memory \<Rightarrow> ngx_mail_session_t \<Rightarrow> nat \<Rightarrow> (ngx_rc \<times> ngx_mail_session_t) option" where
  "ngx_mail_auth_login_username env mem s n = do {
     a \<leftarrow> arg_at mem s n;
     Some (case decode_into env a (m_login s) of
             Inl (rc, h) \<Rightarrow> (rc, s\<lparr>m_login := h\<rparr>)
           | Inr h \<Rightarrow> (NGX_OK, s\<lparr>m_login := h\<rparr>)) }"

definition ngx_mail_auth_login_password :: "mail_env \<Rightarrow> memory \<Rightarrow> ngx_mail_session_t \<Rightarrow> (ngx_rc \<times> ngx_mail_session_t) option" where
  "ngx_mail_auth_login_password env mem s = do {
     a \<leftarrow> arg_at mem s 0;
     Some (case decode_into env a (m_passwd s) of
             Inl (rc, h) \<Rightarrow> (rc, s\<lparr>m_passwd := h\<rparr>)
           | Inr h \<Rightarrow> (NGX_DONE, s\<lparr>m_passwd := h\<rparr>)) }"

text \<open>\<open>login SPACE digest\<close>: the loop that looks for the space, and the test of the digest's length.\<close>

definition split_cram :: "ngx_mail_session_t \<Rightarrow> ngx_rc \<times> ngx_mail_session_t" where
  "split_cram s =
    (let w = hs_bytes (m_login s);
         s = (case dropWhile (\<lambda>c. c \<noteq> SP) w of
                [] \<Rightarrow> s
              | _ # pw \<Rightarrow> s\<lparr>m_login := (m_login s)\<lparr>hs_len := of_nat (length (takeWhile (\<lambda>c. c \<noteq> SP) w))\<rparr>,
                            m_passwd := \<lparr>hs_data = pw, hs_len = of_nat (length pw)\<rparr>\<rparr>) in
     if hs_len (m_passwd s) \<noteq> 32 then (NGX_MAIL_PARSE_INVALID_COMMAND, s)
     else (NGX_DONE, s\<lparr>m_auth_method := NGX_MAIL_AUTH_CRAM_MD5\<rparr>))"

definition ngx_mail_auth_cram_md5 :: "mail_env \<Rightarrow> memory \<Rightarrow> ngx_mail_session_t \<Rightarrow> (ngx_rc \<times> ngx_mail_session_t) option" where
  "ngx_mail_auth_cram_md5 env mem s = do {
     a \<leftarrow> arg_at mem s 0;
     Some (case decode_into env a (m_login s) of
             Inl (rc, h) \<Rightarrow> (rc, s\<lparr>m_login := h\<rparr>)
           | Inr h \<Rightarrow> split_cram (s\<lparr>m_login := h\<rparr>)) }"

text \<open>
  The results of \<open>ngx_mail_auth_parse\<close>: a method, or what \<open>ngx_mail_auth_plain\<close> returned.
\<close>

datatype auth_rc = MA_PLAIN | MA_LOGIN | MA_LOGIN_USERNAME | MA_CRAM_MD5 | MA_rc ngx_rc

definition ngx_mail_auth_parse :: "mail_env \<Rightarrow> mail_conf \<Rightarrow> bool \<Rightarrow> memory \<Rightarrow> ngx_mail_session_t
    \<Rightarrow> (auth_rc \<times> ngx_mail_session_t) option" where
  "ngx_mail_auth_parse env conf tls mem s =
    (let invalid = Some (MA_rc NGX_MAIL_PARSE_INVALID_COMMAND, s) in
     if ngx_mail_starttls_only conf tls then invalid
     else if length (m_args s) = 0 then invalid
     else do {
       a \<leftarrow> arg_at mem s 0;
       if length a = 5
       then if env_strncasecmp env a (bytes ''LOGIN'') 5 = 0
            then Some (if length (m_args s) = 1 then MA_LOGIN
                       else if length (m_args s) = 2 then MA_LOGIN_USERNAME
                       else MA_rc NGX_MAIL_PARSE_INVALID_COMMAND, s)
            else if env_strncasecmp env a (bytes ''PLAIN'') 5 = 0
            then (if length (m_args s) = 1 then Some (MA_PLAIN, s)
                  else if length (m_args s) = 2
                  then map_option (\<lambda>(rc, s'). (MA_rc rc, s')) (ngx_mail_auth_plain env mem s 1)
                  else invalid)
            else invalid
       else if length a = 8
       then if length (m_args s) \<noteq> 1 then invalid
            else if env_strncasecmp env a (bytes ''CRAM-MD5'') 8 = 0 then Some (MA_CRAM_MD5, s)
            else invalid
       else invalid })"

subsection \<open>Reading a command\<close>

text \<open>
  What \<open>c->recv\<close> answers: bytes (at most as many as there is room for), end of file or an
  error, or \<open>NGX_AGAIN\<close>, after which \<open>ngx_handle_read_event\<close> may fail.
\<close>

datatype mail_recv = Recv "u8 list" | Recv_close | Recv_again bool

text \<open>What becomes of the connection in the course of a call.\<close>

datatype mail_fate = Fate_open | Fate_closed | Fate_internal_error

text \<open>
  \<open>ngx_mail_read_command\<close>, with the protocol's parser; \<open>size\<close> is \<open>s->buffer->end\<close>. The flag says
  that \<open>s->quit\<close> was set.
\<close>

definition ngx_mail_read_command ::
  "('st \<Rightarrow> ngx_mail_session_t \<Rightarrow> ngx_buf_t \<Rightarrow> ngx_rc \<times> 'st \<times> ngx_mail_session_t \<times> ngx_buf_t) \<Rightarrow> nat
   \<Rightarrow> mail_recv \<Rightarrow> 'st \<Rightarrow> ngx_mail_session_t \<Rightarrow> ngx_buf_t
   \<Rightarrow> ngx_rc \<times> mail_fate \<times> bool \<times> 'st \<times> ngx_mail_session_t \<times> ngx_buf_t" where
  "ngx_mail_read_command parse lim ev st s b =
    (let parsed = (\<lambda>b. case parse st s b of (rc, st', s', b') \<Rightarrow>
           if rc = NGX_AGAIN
           then (if buf_last b' < lim then (NGX_AGAIN, Fate_open, False, st', s', b')
                 else (NGX_MAIL_PARSE_INVALID_COMMAND, Fate_open, True, st', s', b'))
           else if rc = NGX_IMAP_NEXT \<or> rc = NGX_MAIL_PARSE_INVALID_COMMAND
           then (rc, Fate_open, False, st', s', b')
           else if rc = NGX_ERROR then (NGX_ERROR, Fate_closed, False, st', s', b')
           else (NGX_OK, Fate_open, False, st', s', b')) in
     case ev of
       Recv_close \<Rightarrow> (NGX_ERROR, Fate_closed, False, st, s, b)
     | Recv_again ok \<Rightarrow>
         (if \<not> ok then (NGX_ERROR, Fate_internal_error, False, st, s, b)
          else if buf_pos b = buf_last b then (NGX_AGAIN, Fate_open, False, st, s, b)
          else parsed b)
     | Recv ys \<Rightarrow> parsed (buf_recv b ys))"

subsection \<open>What the authentication commands find\<close>

text \<open>The credentials a PLAIN message holds.\<close>

definition print_plain :: "u8 list \<Rightarrow> u8 list \<Rightarrow> u8 list \<Rightarrow> u8 list" where
  "print_plain authzid login passwd = authzid @ NUL # login @ NUL # passwd"

lemma takeWhile_append_NUL: "NUL \<notin> set w \<Longrightarrow> takeWhile (\<lambda>c. c \<noteq> NUL) (w @ NUL # r) = w"
  and dropWhile_append_NUL: "NUL \<notin> set w \<Longrightarrow> dropWhile (\<lambda>c. c \<noteq> NUL) (w @ NUL # r) = NUL # r"
  by (induction w) auto

lemma split_plain_print:
  assumes "NUL \<notin> set authzid" and "NUL \<notin> set login"
    and "length login < 2 ^ 64" and "length passwd < 2 ^ 64"
  shows "\<exists>s'. split_plain (print_plain authzid login passwd) s = (NGX_DONE, s') \<and>
    hs_bytes (m_login s') = login \<and> hs_bytes (m_passwd s') = passwd"
  using assms by (simp add: split_plain_def print_plain_def dropWhile_append_NUL takeWhile_append_NUL
      hs_bytes_def Let_def unat_of_nat_u64 del: unat_of_nat)

lemma split_plain_rc: "fst (split_plain plain s) = NGX_DONE \<or> fst (split_plain plain s) = NGX_MAIL_PARSE_INVALID_COMMAND"
proof -
  let ?p = "drop 1 (dropWhile (\<lambda>c. c \<noteq> NUL) plain)"
  show ?thesis
    by (cases "?p = []"; cases "dropWhile (\<lambda>c. c \<noteq> NUL) ?p = []") (simp_all only: split_plain_def Let_def if_True if_False fst_conv simp_thms)
qed

text \<open>What the authentication commands leave alone, and what they return.\<close>

definition mail_frame :: "ngx_mail_session_t \<Rightarrow> ngx_mail_session_t \<Rightarrow> bool" where
  "mail_frame s s' \<longleftrightarrow> m_args s' = m_args s \<and> m_arg_start s' = m_arg_start s \<and> m_command s' = m_command s"

text \<open>All arguments lie in the buffer.\<close>

definition args_inside :: "memory \<Rightarrow> ngx_mail_session_t \<Rightarrow> bool" where
  "args_inside mem s \<longleftrightarrow> (\<exists>p\<le>length mem. args_below p (m_args s))"

lemma arg_at_inside: "args_inside mem s \<Longrightarrow> n < length (m_args s) \<Longrightarrow> \<exists>a. arg_at mem s n = Some a"
  using arg_at_below unfolding args_inside_def by blast

lemma decode_into_rc: "decode_into env a old = Inl (rc, h) \<Longrightarrow> rc = NGX_ERROR \<or> rc = NGX_MAIL_PARSE_INVALID_COMMAND"
  by (auto simp: decode_into_def split: option.splits)

lemma mail_frame_login: "mail_frame (s\<lparr>m_login := h\<rparr>) s' = mail_frame s s'" "mail_frame s (s\<lparr>m_login := h\<rparr>)"
  "mail_frame s (s\<lparr>m_passwd := h\<rparr>)" "mail_frame s s"
  "mail_frame s (s\<lparr>m_login := h, m_login := l, m_passwd := k\<rparr>)"
  by (simp_all add: mail_frame_def)

lemma split_plain_frame: "split_plain w s = (rc, s') \<Longrightarrow> mail_frame s s'"
proof -
  let ?p = "drop 1 (dropWhile (\<lambda>c. c \<noteq> NUL) w)"
  have "mail_frame s (snd (split_plain w s))"
    by (cases "?p = []"; cases "dropWhile (\<lambda>c. c \<noteq> NUL) ?p = []")
      (simp_all only: split_plain_def Let_def if_True if_False snd_conv simp_thms mail_frame_login)
  then show "split_plain w s = (rc, s') \<Longrightarrow> mail_frame s s'" by simp
qed

lemma split_cram_frame: "split_cram s = (rc, s') \<Longrightarrow> mail_frame s s' \<and> (rc = NGX_DONE \<or> rc = NGX_MAIL_PARSE_INVALID_COMMAND)"
  by (auto simp: split_cram_def mail_frame_def Let_def split: if_splits list.splits)

lemma auth_plain_result:
  assumes "args_inside mem s" and "n < length (m_args s)"
  shows "\<exists>rc s'. ngx_mail_auth_plain env mem s n = Some (rc, s') \<and> mail_frame s s' \<and>
    rc \<in> {NGX_DONE, NGX_ERROR, NGX_MAIL_PARSE_INVALID_COMMAND}"
proof -
  obtain a where a: "arg_at mem s n = Some a" using arg_at_inside [OF assms] by blast
  show ?thesis
  proof (cases "decode_into env a no_hs")
    case (Inl x)
    with a decode_into_rc [of env a no_hs] show ?thesis
      by (cases x) (auto simp: ngx_mail_auth_plain_def mail_frame_login)
  next
    case (Inr h)
    obtain rc s' where s': "split_plain (hs_bytes h) s = (rc, s')" by fastforce
    with a Inr split_plain_frame [OF s'] split_plain_rc [of "hs_bytes h" s] show ?thesis
      by (auto simp: ngx_mail_auth_plain_def)
  qed
qed

lemma auth_login_username_result:
  assumes "args_inside mem s" and "n < length (m_args s)"
  shows "\<exists>rc s'. ngx_mail_auth_login_username env mem s n = Some (rc, s') \<and> mail_frame s s' \<and>
    rc \<in> {NGX_OK, NGX_ERROR, NGX_MAIL_PARSE_INVALID_COMMAND}"
proof -
  obtain a where a: "arg_at mem s n = Some a" using arg_at_inside [OF assms] by blast
  with decode_into_rc [of env a "m_login s"] show ?thesis
    by (auto simp: ngx_mail_auth_login_username_def mail_frame_login split: sum.split)
qed

lemma auth_login_password_result:
  assumes "args_inside mem s" and "m_args s \<noteq> []"
  shows "\<exists>rc s'. ngx_mail_auth_login_password env mem s = Some (rc, s') \<and> mail_frame s s' \<and>
    rc \<in> {NGX_DONE, NGX_ERROR, NGX_MAIL_PARSE_INVALID_COMMAND}"
proof -
  obtain a where a: "arg_at mem s 0 = Some a" using arg_at_inside [OF assms(1)] assms(2) by blast
  with decode_into_rc [of env a "m_passwd s"] show ?thesis
    by (auto simp: ngx_mail_auth_login_password_def mail_frame_login split: sum.split)
qed

lemma auth_cram_md5_result:
  assumes "args_inside mem s" and "m_args s \<noteq> []"
  shows "\<exists>rc s'. ngx_mail_auth_cram_md5 env mem s = Some (rc, s') \<and> mail_frame s s' \<and>
    rc \<in> {NGX_DONE, NGX_ERROR, NGX_MAIL_PARSE_INVALID_COMMAND}"
proof -
  obtain a where a: "arg_at mem s 0 = Some a" using arg_at_inside [OF assms(1)] assms(2) by blast
  show ?thesis
  proof (cases "decode_into env a (m_login s)")
    case (Inl x)
    with a decode_into_rc [of env a "m_login s"] show ?thesis
      by (cases x) (auto simp: ngx_mail_auth_cram_md5_def mail_frame_login)
  next
    case (Inr h)
    obtain rc s' where s': "split_cram (s\<lparr>m_login := h\<rparr>) = (rc, s')" by fastforce
    with a Inr split_cram_frame [OF s'] show ?thesis
      by (auto simp: ngx_mail_auth_cram_md5_def mail_frame_login)
  qed
qed

text \<open>
  A method is chosen only when plaintext authentication is allowed, with its arguments there.
\<close>

lemma auth_parse_result:
  assumes "args_inside mem s"
  shows "\<exists>m s'. ngx_mail_auth_parse env conf tls mem s = Some (m, s') \<and> mail_frame s s' \<and>
    (case m of MA_rc rc \<Rightarrow> rc \<in> {NGX_DONE, NGX_ERROR, NGX_MAIL_PARSE_INVALID_COMMAND}
             | MA_LOGIN_USERNAME \<Rightarrow> length (m_args s) = 2 | _ \<Rightarrow> length (m_args s) = 1)"
proof (cases "ngx_mail_starttls_only conf tls \<or> m_args s = []")
  case True
  then show ?thesis by (auto simp: ngx_mail_auth_parse_def Let_def mail_frame_login)
next
  case False
  obtain a where a: "arg_at mem s 0 = Some a" using arg_at_inside [OF assms] False by blast
  show ?thesis
  proof (cases "length (m_args s) = 2")
    case True
    obtain rc s' where p: "ngx_mail_auth_plain env mem s 1 = Some (rc, s')" "mail_frame s s'"
        "rc \<in> {NGX_DONE, NGX_ERROR, NGX_MAIL_PARSE_INVALID_COMMAND}"
      using auth_plain_result [OF assms, of 1 env] True by auto
    with True False a show ?thesis
      by (auto simp: ngx_mail_auth_parse_def Let_def mail_frame_login)
  next
    case no2: False
    with False a show ?thesis
      by (auto simp: ngx_mail_auth_parse_def Let_def mail_frame_login)
  qed
qed

subsection \<open>Generic facts on reading\<close>

lemma args_below_mono: "args_below p as \<Longrightarrow> p \<le> q \<Longrightarrow> args_below q as"
  unfolding args_below_def by (meson order_trans)

lemma buf_wf_recv: "buf_wf b \<Longrightarrow> buf_wf (buf_recv b ys)"
  by (simp add: buf_wf_def buf_recv_def)

text \<open>
  A call of \<open>ngx_mail_read_command\<close> leaves everything as it was, or calls the parser on the buffer, perhaps
  with more bytes in it.
\<close>

definition read_outcome :: "nat \<Rightarrow> ngx_buf_t \<Rightarrow> ngx_rc \<Rightarrow> ngx_rc \<times> mail_fate \<times> bool" where
  "read_outcome lim b rc =
    (if rc = NGX_AGAIN
     then (if buf_last b < lim then (NGX_AGAIN, Fate_open, False) else (NGX_MAIL_PARSE_INVALID_COMMAND, Fate_open, True))
     else if rc = NGX_IMAP_NEXT \<or> rc = NGX_MAIL_PARSE_INVALID_COMMAND then (rc, Fate_open, False)
     else if rc = NGX_ERROR then (NGX_ERROR, Fate_closed, False)
     else (NGX_OK, Fate_open, False))"

lemma read_command_cases:
  assumes "ngx_mail_read_command parse lim ev st s b = (rc, fate, quit, st', s', b')" and "buf_wf b"
  obtains (quiet) "rc = NGX_AGAIN \<and> fate = Fate_open \<or> rc = NGX_ERROR \<and> fate \<noteq> Fate_open"
      "quit = False" "st' = st" "s' = s" "b' = b"
    | (parsed) b1 rc1 where "buf_wf b1" "buf_pos b1 = buf_pos b" "parse st s b1 = (rc1, st', s', b')"
      "read_outcome lim b' rc1 = (rc, fate, quit)" "b1 = b \<or> (\<exists>ys. b1 = buf_recv b ys)"
proof -
  have run: thesis
    if eq: "(case parse st s b1 of (rc, st', s', b') \<Rightarrow>
           if rc = NGX_AGAIN
           then (if buf_last b' < lim then (NGX_AGAIN, Fate_open, False, st', s', b')
                 else (NGX_MAIL_PARSE_INVALID_COMMAND, Fate_open, True, st', s', b'))
           else if rc = NGX_IMAP_NEXT \<or> rc = NGX_MAIL_PARSE_INVALID_COMMAND
           then (rc, Fate_open, False, st', s', b')
           else if rc = NGX_ERROR then (NGX_ERROR, Fate_closed, False, st', s', b')
           else (NGX_OK, Fate_open, False, st', s', b')) = (rc, fate, quit, st', s', b')"
      and b1: "buf_wf b1" "buf_pos b1 = buf_pos b" "b1 = b \<or> (\<exists>ys. b1 = buf_recv b ys)" for b1
  proof -
    obtain rc1 st1 s1 b2 where p: "parse st s b1 = (rc1, st1, s1, b2)" by (metis surj_pair)
    with eq have "st1 = st'" "s1 = s'" "b2 = b'" "read_outcome lim b' rc1 = (rc, fate, quit)"
      by (auto simp: read_outcome_def split: if_splits)
    with p b1 show ?thesis by (intro parsed [of b1 rc1]) simp_all
  qed
  show ?thesis
  proof (cases ev)
    case (Recv ys)
    have "buf_pos (buf_recv b ys) = buf_pos b" "buf_recv b ys = b \<or> (\<exists>zs. buf_recv b ys = buf_recv b zs)"
      by (auto simp: buf_recv_def)
    with Recv assms(1) show ?thesis
      by (intro run [of "buf_recv b ys"]) (simp_all add: ngx_mail_read_command_def buf_wf_recv [OF assms(2)])
  next
    case Recv_close
    with assms(1) show ?thesis by (intro quiet) (auto simp: ngx_mail_read_command_def)
  next
    case (Recv_again ok)
    show ?thesis
    proof (cases "ok \<and> buf_pos b \<noteq> buf_last b")
      case True
      with Recv_again assms show ?thesis by (intro run [of b]) (simp_all add: ngx_mail_read_command_def)
    next
      case False
      with Recv_again assms(1) show ?thesis
        by (intro quiet) (auto simp: ngx_mail_read_command_def split: if_splits)
    qed
  qed
qed

text \<open>A machine with memory.\<close>

definition roomy_env :: mail_env where
  "roomy_env = \<lparr>env_room = (\<lambda>_. True), env_toupper = ascii_upper, env_palloc = (\<lambda>n. Some (replicate n 0)),
     env_decoded_length = (\<lambda>n. (n + 3) div 4 * 3), env_encoded_length = (\<lambda>n. (n + 2) div 3 * 4),
     env_decode_base64 = (\<lambda>_. None), env_strncasecmp = (\<lambda>a b n. if take n a = take n b then 0 else 1)\<rparr>"

end
