(* ===== verification/Mail_Pop3_Session.thy ===== *)
theory Mail_Pop3_Session
  imports Mail_Pop3 Mail_Auth
begin

text \<open>
  A POP3 session up to authentication (\<open>src/mail/ngx_mail_pop3_handler.c\<close>): the read handler
  \<open>ngx_mail_pop3_auth_state\<close> with the commands it carries out, and the moves of the connection
  between its handlers as a step relation. Replies are named, not spelled out; sending one is
  a move of its own.
\<close>

subsection \<open>The state\<close>

datatype pop3_mail_state =
    ngx_pop3_start | ngx_pop3_user | ngx_pop3_passwd | ngx_pop3_auth_login_username
  | ngx_pop3_auth_login_password | ngx_pop3_auth_plain | ngx_pop3_auth_cram_md5

text \<open>\<open>c->read->handler\<close>; \<open>H_auth_http\<close> is the request to the authentication server and what follows.\<close>

datatype mail_handler = H_init_protocol | H_auth_state | H_starttls | H_auth_http | H_closed

datatype pop3_reply =
    pop3_greeting | pop3_ok | pop3_next | pop3_username | pop3_password | pop3_invalid_command
  | pop3_internal_server_error | pop3_capability | pop3_starttls_capability
  | pop3_starttls_only_capability | pop3_auth_capability | pop3_salt | pop3_auth_error

record pop3_session =
  q_mail_state :: pop3_mail_state
  q_state :: pop3_state
  q_s :: ngx_mail_session_t
  q_b :: ngx_buf_t
  q_out :: "pop3_reply option"
  q_salt_len :: nat
  q_login_attempt :: u64
  q_blocked :: bool
  q_quit :: bool
  q_tls :: bool
  q_handler :: mail_handler

abbreviation q_arg :: "pop3_session \<Rightarrow> nat \<Rightarrow> u8 list option" where
  "q_arg S n \<equiv> arg_at (buf_mem (q_b S)) (q_s S) n"

type_synonym pop3_result = "(ngx_rc \<times> pop3_session) option"

subsection \<open>The commands\<close>

definition ngx_mail_pop3_user :: "mail_env \<Rightarrow> mail_conf \<Rightarrow> pop3_session \<Rightarrow> pop3_result" where
  "ngx_mail_pop3_user env conf S =
    (if ngx_mail_starttls_only conf (q_tls S) then Some (NGX_MAIL_PARSE_INVALID_COMMAND, S)
     else if length (m_args (q_s S)) \<noteq> 1 then Some (NGX_MAIL_PARSE_INVALID_COMMAND, S)
     else do {
       a \<leftarrow> q_arg S 0;
       Some (case copy_bytes env a of
               Inl h \<Rightarrow> (NGX_ERROR, S\<lparr>q_s := (q_s S)\<lparr>m_login := h\<rparr>\<rparr>)
             | Inr h \<Rightarrow> (NGX_OK, S\<lparr>q_s := (q_s S)\<lparr>m_login := h\<rparr>, q_mail_state := ngx_pop3_user\<rparr>)) })"

definition ngx_mail_pop3_pass :: "mail_env \<Rightarrow> pop3_session \<Rightarrow> pop3_result" where
  "ngx_mail_pop3_pass env S =
    (if length (m_args (q_s S)) \<noteq> 1 then Some (NGX_MAIL_PARSE_INVALID_COMMAND, S)
     else do {
       a \<leftarrow> q_arg S 0;
       Some (case copy_bytes env a of
               Inl h \<Rightarrow> (NGX_ERROR, S\<lparr>q_s := (q_s S)\<lparr>m_passwd := h\<rparr>\<rparr>)
             | Inr h \<Rightarrow> (NGX_DONE, S\<lparr>q_s := (q_s S)\<lparr>m_passwd := h\<rparr>\<rparr>)) })"

definition ngx_mail_pop3_capa :: "mail_conf \<Rightarrow> bool \<Rightarrow> pop3_session \<Rightarrow> pop3_result" where
  "ngx_mail_pop3_capa conf stls S =
    Some (NGX_OK, S\<lparr>q_out := Some
      (if stls \<and> \<not> q_tls S \<and> cf_starttls conf = STARTTLS_ON then pop3_starttls_capability
       else if stls \<and> \<not> q_tls S \<and> cf_starttls conf = STARTTLS_ONLY then pop3_starttls_only_capability
       else pop3_capability)\<rparr>)"

definition ngx_mail_pop3_stls :: "mail_conf \<Rightarrow> pop3_session \<Rightarrow> pop3_result" where
  "ngx_mail_pop3_stls conf S =
    (if \<not> q_tls S \<and> cf_starttls conf \<noteq> STARTTLS_OFF
     then Some (NGX_OK, S\<lparr>q_handler := H_starttls\<rparr>)
     else Some (NGX_MAIL_PARSE_INVALID_COMMAND, S))"

definition ngx_mail_pop3_apop :: "mail_env \<Rightarrow> mail_conf \<Rightarrow> pop3_session \<Rightarrow> pop3_result" where
  "ngx_mail_pop3_apop env conf S =
    (if ngx_mail_starttls_only conf (q_tls S) then Some (NGX_MAIL_PARSE_INVALID_COMMAND, S)
     else if length (m_args (q_s S)) \<noteq> 2 then Some (NGX_MAIL_PARSE_INVALID_COMMAND, S)
     else if \<not> auth_enabled conf NGX_MAIL_AUTH_APOP_ENABLED then Some (NGX_MAIL_PARSE_INVALID_COMMAND, S)
     else do {
       a \<leftarrow> q_arg S 0;
       case copy_bytes env a of
         Inl h \<Rightarrow> Some (NGX_ERROR, S\<lparr>q_s := (q_s S)\<lparr>m_login := h\<rparr>\<rparr>)
       | Inr h \<Rightarrow> do {
           p \<leftarrow> q_arg S 1;
           Some (case copy_bytes env p of
                   Inl k \<Rightarrow> (NGX_ERROR, S\<lparr>q_s := (q_s S)\<lparr>m_login := h, m_passwd := k\<rparr>\<rparr>)
                 | Inr k \<Rightarrow> (NGX_DONE, S\<lparr>q_s := (q_s S)\<lparr>m_login := h, m_passwd := k,
                                                      m_auth_method := NGX_MAIL_AUTH_APOP\<rparr>\<rparr>)) } })"

text \<open>\<open>ngx_mail_auth_cram_md5_salt(s, c, "+ ", 2)\<close>\<close>

definition pop3_cram_salt :: "mail_env \<Rightarrow> pop3_session \<Rightarrow> ngx_rc \<times> pop3_session" where
  "pop3_cram_salt env S =
    (case env_palloc env (2 + env_encoded_length env (q_salt_len S) + 2) of
       None \<Rightarrow> (NGX_ERROR, S)
     | Some _ \<Rightarrow> (NGX_OK, S\<lparr>q_out := Some pop3_salt\<rparr>))"

abbreviation q_lift :: "pop3_session \<Rightarrow> (ngx_rc \<times> ngx_mail_session_t) option \<Rightarrow> pop3_result" where
  "q_lift S r \<equiv> map_option (\<lambda>(rc, s). (rc, S\<lparr>q_s := s\<rparr>)) r"

definition ngx_mail_pop3_auth :: "mail_env \<Rightarrow> mail_conf \<Rightarrow> pop3_session \<Rightarrow> pop3_result" where
  "ngx_mail_pop3_auth env conf S =
    (if ngx_mail_starttls_only conf (q_tls S) then Some (NGX_MAIL_PARSE_INVALID_COMMAND, S)
     else if length (m_args (q_s S)) = 0
     then Some (NGX_OK, S\<lparr>q_out := Some pop3_auth_capability, q_state := pop3_sw_start\<rparr>)
     else do {
       (m, s) \<leftarrow> ngx_mail_auth_parse env conf (q_tls S) (buf_mem (q_b S)) (q_s S);
       let S = S\<lparr>q_s := s\<rparr>;
       case m of
         MA_LOGIN \<Rightarrow> Some (NGX_OK, S\<lparr>q_out := Some pop3_username, q_mail_state := ngx_pop3_auth_login_username\<rparr>)
       | MA_LOGIN_USERNAME \<Rightarrow>
           (let S = S\<lparr>q_out := Some pop3_password, q_mail_state := ngx_pop3_auth_login_password\<rparr> in
            q_lift S (ngx_mail_auth_login_username env (buf_mem (q_b S)) (q_s S) 1))
       | MA_PLAIN \<Rightarrow> Some (NGX_OK, S\<lparr>q_out := Some pop3_next, q_mail_state := ngx_pop3_auth_plain\<rparr>)
       | MA_CRAM_MD5 \<Rightarrow>
           (if \<not> auth_enabled conf NGX_MAIL_AUTH_CRAM_MD5_ENABLED then Some (NGX_MAIL_PARSE_INVALID_COMMAND, S)
            else (case pop3_cram_salt env S of
                    (NGX_OK, S) \<Rightarrow> Some (NGX_OK, S\<lparr>q_mail_state := ngx_pop3_auth_cram_md5\<rparr>)
                  | (_, S) \<Rightarrow> Some (NGX_ERROR, S)))
       | MA_rc rc \<Rightarrow> Some (rc, S) })"

subsection \<open>The read handler\<close>

text \<open>\<open>switch (s->command)\<close> in the states \<open>ngx_pop3_start\<close> and \<open>ngx_pop3_user\<close>\<close>

definition pop3_start_command :: "mail_env \<Rightarrow> mail_conf \<Rightarrow> pop3_session \<Rightarrow> pop3_result" where
  "pop3_start_command env conf S =
    (let c = m_command (q_s S) in
     if c = NGX_POP3_USER then ngx_mail_pop3_user env conf S
     else if c = NGX_POP3_CAPA then ngx_mail_pop3_capa conf True S
     else if c = NGX_POP3_APOP then ngx_mail_pop3_apop env conf S
     else if c = NGX_POP3_AUTH then ngx_mail_pop3_auth env conf S
     else if c = NGX_POP3_QUIT then Some (NGX_OK, S\<lparr>q_quit := True\<rparr>)
     else if c = NGX_POP3_NOOP then Some (NGX_OK, S)
     else if c = NGX_POP3_STLS then ngx_mail_pop3_stls conf S
     else Some (NGX_MAIL_PARSE_INVALID_COMMAND, S))"

definition pop3_user_command :: "mail_env \<Rightarrow> mail_conf \<Rightarrow> pop3_session \<Rightarrow> pop3_result" where
  "pop3_user_command env conf S =
    (let c = m_command (q_s S) in
     if c = NGX_POP3_PASS then ngx_mail_pop3_pass env S
     else if c = NGX_POP3_CAPA then ngx_mail_pop3_capa conf False S
     else if c = NGX_POP3_QUIT then Some (NGX_OK, S\<lparr>q_quit := True\<rparr>)
     else if c = NGX_POP3_NOOP then Some (NGX_OK, S)
     else Some (NGX_MAIL_PARSE_INVALID_COMMAND, S))"

fun pop3_dispatch :: "mail_env \<Rightarrow> mail_conf \<Rightarrow> pop3_mail_state \<Rightarrow> pop3_session \<Rightarrow> pop3_result" where
  "pop3_dispatch env conf ngx_pop3_start S = pop3_start_command env conf S"
| "pop3_dispatch env conf ngx_pop3_user S = pop3_user_command env conf S"
| "pop3_dispatch env conf ngx_pop3_passwd S = Some (NGX_OK, S)"
| "pop3_dispatch env conf ngx_pop3_auth_login_username S =
     map_option (\<lambda>(rc, S). (rc, S\<lparr>q_out := Some pop3_password, q_mail_state := ngx_pop3_auth_login_password\<rparr>))
       (q_lift S (ngx_mail_auth_login_username env (buf_mem (q_b S)) (q_s S) 0))"
| "pop3_dispatch env conf ngx_pop3_auth_login_password S =
     q_lift S (ngx_mail_auth_login_password env (buf_mem (q_b S)) (q_s S))"
| "pop3_dispatch env conf ngx_pop3_auth_plain S =
     q_lift S (ngx_mail_auth_plain env (buf_mem (q_b S)) (q_s S) 0)"
| "pop3_dispatch env conf ngx_pop3_auth_cram_md5 S =
     q_lift S (ngx_mail_auth_cram_md5 env (buf_mem (q_b S)) (q_s S))"

text \<open>\<open>ngx_mail_session_internal_server_error\<close> and \<open>ngx_mail_auth\<close>\<close>

definition pop3_internal_error :: "pop3_session \<Rightarrow> pop3_session" where
  "pop3_internal_error S = S\<lparr>q_out := Some pop3_internal_server_error, q_quit := True\<rparr>"

definition pop3_hand_over :: "pop3_session \<Rightarrow> pop3_session" where
  "pop3_hand_over S =
    (let b = q_b S in
     S\<lparr>q_s := (q_s S)\<lparr>m_args := []\<rparr>,
       q_b := (if buf_pos b = buf_last b then b\<lparr>buf_pos := 0, buf_last := 0\<rparr> else b),
       q_state := pop3_sw_start, q_login_attempt := q_login_attempt S + 1, q_handler := H_auth_http\<rparr>)"

definition pop3_reset :: "pop3_session \<Rightarrow> pop3_session" where
  "pop3_reset S =
    (let s = (q_s S)\<lparr>m_args := []\<rparr> in
     S\<lparr>q_s := (if q_state S \<noteq> pop3_sw_start then s\<lparr>m_arg_start := Some 0\<rparr> else s),
       q_b := (q_b S)\<lparr>buf_pos := 0, buf_last := 0\<rparr>\<rparr>)"

text \<open>The last \<open>switch (rc)\<close>.\<close>

definition pop3_answer :: "ngx_rc \<Rightarrow> pop3_session \<Rightarrow> pop3_session" where
  "pop3_answer rc S =
    (if rc = NGX_DONE then pop3_hand_over S
     else if rc = NGX_ERROR then pop3_internal_error S
     else if rc = NGX_MAIL_PARSE_INVALID_COMMAND
     then pop3_reset (S\<lparr>q_mail_state := ngx_pop3_start, q_state := pop3_sw_start, q_out := Some pop3_invalid_command\<rparr>)
     else if rc = NGX_OK then pop3_reset S
     else S)"

fun pop3_fate :: "mail_fate \<Rightarrow> pop3_session \<Rightarrow> pop3_session" where
  "pop3_fate Fate_open S = S"
| "pop3_fate Fate_closed S = S\<lparr>q_handler := H_closed\<rparr>"
| "pop3_fate Fate_internal_error S = pop3_internal_error S"

text \<open>The handler on a read event that is not a timeout; \<open>lim\<close> is the size of the buffer.\<close>

definition ngx_mail_pop3_auth_state :: "mail_env \<Rightarrow> mail_conf \<Rightarrow> nat \<Rightarrow> mail_recv \<Rightarrow> pop3_session \<Rightarrow> pop3_session option" where
  "ngx_mail_pop3_auth_state env conf lim ev S =
    (if q_out S \<noteq> None then Some (S\<lparr>q_blocked := True\<rparr>)
     else
       (case ngx_mail_read_command (ngx_mail_pop3_parse_command (env_toupper env) (env_room env)) lim ev
               (q_state S) (q_s S) (q_b S) of
          (rc, fate, quit, st, s, b) \<Rightarrow>
            let S = S\<lparr>q_blocked := False, q_state := st, q_s := s, q_b := b, q_quit := q_quit S \<or> quit\<rparr> in
            if rc = NGX_AGAIN \<or> rc = NGX_ERROR then Some (pop3_fate fate S)
            else
              let S = S\<lparr>q_out := Some pop3_ok\<rparr> in
              if rc = NGX_OK
              then map_option (\<lambda>(rc, S). pop3_answer rc S) (pop3_dispatch env conf (q_mail_state S) S)
              else Some (pop3_answer rc S)))"

subsection \<open>The moves of a connection\<close>

text \<open>
  The session \<open>ngx_mail_pop3_init_session\<close> leaves when it succeeds: the greeting is on its way and
  the handler is the one that starts the protocol, over a connection that is encrypted from the
  start or not.
\<close>

definition pop3_greeted :: "u64 \<Rightarrow> nat \<Rightarrow> bool \<Rightarrow> pop3_session" where
  "pop3_greeted a n tls =
    \<lparr>q_mail_state = ngx_pop3_start, q_state = pop3_sw_start, q_s = new_session a,
     q_b = \<lparr>buf_mem = [], buf_pos = 0, buf_last = 0\<rparr>, q_out = Some pop3_greeting, q_salt_len = n,
     q_login_attempt = 0, q_blocked = False, q_quit = False, q_tls = tls, q_handler = H_init_protocol\<rparr>"

text \<open>\<open>got_buffer\<close>: the arguments and the buffer are there or could be allocated. The call of the next
  handler is the next move.\<close>

definition ngx_mail_pop3_init_protocol :: "bool \<Rightarrow> pop3_session \<Rightarrow> pop3_session" where
  "ngx_mail_pop3_init_protocol got_buffer S =
    (if got_buffer then S\<lparr>q_mail_state := ngx_pop3_start, q_handler := H_auth_state\<rparr>
     else pop3_internal_error S)"

text \<open>\<open>ngx_mail_send\<close> when the last byte has been sent.\<close>

definition pop3_sent :: "pop3_session \<Rightarrow> pop3_session" where
  "pop3_sent S = (let S = S\<lparr>q_out := None\<rparr> in if q_quit S then S\<lparr>q_handler := H_closed\<rparr> else S)"

definition pop3_starttls :: "pop3_session \<Rightarrow> pop3_session" where
  "pop3_starttls S = S\<lparr>q_tls := True, q_handler := H_init_protocol\<rparr>"

text \<open>\<open>ngx_mail_auth_sleep_handler\<close>: the authentication server has refused the login.\<close>

definition pop3_auth_refused :: "pop3_session \<Rightarrow> pop3_session" where
  "pop3_auth_refused S = S\<lparr>q_mail_state := ngx_pop3_start, q_handler := H_auth_state,
     q_s := (q_s S)\<lparr>m_auth_method := NGX_MAIL_AUTH_PLAIN\<rparr>, q_out := Some pop3_auth_error\<rparr>"

text \<open>\<open>ngx_mail_auth_http_process_headers\<close>, when no time to sleep was configured.\<close>

definition pop3_turned_away :: "pop3_session \<Rightarrow> pop3_session" where
  "pop3_turned_away S = S\<lparr>q_out := Some pop3_auth_error, q_quit := True\<rparr>"

definition recv_fits :: "nat \<Rightarrow> ngx_buf_t \<Rightarrow> mail_recv \<Rightarrow> bool" where
  "recv_fits lim b ev = (case ev of Recv ys \<Rightarrow> ys \<noteq> [] \<and> buf_last b + length ys \<le> lim | _ \<Rightarrow> True)"

text \<open>A timeout, a write error or a failed handshake closes the connection (\<open>close\<close>).\<close>

inductive pop3_move :: "mail_env \<Rightarrow> mail_conf \<Rightarrow> nat \<Rightarrow> pop3_session \<Rightarrow> pop3_session \<Rightarrow> bool"
  for env conf lim where
  init: "q_handler S = H_init_protocol \<Longrightarrow> pop3_move env conf lim S (ngx_mail_pop3_init_protocol got S)"
| read: "q_handler S = H_auth_state \<Longrightarrow> recv_fits lim (q_b S) ev \<Longrightarrow>
    ngx_mail_pop3_auth_state env conf lim ev S = Some S' \<Longrightarrow> pop3_move env conf lim S S'"
| close: "pop3_move env conf lim S (S\<lparr>q_handler := H_closed\<rparr>)"
| sent: "q_handler S \<noteq> H_closed \<Longrightarrow> q_out S \<noteq> None \<Longrightarrow> pop3_move env conf lim S (pop3_sent S)"
| starttls: "q_handler S = H_starttls \<Longrightarrow> pop3_move env conf lim S (pop3_starttls S)"
| failed: "q_handler S = H_auth_http \<Longrightarrow> pop3_move env conf lim S (pop3_internal_error S)"
| turned_away: "q_handler S = H_auth_http \<Longrightarrow> pop3_move env conf lim S (pop3_turned_away S)"
| refused: "q_handler S = H_auth_http \<Longrightarrow> pop3_move env conf lim S (pop3_auth_refused S)"

lemmas pop3_handler_defs = ngx_mail_pop3_init_protocol_def pop3_sent_def pop3_starttls_def pop3_auth_refused_def pop3_turned_away_def
  pop3_internal_error_def Let_def

inductive pop3_reach :: "mail_env \<Rightarrow> mail_conf \<Rightarrow> nat \<Rightarrow> pop3_session \<Rightarrow> pop3_session \<Rightarrow> bool"
  for env conf lim S0 where
  start: "pop3_reach env conf lim S0 S0"
| move: "pop3_reach env conf lim S0 S \<Longrightarrow> pop3_move env conf lim S S' \<Longrightarrow> pop3_reach env conf lim S0 S'"

inductive_cases pop3_moveE: "pop3_move env conf lim S S'"

subsection \<open>What a call of the parser leaves\<close>

text \<open>
  While a challenge is being answered the command is AUTH and the parser is in an argument, or
  past one.
\<close>

definition pop3_answering :: "pop3_loc \<Rightarrow> bool" where
  "pop3_answering x \<longleftrightarrow> m_command (snd x) = NGX_POP3_AUTH \<and> fst x \<noteq> pop3_sw_start \<and>
     (fst x \<noteq> pop3_sw_argument \<longrightarrow> m_args (snd x) \<noteq> [])"

definition same_credentials :: "ngx_mail_session_t \<Rightarrow> ngx_mail_session_t \<Rightarrow> bool" where
  "same_credentials s s' \<longleftrightarrow> m_login s' = m_login s \<and> m_passwd s' = m_passwd s"

lemma push_arg_args:
  assumes "push_arg room p s = Some s'"
  shows "m_args s' \<noteq> []" "same_credentials s s'"
  using assms by (auto simp: push_arg_def same_credentials_def split: if_splits)

lemma pop3_step_answering:
  assumes "pop3_answering x"
  shows "pop3_step up room mem p x = Next x' \<Longrightarrow> pop3_answering x'"
    and "pop3_step up room mem p x = Stop r x' \<Longrightarrow>
      m_command (snd x') = NGX_POP3_AUTH \<and> (r = M_done \<longrightarrow> m_args (snd x') \<noteq> [])"
  using assms by (cases x; cases "fst x";
      auto simp: pop3_answering_def pop3_step_def pop3_steps dest: push_arg_args push_arg_frame
        split: option.splits if_splits)+

lemma pop3_step_credentials:
  shows "pop3_step up room mem p x = Next x' \<Longrightarrow> same_credentials (snd x) (snd x')"
    and "pop3_step up room mem p x = Stop r x' \<Longrightarrow> same_credentials (snd x) (snd x')"
  by (cases x; cases "fst x";
      auto simp: pop3_step_def pop3_steps same_credentials_def Let_def dest!: push_arg_args(2)
        split: option.splits if_splits)+

lemma same_credentials_trans: "same_credentials a b \<Longrightarrow> same_credentials b c \<Longrightarrow> same_credentials a c"
  by (simp add: same_credentials_def)

interpretation pop3_run: byte_invariant "pop3_step up room" mem
    "\<lambda>p x. pop3_inv p x \<and> (a \<longrightarrow> pop3_answering x) \<and> same_credentials s (snd x)"
    "\<lambda>p r x. pop3_post p r x \<and> same_credentials s (snd x) \<and>
       (a \<longrightarrow> m_command (snd x) = NGX_POP3_AUTH \<and> (r = M_done \<longrightarrow> m_args (snd x) \<noteq> []))"
  for up room mem a s
proof (unfold_locales, goal_cases)
  case (1 p x x')
  then show ?case
    using pop3_step_inv [of p x up room mem x'] pop3_step_answering(1) [of x up room mem p x']
      pop3_step_credentials(1) [of up room mem p x x'] same_credentials_trans [of s "snd x" "snd x'"] by simp
next
  case (2 p x r x')
  then show ?case
    using pop3_step_post [of p x up room mem r x'] pop3_step_answering(2) [of x up room mem p r x']
      pop3_step_credentials(2) [of up room mem p x r x'] same_credentials_trans [of s "snd x" "snd x'"] by simp
qed

definition pop3_parsed :: "bool \<Rightarrow> ngx_mail_session_t \<Rightarrow> ngx_buf_t \<Rightarrow> ngx_rc \<Rightarrow> pop3_state
    \<Rightarrow> ngx_mail_session_t \<Rightarrow> ngx_buf_t \<Rightarrow> bool" where
  "pop3_parsed a s b rc st' s' b' \<longleftrightarrow>
    buf_wf b' \<and> buf_mem b' = buf_mem b \<and> buf_last b' = buf_last b \<and> same_credentials s s' \<and>
    args_below (buf_last b) (m_args s') \<and> rc \<in> {NGX_OK, NGX_AGAIN, NGX_ERROR, NGX_MAIL_PARSE_INVALID_COMMAND} \<and>
    (rc = NGX_AGAIN \<longrightarrow> pop3_inv (buf_pos b') (st', s') \<and> (a \<longrightarrow> pop3_answering (st', s'))) \<and>
    (rc = NGX_OK \<longrightarrow> m_arg_start s' = None \<and>
       st' = (if m_command s' = NGX_POP3_AUTH then pop3_sw_argument else pop3_sw_start) \<and>
       (a \<longrightarrow> m_command s' = NGX_POP3_AUTH \<and> m_args s' \<noteq> [])) \<and>
    (rc = NGX_MAIL_PARSE_INVALID_COMMAND \<longrightarrow> st' = pop3_sw_start \<and> m_arg_start s' = None)"

lemma pop3_parse_result:
  assumes "buf_wf b" and "pop3_inv (buf_pos b) (st, s)" and "a \<Longrightarrow> pop3_answering (st, s)"
    and "ngx_mail_pop3_parse_command up room st s b = (rc, st', s', b')"
  shows "pop3_parsed a s b rc st' s' b'"
proof -
  obtain p x where px: "byte_loop (pop3_step up room) (buf_mem b) (buf_pos b) (buf_last b) (st, s) = (p, x)"
    by fastforce
  have wf: "buf_pos b \<le> buf_last b" "buf_last b \<le> length (buf_mem b)" using assms(1) by (auto simp: buf_wf_def)
  have "pop3_inv (buf_pos b) (st, s) \<and> (a \<longrightarrow> pop3_answering (st, s)) \<and> same_credentials s (snd (st, s))"
    using assms(2,3) by (simp add: same_credentials_def)
  note run = pop3_run.loop_inv [OF this wf px]
  note pos = byte_loop_pos [OF px wf(1)]
  show ?thesis
  proof (cases x)
    case (Next y)
    then obtain st1 s1 where y: "y = (st1, s1)" by (cases y)
    then have "rc = NGX_AGAIN" "st' = st1" "s' = s1" "b' = b\<lparr>buf_pos := p\<rparr>"
      using assms(4) px Next by (auto simp: ngx_mail_pop3_parse_command_def)
    moreover have "args_below (buf_last b) (m_args s1)"
      using run pos Next y by (auto simp: pop3_inv.simps)
    ultimately show ?thesis
      using run pos Next y wf by (auto simp: pop3_parsed_def buf_wf_def)
  next
    case (Stop r y)
    then obtain st1 s1 where y: "y = (st1, s1)" by (cases y)
    have below: "args_below (buf_last b) (m_args s1)"
      using run pos Stop y by (auto simp: pop3_post_def intro: args_below_mono)
    have cred: "same_credentials s s1" using run Stop y by simp
    show ?thesis
    proof (cases "r = M_done")
      case True
      then have "m_arg_start s1 = None" using run Stop y by (simp add: pop3_post_def)
      then have "rc = NGX_OK" "s' = s1" "b' = b\<lparr>buf_pos := p + 1\<rparr>" "m_arg_start s1 = None"
          "st' = (if m_command s1 = NGX_POP3_AUTH then pop3_sw_argument else pop3_sw_start)"
        using assms(4) px Stop y True by (auto simp: ngx_mail_pop3_parse_command_def pop3_finish_def)
      then show ?thesis
        using run pos Stop y wf below cred True by (auto simp: pop3_parsed_def buf_wf_def)
    next
      case False
      then show ?thesis
        using assms(4) px Stop y wf below cred
        by (cases r) (auto simp: ngx_mail_pop3_parse_command_def pop3_parsed_def buf_wf_def same_credentials_def)
    qed
  qed
qed

subsection \<open>What the commands keep\<close>

definition pop3_challenge :: "pop3_mail_state \<Rightarrow> bool" where
  "pop3_challenge m \<longleftrightarrow> m \<in> {ngx_pop3_auth_login_username, ngx_pop3_auth_login_password,
     ngx_pop3_auth_plain, ngx_pop3_auth_cram_md5}"

text \<open>
  A command is carried out on a session as the parser left it: the arguments lie in the buffer,
  and there is one when a challenge is being answered.
\<close>

definition pop3_parsed_session :: "pop3_session \<Rightarrow> bool" where
  "pop3_parsed_session S \<longleftrightarrow> q_out S \<noteq> None \<and> args_inside (buf_mem (q_b S)) (q_s S) \<and>
     q_state S = (if m_command (q_s S) = NGX_POP3_AUTH then pop3_sw_argument else pop3_sw_start) \<and>
     (pop3_challenge (q_mail_state S) \<longrightarrow> m_command (q_s S) = NGX_POP3_AUTH \<and> m_args (q_s S) \<noteq> [])"

definition pop3_kept :: "pop3_session \<Rightarrow> ngx_rc \<Rightarrow> pop3_session \<Rightarrow> bool" where
  "pop3_kept S rc T \<longleftrightarrow> mail_frame (q_s S) (q_s T) \<and> q_b T = q_b S \<and> q_tls T = q_tls S \<and>
     q_out T \<noteq> None \<and> (q_state T = q_state S \<or> q_state T = pop3_sw_start) \<and>
     (q_handler T = q_handler S \<or> q_handler T = H_starttls) \<and>
     rc \<in> {NGX_OK, NGX_DONE, NGX_ERROR, NGX_MAIL_PARSE_INVALID_COMMAND} \<and>
     (rc \<noteq> NGX_OK \<longrightarrow> q_quit T = q_quit S \<and> q_handler T = q_handler S) \<and>
     (rc = NGX_OK \<and> pop3_challenge (q_mail_state T) \<longrightarrow>
        m_command (q_s T) = NGX_POP3_AUTH \<and> q_state T = pop3_sw_argument)"

lemma pop3_keptI:
  assumes "pop3_parsed_session S" and "T = S\<lparr>q_s := s, q_out := out, q_mail_state := m\<rparr>"
    and "mail_frame (q_s S) s" and "out \<noteq> None"
    and "rc \<in> {NGX_OK, NGX_DONE, NGX_ERROR, NGX_MAIL_PARSE_INVALID_COMMAND}"
    and "rc = NGX_OK \<Longrightarrow> pop3_challenge m \<Longrightarrow> m_command (q_s S) = NGX_POP3_AUTH"
  shows "pop3_kept S rc T"
  using assms by (auto simp: pop3_kept_def pop3_parsed_session_def mail_frame_def)

lemma copy_frame: "mail_frame s (s\<lparr>m_login := h, m_passwd := k\<rparr>)"
  "mail_frame s (s\<lparr>m_login := h, m_passwd := k, m_auth_method := n\<rparr>)"
  by (simp_all add: mail_frame_def)

lemma pop3_user_kept:
  assumes "pop3_parsed_session S"
  shows "\<exists>rc T. ngx_mail_pop3_user env conf S = Some (rc, T) \<and> pop3_kept S rc T"
proof (cases "ngx_mail_starttls_only conf (q_tls S) \<or> length (m_args (q_s S)) \<noteq> 1")
  case True
  then show ?thesis
    using assms by (auto simp: ngx_mail_pop3_user_def pop3_kept_def pop3_parsed_session_def mail_frame_def)
next
  case False
  then obtain a where "q_arg S 0 = Some a"
    using assms arg_at_inside [of "buf_mem (q_b S)" "q_s S" 0] by (auto simp: pop3_parsed_session_def)
  with False assms show ?thesis
    by (auto simp: ngx_mail_pop3_user_def pop3_kept_def pop3_parsed_session_def mail_frame_def
        pop3_challenge_def split: sum.split)
qed

lemma pop3_pass_kept:
  assumes "pop3_parsed_session S"
  shows "\<exists>rc T. ngx_mail_pop3_pass env S = Some (rc, T) \<and> pop3_kept S rc T"
proof (cases "length (m_args (q_s S)) \<noteq> 1")
  case True
  then show ?thesis
    using assms by (auto simp: ngx_mail_pop3_pass_def pop3_kept_def pop3_parsed_session_def mail_frame_def)
next
  case False
  then obtain a where "q_arg S 0 = Some a"
    using assms arg_at_inside [of "buf_mem (q_b S)" "q_s S" 0] by (auto simp: pop3_parsed_session_def)
  with False assms show ?thesis
    by (auto simp: ngx_mail_pop3_pass_def pop3_kept_def pop3_parsed_session_def mail_frame_def split: sum.split)
qed

lemma pop3_apop_kept:
  assumes "pop3_parsed_session S"
  shows "\<exists>rc T. ngx_mail_pop3_apop env conf S = Some (rc, T) \<and> pop3_kept S rc T"
proof (cases "ngx_mail_starttls_only conf (q_tls S) \<or> length (m_args (q_s S)) \<noteq> 2 \<or>
    \<not> auth_enabled conf NGX_MAIL_AUTH_APOP_ENABLED")
  case True
  then show ?thesis
    using assms by (auto simp: ngx_mail_pop3_apop_def pop3_kept_def pop3_parsed_session_def mail_frame_def)
next
  case False
  then obtain a p where "q_arg S 0 = Some a" "q_arg S 1 = Some p"
    using assms arg_at_inside [of "buf_mem (q_b S)" "q_s S" 0] arg_at_inside [of "buf_mem (q_b S)" "q_s S" 1]
    by (auto simp: pop3_parsed_session_def)
  with False assms show ?thesis
    by (auto simp: ngx_mail_pop3_apop_def pop3_kept_def pop3_parsed_session_def mail_frame_def split: sum.split)
qed

lemma pop3_auth_kept:
  assumes "pop3_parsed_session S" and "m_command (q_s S) = NGX_POP3_AUTH" and "q_mail_state S = ngx_pop3_start"
  shows "\<exists>rc T. ngx_mail_pop3_auth env conf S = Some (rc, T) \<and> pop3_kept S rc T"
proof (cases "ngx_mail_starttls_only conf (q_tls S) \<or> m_args (q_s S) = []")
  case True
  with assms show ?thesis
    by (auto simp: ngx_mail_pop3_auth_def pop3_kept_def pop3_parsed_session_def mail_frame_def pop3_challenge_def)
next
  case False
  have inside: "args_inside (buf_mem (q_b S)) (q_s S)" and st: "q_state S = pop3_sw_argument"
    using assms(1,2) by (auto simp: pop3_parsed_session_def)
  obtain m s where m: "ngx_mail_auth_parse env conf (q_tls S) (buf_mem (q_b S)) (q_s S) = Some (m, s)"
      "mail_frame (q_s S) s"
      "case m of MA_rc rc \<Rightarrow> rc \<in> {NGX_DONE, NGX_ERROR, NGX_MAIL_PARSE_INVALID_COMMAND}
       | MA_LOGIN_USERNAME \<Rightarrow> length (m_args (q_s S)) = 2 | _ \<Rightarrow> length (m_args (q_s S)) = 1"
    using auth_parse_result [OF inside] by blast
  have cmd: "m_command s = NGX_POP3_AUTH" "m_args s = m_args (q_s S)" "m_arg_start s = m_arg_start (q_s S)"
    using m(2) assms(2) by (simp_all add: mail_frame_def)
  show ?thesis
  proof (cases "m = MA_LOGIN_USERNAME")
    case True
    have "args_inside (buf_mem (q_b S)) s" "1 < length (m_args s)"
      using inside m(3) True cmd by (auto simp: args_inside_def)
    from auth_login_username_result [OF this, of env] obtain rc t where
      "ngx_mail_auth_login_username env (buf_mem (q_b S)) s 1 = Some (rc, t)" "mail_frame s t"
      "rc \<in> {NGX_OK, NGX_ERROR, NGX_MAIL_PARSE_INVALID_COMMAND}" by blast
    with False m(1) True cmd st assms(1,2) show ?thesis
      by (auto simp: ngx_mail_pop3_auth_def pop3_kept_def mail_frame_def pop3_parsed_session_def Let_def)
  next
    case other: False
    with False m cmd st assms show ?thesis
      by (cases m) (auto simp: ngx_mail_pop3_auth_def pop3_kept_def mail_frame_def pop3_parsed_session_def
          pop3_cram_salt_def pop3_challenge_def Let_def split: option.split)
  qed
qed


lemma pop3_dispatch_kept:
  assumes "pop3_parsed_session S"
  shows "\<exists>rc T. pop3_dispatch env conf (q_mail_state S) S = Some (rc, T) \<and> pop3_kept S rc T"
proof -
  have inside: "args_inside (buf_mem (q_b S)) (q_s S)" and out: "q_out S \<noteq> None"
    using assms by (auto simp: pop3_parsed_session_def)
  have simple: "pop3_kept S NGX_OK (S\<lparr>q_quit := True\<rparr>)" "pop3_kept S NGX_OK S"
      "pop3_kept S NGX_MAIL_PARSE_INVALID_COMMAND S" "pop3_kept S NGX_OK (S\<lparr>q_handler := H_starttls\<rparr>)"
      "pop3_kept S NGX_OK (S\<lparr>q_out := Some r\<rparr>)" for r
    using assms by (auto simp: pop3_kept_def pop3_parsed_session_def mail_frame_def)
  show ?thesis
  proof (cases "q_mail_state S")
    case ngx_pop3_start
    show ?thesis
      using pop3_user_kept [OF assms, of env conf] pop3_apop_kept [OF assms, of env conf]
        pop3_auth_kept [OF assms _ ngx_pop3_start, of env conf] simple
      unfolding ngx_pop3_start pop3_dispatch.simps pop3_start_command_def Let_def
      by (auto simp: ngx_mail_pop3_capa_def ngx_mail_pop3_stls_def)
  next
    case ngx_pop3_user
    show ?thesis
      using pop3_pass_kept [OF assms, of env] simple
      unfolding ngx_pop3_user pop3_dispatch.simps pop3_user_command_def Let_def
      by (auto simp: ngx_mail_pop3_capa_def)
  next
    case ngx_pop3_passwd
    with simple show ?thesis by simp
  next
    case ngx_pop3_auth_login_username
    then have c: "m_command (q_s S) = NGX_POP3_AUTH" "m_args (q_s S) \<noteq> []"
      using assms by (auto simp: pop3_parsed_session_def pop3_challenge_def)
    then obtain rc s where "ngx_mail_auth_login_username env (buf_mem (q_b S)) (q_s S) 0 = Some (rc, s)"
      "mail_frame (q_s S) s" "rc \<in> {NGX_OK, NGX_ERROR, NGX_MAIL_PARSE_INVALID_COMMAND}"
      using auth_login_username_result [OF inside, of 0 env] by blast
    with ngx_pop3_auth_login_username c assms show ?thesis
      by (auto simp: pop3_kept_def mail_frame_def pop3_parsed_session_def)
  next
    case ngx_pop3_auth_login_password
    then have c: "m_args (q_s S) \<noteq> []" using assms by (auto simp: pop3_parsed_session_def pop3_challenge_def)
    then obtain rc s where "ngx_mail_auth_login_password env (buf_mem (q_b S)) (q_s S) = Some (rc, s)"
      "mail_frame (q_s S) s" "rc \<in> {NGX_DONE, NGX_ERROR, NGX_MAIL_PARSE_INVALID_COMMAND}"
      using auth_login_password_result [OF inside, of env] by blast
    with ngx_pop3_auth_login_password assms show ?thesis
      by (auto simp: pop3_kept_def mail_frame_def pop3_parsed_session_def)
  next
    case ngx_pop3_auth_plain
    then have c: "0 < length (m_args (q_s S))" using assms by (auto simp: pop3_parsed_session_def pop3_challenge_def)
    then obtain rc s where "ngx_mail_auth_plain env (buf_mem (q_b S)) (q_s S) 0 = Some (rc, s)"
      "mail_frame (q_s S) s" "rc \<in> {NGX_DONE, NGX_ERROR, NGX_MAIL_PARSE_INVALID_COMMAND}"
      using auth_plain_result [OF inside c, of env] by blast
    with ngx_pop3_auth_plain assms show ?thesis
      by (auto simp: pop3_kept_def mail_frame_def pop3_parsed_session_def)
  next
    case ngx_pop3_auth_cram_md5
    then have c: "m_args (q_s S) \<noteq> []" using assms by (auto simp: pop3_parsed_session_def pop3_challenge_def)
    then obtain rc s where "ngx_mail_auth_cram_md5 env (buf_mem (q_b S)) (q_s S) = Some (rc, s)"
      "mail_frame (q_s S) s" "rc \<in> {NGX_DONE, NGX_ERROR, NGX_MAIL_PARSE_INVALID_COMMAND}"
      using auth_cram_md5_result [OF inside, of env] by blast
    with ngx_pop3_auth_cram_md5 assms show ?thesis
      by (auto simp: pop3_kept_def mail_frame_def pop3_parsed_session_def)
  qed
qed

text \<open>Over an unencrypted connection that must be encrypted first, no command takes credentials.\<close>

lemma pop3_dispatch_only:
  assumes "cf_starttls conf = STARTTLS_ONLY" and "\<not> q_tls S" and "q_mail_state S = ngx_pop3_start"
    and "pop3_dispatch env conf (q_mail_state S) S = Some (rc, T)"
  shows "rc \<noteq> NGX_DONE \<and> q_mail_state T = ngx_pop3_start \<and> q_s T = q_s S"
proof -
  have only: "ngx_mail_starttls_only conf (q_tls S)"
    using assms(1,2) by (simp add: ngx_mail_starttls_only_def)
  show ?thesis
    using assms(3,4) only
    by (auto simp: pop3_start_command_def ngx_mail_pop3_user_def ngx_mail_pop3_capa_def ngx_mail_pop3_apop_def
        ngx_mail_pop3_auth_def ngx_mail_pop3_stls_def Let_def split: if_splits)
qed

subsection \<open>The invariant of a session\<close>

definition pop3_sane :: "pop3_session \<Rightarrow> bool" where
  "pop3_sane S \<longleftrightarrow> q_handler S = H_closed \<or>
     (buf_wf (q_b S) \<and> (q_quit S \<longrightarrow> q_out S \<noteq> None) \<and>
      (\<not> q_quit S \<longrightarrow> pop3_inv (buf_pos (q_b S)) (q_state S, q_s S) \<and>
         (q_handler S = H_auth_state \<and> pop3_challenge (q_mail_state S) \<longrightarrow> pop3_answering (q_state S, q_s S))))"

definition pop3_clear :: "mail_conf \<Rightarrow> pop3_session \<Rightarrow> bool" where
  "pop3_clear conf S \<longleftrightarrow> (cf_starttls conf = STARTTLS_ONLY \<and> \<not> q_tls S \<longrightarrow>
     q_mail_state S = ngx_pop3_start \<and> q_handler S \<noteq> H_auth_http \<and>
     m_login (q_s S) = no_hs \<and> m_passwd (q_s S) = no_hs)"

definition pop3_read :: "bool \<Rightarrow> ngx_mail_session_t \<Rightarrow> ngx_rc \<Rightarrow> mail_fate \<Rightarrow> bool \<Rightarrow> pop3_state
    \<Rightarrow> ngx_mail_session_t \<Rightarrow> ngx_buf_t \<Rightarrow> bool" where
  "pop3_read a s rc fate quit st' s' b' \<longleftrightarrow> buf_wf b' \<and> same_credentials s s' \<and>
     rc \<in> {NGX_OK, NGX_AGAIN, NGX_ERROR, NGX_MAIL_PARSE_INVALID_COMMAND} \<and>
     (fate = Fate_open \<longleftrightarrow> rc \<noteq> NGX_ERROR) \<and> (quit \<longrightarrow> rc = NGX_MAIL_PARSE_INVALID_COMMAND) \<and>
     (rc = NGX_AGAIN \<longrightarrow> pop3_inv (buf_pos b') (st', s') \<and> (a \<longrightarrow> pop3_answering (st', s'))) \<and>
     (rc = NGX_OK \<longrightarrow> m_arg_start s' = None \<and> args_inside (buf_mem b') s' \<and>
        st' = (if m_command s' = NGX_POP3_AUTH then pop3_sw_argument else pop3_sw_start) \<and>
        (a \<longrightarrow> m_command s' = NGX_POP3_AUTH \<and> m_args s' \<noteq> [])) \<and>
     (rc = NGX_MAIL_PARSE_INVALID_COMMAND \<and> \<not> quit \<longrightarrow> st' = pop3_sw_start \<and> m_arg_start s' = None)"

lemma pop3_read_result:
  assumes "buf_wf b" and "pop3_inv (buf_pos b) (st, s)" and "a \<longrightarrow> pop3_answering (st, s)"
    and "ngx_mail_read_command (ngx_mail_pop3_parse_command up room) lim ev st s b = (rc, fate, quit, st', s', b')"
  shows "pop3_read a s rc fate quit st' s' b'"
proof -
  have parsed: "pop3_read a s rc fate quit st' s' b'"
    if b1: "buf_wf b1" "buf_pos b1 = buf_pos b"
      and eq: "(case ngx_mail_pop3_parse_command up room st s b1 of (rc, st', s', b') \<Rightarrow>
           if rc = NGX_AGAIN
           then (if buf_last b' < lim then (NGX_AGAIN, Fate_open, False, st', s', b')
                 else (NGX_MAIL_PARSE_INVALID_COMMAND, Fate_open, True, st', s', b'))
           else if rc = NGX_IMAP_NEXT \<or> rc = NGX_MAIL_PARSE_INVALID_COMMAND
           then (rc, Fate_open, False, st', s', b')
           else if rc = NGX_ERROR then (NGX_ERROR, Fate_closed, False, st', s', b')
           else (NGX_OK, Fate_open, False, st', s', b')) = (rc, fate, quit, st', s', b')" for b1
  proof -
    obtain rc1 st1 s1 b2 where p: "ngx_mail_pop3_parse_command up room st s b1 = (rc1, st1, s1, b2)"
      by (metis surj_pair)
    have res: "pop3_parsed a s b1 rc1 st1 s1 b2"
      by (rule pop3_parse_result [OF b1(1) _ _ p]) (use assms(2,3) b1(2) in auto)
    have "args_inside (buf_mem b2) s1"
      using res b1(1) by (auto simp: pop3_parsed_def args_inside_def buf_wf_def)
    with res eq p show ?thesis
      by (auto simp: pop3_parsed_def pop3_read_def split: if_splits)
  qed
  show ?thesis
  proof (cases ev)
    case (Recv ys)
    have pos: "buf_pos (buf_recv b ys) = buf_pos b" by (simp add: buf_recv_def)
    from Recv assms(4) show ?thesis
      by (intro parsed [of "buf_recv b ys"]) (auto simp: ngx_mail_read_command_def buf_wf_recv [OF assms(1)] pos)
  next
    case Recv_close
    with assms show ?thesis
      by (auto simp: ngx_mail_read_command_def pop3_read_def same_credentials_def)
  next
    case (Recv_again ok)
    show ?thesis
    proof (cases "ok \<and> buf_pos b \<noteq> buf_last b")
      case True
      with Recv_again assms(4) show ?thesis
        by (intro parsed [of b]) (auto simp: ngx_mail_read_command_def assms(1))
    next
      case False
      with Recv_again assms show ?thesis
        by (auto simp: ngx_mail_read_command_def pop3_read_def same_credentials_def split: if_splits)
    qed
  qed
qed

lemma pop3_inv_reset: "pop3_inv 0 (pop3_sw_start, s\<lparr>m_args := []\<rparr>) \<longleftrightarrow> m_arg_start s = None"
  by (simp add: pop3_inv.simps args_below_def)

text \<open>What the handler leaves after a command that was carried out.\<close>

lemma pop3_answer_sane:
  assumes "pop3_kept S rc T" and "buf_wf (q_b S)" and "m_arg_start (q_s S) = None" and "\<not> q_quit S"
    and "q_handler S = H_auth_state" and "q_state S \<in> {pop3_sw_start, pop3_sw_argument}"
  shows "pop3_sane (pop3_answer rc T)"
proof -
  have k: "mail_frame (q_s S) (q_s T)" "q_b T = q_b S" "q_out T \<noteq> None"
      "rc \<in> {NGX_OK, NGX_DONE, NGX_ERROR, NGX_MAIL_PARSE_INVALID_COMMAND}"
      "rc \<noteq> NGX_OK \<longrightarrow> q_quit T = q_quit S"
      "rc = NGX_OK \<and> pop3_challenge (q_mail_state T) \<longrightarrow>
        m_command (q_s T) = NGX_POP3_AUTH \<and> q_state T = pop3_sw_argument"
    using assms(1) by (auto simp: pop3_kept_def)
  have st: "q_state T = pop3_sw_start \<or> q_state T = pop3_sw_argument"
    using assms(1,6) by (auto simp: pop3_kept_def)
  have arg: "m_arg_start (q_s T) = None" using k(1) assms(3) by (simp add: mail_frame_def)
  have wf: "buf_wf (b\<lparr>buf_pos := 0, buf_last := 0\<rparr>)" for b by (simp add: buf_wf_def)
  consider "rc = NGX_DONE" | "rc = NGX_ERROR" | "rc = NGX_MAIL_PARSE_INVALID_COMMAND" | "rc = NGX_OK"
    using k(4) by auto
  then show ?thesis
  proof cases
    case 1
    with k arg assms(2,4) wf show ?thesis
      by (auto simp: pop3_answer_def pop3_hand_over_def pop3_sane_def pop3_inv.simps args_below_def Let_def)
  next
    case 2
    with k assms(2) show ?thesis
      by (simp add: pop3_answer_def pop3_internal_error_def pop3_sane_def)
  next
    case 3
    with k arg wf show ?thesis
      by (auto simp: pop3_answer_def pop3_reset_def pop3_sane_def pop3_inv_reset pop3_challenge_def Let_def)
  next
    case 4
    with k arg wf st show ?thesis
      by (auto simp: pop3_answer_def pop3_reset_def pop3_sane_def pop3_inv.simps args_below_def
          pop3_answering_def Let_def)
  qed
qed

text \<open>The ways a call of the handler goes.\<close>

lemma pop3_auth_state_cases:
  assumes "pop3_sane S" and "q_handler S = H_auth_state"
  obtains (busy) "q_out S \<noteq> None" "ngx_mail_pop3_auth_state env conf lim ev S = Some (S\<lparr>q_blocked := True\<rparr>)"
  | (stays) rc fate quit st s b where
      "pop3_read (pop3_challenge (q_mail_state S)) (q_s S) rc fate quit st s b"
      "rc = NGX_AGAIN \<or> rc = NGX_ERROR" "q_out S = None"
      "ngx_mail_pop3_auth_state env conf lim ev S =
        Some (pop3_fate fate (S\<lparr>q_blocked := False, q_state := st, q_s := s, q_b := b, q_quit := quit\<rparr>))"
  | (invalid) fate quit st s b where
      "pop3_read (pop3_challenge (q_mail_state S)) (q_s S) NGX_MAIL_PARSE_INVALID_COMMAND fate quit st s b"
      "ngx_mail_pop3_auth_state env conf lim ev S = Some (pop3_answer NGX_MAIL_PARSE_INVALID_COMMAND
        (S\<lparr>q_blocked := False, q_state := st, q_s := s, q_b := b, q_quit := quit, q_out := Some pop3_ok\<rparr>))"
  | (carried_out) st s b T rc U where
      "T = S\<lparr>q_blocked := False, q_state := st, q_s := s, q_b := b, q_quit := False, q_out := Some pop3_ok\<rparr>"
      "same_credentials (q_s S) s" "buf_wf b" "m_arg_start s = None" "st \<in> {pop3_sw_start, pop3_sw_argument}"
      "pop3_dispatch env conf (q_mail_state T) T = Some (rc, U)" "pop3_kept T rc U"
      "ngx_mail_pop3_auth_state env conf lim ev S = Some (pop3_answer rc U)"
proof (cases "q_out S = None")
  case False
  then have "ngx_mail_pop3_auth_state env conf lim ev S = Some (S\<lparr>q_blocked := True\<rparr>)"
    by (simp add: ngx_mail_pop3_auth_state_def)
  with False show ?thesis by (rule busy)
next
  case True
  with assms have S: "buf_wf (q_b S)" "q_quit S = False" "pop3_inv (buf_pos (q_b S)) (q_state S, q_s S)"
      "pop3_challenge (q_mail_state S) \<longrightarrow> pop3_answering (q_state S, q_s S)"
    by (auto simp: pop3_sane_def)
  obtain rc fate quit st s b where r: "ngx_mail_read_command (ngx_mail_pop3_parse_command (env_toupper env) (env_room env))
      lim ev (q_state S) (q_s S) (q_b S) = (rc, fate, quit, st, s, b)"
    by (metis surj_pair)
  note read = pop3_read_result [OF S(1,3,4) r]
  let ?S = "S\<lparr>q_blocked := False, q_state := st, q_s := s, q_b := b, q_quit := quit\<rparr>"
  let ?T = "?S\<lparr>q_out := Some pop3_ok\<rparr>"
  have eq: "ngx_mail_pop3_auth_state env conf lim ev S =
      (if rc = NGX_AGAIN \<or> rc = NGX_ERROR then Some (pop3_fate fate ?S)
       else if rc = NGX_OK
       then map_option (\<lambda>(rc, S). pop3_answer rc S) (pop3_dispatch env conf (q_mail_state ?T) ?T)
       else Some (pop3_answer rc ?T))"
    by (simp add: ngx_mail_pop3_auth_state_def True r Let_def S(2))
  consider "rc = NGX_AGAIN \<or> rc = NGX_ERROR" | "rc = NGX_MAIL_PARSE_INVALID_COMMAND" | "rc = NGX_OK"
    using read by (auto simp: pop3_read_def)
  then show ?thesis
  proof cases
    case 1
    with eq show ?thesis by (intro stays [OF read 1 True]) simp
  next
    case 2
    show ?thesis by (rule invalid [OF read [unfolded 2]]) (simp add: eq 2)
  next
    case 3
    then have ok: "m_arg_start s = None" "args_inside (buf_mem b) s" "quit = False" "buf_wf b"
        "st = (if m_command s = NGX_POP3_AUTH then pop3_sw_argument else pop3_sw_start)"
        "pop3_challenge (q_mail_state S) \<longrightarrow> m_command s = NGX_POP3_AUTH \<and> m_args s \<noteq> []"
        "same_credentials (q_s S) s"
      using read by (auto simp: pop3_read_def)
    then have "pop3_parsed_session ?T" by (auto simp: pop3_parsed_session_def)
    from pop3_dispatch_kept [OF this, of env conf] obtain rc2 U where
      U: "pop3_dispatch env conf (q_mail_state ?T) ?T = Some (rc2, U)" "pop3_kept ?T rc2 U" by blast
    have st: "st \<in> {pop3_sw_start, pop3_sw_argument}" using ok(5) by simp
    show ?thesis
      by (rule carried_out [OF _ ok(7,4,1) st U]) (use ok(3) U(1) in \<open>simp_all add: eq 3\<close>)
  qed
qed

lemma pop3_auth_state_sane:
  assumes "pop3_sane S" and "q_handler S = H_auth_state"
  shows "\<exists>T. ngx_mail_pop3_auth_state env conf lim ev S = Some T \<and> pop3_sane T"
  using assms
proof (cases rule: pop3_auth_state_cases [where env = env and conf = conf and lim = lim and ev = ev])
  case busy
  with assms show ?thesis by (auto simp: pop3_sane_def)
next
  case (stays rc fate quit st s b)
  with assms show ?thesis
    by (cases fate) (auto simp: pop3_read_def pop3_sane_def pop3_internal_error_def)
next
  case (invalid fate quit st s b)
  have wf: "buf_wf (b\<lparr>buf_pos := 0, buf_last := 0\<rparr>)" by (simp add: buf_wf_def)
  from invalid wf show ?thesis
    by (auto simp: pop3_read_def pop3_sane_def pop3_answer_def pop3_reset_def
        pop3_inv_reset pop3_challenge_def Let_def)
next
  case (carried_out st s b T rc U)
  have "pop3_sane (pop3_answer rc U)"
    by (rule pop3_answer_sane [OF carried_out(7)]) (use carried_out assms(2) in auto)
  with carried_out(8) show ?thesis by simp
qed

lemma pop3_inv_auth_method: "pop3_inv n (st, s\<lparr>m_auth_method := k\<rparr>) \<longleftrightarrow> pop3_inv n (st, s)"
  by (simp add: pop3_inv.simps args_below_def split: pop3_state.split)

lemma pop3_move_sane:
  assumes "pop3_move env conf lim S S'" and "pop3_sane S"
  shows "pop3_sane S'"
  using assms(1)
proof cases
  case (read ev)
  with pop3_auth_state_sane [OF assms(2) read(1), of env conf lim ev] show ?thesis by auto
next
  case refused
  with assms(2) show ?thesis by (auto simp: pop3_sane_def pop3_challenge_def pop3_inv_auth_method pop3_handler_defs)
qed (use assms(2) in \<open>auto simp: pop3_sane_def pop3_challenge_def pop3_handler_defs\<close>)

lemma pop3_init_sane: "pop3_sane (pop3_greeted a n tls)"
  by (simp add: pop3_sane_def pop3_greeted_def buf_wf_def pop3_inv.simps args_below_def
      new_session_def)

lemma pop3_reach_sane: "pop3_reach env conf lim S0 S \<Longrightarrow> pop3_sane S0 \<Longrightarrow> pop3_sane S"
  by (induction rule: pop3_reach.induct) (auto intro: pop3_move_sane)

text \<open>The commands and the parser never store credentials before the connection is encrypted.\<close>

lemma pop3_answer_clear:
  assumes "pop3_clear conf S" and "q_handler S \<noteq> H_auth_http" and "rc \<noteq> NGX_DONE \<or> \<not> (cf_starttls conf = STARTTLS_ONLY \<and> \<not> q_tls S)"
  shows "pop3_clear conf (pop3_answer rc S)"
proof (cases "rc = NGX_DONE")
  case True
  with assms show ?thesis
    by (simp add: pop3_answer_def pop3_hand_over_def pop3_clear_def Let_def)
next
  case False
  with assms(1,2) show ?thesis
    by (simp add: pop3_answer_def pop3_internal_error_def pop3_reset_def pop3_clear_def Let_def)
qed

lemma pop3_auth_state_clear:
  assumes "pop3_clear conf S" and "pop3_sane S" and "q_handler S = H_auth_state"
    and "ngx_mail_pop3_auth_state env conf lim ev S = Some S'"
  shows "pop3_clear conf S'"
  using assms(2,3)
proof (cases rule: pop3_auth_state_cases [where env = env and conf = conf and lim = lim and ev = ev])
  case busy
  with assms show ?thesis by (auto simp: pop3_clear_def)
next
  case (stays rc fate quit st s b)
  let ?T = "S\<lparr>q_blocked := False, q_state := st, q_s := s, q_b := b, q_quit := quit\<rparr>"
  have "same_credentials (q_s S) s" using stays(1) by (simp add: pop3_read_def)
  then have "pop3_clear conf ?T" using assms(1) by (simp add: pop3_clear_def same_credentials_def)
  moreover have "S' = pop3_fate fate ?T" using assms(4) stays(4) by simp
  ultimately show ?thesis
    by (cases fate) (simp_all add: pop3_clear_def pop3_internal_error_def)
next
  case (invalid fate quit st s b)
  let ?T = "S\<lparr>q_blocked := False, q_state := st, q_s := s, q_b := b, q_quit := quit, q_out := Some pop3_ok\<rparr>"
  have "same_credentials (q_s S) s" using invalid(1) by (simp add: pop3_read_def)
  then have "pop3_clear conf ?T" using assms(1) by (simp add: pop3_clear_def same_credentials_def)
  from pop3_answer_clear [OF this, of NGX_MAIL_PARSE_INVALID_COMMAND] show ?thesis
    using assms(3,4) invalid(2) by simp
next
  case (carried_out st s b T rc U)
  have S': "S' = pop3_answer rc U" using assms(4) carried_out(8) by simp
  have keep: "q_tls U = q_tls S" "q_tls T = q_tls S" "q_handler U \<noteq> H_auth_http"
    using carried_out(1,7) assms(3) by (auto simp: pop3_kept_def)
  have T: "pop3_clear conf T"
    using assms(1) carried_out(2) unfolding carried_out(1) by (simp add: pop3_clear_def same_credentials_def)
  have "pop3_clear conf U \<and> (rc \<noteq> NGX_DONE \<or> \<not> (cf_starttls conf = STARTTLS_ONLY \<and> \<not> q_tls U))"
  proof (cases "cf_starttls conf = STARTTLS_ONLY \<and> \<not> q_tls T")
    case True
    then have "rc \<noteq> NGX_DONE \<and> q_mail_state U = ngx_pop3_start \<and> q_s U = q_s T"
      using T by (intro pop3_dispatch_only [OF _ _ _ carried_out(6)]) (auto simp: pop3_clear_def)
    then show ?thesis using T keep True by (auto simp: pop3_clear_def)
  next
    case False
    then show ?thesis using keep by (auto simp: pop3_clear_def)
  qed
  then show ?thesis unfolding S' using keep(3) by (intro pop3_answer_clear) auto
qed






lemma pop3_move_clear:
  assumes "pop3_move env conf lim S S'" and "pop3_sane S" and "pop3_clear conf S"
  shows "pop3_clear conf S'"
  using assms(1)
proof cases
  case (read ev)
  show ?thesis by (rule pop3_auth_state_clear [OF assms(3,2) read(1,3)])
qed (use assms(3) in \<open>auto simp: pop3_clear_def pop3_handler_defs\<close>)

lemma pop3_init_clear: "pop3_clear conf (pop3_greeted a n tls)"
  by (simp add: pop3_clear_def pop3_greeted_def new_session_def)

lemma pop3_reach_clear:
  "pop3_reach env conf lim S0 S \<Longrightarrow> pop3_sane S0 \<Longrightarrow> pop3_clear conf S0 \<Longrightarrow> pop3_clear conf S"
  by (induction rule: pop3_reach.induct) (auto intro: pop3_move_clear dest: pop3_reach_sane)

subsection \<open>What holds in every session\<close>

text \<open>A session that has sent its greeting and waits for a command.\<close>

definition pop3_waiting :: "u64 \<Rightarrow> nat \<Rightarrow> bool \<Rightarrow> pop3_session" where
  "pop3_waiting a n tls = (pop3_greeted a n tls)\<lparr>q_handler := H_auth_state, q_out := None\<rparr>"

lemma pop3_waiting_reach: "pop3_reach env conf lim (pop3_greeted a n tls) (pop3_waiting a n tls)"
proof -
  let ?S = "ngx_mail_pop3_init_protocol True (pop3_greeted a n tls)"
  have 1: "pop3_move env conf lim (pop3_greeted a n tls) ?S"
    by (rule pop3_move.init) (simp add: pop3_greeted_def)
  have 2: "pop3_move env conf lim ?S (pop3_waiting a n tls)"
    using pop3_move.sent [of ?S env conf lim] by (simp add: pop3_waiting_def pop3_greeted_def pop3_handler_defs)
  show ?thesis by (rule pop3_reach.move [OF pop3_reach.move [OF pop3_reach.start 1] 2])
qed

text \<open>
  C21: Whatever a client sends, in whatever pieces, and whatever the authentication server answers:
  in every reachable state in which the POP3 handler waits for a command, the handler carries out
  the next read event. No command looks at an argument the parser did not produce (the model's
  \<open>None\<close>: \<open>s->args.elts[n]\<close> beyond the array, or bytes outside the buffer), also not when a
  challenge of AUTH is answered by an empty line.
\<close>

theorem pop3_args_exist:
  assumes "pop3_reach env conf lim (pop3_greeted a n tls) S" and "q_handler S = H_auth_state"
  shows "ngx_mail_pop3_auth_state env conf lim ev S \<noteq> None"
  using pop3_auth_state_sane [OF pop3_reach_sane [OF assms(1) pop3_init_sane] assms(2), of env conf lim ev] by auto

theorem pop3_args_exist_witness:
  "ngx_mail_pop3_auth_state roomy_env \<lparr>cf_starttls = STARTTLS_OFF, cf_auth_methods = 0\<rparr> 128
     (Recv (bytes ''USER joe'' @ [CR, LF])) (pop3_waiting 128 32 False) \<noteq> None"
  by (rule pop3_args_exist [OF pop3_waiting_reach]) (simp add: pop3_waiting_def)

text \<open>
  C19: With \<open>starttls only\<close> no credentials travel in the clear: in every reachable state of a POP3
  session whose connection is not encrypted, no login and no password have been stored and the
  session has not been handed to the authentication server.
\<close>

theorem pop3_no_credentials_in_clear:
  assumes "pop3_reach env conf lim (pop3_greeted a n tls) S"
    and "cf_starttls conf = STARTTLS_ONLY" and "\<not> q_tls S"
  shows "q_handler S \<noteq> H_auth_http \<and> m_login (q_s S) = no_hs \<and> m_passwd (q_s S) = no_hs"
  using pop3_reach_clear [OF assms(1) pop3_init_sane pop3_init_clear] assms(2,3) by (simp add: pop3_clear_def)

theorem pop3_no_credentials_in_clear_witness:
  "q_handler (pop3_waiting 128 32 False) \<noteq> H_auth_http \<and> m_login (q_s (pop3_waiting 128 32 False)) = no_hs \<and>
     m_passwd (q_s (pop3_waiting 128 32 False)) = no_hs"
  by (rule pop3_no_credentials_in_clear [OF pop3_waiting_reach, of "\<lparr>cf_starttls = STARTTLS_ONLY, cf_auth_methods = 0\<rparr>"])
    (simp_all add: pop3_waiting_def pop3_greeted_def)



end
