(* ===== verification/Mail_Imap.thy ===== *)
theory Mail_Imap
  imports Mail_Session
begin

text \<open>
  \<open>ngx_mail_imap_parse_command\<close> (\<open>src/mail/ngx_mail_parse.c\<close>): one command of an IMAP client,
  "tag COMMAND arg ... CRLF". An argument is a word, a quoted string, in which a backslash
  escapes the next byte, or a literal "{length}CRLF bytes", for which the parser returns
  \<open>NGX_IMAP_NEXT\<close> so that the client is told to go on, unless it is written "{length+}".
  The build is one with \<open>NGX_MAIL_SSL\<close>.
\<close>

subsection \<open>The commands\<close>

definition NGX_IMAP_LOGIN :: u64 where "NGX_IMAP_LOGIN = 1"
definition NGX_IMAP_LOGOUT :: u64 where "NGX_IMAP_LOGOUT = 2"
definition NGX_IMAP_CAPABILITY :: u64 where "NGX_IMAP_CAPABILITY = 3"
definition NGX_IMAP_NOOP :: u64 where "NGX_IMAP_NOOP = 4"
definition NGX_IMAP_STARTTLS :: u64 where "NGX_IMAP_STARTTLS = 5"
definition NGX_IMAP_AUTHENTICATE :: u64 where "NGX_IMAP_AUTHENTICATE = 7"


text \<open>The comparison of the \<open>p - c\<close> bytes at \<open>c\<close> with the names; \<open>None\<close> is \<open>goto invalid\<close>.\<close>

definition imap_command :: "memory \<Rightarrow> ptr \<Rightarrow> ptr \<Rightarrow> u64 option" where
  "imap_command mem c p =
    (if p - c = 4
     then (if either_case (seg mem c (c + 4)) ''NOOP'' then Some NGX_IMAP_NOOP else None)
     else if p - c = 5
     then (if either_case (seg mem c (c + 5)) ''LOGIN'' then Some NGX_IMAP_LOGIN else None)
     else if p - c = 6
     then (if either_case (seg mem c (c + 6)) ''LOGOUT'' then Some NGX_IMAP_LOGOUT else None)
     else if p - c = 8
     then (if either_case (seg mem c (c + 8)) ''STARTTLS'' then Some NGX_IMAP_STARTTLS else None)
     else if p - c = 10
     then (if either_case (seg mem c (c + 10)) ''CAPABILITY'' then Some NGX_IMAP_CAPABILITY else None)
     else if p - c = 12
     then (if either_case (seg mem c (c + 12)) ''AUTHENTICATE'' then Some NGX_IMAP_AUTHENTICATE else None)
     else None)"

subsection \<open>The loop\<close>

datatype imap_state =
    imap_sw_start | imap_sw_spaces_before_command | imap_sw_command
  | imap_sw_spaces_before_argument | imap_sw_argument | imap_sw_backslash | imap_sw_literal
  | imap_sw_no_sync_literal_argument | imap_sw_start_literal_argument | imap_sw_literal_argument
  | imap_sw_end_literal_argument | imap_sw_almost_done

type_synonym imap_saved = "imap_state \<times> ngx_mail_session_t"
type_synonym imap_result = "(imap_saved, mail_exit) outcome"

abbreviation DQUOTE :: u8 where "DQUOTE \<equiv> 34"
abbreviation BACKSLASH :: u8 where "BACKSLASH \<equiv> 92"
abbreviation LBRACE :: u8 where "LBRACE \<equiv> 123"
abbreviation RBRACE :: u8 where "RBRACE \<equiv> 125"

definition imap_start :: "ptr \<Rightarrow> u8 \<Rightarrow> ngx_mail_session_t \<Rightarrow> imap_result" where
  "imap_start p ch s =
    (if ch = SP
     then Next (imap_sw_spaces_before_command, s\<lparr>m_tag := \<lparr>ms_data = Some 0, ms_len = of_nat p + 1\<rparr>\<rparr>)
     else if ch = CR \<or> ch = LF then Stop M_refuse (imap_sw_start, s)
     else Next (imap_sw_start, s))"

definition imap_spaces_before_command :: "ptr \<Rightarrow> u8 \<Rightarrow> ngx_mail_session_t \<Rightarrow> imap_result" where
  "imap_spaces_before_command p ch s =
    (if ch = SP then Next (imap_sw_spaces_before_command, s)
     else if ch = CR \<or> ch = LF then Stop M_refuse (imap_sw_spaces_before_command, s)
     else Next (imap_sw_command, s\<lparr>m_cmd_start := Some p\<rparr>))"

definition imap_in_command :: "memory \<Rightarrow> ptr \<Rightarrow> u8 \<Rightarrow> ngx_mail_session_t \<Rightarrow> imap_result" where
  "imap_in_command mem p ch s =
    (if ch = SP \<or> ch = CR \<or> ch = LF
     then (case imap_command mem (the (m_cmd_start s)) p of
             None \<Rightarrow> Stop M_invalid (imap_sw_command, s)
           | Some code \<Rightarrow>
               let s = s\<lparr>m_command := code\<rparr> in
               if ch = SP then Next (imap_sw_spaces_before_argument, s)
               else if ch = CR then Next (imap_sw_almost_done, s)
               else Stop M_done (imap_sw_command, s))
     else if \<not> is_letter ch then Stop M_invalid (imap_sw_command, s)
     else Next (imap_sw_command, s))"

definition imap_spaces :: "ptr \<Rightarrow> u8 \<Rightarrow> ngx_mail_session_t \<Rightarrow> imap_result" where
  "imap_spaces p ch s =
    (if ch = SP then Next (imap_sw_spaces_before_argument, s)
     else if ch = CR then Next (imap_sw_almost_done, s\<lparr>m_arg_end := Some p\<rparr>)
     else if ch = LF then Stop M_done (imap_sw_spaces_before_argument, s\<lparr>m_arg_end := Some p\<rparr>)
     else if \<not> length (m_args s) \<le> 2 then Stop M_invalid (imap_sw_spaces_before_argument, s)
     else if ch = DQUOTE then Next (imap_sw_argument, s\<lparr>m_quoted := True, m_arg_start := Some (p + 1)\<rparr>)
     else if ch = LBRACE then Next (imap_sw_literal, s)
     else Next (imap_sw_argument, s\<lparr>m_arg_start := Some p\<rparr>))"

text \<open>
  The closing quote falls through to the end of a word, after \<open>quoted\<close> is reset; a line break
  ends the argument even inside quotes, and leaves \<open>quoted\<close> set.
\<close>

definition imap_close :: "(nat \<Rightarrow> bool) \<Rightarrow> ptr \<Rightarrow> u8 \<Rightarrow> ngx_mail_session_t \<Rightarrow> imap_result" where
  "imap_close room p ch s =
    (case push_arg room (Some p) s of
       None \<Rightarrow> Stop M_error (imap_sw_argument, s)
     | Some s \<Rightarrow>
         if ch = DQUOTE \<or> ch = SP then Next (imap_sw_spaces_before_argument, s)
         else if ch = CR then Next (imap_sw_almost_done, s)
         else Stop M_done (imap_sw_argument, s))"

definition imap_argument :: "(nat \<Rightarrow> bool) \<Rightarrow> ptr \<Rightarrow> u8 \<Rightarrow> ngx_mail_session_t \<Rightarrow> imap_result" where
  "imap_argument room p ch s =
    (if ch = SP \<and> m_quoted s then Next (imap_sw_argument, s)
     else if ch = DQUOTE
     then (if \<not> m_quoted s then Next (imap_sw_argument, s)
           else imap_close room p ch (s\<lparr>m_quoted := False\<rparr>))
     else if ch = SP \<or> ch = CR \<or> ch = LF then imap_close room p ch s
     else if ch = BACKSLASH
     then (if m_quoted s then Next (imap_sw_backslash, s\<lparr>m_backslash := True\<rparr>)
           else Next (imap_sw_argument, s))
     else Next (imap_sw_argument, s))"

definition imap_in_backslash :: "u8 \<Rightarrow> ngx_mail_session_t \<Rightarrow> imap_result" where
  "imap_in_backslash ch s =
    (if ch = CR \<or> ch = LF then Stop M_invalid (imap_sw_backslash, s) else Next (imap_sw_argument, s))"

definition imap_literal :: "u8 \<Rightarrow> ngx_mail_session_t \<Rightarrow> imap_result" where
  "imap_literal ch s =
    (if chr CHR ''0'' \<le> ch \<and> ch \<le> chr CHR ''9''
     then Next (imap_sw_literal, s\<lparr>m_literal_len := m_literal_len s * 10 + (ucast ch - 48)\<rparr>)
     else if ch = RBRACE then Next (imap_sw_start_literal_argument, s)
     else if ch = chr CHR ''+'' then Next (imap_sw_no_sync_literal_argument, s)
     else Stop M_invalid (imap_sw_literal, s))"

definition imap_no_sync :: "u8 \<Rightarrow> ngx_mail_session_t \<Rightarrow> imap_result" where
  "imap_no_sync ch s =
    (if ch = RBRACE then Next (imap_sw_start_literal_argument, s\<lparr>m_no_sync_literal := True\<rparr>)
     else Stop M_invalid (imap_sw_no_sync_literal_argument, s))"

definition imap_start_literal :: "ptr \<Rightarrow> u8 \<Rightarrow> ngx_mail_session_t \<Rightarrow> imap_result" where
  "imap_start_literal p ch s =
    (if ch = CR then Next (imap_sw_start_literal_argument, s)
     else if ch = LF
     then (let s = s\<lparr>m_arg_start := Some (p + 1)\<rparr> in
           if \<not> m_no_sync_literal s then Stop M_next (imap_sw_literal_argument, s)
           else Next (imap_sw_literal_argument, s\<lparr>m_no_sync_literal := False\<rparr>))
     else Stop M_invalid (imap_sw_start_literal_argument, s))"

text \<open>\<open>if (s->literal_len && --s->literal_len) break;\<close>, then the argument is closed after this byte.\<close>

definition imap_literal_argument :: "(nat \<Rightarrow> bool) \<Rightarrow> ptr \<Rightarrow> ngx_mail_session_t \<Rightarrow> imap_result" where
  "imap_literal_argument room p s =
    (let s = (if m_literal_len s \<noteq> 0 then s\<lparr>m_literal_len := m_literal_len s - 1\<rparr> else s) in
     if m_literal_len s \<noteq> 0 then Next (imap_sw_literal_argument, s)
     else (case push_arg room (Some (p + 1)) s of
             None \<Rightarrow> Stop M_error (imap_sw_literal_argument, s)
           | Some s \<Rightarrow> Next (imap_sw_end_literal_argument, s)))"

definition imap_end_literal :: "u8 \<Rightarrow> ngx_mail_session_t \<Rightarrow> imap_result" where
  "imap_end_literal ch s =
    (if ch = LBRACE
     then (if length (m_args s) \<le> 2 then Next (imap_sw_literal, s) else Stop M_invalid (imap_sw_end_literal_argument, s))
     else if ch = CR then Next (imap_sw_almost_done, s)
     else if ch = LF then Stop M_done (imap_sw_end_literal_argument, s)
     else Next (imap_sw_spaces_before_argument, s))"

definition imap_almost_done :: "u8 \<Rightarrow> ngx_mail_session_t \<Rightarrow> imap_result" where
  "imap_almost_done ch s =
    (if ch = LF then Stop M_done (imap_sw_almost_done, s) else Stop M_invalid (imap_sw_almost_done, s))"

fun imap_case :: "(nat \<Rightarrow> bool) \<Rightarrow> memory \<Rightarrow> imap_state \<Rightarrow> ptr \<Rightarrow> u8 \<Rightarrow> ngx_mail_session_t \<Rightarrow> imap_result" where
  "imap_case room mem imap_sw_start p ch s = imap_start p ch s"
| "imap_case room mem imap_sw_spaces_before_command p ch s = imap_spaces_before_command p ch s"
| "imap_case room mem imap_sw_command p ch s = imap_in_command mem p ch s"
| "imap_case room mem imap_sw_spaces_before_argument p ch s = imap_spaces p ch s"
| "imap_case room mem imap_sw_argument p ch s = imap_argument room p ch s"
| "imap_case room mem imap_sw_backslash p ch s = imap_in_backslash ch s"
| "imap_case room mem imap_sw_literal p ch s = imap_literal ch s"
| "imap_case room mem imap_sw_no_sync_literal_argument p ch s = imap_no_sync ch s"
| "imap_case room mem imap_sw_start_literal_argument p ch s = imap_start_literal p ch s"
| "imap_case room mem imap_sw_literal_argument p ch s = imap_literal_argument room p s"
| "imap_case room mem imap_sw_end_literal_argument p ch s = imap_end_literal ch s"
| "imap_case room mem imap_sw_almost_done p ch s = imap_almost_done ch s"

text \<open>
  \<open>s->buffer->pos\<close> changes inside the loop: it is moved behind the line that announces a
  literal, and it stays there if the command turns out to be invalid. It is kept beside the state.
\<close>

type_synonym imap_loc = "(imap_state \<times> ptr) \<times> ngx_mail_session_t"

definition imap_move :: "imap_state \<Rightarrow> ptr \<Rightarrow> u8 \<Rightarrow> ptr \<Rightarrow> ptr" where
  "imap_move st p ch pos = (if st = imap_sw_start_literal_argument \<and> ch = LF then p + 1 else pos)"

fun imap_at :: "ptr \<Rightarrow> imap_result \<Rightarrow> (imap_loc, mail_exit) outcome" where
  "imap_at pos (Next (st, s)) = Next ((st, pos), s)"
| "imap_at pos (Stop r (st, s)) = Stop r ((st, pos), s)"

definition imap_byte :: "(nat \<Rightarrow> bool) \<Rightarrow> memory \<Rightarrow> ptr \<Rightarrow> u8 \<Rightarrow> imap_loc \<Rightarrow> (imap_loc, mail_exit) outcome" where
  "imap_byte room mem p ch x =
    imap_at (imap_move (fst (fst x)) p ch (snd (fst x))) (imap_case room mem (fst (fst x)) p ch (snd x))"

definition imap_step :: "(nat \<Rightarrow> bool) \<Rightarrow> memory \<Rightarrow> ptr \<Rightarrow> imap_loc \<Rightarrow> (imap_loc, mail_exit) outcome" where
  "imap_step room mem p x = imap_byte room mem p (mem ! p) x"

text \<open>The code at the label \<open>done\<close>; \<open>None\<close> is \<open>return NGX_ERROR\<close>.\<close>

definition imap_finish :: "(nat \<Rightarrow> bool) \<Rightarrow> ngx_mail_session_t \<Rightarrow> (imap_state \<times> ngx_mail_session_t) option" where
  "imap_finish room s =
    (case (if m_arg_start s \<noteq> None
           then map_option (\<lambda>s. s\<lparr>m_cmd_start := None, m_quoted := False, m_no_sync_literal := False, m_literal_len := 0\<rparr>)
                  (push_arg room (m_arg_end s) s)
           else Some s) of
       None \<Rightarrow> None
     | Some s \<Rightarrow> Some (if m_command s \<noteq> NGX_IMAP_AUTHENTICATE then imap_sw_start else imap_sw_argument, s))"

definition imap_invalid :: "ngx_mail_session_t \<Rightarrow> ngx_mail_session_t" where
  "imap_invalid s = s\<lparr>m_quoted := False, m_no_sync_literal := False, m_literal_len := 0\<rparr>"

definition ngx_mail_imap_parse_command ::
  "(nat \<Rightarrow> bool) \<Rightarrow> imap_state \<Rightarrow> ngx_mail_session_t \<Rightarrow> ngx_buf_t
   \<Rightarrow> ngx_rc \<times> imap_state \<times> ngx_mail_session_t \<times> ngx_buf_t" where
  "ngx_mail_imap_parse_command room st s b =
    (case byte_loop (imap_step room) (buf_mem b) (buf_pos b) (buf_last b) ((st, buf_pos b), s) of
       (p, Next ((st', _), s')) \<Rightarrow> (NGX_AGAIN, st', s', b\<lparr>buf_pos := p\<rparr>)
     | (p, Stop M_done (_, s')) \<Rightarrow>
         (case imap_finish room s' of
            None \<Rightarrow> (NGX_ERROR, st, s', b\<lparr>buf_pos := p + 1\<rparr>)
          | Some (st', s'') \<Rightarrow> (NGX_OK, st', s'', b\<lparr>buf_pos := p + 1\<rparr>))
     | (p, Stop M_next ((_, pos), s')) \<Rightarrow> (NGX_IMAP_NEXT, imap_sw_literal_argument, s', b\<lparr>buf_pos := pos\<rparr>)
     | (p, Stop M_invalid ((_, pos), s')) \<Rightarrow>
         (NGX_MAIL_PARSE_INVALID_COMMAND, imap_sw_start, imap_invalid s', b\<lparr>buf_pos := pos\<rparr>)
     | (p, Stop M_refuse ((_, pos), s')) \<Rightarrow>
         (NGX_MAIL_PARSE_INVALID_COMMAND, imap_sw_start, s', b\<lparr>buf_pos := pos\<rparr>)
     | (p, Stop M_error ((_, pos), s')) \<Rightarrow> (NGX_ERROR, st, s', b\<lparr>buf_pos := pos\<rparr>))"

lemmas imap_steps =
  imap_start_def imap_spaces_before_command_def imap_in_command_def imap_spaces_def imap_close_def
  imap_argument_def imap_in_backslash_def imap_literal_def imap_no_sync_def imap_start_literal_def
  imap_literal_argument_def imap_end_literal_def imap_almost_done_def

subsection \<open>The contract of the loop\<close>

definition imap_open :: "imap_state \<Rightarrow> bool" where
  "imap_open st \<longleftrightarrow> st = imap_sw_argument \<or> st = imap_sw_backslash \<or> st = imap_sw_literal_argument"

fun imap_inv :: "ptr \<Rightarrow> imap_loc \<Rightarrow> bool" where
  "imap_inv p ((st, pos), s) \<longleftrightarrow> args_below p (m_args s) \<and>
    (st = imap_sw_command \<longrightarrow> (\<exists>c. m_cmd_start s = Some c \<and> c \<le> p)) \<and>
    (imap_open st \<longrightarrow> (\<exists>a. m_arg_start s = Some a \<and> a \<le> p))"

definition imap_post :: "ptr \<Rightarrow> mail_exit \<Rightarrow> imap_loc \<Rightarrow> bool" where
  "imap_post p x y \<longleftrightarrow> args_below p (m_args (snd y)) \<and>
    (x = M_next \<longrightarrow> snd (fst y) = p + 1 \<and> fst (fst y) = imap_sw_literal_argument)"

lemma imap_command_local:
  assumes "c \<le> p" and "p < length mem"
  shows "imap_command (mem @ rest) c p = imap_command mem c p"
proof -
  have seg: "seg (mem @ rest) c (c + n) = seg mem c (c + n)" if "p - c = n" for n
    using that assms by (simp add: seg_def)
  show ?thesis by (simp add: imap_command_def seg)
qed

lemma imap_step_local:
  assumes "imap_inv p x" and "p < length mem"
  shows "imap_step room (mem @ rest) p x = imap_step room mem p x"
proof -
  obtain st pos s where x: "x = ((st, pos), s)" by (metis surj_pair)
  with assms show ?thesis
    by (cases st) (auto simp: imap_step_def imap_byte_def nth_append imap_in_command_def imap_command_local)
qed

lemma imap_step_Next:
  "imap_step room mem p ((st, pos), s) = Next x \<longleftrightarrow>
    (\<exists>st' s'. imap_case room mem st p (mem ! p) s = Next (st', s') \<and>
       x = ((st', imap_move st p (mem ! p) pos), s'))"
  by (cases "imap_case room mem st p (mem ! p) s") (auto simp: imap_step_def imap_byte_def)

lemma imap_step_Stop:
  "imap_step room mem p ((st, pos), s) = Stop r x \<longleftrightarrow>
    (\<exists>st' s'. imap_case room mem st p (mem ! p) s = Stop r (st', s') \<and>
       x = ((st', imap_move st p (mem ! p) pos), s'))"
  by (cases "imap_case room mem st p (mem ! p) s") (auto simp: imap_step_def imap_byte_def)

lemma imap_step_inv:
  assumes "imap_inv p x" and "imap_step room mem p x = Next x'"
  shows "imap_inv (Suc p) x'"
proof -
  obtain st pos s where x: "x = ((st, pos), s)" by (metis surj_pair)
  obtain st' s' where c: "imap_case room mem st p (mem ! p) s = Next (st', s')"
      "x' = ((st', imap_move st p (mem ! p) pos), s')"
    using assms(2) x by (auto simp: imap_step_Next)
  have a: "args_below p (m_args s)" "args_below (Suc p) (m_args s)"
    using assms(1) x args_below_Suc by auto
  show ?thesis
  proof (cases "imap_open st")
    case True
    then obtain d where d: "m_arg_start s = Some d" "d \<le> p" using assms(1) x by auto
    have push: "args_below (Suc p) (m_args s2)"
      if "push_arg room (Some q) s1 = Some s2" "q = p \<or> q = Suc p" "m_args s1 = m_args s" "m_arg_start s1 = Some d"
      for q s1 s2
    proof (cases "q = p")
      case True
      with that a d show ?thesis
        using args_below_push(1) [of room p s1 s2 d] args_below_Suc by simp
    next
      case False
      with that a d show ?thesis
        using args_below_push(1) [of room "Suc p" s1 s2 d] by simp
    qed
    show ?thesis
      using True c a d
      by (auto simp: imap_open_def imap_argument_def imap_close_def imap_in_backslash_def
          imap_literal_argument_def Let_def split: option.splits if_splits dest!: push)
  next
    case False
    with assms x a c show ?thesis
      by (cases st) (auto simp: imap_steps imap_open_def Let_def split: option.splits if_splits)
  qed
qed


lemma imap_step_post:
  assumes "imap_inv p x" and "imap_step room mem p x = Stop r x'"
  shows "imap_post p r x'"
proof -
  obtain st pos s where x: "x = ((st, pos), s)" by (metis surj_pair)
  obtain st' s' where c: "imap_case room mem st p (mem ! p) s = Stop r (st', s')"
      "x' = ((st', imap_move st p (mem ! p) pos), s')"
    using assms(2) x by (auto simp: imap_step_Stop)
  have a: "args_below p (m_args s)" using assms(1) x by simp
  show ?thesis
  proof (cases "st = imap_sw_argument")
    case True
    then obtain d where d: "m_arg_start s = Some d" "d \<le> p" using assms(1) x by (auto simp: imap_open_def)
    show ?thesis
      using True c a d args_below_push(1) [of room p _ _ d]
      by (auto simp: imap_argument_def imap_close_def imap_post_def split: option.splits if_splits)
  next
    case False
    with c a show ?thesis
      by (cases st) (auto simp: imap_steps imap_post_def imap_move_def Let_def split: option.splits if_splits)
  qed
qed

declare imap_inv.simps [simp del]

interpretation imap: byte_parser "imap_step room" imap_inv imap_post for room
  by unfold_locales (auto intro: imap_step_local imap_step_inv imap_step_post)

text \<open>\<open>s->buffer->pos\<close> is set anew in every call, so between calls it is forgotten.\<close>

definition imap_norm :: "imap_loc \<Rightarrow> imap_loc" where
  "imap_norm x = ((fst (fst x), 0), snd x)"

lemma imap_norm_step:
  "norm_step imap_norm (imap_step room) mem p (imap_norm x) = norm_step imap_norm (imap_step room) mem p x"
proof -
  obtain st pos s where x: "x = ((st, pos), s)" by (metis surj_pair)
  show ?thesis
    by (cases "imap_case room mem st p (mem ! p) s")
      (auto simp: x imap_norm_def norm_step_def imap_step_def imap_byte_def)
qed

lemma imap_inv_norm: "imap_inv p (imap_norm x) = imap_inv p x"
  by (cases x; cases "fst x") (simp add: imap_norm_def imap_inv.simps)

definition imap_call :: "(nat \<Rightarrow> bool) \<Rightarrow> imap_saved \<Rightarrow> ngx_buf_t \<Rightarrow> ngx_rc \<times> imap_saved \<times> ngx_buf_t" where
  "imap_call room x b = (case ngx_mail_imap_parse_command room (fst x) (snd x) b of
     (rc, st, s, b') \<Rightarrow> (rc, (st, s), b'))"

fun imap_stop_view :: "(nat \<Rightarrow> bool) \<Rightarrow> ptr \<Rightarrow> mail_exit \<Rightarrow> imap_loc \<Rightarrow> ngx_rc \<times> (imap_state \<times> ngx_mail_session_t \<times> ptr) option" where
  "imap_stop_view room p M_done (st, s) =
     (case imap_finish room s of None \<Rightarrow> (NGX_ERROR, None) | Some (st', s') \<Rightarrow> (NGX_OK, Some (st', s', p + 1)))"
| "imap_stop_view room p M_next (st, s) = (NGX_IMAP_NEXT, Some (imap_sw_literal_argument, s, p + 1))"
| "imap_stop_view room p M_error x = (NGX_ERROR, None)"
| "imap_stop_view room p _ x = (NGX_MAIL_PARSE_INVALID_COMMAND, None)"

lemma imap_next_pos:
  assumes "byte_loop (imap_step room) mem p lim x = (q, Stop M_next ((st, pos), s))"
  shows "pos = q + 1"
  using assms
proof (induction "lim - p" arbitrary: p x)
  case 0
  then show ?case by simp
next
  case (Suc n)
  then have p: "p < lim" by simp
  show ?case
  proof (cases "imap_step room mem p x")
    case (Next x')
    then have "byte_loop (imap_step room) mem (Suc p) lim x' = (q, Stop M_next ((st, pos), s))"
      using Suc.prems p by (simp add: byte_loop_Next)
    with Suc.hyps(2) show ?thesis by (intro Suc.hyps(1) [of "Suc p" x']) simp_all
  next
    case (Stop r x')
    then have *: "imap_step room mem p x = Stop M_next ((st, pos), s)" "q = p"
      using Suc.prems p by (simp_all add: byte_loop_Stop)
    obtain st0 pos0 s0 where x: "x = ((st0, pos0), s0)" by (metis surj_pair)
    from * show ?thesis unfolding x imap_step_Stop
      by (cases st0) (auto simp: imap_steps imap_move_def Let_def split: option.splits if_splits)
  qed
qed

lemma imap_norm_idem: "imap_norm (imap_norm x) = imap_norm x"
  by (simp add: imap_norm_def)

interpretation imapp: resumable_parser "norm_step imap_norm (imap_step room)"
    "\<lambda>p x. imap_inv p x \<and> imap_norm x = x" "\<lambda>p r x. args_below p (m_args (snd x))" "imap_call room"
    "\<lambda>x. ((fst x, 0), snd x)" "\<lambda>x. (fst (fst x), snd x)" mail_view "imap_stop_view room" for room
proof
  fix mem rest :: memory and p and x :: imap_loc
  assume "imap_inv p x \<and> imap_norm x = x" "p < length mem"
  then show "norm_step imap_norm (imap_step room) (mem @ rest) p x = norm_step imap_norm (imap_step room) mem p x"
    by (simp add: norm_step_def imap_step_local)
next
  fix mem :: memory and p and x x' :: imap_loc
  assume "imap_inv p x \<and> imap_norm x = x" "p < length mem" "norm_step imap_norm (imap_step room) mem p x = Next x'"
  then show "imap_inv (Suc p) x' \<and> imap_norm x' = x'"
    by (auto simp: norm_step_Next imap_inv_norm imap_norm_idem intro: imap_step_inv)
next
  fix mem :: memory and p r and x x' :: imap_loc
  assume "imap_inv p x \<and> imap_norm x = x" "p < length mem" "norm_step imap_norm (imap_step room) mem p x = Stop r x'"
  then show "args_below p (m_args (snd x'))"
    using imap_step_post [of p x room mem] by (fastforce simp: norm_step_Stop imap_norm_def imap_post_def)
next
  fix b :: ngx_buf_t and y :: imap_saved and p r x
  have n: "imap_norm ((fst y, buf_pos b), snd y) = ((fst y, 0), snd y)" by (simp add: imap_norm_def)
  note loop = norm_loop [of imap_norm "imap_step room", OF imap_norm_step, of "buf_mem b" "buf_pos b" "buf_last b"
      "((fst y, buf_pos b), snd y)", unfolded n]
  {
    assume "byte_loop (norm_step imap_norm (imap_step room)) (buf_mem b) (buf_pos b) (buf_last b)
        ((fst y, 0), snd y) = (p, Next x)"
    then show "imap_call room y b = (NGX_AGAIN, (fst (fst x), snd x), b\<lparr>buf_pos := p\<rparr>)"
      unfolding loop
      by (auto simp: imap_call_def ngx_mail_imap_parse_command_def imap_norm_def split: prod.splits outcome.splits)
  next
    assume "byte_loop (norm_step imap_norm (imap_step room)) (buf_mem b) (buf_pos b) (buf_last b)
        ((fst y, 0), snd y) = (p, Stop r x)"
    then obtain st pos s where l: "byte_loop (imap_step room) (buf_mem b) (buf_pos b) (buf_last b)
        ((fst y, buf_pos b), snd y) = (p, Stop r ((st, pos), s))" "x = ((st, 0), s)"
      unfolding loop by (auto simp: imap_norm_def split: prod.splits outcome.splits)
    show "fst (imap_call room y b) \<noteq> NGX_AGAIN \<and> mail_view (imap_call room y b) = imap_stop_view room p r x"
      using l imap_next_pos [of room "buf_mem b" "buf_pos b" "buf_last b" "((fst y, buf_pos b), snd y)" p st pos s]
      by (cases r)
        (auto simp: imap_call_def ngx_mail_imap_parse_command_def split: option.split)
  }
qed (auto simp: imap_norm_def)

subsection \<open>Arguments written out\<close>






















subsection \<open>Reading back a command\<close>




















end
