(* ===== verification/Mail_Smtp.thy ===== *)
theory Mail_Smtp
  imports Mail_Session
begin

text \<open>
  \<open>ngx_mail_smtp_parse_command\<close> (\<open>src/mail/ngx_mail_parse.c\<close>): one command line of an SMTP
  client, "COMMAND arg ... CRLF". A command that is not understood is skipped up to its line
  feed. The build is one with \<open>NGX_MAIL_SSL\<close>.
\<close>

subsection \<open>The commands\<close>

definition NGX_SMTP_HELO :: u64 where "NGX_SMTP_HELO = 1"
definition NGX_SMTP_EHLO :: u64 where "NGX_SMTP_EHLO = 2"
definition NGX_SMTP_AUTH :: u64 where "NGX_SMTP_AUTH = 3"
definition NGX_SMTP_QUIT :: u64 where "NGX_SMTP_QUIT = 4"
definition NGX_SMTP_NOOP :: u64 where "NGX_SMTP_NOOP = 5"
definition NGX_SMTP_MAIL :: u64 where "NGX_SMTP_MAIL = 6"
definition NGX_SMTP_RSET :: u64 where "NGX_SMTP_RSET = 7"
definition NGX_SMTP_RCPT :: u64 where "NGX_SMTP_RCPT = 8"
definition NGX_SMTP_VRFY :: u64 where "NGX_SMTP_VRFY = 10"
definition NGX_SMTP_EXPN :: u64 where "NGX_SMTP_EXPN = 11"
definition NGX_SMTP_HELP :: u64 where "NGX_SMTP_HELP = 12"
definition NGX_SMTP_STARTTLS :: u64 where "NGX_SMTP_STARTTLS = 13"

lemmas smtp_codes =
  NGX_SMTP_HELO_def NGX_SMTP_EHLO_def NGX_SMTP_AUTH_def NGX_SMTP_QUIT_def NGX_SMTP_NOOP_def
  NGX_SMTP_MAIL_def NGX_SMTP_RSET_def NGX_SMTP_RCPT_def NGX_SMTP_VRFY_def NGX_SMTP_EXPN_def
  NGX_SMTP_HELP_def NGX_SMTP_STARTTLS_def

text \<open>
  The comparison of the \<open>p - c\<close> bytes at \<open>c\<close> with the names; \<open>None\<close> is \<open>goto invalid\<close>.
\<close>

definition smtp_four :: "u8 \<Rightarrow> u8 \<Rightarrow> u8 \<Rightarrow> u8 \<Rightarrow> u64 option" where
  "smtp_four c0 c1 c2 c3 =
    (let w = [c0, c1, c2, c3] in
     if w = bytes ''HELO'' then Some NGX_SMTP_HELO
     else if w = bytes ''EHLO'' then Some NGX_SMTP_EHLO
     else if w = bytes ''QUIT'' then Some NGX_SMTP_QUIT
     else if w = bytes ''AUTH'' then Some NGX_SMTP_AUTH
     else if w = bytes ''NOOP'' then Some NGX_SMTP_NOOP
     else if w = bytes ''MAIL'' then Some NGX_SMTP_MAIL
     else if w = bytes ''RSET'' then Some NGX_SMTP_RSET
     else if w = bytes ''RCPT'' then Some NGX_SMTP_RCPT
     else if w = bytes ''VRFY'' then Some NGX_SMTP_VRFY
     else if w = bytes ''EXPN'' then Some NGX_SMTP_EXPN
     else if w = bytes ''HELP'' then Some NGX_SMTP_HELP
     else None)"

definition smtp_command :: "(u8 \<Rightarrow> u8) \<Rightarrow> memory \<Rightarrow> ptr \<Rightarrow> ptr \<Rightarrow> u64 option" where
  "smtp_command toupper mem c p =
    (if p - c = 4
     then smtp_four (toupper (mem ! c)) (toupper (mem ! (c + 1))) (toupper (mem ! (c + 2))) (toupper (mem ! (c + 3)))
     else if p - c = 8
     then (if either_case (seg mem c (c + 8)) ''STARTTLS'' then Some NGX_SMTP_STARTTLS else None)
     else None)"

subsection \<open>The loop\<close>

datatype smtp_state =
    smtp_sw_start | smtp_sw_command | smtp_sw_invalid | smtp_sw_spaces_before_argument
  | smtp_sw_argument | smtp_sw_almost_done

type_synonym smtp_loc = "smtp_state \<times> ngx_mail_session_t"
type_synonym smtp_outcome = "(smtp_loc, mail_exit) outcome"

definition smtp_in_command :: "(u8 \<Rightarrow> u8) \<Rightarrow> memory \<Rightarrow> ptr \<Rightarrow> u8 \<Rightarrow> ngx_mail_session_t \<Rightarrow> smtp_outcome" where
  "smtp_in_command toupper mem p ch s =
    (if ch = SP \<or> ch = CR \<or> ch = LF
     then (case smtp_command toupper mem (the (m_cmd_start s)) p of
             None \<Rightarrow> Stop M_invalid (smtp_sw_command, s)
           | Some code \<Rightarrow>
               let s = s\<lparr>m_command := code,
                         m_cmd := \<lparr>ms_data = m_cmd_start s, ms_len = ptr_diff s (Some p) (m_cmd_start s)\<rparr>\<rparr> in
               if ch = SP then Next (smtp_sw_spaces_before_argument, s)
               else if ch = CR then Next (smtp_sw_almost_done, s)
               else Stop M_done (smtp_sw_command, s))
     else if \<not> is_letter ch then Stop M_invalid (smtp_sw_command, s)
     else Next (smtp_sw_command, s))"

definition smtp_spaces :: "ptr \<Rightarrow> u8 \<Rightarrow> ngx_mail_session_t \<Rightarrow> smtp_outcome" where
  "smtp_spaces p ch s =
    (if ch = SP then Next (smtp_sw_spaces_before_argument, s)
     else if ch = CR then Next (smtp_sw_almost_done, s\<lparr>m_arg_end := Some p\<rparr>)
     else if ch = LF then Stop M_done (smtp_sw_spaces_before_argument, s\<lparr>m_arg_end := Some p\<rparr>)
     else if length (m_args s) \<le> 10 then Next (smtp_sw_argument, s\<lparr>m_arg_start := Some p\<rparr>)
     else Stop M_invalid (smtp_sw_spaces_before_argument, s))"

definition smtp_argument :: "(nat \<Rightarrow> bool) \<Rightarrow> ptr \<Rightarrow> u8 \<Rightarrow> ngx_mail_session_t \<Rightarrow> smtp_outcome" where
  "smtp_argument room p ch s =
    (if ch = SP \<or> ch = CR \<or> ch = LF
     then (case push_arg room (Some p) s of
             None \<Rightarrow> Stop M_error (smtp_sw_argument, s)
           | Some s \<Rightarrow>
               if ch = SP then Next (smtp_sw_spaces_before_argument, s)
               else if ch = CR then Next (smtp_sw_almost_done, s)
               else Stop M_done (smtp_sw_argument, s))
     else Next (smtp_sw_argument, s))"

definition smtp_almost_done :: "u8 \<Rightarrow> ngx_mail_session_t \<Rightarrow> smtp_outcome" where
  "smtp_almost_done ch s =
    (if ch = LF then Stop M_done (smtp_sw_almost_done, s) else Stop M_invalid (smtp_sw_almost_done, s))"

fun smtp_case :: "(u8 \<Rightarrow> u8) \<Rightarrow> (nat \<Rightarrow> bool) \<Rightarrow> memory \<Rightarrow> smtp_state \<Rightarrow> ptr \<Rightarrow> u8 \<Rightarrow> ngx_mail_session_t \<Rightarrow> smtp_outcome" where
  "smtp_case up room mem smtp_sw_start p ch s = smtp_in_command up mem p ch (s\<lparr>m_cmd_start := Some p\<rparr>)"
| "smtp_case up room mem smtp_sw_command p ch s = smtp_in_command up mem p ch s"
| "smtp_case up room mem smtp_sw_invalid p ch s = Stop M_invalid (smtp_sw_invalid, s)"
| "smtp_case up room mem smtp_sw_spaces_before_argument p ch s = smtp_spaces p ch s"
| "smtp_case up room mem smtp_sw_argument p ch s = smtp_argument room p ch s"
| "smtp_case up room mem smtp_sw_almost_done p ch s = smtp_almost_done ch s"

definition smtp_step :: "(u8 \<Rightarrow> u8) \<Rightarrow> (nat \<Rightarrow> bool) \<Rightarrow> memory \<Rightarrow> ptr \<Rightarrow> smtp_loc \<Rightarrow> smtp_outcome" where
  "smtp_step up room mem p x = smtp_case up room mem (fst x) p (mem ! p) (snd x)"

text \<open>The code at the label \<open>done\<close>; \<open>None\<close> is \<open>return NGX_ERROR\<close>.\<close>

definition smtp_finish :: "(nat \<Rightarrow> bool) \<Rightarrow> ngx_mail_session_t \<Rightarrow> (smtp_state \<times> ngx_mail_session_t) option" where
  "smtp_finish room s =
    (case (if m_arg_start s \<noteq> None then push_arg room (m_arg_end s) s else Some s) of
       None \<Rightarrow> None
     | Some s \<Rightarrow> Some (if m_command s \<noteq> NGX_SMTP_AUTH then smtp_sw_start else smtp_sw_argument, s))"

text \<open>The code at the label \<open>invalid\<close>: the new state and position.\<close>

function smtp_skip :: "memory \<Rightarrow> ptr \<Rightarrow> ptr \<Rightarrow> smtp_state \<times> ptr" where
  "smtp_skip mem p lim =
    (if p < lim
     then (if mem ! p = LF then (smtp_sw_start, p + 1) else smtp_skip mem (Suc p) lim)
     else (smtp_sw_invalid, p))"
  by pat_completeness auto
termination
  by (relation "measure (\<lambda>(mem, p, lim). lim - p)") auto

declare smtp_skip.simps [simp del]

definition ngx_mail_smtp_parse_command ::
  "(u8 \<Rightarrow> u8) \<Rightarrow> (nat \<Rightarrow> bool) \<Rightarrow> smtp_state \<Rightarrow> ngx_mail_session_t \<Rightarrow> ngx_buf_t
   \<Rightarrow> ngx_rc \<times> smtp_state \<times> ngx_mail_session_t \<times> ngx_buf_t" where
  "ngx_mail_smtp_parse_command toupper room st s b =
    (case byte_loop (smtp_step toupper room) (buf_mem b) (buf_pos b) (buf_last b) (st, s) of
       (p, Next (st', s')) \<Rightarrow> (NGX_AGAIN, st', s', b\<lparr>buf_pos := p\<rparr>)
     | (p, Stop M_done (_, s')) \<Rightarrow>
         (case smtp_finish room s' of
            None \<Rightarrow> (NGX_ERROR, st, s', b\<lparr>buf_pos := p + 1\<rparr>)
          | Some (st', s'') \<Rightarrow> (NGX_OK, st', s'', b\<lparr>buf_pos := p + 1\<rparr>))
     | (p, Stop M_invalid (_, s')) \<Rightarrow>
         (case smtp_skip (buf_mem b) (buf_pos b) (buf_last b) of
            (st', q) \<Rightarrow> (NGX_MAIL_PARSE_INVALID_COMMAND, st', s'\<lparr>m_arg_start := None\<rparr>, b\<lparr>buf_pos := q\<rparr>))
     | (p, Stop _ (_, s')) \<Rightarrow> (NGX_ERROR, st, s', b))"

lemmas smtp_steps = smtp_in_command_def smtp_spaces_def smtp_argument_def smtp_almost_done_def

subsection \<open>The contract of the loop\<close>

text \<open>Offsets below the current byte; no argument is open outside \<open>sw_argument\<close>.\<close>

fun smtp_inv :: "ptr \<Rightarrow> smtp_loc \<Rightarrow> bool" where
  "smtp_inv p (st, s) \<longleftrightarrow> args_below p (m_args s) \<and>
    (st = smtp_sw_command \<longrightarrow> (\<exists>c. m_cmd_start s = Some c \<and> c \<le> p)) \<and>
    (if st = smtp_sw_argument then (\<exists>a. m_arg_start s = Some a \<and> a \<le> p) else m_arg_start s = None)"

definition smtp_post :: "ptr \<Rightarrow> mail_exit \<Rightarrow> smtp_loc \<Rightarrow> bool" where
  "smtp_post p x y \<longleftrightarrow> args_below p (m_args (snd y)) \<and> (x = M_done \<longrightarrow> m_arg_start (snd y) = None)"

lemma smtp_command_local:
  assumes "c \<le> p" and "p < length mem"
  shows "smtp_command up (mem @ rest) c p = smtp_command up mem c p"
proof (cases "p - c = 4 \<or> p - c = 8")
  case True
  then have "c + 4 < length mem" "p - c = 8 \<Longrightarrow> c + 8 < length mem" using assms by auto
  with True show ?thesis by (auto simp: smtp_command_def nth_append seg_def)
qed (simp add: smtp_command_def)

lemma smtp_step_local:
  assumes "smtp_inv p x" and "p < length mem"
  shows "smtp_step up room (mem @ rest) p x = smtp_step up room mem p x"
proof -
  obtain st s where x: "x = (st, s)" by (cases x)
  with assms show ?thesis
    by (cases st) (auto simp: smtp_step_def nth_append smtp_in_command_def smtp_command_local)
qed

lemma smtp_step_inv:
  assumes "smtp_inv p x" and "smtp_step up room mem p x = Next x'"
  shows "smtp_inv (Suc p) x'"
proof -
  obtain st s where x: "x = (st, s)" by (cases x)
  have a: "args_below p (m_args s)" "args_below (Suc p) (m_args s)"
    using assms(1) x args_below_Suc by auto
  show ?thesis
  proof (cases "st = smtp_sw_argument")
    case True
    then obtain d where d: "m_arg_start s = Some d" "d \<le> p" using assms(1) x by auto
    show ?thesis
      using assms(2) x True a d args_below_push [OF _ a(1) d]
      by (auto simp: smtp_step_def smtp_argument_def args_below_Suc split: option.splits if_splits)
  next
    case False
    with assms x a show ?thesis
      by (cases st) (auto simp: smtp_step_def smtp_steps Let_def split: option.splits if_splits)
  qed
qed

lemma smtp_step_post:
  assumes "smtp_inv p x" and "smtp_step up room mem p x = Stop r x'"
  shows "smtp_post p r x'"
proof -
  obtain st s where x: "x = (st, s)" by (cases x)
  show ?thesis
  proof (cases "st = smtp_sw_argument")
    case True
    then obtain d where d: "m_arg_start s = Some d" "d \<le> p" "args_below p (m_args s)"
      using assms(1) x by auto
    show ?thesis
      using assms(2) x True d args_below_push [OF _ d(3,1,2)]
      by (auto simp: smtp_step_def smtp_argument_def smtp_post_def split: option.splits if_splits)
  next
    case False
    with assms x show ?thesis
      by (cases st) (auto simp: smtp_step_def smtp_steps smtp_post_def Let_def split: option.splits if_splits)
  qed
qed

declare smtp_inv.simps [simp del]

interpretation smtp: byte_parser "smtp_step up room" smtp_inv smtp_post for up room
  by unfold_locales (auto intro: smtp_step_local smtp_step_inv smtp_step_post)

definition smtp_call :: "(u8 \<Rightarrow> u8) \<Rightarrow> (nat \<Rightarrow> bool) \<Rightarrow> smtp_loc \<Rightarrow> ngx_buf_t \<Rightarrow> ngx_rc \<times> smtp_loc \<times> ngx_buf_t" where
  "smtp_call up room x b = (case ngx_mail_smtp_parse_command up room (fst x) (snd x) b of
     (rc, st, s, b') \<Rightarrow> (rc, (st, s), b'))"

fun smtp_stop_view :: "(nat \<Rightarrow> bool) \<Rightarrow> ptr \<Rightarrow> mail_exit \<Rightarrow> smtp_loc \<Rightarrow> ngx_rc \<times> (smtp_state \<times> ngx_mail_session_t \<times> ptr) option" where
  "smtp_stop_view room p M_done (st, s) =
     (case smtp_finish room s of None \<Rightarrow> (NGX_ERROR, None) | Some (st', s') \<Rightarrow> (NGX_OK, Some (st', s', p + 1)))"
| "smtp_stop_view room p M_invalid x = (NGX_MAIL_PARSE_INVALID_COMMAND, None)"
| "smtp_stop_view room p _ x = (NGX_ERROR, None)"

interpretation smtpp: resumable_parser "smtp_step up room" smtp_inv smtp_post "smtp_call up room" "\<lambda>x. x" "\<lambda>x. x"
    mail_view "smtp_stop_view room" for up room
proof
  fix b :: ngx_buf_t and x p r x'
  {
    assume "byte_loop (smtp_step up room) (buf_mem b) (buf_pos b) (buf_last b) x = (p, Next x')"
    then show "smtp_call up room x b = (NGX_AGAIN, x', b\<lparr>buf_pos := p\<rparr>)"
      by (cases x; cases x') (simp add: smtp_call_def ngx_mail_smtp_parse_command_def)
  next
    assume "byte_loop (smtp_step up room) (buf_mem b) (buf_pos b) (buf_last b) x = (p, Stop r x')"
    then show "fst (smtp_call up room x b) \<noteq> NGX_AGAIN \<and>
        mail_view (smtp_call up room x b) = smtp_stop_view room p r x'"
      by (cases x; cases x'; cases r)
        (auto simp: smtp_call_def ngx_mail_smtp_parse_command_def split: option.split prod.split)
  }
qed auto

subsection \<open>What a line is understood as\<close>

definition smtp_table :: "(string \<times> u64) list" where
  "smtp_table =
     [(''HELO'', NGX_SMTP_HELO), (''EHLO'', NGX_SMTP_EHLO), (''QUIT'', NGX_SMTP_QUIT),
      (''AUTH'', NGX_SMTP_AUTH), (''NOOP'', NGX_SMTP_NOOP), (''MAIL'', NGX_SMTP_MAIL),
      (''RSET'', NGX_SMTP_RSET), (''RCPT'', NGX_SMTP_RCPT), (''VRFY'', NGX_SMTP_VRFY),
      (''EXPN'', NGX_SMTP_EXPN), (''HELP'', NGX_SMTP_HELP), (''STARTTLS'', NGX_SMTP_STARTTLS)]"

definition smtp_line_spec :: "u8 list \<Rightarrow> (u64 \<times> u8 list list) option" where
  "smtp_line_spec l =
    (let args = sp_words (dropWhile (\<lambda>c. c \<noteq> SP) l) in
     case command_lookup smtp_table (takeWhile (\<lambda>c. c \<noteq> SP) l) of
       None \<Rightarrow> None
     | Some code \<Rightarrow> if length args \<le> 11 then Some (code, args) else None)"

lemma smtp_lookup_letters:
  assumes "command_lookup smtp_table w = Some code"
  shows "\<forall>c\<in>set w. is_letter c" "length w = 4 \<or> length w = 8"
  using command_lookup_letters [OF assms] by (auto simp: smtp_table_def capitals_def)

lemma smtp_command_lookup:
  assumes "toupper_spec up" and "drop c mem = w @ ys"
  shows "smtp_command up mem c (c + length w) = command_lookup smtp_table w"
proof -
  have up: "up = ascii_upper" by (rule toupper_specD [OF assms(1)])
  note nth = nth_drop_append [OF assms(2)]
  consider "length w = 4" | "length w = 8" | "length w \<noteq> 4" "length w \<noteq> 8" by blast
  then show ?thesis
  proof cases
    case 1
    then obtain c0 c1 c2 c3 where w: "w = [c0, c1, c2, c3]"
      by (auto simp: numeral_eq_Suc length_Suc_conv)
    with nth [of 0] nth [of 1] nth [of 2] nth [of 3]
    have "mem ! c = c0" "mem ! (c + 1) = c1" "mem ! (c + 2) = c2" "mem ! (c + 3) = c3"
      by simp_all
    with w up show ?thesis
      by (simp add: smtp_command_def smtp_four_def command_lookup_def smtp_table_def bytes_def Let_def)
  next
    case 2
    have "seg mem c (c + 8) = w" by (rule seg_of_drop [OF assms(2)]) (simp add: 2)
    moreover have "either_case w ''STARTTLS'' \<longleftrightarrow> map ascii_upper w = bytes ''STARTTLS''"
      by (rule either_case_upper) simp
    ultimately show ?thesis
      using 2 by (simp add: smtp_command_def command_lookup_def smtp_table_def map_upper_length)
  next
    case 3
    then show ?thesis
      using smtp_lookup_letters(2) [of w] by (cases "command_lookup smtp_table w") (auto simp: smtp_command_def)
  qed
qed

abbreviation smtp_list :: "(u8 \<Rightarrow> u8) \<Rightarrow> (nat \<Rightarrow> bool) \<Rightarrow> memory \<Rightarrow> ptr \<Rightarrow> u8 list \<Rightarrow> smtp_loc \<Rightarrow> ptr \<times> smtp_outcome" where
  "smtp_list up room mem \<equiv> list_loop (\<lambda>p ch x. smtp_case up room mem (fst x) p ch (snd x))"

interpretation smtpa: argument_scan "\<lambda>p ch x. smtp_case up room mem (fst x) p ch (snd x)" room
    smtp_sw_spaces_before_argument smtp_sw_argument smtp_sw_almost_done 10 "\<lambda>_. True" "\<lambda>_. True" for up room mem
  by unfold_locales
    (auto simp: smtp_spaces_def smtp_argument_def smtp_almost_done_def split: option.splits)

text \<open>The command word: letters up to a space or the end of the line, or it is refused.\<close>

lemma smtp_scan_command:
  assumes "\<forall>c\<in>set w. c \<noteq> SP \<and> c \<noteq> CR \<and> c \<noteq> LF" and "\<exists>x xs. ys = x # xs \<and> x \<in> {SP, CR, LF}"
  shows "if \<forall>c\<in>set w. is_letter c
    then smtp_list up room mem p (w @ ys) (smtp_sw_command, s) =
         smtp_list up room mem (p + length w) ys (smtp_sw_command, s)
    else \<exists>q x. smtp_list up room mem p (w @ ys) (smtp_sw_command, s) = (q, Stop M_invalid x)"
  using assms(1)
proof (induction w arbitrary: p)
  case Nil
  then show ?case by simp
next
  case (Cons c w)
  then show ?case
    using Cons.IH [of "Suc p"] by (auto simp: smtp_in_command_def split: if_split_asm)
qed

lemma smtp_scan_start:
  assumes "l \<noteq> []"
  shows "smtp_list up room mem p l (smtp_sw_start, s) =
    smtp_list up room mem p l (smtp_sw_command, s\<lparr>m_cmd_start := Some p\<rparr>)"
  using assms by (cases l) simp_all

lemma smtp_skip_line:
  assumes "drop p mem = l @ LF # r" and "LF \<notin> set l"
  shows "smtp_skip mem p (length mem) = (smtp_sw_start, p + length l + 1)"
  using assms
proof (induction l arbitrary: p)
  case Nil
  with drop_eq_Cons [of p mem LF r] show ?case by (subst smtp_skip.simps) simp
next
  case (Cons c l)
  with drop_eq_Cons [of p mem c "l @ LF # r"] show ?case by (subst smtp_skip.simps) simp
qed

lemma smtp_words_loop:
  assumes "\<forall>n\<le>10. room n" and "line_end t" and "length mem < 2 ^ 64"
    and "\<forall>c\<in>set k. c \<noteq> CR \<and> c \<noteq> LF" and "drop p mem = k @ ys"
    and "m_args s = []" and "m_arg_start s = None"
  shows "if length (sp_words k) \<le> 11
    then \<exists>st s'. smtp_list up room mem p (k @ t @ r) (smtp_sw_spaces_before_argument, s) =
          (p + length k + (length t - 1), Stop M_done (st, s')) \<and> m_arg_start s' = None \<and>
        m_command s' = m_command s \<and> m_cmd s' = m_cmd s \<and> map (arg_bytes mem) (m_args s') = sp_words k
    else \<exists>q x. smtp_list up room mem p (k @ t @ r) (smtp_sw_spaces_before_argument, s) = (q, Stop M_invalid x)"
proof -
  note w = words_from_bytes(1) [OF assms(3,5)]
  have len: "length (words_from p None k) = length (sp_words k)"
    unfolding w [symmetric] by simp
  show ?thesis
    using smtpa.scan_words(1) [OF assms(1,2), of s k p up mem r] assms(4,6,7) w
    by (auto simp: len split: if_split_asm)
qed

lemma smtp_line_loop:
  assumes "toupper_spec up" and "\<forall>n\<le>10. room n" and "line_end t" and "length mem < 2 ^ 64"
    and "\<forall>c\<in>set l. c \<noteq> CR \<and> c \<noteq> LF" and "drop p mem = l @ t @ r"
    and "m_args s = []" and "m_arg_start s = None"
  shows "case smtp_line_spec l of
      None \<Rightarrow> \<exists>q x. smtp_list up room mem p (l @ t @ r) (smtp_sw_start, s) = (q, Stop M_invalid x)
    | Some (code, args) \<Rightarrow> \<exists>st s'. smtp_list up room mem p (l @ t @ r) (smtp_sw_start, s) =
          (p + length l + (length t - 1), Stop M_done (st, s')) \<and> m_arg_start s' = None \<and>
        m_command s' = code \<and> m_cmd s' = mk_arg p (p + length (takeWhile (\<lambda>c. c \<noteq> SP) l)) \<and>
        map (arg_bytes mem) (m_args s') = args"
proof -
  define w where "w = takeWhile (\<lambda>c. c \<noteq> SP) l"
  define k where "k = dropWhile (\<lambda>c. c \<noteq> SP) l"
  have l: "l = w @ k" by (simp add: w_def k_def)
  have w: "\<forall>c\<in>set w. c \<noteq> SP \<and> c \<noteq> CR \<and> c \<noteq> LF"
    using assms(5) by (auto simp: w_def dest: set_takeWhileD)
  have k: "k = [] \<or> (\<exists>k'. k = SP # k')"
    by (cases k) (auto simp: k_def dropWhile_eq_Cons_conv)
  have "\<exists>x xs. k @ t @ r = x # xs \<and> x \<in> {SP, CR, LF}"
    using k assms(3) by (auto simp: line_end_def)
  then obtain x xs where x: "k @ t @ r = x # xs" "x \<in> {SP, CR, LF}" by blast
  let ?s = "s\<lparr>m_cmd_start := Some p\<rparr>"
  let ?q = "p + length w"
  have start: "smtp_list up room mem p (l @ t @ r) (smtp_sw_start, s) =
      smtp_list up room mem p (w @ x # xs) (smtp_sw_command, ?s)"
    using smtp_scan_start [of "l @ t @ r" up room mem p s] assms(3) x(1)
    by (auto simp: line_end_def l)
  note scan = smtp_scan_command [OF w, of "x # xs" up room mem p ?s]
  have look: "smtp_command up mem p ?q = command_lookup smtp_table w"
    using assms(6) l by (intro smtp_command_lookup [OF assms(1)]) simp
  show ?thesis
  proof (cases "command_lookup smtp_table w")
    case None
    then have "\<exists>q x'. smtp_list up room mem p (w @ x # xs) (smtp_sw_command, ?s) = (q, Stop M_invalid x')"
      using scan x(2) look by (auto simp: smtp_in_command_def split: if_split_asm)
    with None show ?thesis unfolding start by (simp add: smtp_line_spec_def w_def [symmetric] Let_def)
  next
    case (Some code)
    let ?s1 = "?s\<lparr>m_command := code, m_cmd := mk_arg p ?q\<rparr>"
    have cmd: "smtp_list up room mem p (w @ x # xs) (smtp_sw_command, ?s) =
        smtp_list up room mem ?q (x # xs) (smtp_sw_command, ?s)"
      using scan smtp_lookup_letters(1) [OF Some] x(2) by auto
    have "smtp_in_command up mem ?q x ?s =
        (if x = SP then Next (smtp_sw_spaces_before_argument, ?s1)
         else if x = CR then Next (smtp_sw_almost_done, ?s1) else Stop M_done (smtp_sw_command, ?s1))"
      using x(2) Some look by (auto simp: smtp_in_command_def mk_arg_def ptr_diff_def m_addr_def)
    note step = this
    have spec: "smtp_line_spec l = (if length (sp_words k) \<le> 11 then Some (code, sp_words k) else None)"
      by (simp add: smtp_line_spec_def w_def [symmetric] k_def [symmetric] Some Let_def)
    show ?thesis
    proof (cases k)
      case Nil
      with x(1) step assms(3,7,8) show ?thesis
        unfolding spec start cmd w_def [symmetric]
        by (auto simp: line_end_def l smtp_almost_done_def)
    next
      case (Cons c k')
      with k have c: "c = SP" by simp
      with Cons x(1) have xs: "x = SP" "xs = k' @ t @ r" by auto
      have d: "drop (Suc ?q) mem = k' @ t @ r"
        using drop_eq_append [of p mem w] drop_eq_Cons [of ?q mem SP] assms(6) l Cons c by simp
      have k': "\<forall>c\<in>set k'. c \<noteq> CR \<and> c \<noteq> LF" using assms(5) l Cons by simp
      have "smtp_list up room mem ?q (x # xs) (smtp_sw_command, ?s) =
          smtp_list up room mem (Suc ?q) (k' @ t @ r) (smtp_sw_spaces_before_argument, ?s1)"
        using step xs by simp
      then show ?thesis
        using smtp_words_loop [OF assms(2-4) k' d, of ?s1 up r] assms(7,8) Cons c
        unfolding spec start cmd w_def [symmetric] by (auto simp: l split: if_split_asm)
    qed
  qed
qed

text \<open>
  C12: An SMTP command line, ended by LF or CRLF, is read as the specification says: the first
  word, in any case, names the command, the other words are the arguments, and at most eleven
  are taken; the next state is the start, or an argument after AUTH. Every other line is refused.
  Either way the parser stops right after the line feed, so that the next command is found.
\<close>

theorem smtp_line:
  assumes "toupper_spec up" and "\<forall>n\<le>10. room n" and "line_end t" and "length mem < 2 ^ 64"
    and "\<forall>c\<in>set l. c \<noteq> CR \<and> c \<noteq> LF" and "mem = pre @ l @ t @ rest"
    and "m_args s = []" and "m_arg_start s = None"
    and "b = \<lparr>buf_mem = mem, buf_pos = length pre, buf_last = length mem\<rparr>"
  shows "case smtp_line_spec l of
      None \<Rightarrow> \<exists>s'. ngx_mail_smtp_parse_command up room smtp_sw_start s b =
        (NGX_MAIL_PARSE_INVALID_COMMAND, smtp_sw_start, s', b\<lparr>buf_pos := length (pre @ l @ t)\<rparr>)
    | Some (code, args) \<Rightarrow> \<exists>s'. ngx_mail_smtp_parse_command up room smtp_sw_start s b =
        (NGX_OK, if code = NGX_SMTP_AUTH then smtp_sw_argument else smtp_sw_start, s',
         b\<lparr>buf_pos := length (pre @ l @ t)\<rparr>) \<and>
        m_command s' = code \<and> arg_bytes mem (m_cmd s') = takeWhile (\<lambda>c. c \<noteq> SP) l \<and>
        map (arg_bytes mem) (m_args s') = args"
proof -
  let ?p = "length pre"
  have d: "drop ?p mem = l @ t @ rest" by (simp add: assms(6))
  have "byte_loop (smtp_step up room) mem ?p (length mem) (smtp_sw_start, s) =
      smtp_list up room mem ?p (drop ?p mem) (smtp_sw_start, s)"
    by (rule byte_loop_list) (simp_all add: smtp_step_def assms(6))
  note loop = this [unfolded d]
  note res = smtp_line_loop [OF assms(1-5) d assms(7,8)]
  have t: "length t > 0" "\<exists>u. t = u @ [LF] \<and> LF \<notin> set u" using assms(3) by (auto simp: line_end_def)
  then obtain u where u: "t = u @ [LF]" "LF \<notin> set u" by blast
  have skip: "smtp_skip mem ?p (length mem) = (smtp_sw_start, ?p + length l + length t)"
    using smtp_skip_line [of ?p mem "l @ u" rest] d u assms(5) by auto
  have cmd: "arg_bytes mem (mk_arg ?p (?p + length (takeWhile (\<lambda>c. c \<noteq> SP) l))) = takeWhile (\<lambda>c. c \<noteq> SP) l"
    using d takeWhile_dropWhile_id [of "\<lambda>c. c \<noteq> SP" l] assms(4)
    by (intro arg_bytes_mk [where ys = "dropWhile (\<lambda>c. c \<noteq> SP) l @ t @ rest"])
      (simp_all only: append_assoc [symmetric])
  show ?thesis
  proof (cases "smtp_line_spec l")
    case None
    with res loop skip show ?thesis
      by (auto simp: ngx_mail_smtp_parse_command_def assms(9))
  next
    case (Some a)
    then obtain code args where "a = (code, args)" by (cases a)
    with Some res loop cmd t(1) show ?thesis
      by (auto simp: ngx_mail_smtp_parse_command_def assms(9) smtp_finish_def)
  qed
qed

text \<open>The second of two commands in a buffer, in mixed case and with spaces to spare.\<close>

theorem smtp_line_witness:
  "\<exists>s'. ngx_mail_smtp_parse_command ascii_upper (\<lambda>_. True) smtp_sw_start (new_session 4096)
      \<lparr>buf_mem = bytes ''NOOP'' @ [LF] @ bytes ''Mail  FROM:<a> X '' @ [CR, LF], buf_pos = 5, buf_last = 24\<rparr> =
    (NGX_OK, smtp_sw_start, s',
      \<lparr>buf_mem = bytes ''NOOP'' @ [LF] @ bytes ''Mail  FROM:<a> X '' @ [CR, LF], buf_pos = 24, buf_last = 24\<rparr>) \<and>
    m_command s' = NGX_SMTP_MAIL \<and>
    map (arg_bytes (bytes ''NOOP'' @ [LF] @ bytes ''Mail  FROM:<a> X '' @ [CR, LF])) (m_args s') =
      [bytes ''FROM:<a>'', bytes ''X'']"
proof -
  let ?mem = "bytes ''NOOP'' @ [LF] @ bytes ''Mail  FROM:<a> X '' @ [CR, LF]"
  have mem: "?mem = (bytes ''NOOP'' @ [LF]) @ bytes ''Mail  FROM:<a> X '' @ [CR, LF] @ []" by simp
  have l: "\<forall>c\<in>set (bytes ''Mail  FROM:<a> X ''). c \<noteq> CR \<and> c \<noteq> LF" by (simp add: bytes_def)
  have spec: "smtp_line_spec (bytes ''Mail  FROM:<a> X '') =
      Some (NGX_SMTP_MAIL, [bytes ''FROM:<a>'', bytes ''X''])"
    by (simp add: smtp_line_spec_def command_lookup_def smtp_table_def bytes_def ascii_upper_def sp_words_def)
  have n: "NGX_SMTP_MAIL \<noteq> NGX_SMTP_AUTH" by (simp add: smtp_codes)
  have args: "m_args (new_session 4096) = []" "m_arg_start (new_session 4096) = None"
    by (simp_all add: new_session_def)
  have len: "length ?mem = 24" "length (bytes ''NOOP'' @ [LF]) = 5"
    "length ((bytes ''NOOP'' @ [LF]) @ bytes ''Mail  FROM:<a> X '' @ [CR, LF]) = 24" by simp_all
  have b: "\<lparr>buf_mem = ?mem, buf_pos = 5, buf_last = 24\<rparr> =
      \<lparr>buf_mem = ?mem, buf_pos = length (bytes ''NOOP'' @ [LF]), buf_last = length ?mem\<rparr>"
    unfolding len ..
  have e: "line_end [CR, LF]" by (simp add: line_end_def)
  have small: "length ?mem < 2 ^ 64" unfolding len by simp
  from smtp_line [OF ascii_upper_spec _ e small l mem args b, of "\<lambda>_. True"]
  show ?thesis unfolding spec len option.case prod.case using n by auto
qed

end
