(* ===== verification/Mail_Smtp_Session.thy ===== *)
theory Mail_Smtp_Session
  imports Mail_Smtp Mail_Auth
begin

text \<open>
  An SMTP session up to the hand-over to the authentication server
  (\<open>src/mail/ngx_mail_smtp_handler.c\<close>): looking up the client's name, the greeting with or without a
  delay, the read handler \<open>ngx_mail_smtp_auth_state\<close> with the commands it carries out, and the
  moves of the connection between its handlers as a step relation. Replies are named, not spelled out;
  sending one is a move of its own. The client may pipeline: the buffer keeps what follows a command.
\<close>

subsection \<open>The state\<close>

datatype smtp_mail_state =
    ngx_smtp_start | ngx_smtp_auth_login_username | ngx_smtp_auth_login_password
  | ngx_smtp_auth_plain | ngx_smtp_auth_cram_md5

text \<open>
  What is to happen next: \<open>HS_resolve_addr\<close> and \<open>HS_resolve_name\<close> wait for the resolver,
  \<open>HS_post_name\<close> is the posted read event that starts the second look-up, the others are values of
  \<open>c->read->handler\<close>; \<open>HS_auth_http\<close> is the request to the authentication server and what follows.
\<close>

datatype smtp_handler =
    HS_resolve_addr | HS_post_name | HS_resolve_name | HS_invalid_pipelining | HS_init_protocol
  | HS_auth_state | HS_starttls | HS_auth_http | HS_closed

datatype smtp_reply =
    smtp_greeting | smtp_ok | smtp_bye | smtp_starttls | smtp_next | smtp_username | smtp_password
  | smtp_invalid_command | smtp_invalid_pipelining | smtp_invalid_argument | smtp_auth_required
  | smtp_bad_sequence | smtp_internal_server_error | smtp_server_name | smtp_capability
  | smtp_starttls_capability | smtp_starttls_only_capability | smtp_salt | smtp_auth_error

datatype smtp_host = No_host | Host_unavailable | Host_tempunavail | Host_name "u8 list"

record smtp_session =
  x_mail_state :: smtp_mail_state
  x_state :: smtp_state
  x_s :: ngx_mail_session_t
  x_b :: ngx_buf_t
  x_has_buffer :: bool
  x_out :: "smtp_reply option"
  x_salt_len :: "nat option"
  x_host :: smtp_host
  x_esmtp :: bool
  x_login_attempt :: u64
  x_blocked :: bool
  x_quit :: bool
  x_tls :: bool
  x_handler :: smtp_handler

text \<open>The directive \<open>smtp_greeting_delay\<close>, and whether the log level is at least \<open>info\<close>.\<close>

record smtp_srv_conf =
  sc_greeting_delay :: bool
  sc_log_info :: bool

type_synonym smtp_result = "(ngx_rc \<times> smtp_session) option"

abbreviation x_arg :: "smtp_session \<Rightarrow> nat \<Rightarrow> u8 list option" where
  "x_arg S n \<equiv> arg_at (buf_mem (x_b S)) (x_s S) n"

subsection \<open>The greeting\<close>

text \<open>\<open>ngx_mail_session_internal_server_error\<close> and \<open>ngx_mail_close_connection\<close>\<close>

definition smtp_internal_error :: "smtp_session \<Rightarrow> smtp_session" where
  "smtp_internal_error S = S\<lparr>x_out := Some smtp_internal_server_error, x_quit := True\<rparr>"

definition smtp_close :: "smtp_session \<Rightarrow> smtp_session" where
  "smtp_close S = S\<lparr>x_handler := HS_closed\<rparr>"

text \<open>
  \<open>event_ok\<close>: \<open>ngx_handle_read_event\<close> succeeds. When it fails the code closes the connection, and goes on
  with it, since there is no \<open>return\<close>; in the model the session is over.
\<close>

definition ngx_mail_smtp_greeting :: "smtp_srv_conf \<Rightarrow> bool \<Rightarrow> smtp_session \<Rightarrow> smtp_session" where
  "ngx_mail_smtp_greeting sc event_ok S =
    (if \<not> event_ok then smtp_close S
     else if sc_greeting_delay sc then S\<lparr>x_handler := HS_invalid_pipelining\<rparr>
     else S\<lparr>x_handler := HS_init_protocol, x_out := Some smtp_greeting\<rparr>)"

text \<open>
  \<open>ngx_mail_smtp_init_session\<close>: without a resolver, or for a client on a Unix socket, there is no look-up.
  \<open>started\<close>: \<open>ngx_resolve_start\<close> and \<open>ngx_resolve_addr\<close> succeed.
\<close>

definition ngx_mail_smtp_init_session :: "smtp_srv_conf \<Rightarrow> bool \<Rightarrow> bool \<Rightarrow> bool \<Rightarrow> bool \<Rightarrow> smtp_session \<Rightarrow> smtp_session" where
  "ngx_mail_smtp_init_session sc event_ok resolver unix_socket started S =
    (if \<not> resolver then ngx_mail_smtp_greeting sc event_ok (S\<lparr>x_host := Host_unavailable\<rparr>)
     else if unix_socket then ngx_mail_smtp_greeting sc event_ok (S\<lparr>x_host := Host_tempunavail\<rparr>)
     else if \<not> started then smtp_close S
     else S\<lparr>x_handler := HS_resolve_addr\<rparr>)"

text \<open>What a resolver answers: a value, that there is none, or another error.\<close>

datatype 'a resolved = Resolved 'a | Nxdomain | Resolve_error

definition ngx_mail_smtp_resolve_addr_handler ::
  "mail_env \<Rightarrow> smtp_srv_conf \<Rightarrow> bool \<Rightarrow> u8 list resolved \<Rightarrow> smtp_session \<Rightarrow> smtp_session" where
  "ngx_mail_smtp_resolve_addr_handler env sc event_ok answer S =
    (case answer of
       Nxdomain \<Rightarrow> ngx_mail_smtp_greeting sc event_ok (S\<lparr>x_host := Host_unavailable\<rparr>)
     | Resolve_error \<Rightarrow> ngx_mail_smtp_greeting sc event_ok (S\<lparr>x_host := Host_tempunavail\<rparr>)
     | Resolved name \<Rightarrow>
         (case env_palloc env (length name) of
            None \<Rightarrow> smtp_close S
          | Some _ \<Rightarrow> S\<lparr>x_host := Host_name name, x_handler := HS_post_name\<rparr>))"

definition ngx_mail_smtp_resolve_name :: "bool \<Rightarrow> smtp_session \<Rightarrow> smtp_session" where
  "ngx_mail_smtp_resolve_name started S =
    (if \<not> started then smtp_close S else S\<lparr>x_handler := HS_resolve_name\<rparr>)"

text \<open>The name is kept only if one of its addresses is the client's.\<close>

definition ngx_mail_smtp_resolve_name_handler ::
  "smtp_srv_conf \<Rightarrow> bool \<Rightarrow> 'addr \<Rightarrow> 'addr list resolved \<Rightarrow> smtp_session \<Rightarrow> smtp_session" where
  "ngx_mail_smtp_resolve_name_handler sc event_ok client answer S =
    ngx_mail_smtp_greeting sc event_ok
      (case answer of
         Nxdomain \<Rightarrow> S\<lparr>x_host := Host_unavailable\<rparr>
       | Resolve_error \<Rightarrow> S\<lparr>x_host := Host_tempunavail\<rparr>
       | Resolved addrs \<Rightarrow> (if client \<in> set addrs then S else S\<lparr>x_host := Host_unavailable\<rparr>))"

text \<open>\<open>got\<close>: the arguments and the buffer can be allocated.\<close>

definition ngx_mail_smtp_create_buffer :: "bool \<Rightarrow> smtp_session \<Rightarrow> ngx_rc \<times> smtp_session" where
  "ngx_mail_smtp_create_buffer got S =
    (if got then (NGX_OK, S\<lparr>x_has_buffer := True, x_s := (x_s S)\<lparr>m_args := []\<rparr>,
                             x_b := \<lparr>buf_mem = [], buf_pos = 0, buf_last = 0\<rparr>\<rparr>)
     else (NGX_ERROR, smtp_internal_error S))"

text \<open>
  The command for the log: from the start of the buffer to its end, and the line breaks in the
  buffer itself are overwritten.
\<close>

definition ngx_mail_smtp_log_rejected_command :: "smtp_srv_conf \<Rightarrow> ngx_buf_t \<Rightarrow> ngx_buf_t" where
  "ngx_mail_smtp_log_rejected_command sc b =
    (if \<not> sc_log_info sc then b
     else b\<lparr>buf_mem := map (\<lambda>c. if c = CR \<or> c = LF then chr CHR ''_'' else c) (take (buf_last b) (buf_mem b)) @
                       drop (buf_last b) (buf_mem b)\<rparr>)"

definition ngx_mail_smtp_discard_command :: "smtp_srv_conf \<Rightarrow> mail_recv \<Rightarrow> smtp_session \<Rightarrow> ngx_rc \<times> smtp_session" where
  "ngx_mail_smtp_discard_command sc ev S =
    (case ev of
       Recv_close \<Rightarrow> (NGX_ERROR, smtp_close S)
     | Recv_again ok \<Rightarrow> (if \<not> ok then (NGX_ERROR, smtp_internal_error S) else (NGX_AGAIN, S))
     | Recv ys \<Rightarrow> (NGX_OK, S\<lparr>x_b := (ngx_mail_smtp_log_rejected_command sc (buf_recv (x_b S) ys))\<lparr>buf_pos := 0, buf_last := 0\<rparr>\<rparr>))"

text \<open>
  While the greeting is delayed: on the timeout the client is greeted, and a client that speaks first is
  turned away.
\<close>

definition ngx_mail_smtp_invalid_pipelining ::
  "smtp_srv_conf \<Rightarrow> bool \<Rightarrow> bool \<Rightarrow> bool \<Rightarrow> mail_recv \<Rightarrow> smtp_session \<Rightarrow> smtp_session" where
  "ngx_mail_smtp_invalid_pipelining sc timedout event_ok got ev S =
    (if timedout then
       (if \<not> event_ok then smtp_close S
        else S\<lparr>x_handler := HS_init_protocol, x_out := Some smtp_greeting\<rparr>)
     else
       (case (if x_has_buffer S then (NGX_OK, S) else ngx_mail_smtp_create_buffer got S) of
          (rc, S) \<Rightarrow> if rc \<noteq> NGX_OK then S
            else (case ngx_mail_smtp_discard_command sc ev S of
                    (rc, S) \<Rightarrow> if rc \<noteq> NGX_OK then S
                      else S\<lparr>x_out := Some smtp_invalid_pipelining, x_quit := True\<rparr>)))"

text \<open>The read handler is called next, by \<open>ngx_mail_smtp_init_protocol\<close> itself.\<close>

definition ngx_mail_smtp_init_protocol :: "bool \<Rightarrow> smtp_session \<Rightarrow> smtp_session" where
  "ngx_mail_smtp_init_protocol got S =
    (case (if x_has_buffer S then (NGX_OK, S) else ngx_mail_smtp_create_buffer got S) of
       (rc, S) \<Rightarrow> if rc \<noteq> NGX_OK then S else S\<lparr>x_mail_state := ngx_smtp_start, x_handler := HS_auth_state\<rparr>)"

subsection \<open>The commands\<close>

definition ngx_mail_smtp_helo :: "mail_env \<Rightarrow> mail_conf \<Rightarrow> smtp_session \<Rightarrow> smtp_result" where
  "ngx_mail_smtp_helo env conf S =
    (if length (m_args (x_s S)) \<noteq> 1 then Some (NGX_OK, S\<lparr>x_out := Some smtp_invalid_argument, x_state := smtp_sw_start\<rparr>)
     else do {
       a \<leftarrow> x_arg S 0;
       Some (case copy_bytes env a of
               Inl h \<Rightarrow> (NGX_ERROR, S\<lparr>x_s := (x_s S)\<lparr>m_smtp_helo := h\<rparr>\<rparr>)
             | Inr h \<Rightarrow>
                 let S = S\<lparr>x_s := (x_s S)\<lparr>m_smtp_helo := h, m_smtp_from := no_hs, m_smtp_to := no_hs\<rparr>\<rparr> in
                 if m_command (x_s S) = NGX_SMTP_HELO then (NGX_OK, S\<lparr>x_out := Some smtp_server_name\<rparr>)
                 else (NGX_OK, S\<lparr>x_esmtp := True, x_out := Some
                   (if \<not> x_tls S \<and> cf_starttls conf = STARTTLS_ON then smtp_starttls_capability
                    else if \<not> x_tls S \<and> cf_starttls conf = STARTTLS_ONLY then smtp_starttls_only_capability
                    else smtp_capability)\<rparr>)) })"

text \<open>\<open>ngx_mail_auth_cram_md5_salt(s, c, "334 ", 4)\<close>\<close>

definition smtp_cram_salt :: "mail_env \<Rightarrow> nat \<Rightarrow> smtp_session \<Rightarrow> ngx_rc \<times> smtp_session" where
  "smtp_cram_salt env salt_len S =
    (case env_palloc env (4 + env_encoded_length env salt_len + 2) of
       None \<Rightarrow> (NGX_ERROR, S)
     | Some _ \<Rightarrow> (NGX_OK, S\<lparr>x_out := Some smtp_salt\<rparr>))"

abbreviation x_lift :: "smtp_session \<Rightarrow> (ngx_rc \<times> ngx_mail_session_t) option \<Rightarrow> smtp_result" where
  "x_lift S r \<equiv> map_option (\<lambda>(rc, s). (rc, S\<lparr>x_s := s\<rparr>)) r"

text \<open>\<open>salt\<close>: the length of the salt \<open>ngx_mail_salt\<close> makes, or \<open>None\<close> when it gets no memory.\<close>

definition ngx_mail_smtp_auth :: "mail_env \<Rightarrow> mail_conf \<Rightarrow> nat option \<Rightarrow> smtp_session \<Rightarrow> smtp_result" where
  "ngx_mail_smtp_auth env conf salt S =
    (if ngx_mail_starttls_only conf (x_tls S) then Some (NGX_MAIL_PARSE_INVALID_COMMAND, S)
     else if length (m_args (x_s S)) = 0
     then Some (NGX_OK, S\<lparr>x_out := Some smtp_invalid_argument, x_state := smtp_sw_start\<rparr>)
     else do {
       (m, s) \<leftarrow> ngx_mail_auth_parse env conf (x_tls S) (buf_mem (x_b S)) (x_s S);
       let S = S\<lparr>x_s := s\<rparr>;
       case m of
         MA_LOGIN \<Rightarrow> Some (NGX_OK, S\<lparr>x_out := Some smtp_username, x_mail_state := ngx_smtp_auth_login_username\<rparr>)
       | MA_LOGIN_USERNAME \<Rightarrow>
           (let S = S\<lparr>x_out := Some smtp_password, x_mail_state := ngx_smtp_auth_login_password\<rparr> in
            x_lift S (ngx_mail_auth_login_username env (buf_mem (x_b S)) (x_s S) 1))
       | MA_PLAIN \<Rightarrow> Some (NGX_OK, S\<lparr>x_out := Some smtp_next, x_mail_state := ngx_smtp_auth_plain\<rparr>)
       | MA_CRAM_MD5 \<Rightarrow>
           (if \<not> auth_enabled conf NGX_MAIL_AUTH_CRAM_MD5_ENABLED then Some (NGX_MAIL_PARSE_INVALID_COMMAND, S)
            else (case (case x_salt_len S of None \<Rightarrow> salt | Some n \<Rightarrow> Some n) of
                    None \<Rightarrow> Some (NGX_ERROR, S)
                  | Some n \<Rightarrow>
                      (case smtp_cram_salt env n (S\<lparr>x_salt_len := Some n\<rparr>) of
                         (NGX_OK, S) \<Rightarrow> Some (NGX_OK, S\<lparr>x_mail_state := ngx_smtp_auth_cram_md5\<rparr>)
                       | (_, S) \<Rightarrow> Some (NGX_ERROR, S))))
       | MA_rc rc \<Rightarrow> Some (rc, S) })"

text \<open>
  \<^verbatim>\<open>
    arg = s->args.elts; arg += s->args.nelts - 1;
    cmd.len = arg->data + arg->len - s->cmd.data; cmd.data = s->cmd.data;
  \<close>
  the bytes from the command to the end of the last argument; \<open>None\<close> when they are not bytes of the buffer.
\<close>

definition smtp_cmd_bytes :: "memory \<Rightarrow> ngx_mail_session_t \<Rightarrow> u8 list option" where
  "smtp_cmd_bytes mem s =
    (case (ms_data (m_cmd s), ms_data (last (m_args s))) of
       (Some c, Some d) \<Rightarrow>
         let e = d + unat (ms_len (last (m_args s))) in
         if c \<le> e \<and> e \<le> length mem then Some (seg mem c e) else None
     | _ \<Rightarrow> None)"

definition ngx_mail_smtp_mail :: "mail_env \<Rightarrow> mail_conf \<Rightarrow> smtp_srv_conf \<Rightarrow> smtp_session \<Rightarrow> smtp_result" where
  "ngx_mail_smtp_mail env conf sc S =
    (if \<not> auth_enabled conf NGX_MAIL_AUTH_NONE_ENABLED
     then Some (NGX_OK, S\<lparr>x_b := ngx_mail_smtp_log_rejected_command sc (x_b S), x_out := Some smtp_auth_required\<rparr>)
     else if hs_len (m_smtp_from (x_s S)) \<noteq> 0 then Some (NGX_OK, S\<lparr>x_out := Some smtp_bad_sequence\<rparr>)
     else if length (m_args (x_s S)) = 0 then Some (NGX_OK, S\<lparr>x_out := Some smtp_invalid_argument\<rparr>)
     else do {
       cmd \<leftarrow> smtp_cmd_bytes (buf_mem (x_b S)) (x_s S);
       Some (case copy_bytes env cmd of
               Inl h \<Rightarrow> (NGX_ERROR, S\<lparr>x_s := (x_s S)\<lparr>m_smtp_from := h\<rparr>\<rparr>)
             | Inr h \<Rightarrow> (NGX_OK, S\<lparr>x_s := (x_s S)\<lparr>m_smtp_from := h\<rparr>, x_out := Some smtp_ok\<rparr>)) })"

definition ngx_mail_smtp_rcpt :: "mail_env \<Rightarrow> smtp_session \<Rightarrow> smtp_result" where
  "ngx_mail_smtp_rcpt env S =
    (if hs_len (m_smtp_from (x_s S)) = 0 then Some (NGX_OK, S\<lparr>x_out := Some smtp_bad_sequence\<rparr>)
     else if length (m_args (x_s S)) = 0 then Some (NGX_OK, S\<lparr>x_out := Some smtp_invalid_argument\<rparr>)
     else do {
       cmd \<leftarrow> smtp_cmd_bytes (buf_mem (x_b S)) (x_s S);
       Some (case copy_bytes env cmd of
               Inl h \<Rightarrow> (NGX_ERROR, S\<lparr>x_s := (x_s S)\<lparr>m_smtp_to := h\<rparr>\<rparr>)
             | Inr h \<Rightarrow> (NGX_DONE, S\<lparr>x_s := (x_s S)\<lparr>m_smtp_to := h, m_auth_method := NGX_MAIL_AUTH_NONE\<rparr>\<rparr>)) })"

definition ngx_mail_smtp_rset :: "smtp_session \<Rightarrow> smtp_result" where
  "ngx_mail_smtp_rset S =
    Some (NGX_OK, S\<lparr>x_s := (x_s S)\<lparr>m_smtp_from := no_hs, m_smtp_to := no_hs\<rparr>, x_out := Some smtp_ok\<rparr>)"

definition ngx_mail_smtp_starttls :: "mail_conf \<Rightarrow> smtp_session \<Rightarrow> smtp_result" where
  "ngx_mail_smtp_starttls conf S =
    (if \<not> x_tls S \<and> cf_starttls conf \<noteq> STARTTLS_OFF
     then Some (NGX_OK, S\<lparr>x_s := (x_s S)\<lparr>m_smtp_helo := no_hs, m_smtp_from := no_hs, m_smtp_to := no_hs\<rparr>,
                          x_b := (x_b S)\<lparr>buf_pos := 0, buf_last := 0\<rparr>, x_handler := HS_starttls\<rparr>)
     else Some (NGX_MAIL_PARSE_INVALID_COMMAND, S))"

subsection \<open>The read handler\<close>

definition smtp_start_command :: "mail_env \<Rightarrow> mail_conf \<Rightarrow> smtp_srv_conf \<Rightarrow> nat option \<Rightarrow> smtp_session \<Rightarrow> smtp_result" where
  "smtp_start_command env conf sc salt S =
    (let c = m_command (x_s S) in
     if c = NGX_SMTP_HELO \<or> c = NGX_SMTP_EHLO then ngx_mail_smtp_helo env conf S
     else if c = NGX_SMTP_AUTH then ngx_mail_smtp_auth env conf salt S
     else if c = NGX_SMTP_QUIT then Some (NGX_OK, S\<lparr>x_quit := True, x_out := Some smtp_bye\<rparr>)
     else if c = NGX_SMTP_MAIL then ngx_mail_smtp_mail env conf sc S
     else if c = NGX_SMTP_RCPT then ngx_mail_smtp_rcpt env S
     else if c = NGX_SMTP_RSET then ngx_mail_smtp_rset S
     else if c = NGX_SMTP_NOOP then Some (NGX_OK, S)
     else if c = NGX_SMTP_STARTTLS
     then map_option (\<lambda>(rc, S). (rc, S\<lparr>x_out := Some smtp_starttls\<rparr>)) (ngx_mail_smtp_starttls conf S)
     else Some (NGX_MAIL_PARSE_INVALID_COMMAND, S))"

fun smtp_dispatch :: "mail_env \<Rightarrow> mail_conf \<Rightarrow> smtp_srv_conf \<Rightarrow> nat option \<Rightarrow> smtp_mail_state \<Rightarrow> smtp_session \<Rightarrow> smtp_result" where
  "smtp_dispatch env conf sc salt ngx_smtp_start S = smtp_start_command env conf sc salt S"
| "smtp_dispatch env conf sc salt ngx_smtp_auth_login_username S =
     map_option (\<lambda>(rc, S). (rc, S\<lparr>x_out := Some smtp_password, x_mail_state := ngx_smtp_auth_login_password\<rparr>))
       (x_lift S (ngx_mail_auth_login_username env (buf_mem (x_b S)) (x_s S) 0))"
| "smtp_dispatch env conf sc salt ngx_smtp_auth_login_password S =
     x_lift S (ngx_mail_auth_login_password env (buf_mem (x_b S)) (x_s S))"
| "smtp_dispatch env conf sc salt ngx_smtp_auth_plain S =
     x_lift S (ngx_mail_auth_plain env (buf_mem (x_b S)) (x_s S) 0)"
| "smtp_dispatch env conf sc salt ngx_smtp_auth_cram_md5 S =
     x_lift S (ngx_mail_auth_cram_md5 env (buf_mem (x_b S)) (x_s S))"

text \<open>\<open>if (s->buffer->pos == s->buffer->last)\<close>, the buffer is empty and starts again\<close>

definition buf_rewind :: "ngx_buf_t \<Rightarrow> ngx_buf_t" where
  "buf_rewind b = (if buf_pos b = buf_last b then b\<lparr>buf_pos := 0, buf_last := 0\<rparr> else b)"

text \<open>\<open>ngx_mail_auth\<close>\<close>

definition smtp_hand_over :: "smtp_session \<Rightarrow> smtp_session" where
  "smtp_hand_over S =
    S\<lparr>x_s := (x_s S)\<lparr>m_args := []\<rparr>, x_b := buf_rewind (x_b S), x_state := smtp_sw_start,
      x_login_attempt := x_login_attempt S + 1, x_handler := HS_auth_http\<rparr>"

text \<open>The code at \<open>case NGX_OK\<close> of the last switch.\<close>

definition smtp_reset :: "smtp_session \<Rightarrow> smtp_session" where
  "smtp_reset S =
    (let s = (x_s S)\<lparr>m_args := []\<rparr>; b = buf_rewind (x_b S) in
     S\<lparr>x_s := (if x_state S \<noteq> smtp_sw_start then s\<lparr>m_arg_start := Some (buf_pos b)\<rparr> else s), x_b := b\<rparr>)"

definition smtp_answer :: "ngx_rc \<Rightarrow> smtp_session \<Rightarrow> smtp_session" where
  "smtp_answer rc S =
    (let S = (if buf_pos (x_b S) < buf_last (x_b S) then S\<lparr>x_blocked := True\<rparr> else S) in
     if rc = NGX_DONE then smtp_hand_over S
     else if rc = NGX_ERROR then smtp_internal_error S
     else if rc = NGX_MAIL_PARSE_INVALID_COMMAND
     then smtp_reset (S\<lparr>x_mail_state := ngx_smtp_start, x_state := smtp_sw_start, x_out := Some smtp_invalid_command\<rparr>)
     else if rc = NGX_OK then smtp_reset S
     else S)"

fun smtp_fate :: "mail_fate \<Rightarrow> smtp_session \<Rightarrow> smtp_session" where
  "smtp_fate Fate_open S = S"
| "smtp_fate Fate_closed S = smtp_close S"
| "smtp_fate Fate_internal_error S = smtp_internal_error S"

text \<open>The handler on a read event that is not a timeout; \<open>lim\<close> is the size of the buffer.\<close>

definition ngx_mail_smtp_auth_state ::
  "mail_env \<Rightarrow> mail_conf \<Rightarrow> smtp_srv_conf \<Rightarrow> nat option \<Rightarrow> nat \<Rightarrow> mail_recv \<Rightarrow> smtp_session \<Rightarrow> smtp_session option" where
  "ngx_mail_smtp_auth_state env conf sc salt lim ev S =
    (if x_out S \<noteq> None then Some (S\<lparr>x_blocked := True\<rparr>)
     else
       (case ngx_mail_read_command (ngx_mail_smtp_parse_command (env_toupper env) (env_room env)) lim ev
               (x_state S) (x_s S) (x_b S) of
          (rc, fate, quit, st, s, b) \<Rightarrow>
            let S = S\<lparr>x_blocked := False, x_state := st, x_s := s, x_b := b, x_quit := x_quit S \<or> quit\<rparr> in
            if rc = NGX_AGAIN \<or> rc = NGX_ERROR then Some (smtp_fate fate S)
            else
              let S = S\<lparr>x_out := Some smtp_ok\<rparr> in
              if rc = NGX_OK
              then map_option (\<lambda>(rc, S). smtp_answer rc S) (smtp_dispatch env conf sc salt (x_mail_state S) S)
              else Some (smtp_answer rc S)))"

subsection \<open>The moves of a connection\<close>

text \<open>A session as it is allocated, over a connection that is encrypted from the start or not.\<close>

definition smtp_new :: "u64 \<Rightarrow> bool \<Rightarrow> smtp_session" where
  "smtp_new a tls =
    \<lparr>x_mail_state = ngx_smtp_start, x_state = smtp_sw_start, x_s = new_session a,
     x_b = \<lparr>buf_mem = [], buf_pos = 0, buf_last = 0\<rparr>, x_has_buffer = False, x_out = None, x_salt_len = None, x_host = No_host,
     x_esmtp = False, x_login_attempt = 0, x_blocked = False, x_quit = False, x_tls = tls, x_handler = HS_closed\<rparr>"

text \<open>\<open>ngx_mail_send\<close> when the last byte has been sent.\<close>

definition smtp_sent :: "smtp_session \<Rightarrow> smtp_session" where
  "smtp_sent S = (let S = S\<lparr>x_out := None\<rparr> in if x_quit S then smtp_close S else S)"

text \<open>\<open>ngx_mail_ssl_handshake_handler\<close>, after \<open>STARTTLS\<close>\<close>

definition smtp_encrypted :: "smtp_session \<Rightarrow> smtp_session" where
  "smtp_encrypted S = S\<lparr>x_tls := True, x_handler := HS_init_protocol\<rparr>"

text \<open>\<open>ngx_mail_auth_sleep_handler\<close>: the authentication server has refused.\<close>

definition smtp_auth_refused :: "smtp_session \<Rightarrow> smtp_session" where
  "smtp_auth_refused S = S\<lparr>x_mail_state := ngx_smtp_start, x_handler := HS_auth_state,
     x_s := (x_s S)\<lparr>m_auth_method := NGX_MAIL_AUTH_PLAIN\<rparr>, x_out := Some smtp_auth_error\<rparr>"

text \<open>\<open>ngx_mail_auth_http_process_headers\<close>, when no time to sleep was configured.\<close>

definition smtp_turned_away :: "smtp_session \<Rightarrow> smtp_session" where
  "smtp_turned_away S = S\<lparr>x_out := Some smtp_auth_error, x_quit := True\<rparr>"

definition smtp_recv_fits :: "nat \<Rightarrow> ngx_buf_t \<Rightarrow> mail_recv \<Rightarrow> bool" where
  "smtp_recv_fits lim b ev = (case ev of Recv ys \<Rightarrow> ys \<noteq> [] \<and> buf_last b + length ys \<le> lim | _ \<Rightarrow> True)"

inductive smtp_move :: "mail_env \<Rightarrow> mail_conf \<Rightarrow> smtp_srv_conf \<Rightarrow> nat \<Rightarrow> u8 list \<Rightarrow> smtp_session \<Rightarrow> smtp_session \<Rightarrow> bool"
  for env conf sc lim client where
  addr: "x_handler S = HS_resolve_addr \<Longrightarrow>
    smtp_move env conf sc lim client S (ngx_mail_smtp_resolve_addr_handler env sc event_ok name S)"
| post_name: "x_handler S = HS_post_name \<Longrightarrow> smtp_move env conf sc lim client S (ngx_mail_smtp_resolve_name started S)"
| name: "x_handler S = HS_resolve_name \<Longrightarrow>
    smtp_move env conf sc lim client S (ngx_mail_smtp_resolve_name_handler sc event_ok client addrs S)"
| delay: "x_handler S = HS_invalid_pipelining \<Longrightarrow> smtp_recv_fits lim (x_b S) ev \<Longrightarrow>
    smtp_move env conf sc lim client S (ngx_mail_smtp_invalid_pipelining sc timedout event_ok got ev S)"
| init: "x_handler S = HS_init_protocol \<Longrightarrow> smtp_move env conf sc lim client S (ngx_mail_smtp_init_protocol got S)"
| read: "x_handler S = HS_auth_state \<Longrightarrow> smtp_recv_fits lim (x_b S) ev \<Longrightarrow>
    ngx_mail_smtp_auth_state env conf sc salt lim ev S = Some S' \<Longrightarrow> smtp_move env conf sc lim client S S'"
| close: "smtp_move env conf sc lim client S (smtp_close S)"
| sent: "x_handler S \<noteq> HS_closed \<Longrightarrow> x_out S \<noteq> None \<Longrightarrow> smtp_move env conf sc lim client S (smtp_sent S)"
| starttls: "x_handler S = HS_starttls \<Longrightarrow> smtp_move env conf sc lim client S (smtp_encrypted S)"
| failed: "x_handler S = HS_auth_http \<Longrightarrow> smtp_move env conf sc lim client S (smtp_internal_error S)"
| turned_away: "x_handler S = HS_auth_http \<Longrightarrow> smtp_move env conf sc lim client S (smtp_turned_away S)"
| refused: "x_handler S = HS_auth_http \<Longrightarrow> smtp_move env conf sc lim client S (smtp_auth_refused S)"

inductive smtp_reach :: "mail_env \<Rightarrow> mail_conf \<Rightarrow> smtp_srv_conf \<Rightarrow> nat \<Rightarrow> u8 list \<Rightarrow> smtp_session \<Rightarrow> smtp_session \<Rightarrow> bool"
  for env conf sc lim client S0 where
  start: "smtp_reach env conf sc lim client S0 S0"
| move: "smtp_reach env conf sc lim client S0 S \<Longrightarrow> smtp_move env conf sc lim client S S' \<Longrightarrow> smtp_reach env conf sc lim client S0 S'"

inductive_cases smtp_moveE: "smtp_move env conf sc lim client S S'"

subsection \<open>What a call of the parser leaves\<close>

text \<open>What neither the parser nor a line of a challenge changes.\<close>

definition smtp_keep :: "ngx_mail_session_t \<Rightarrow> ngx_mail_session_t \<Rightarrow> bool" where
  "smtp_keep s s' \<longleftrightarrow> m_login s' = m_login s \<and> m_passwd s' = m_passwd s \<and> m_auth_method s' = m_auth_method s \<and>
     m_smtp_helo s' = m_smtp_helo s \<and> m_smtp_from s' = m_smtp_from s \<and> m_smtp_to s' = m_smtp_to s"

lemma smtp_keep_trans: "smtp_keep a b \<Longrightarrow> smtp_keep b c \<Longrightarrow> smtp_keep a c"
  and smtp_keep_refl [simp]: "smtp_keep a a"
  by (simp_all add: smtp_keep_def)

text \<open>While a challenge is being answered the command is AUTH and the parser is in an argument, or past one.\<close>

definition smtp_answering :: "smtp_loc \<Rightarrow> bool" where
  "smtp_answering x \<longleftrightarrow> m_command (snd x) = NGX_SMTP_AUTH \<and>
     fst x \<in> {smtp_sw_spaces_before_argument, smtp_sw_argument, smtp_sw_almost_done} \<and>
     (fst x \<noteq> smtp_sw_argument \<longrightarrow> m_args (snd x) \<noteq> [])"

text \<open>Otherwise the arguments come after the command, all in this line.\<close>

definition after_cmd :: "ngx_mail_session_t \<Rightarrow> bool" where
  "after_cmd s \<longleftrightarrow> (\<exists>c. ms_data (m_cmd s) = Some c \<and> (\<forall>a \<in> set (m_args s). \<exists>d. ms_data a = Some d \<and> c \<le> d) \<and>
     (\<forall>d. m_arg_start s = Some d \<longrightarrow> c \<le> d))"

definition smtp_in_line :: "ptr \<Rightarrow> smtp_loc \<Rightarrow> bool" where
  "smtp_in_line p x \<longleftrightarrow> (fst x \<in> {smtp_sw_start, smtp_sw_command} \<longrightarrow> m_args (snd x) = []) \<and>
     (fst x \<in> {smtp_sw_spaces_before_argument, smtp_sw_argument, smtp_sw_almost_done} \<longrightarrow> after_cmd (snd x) \<and>
        (\<forall>c. ms_data (m_cmd (snd x)) = Some c \<longrightarrow> c \<le> p))"

lemma push_arg_result:
  assumes "push_arg room p s = Some s'"
  shows "m_args s' \<noteq> []" "smtp_keep s s'" "m_command s' = m_command s" "m_cmd s' = m_cmd s"
    "m_arg_start s \<noteq> None \<Longrightarrow> after_cmd s \<Longrightarrow> after_cmd s'"
  using assms by (auto simp: push_arg_def smtp_keep_def after_cmd_def split: if_splits)

lemma smtp_step_keep:
  "smtp_step up room mem p x = Next x' \<Longrightarrow> smtp_keep (snd x) (snd x')"
  "smtp_step up room mem p x = Stop r x' \<Longrightarrow> smtp_keep (snd x) (snd x')"
  by (cases x; cases "fst x";
      auto simp: smtp_step_def smtp_steps smtp_keep_def Let_def dest!: push_arg_result(2)
        split: option.splits if_splits)+

lemma smtp_step_answering:
  assumes "smtp_answering x"
  shows "smtp_step up room mem p x = Next x' \<Longrightarrow> smtp_answering x'"
    and "smtp_step up room mem p x = Stop r x' \<Longrightarrow>
      m_command (snd x') = NGX_SMTP_AUTH \<and> (r = M_done \<longrightarrow> m_args (snd x') \<noteq> [])"
  using assms by (cases x; cases "fst x";
      auto simp: smtp_answering_def smtp_step_def smtp_steps dest: push_arg_result(1,3)
        split: option.splits if_splits)+

lemma after_cmd_first: "m_args s = [] \<Longrightarrow> m_arg_start s = None \<Longrightarrow> after_cmd (s\<lparr>m_command := k, m_cmd := \<lparr>ms_data = Some c, ms_len = n\<rparr>\<rparr>)"
  by (simp add: after_cmd_def)

lemma after_cmd_arg:
  "after_cmd s \<Longrightarrow> \<forall>c. ms_data (m_cmd s) = Some c \<longrightarrow> c \<le> p \<Longrightarrow> after_cmd (s\<lparr>m_arg_start := Some p\<rparr>)"
  "after_cmd (s\<lparr>m_arg_end := e\<rparr>) = after_cmd s"
  by (auto simp: after_cmd_def)

lemma smtp_in_line_command:
  assumes "m_cmd_start s = Some c" "c \<le> p" "m_arg_start s = None" "m_args s = []"
  shows "smtp_in_command up mem p ch s = Next x' \<Longrightarrow> smtp_in_line (Suc p) x'"
    "smtp_in_command up mem p ch s = Stop M_done x' \<Longrightarrow> after_cmd (snd x')"
  using assms by (auto simp: smtp_in_command_def smtp_in_line_def Let_def after_cmd_first split: if_splits option.splits)

lemma smtp_step_in_line:
  assumes "smtp_inv p x" "smtp_in_line p x"
  shows "smtp_step up room mem p x = Next x' \<Longrightarrow> smtp_in_line (Suc p) x'"
    and "smtp_step up room mem p x = Stop M_done x' \<Longrightarrow> after_cmd (snd x')"
proof -
  obtain st s where x: "x = (st, s)" by (cases x)
  have le: "\<forall>c. ms_data (m_cmd s) = Some c \<longrightarrow> c \<le> Suc p" if "st \<in> {smtp_sw_spaces_before_argument, smtp_sw_argument, smtp_sw_almost_done}"
    using assms(2) that by (auto simp: x smtp_in_line_def)
  have "(smtp_step up room mem p x = Next x' \<longrightarrow> smtp_in_line (Suc p) x') \<and>
      (smtp_step up room mem p x = Stop M_done x' \<longrightarrow> after_cmd (snd x'))"
  proof (cases st)
    case smtp_sw_start
    then show ?thesis using assms smtp_in_line_command [of "s\<lparr>m_cmd_start := Some p\<rparr>" p p up mem "mem ! p" x']
      by (simp add: x smtp_step_def smtp_inv.simps smtp_in_line_def [of p])
  next
    case smtp_sw_command
    then show ?thesis using assms smtp_in_line_command [of s _ p up mem "mem ! p" x']
      by (auto simp: x smtp_step_def smtp_inv.simps smtp_in_line_def [of p])
  next
    case smtp_sw_invalid
    then show ?thesis by (simp add: x smtp_step_def)
  next
    case smtp_sw_spaces_before_argument
    then show ?thesis using assms le
      by (auto simp: x smtp_step_def smtp_spaces_def smtp_in_line_def after_cmd_arg(2) intro: after_cmd_arg(1) split: if_splits)
  next
    case smtp_sw_argument
    then have "m_arg_start s \<noteq> None" "after_cmd s" using assms by (auto simp: x smtp_inv.simps smtp_in_line_def)
    with smtp_sw_argument assms le show ?thesis
      by (auto simp: x smtp_step_def smtp_argument_def smtp_in_line_def push_arg_result(4) intro: push_arg_result(5)
          split: if_splits option.splits)
  next
    case smtp_sw_almost_done
    then show ?thesis using assms by (auto simp: x smtp_step_def smtp_almost_done_def smtp_in_line_def split: if_splits)
  qed
  then show "smtp_step up room mem p x = Next x' \<Longrightarrow> smtp_in_line (Suc p) x'"
    and "smtp_step up room mem p x = Stop M_done x' \<Longrightarrow> after_cmd (snd x')" by simp_all
qed

interpretation smtp_run: byte_invariant "smtp_step up room" mem
    "\<lambda>p x. smtp_inv p x \<and> (if a then smtp_answering x else smtp_in_line p x) \<and> smtp_keep s (snd x)"
    "\<lambda>p r x. smtp_post p r x \<and> smtp_keep s (snd x) \<and>
       (r = M_done \<longrightarrow> (if a then m_command (snd x) = NGX_SMTP_AUTH \<and> m_args (snd x) \<noteq> [] else after_cmd (snd x)))"
  for up room mem a s
proof (unfold_locales, goal_cases)
  case (1 p x x')
  then show ?case
    using smtp_step_inv [of p x up room mem x'] smtp_step_answering(1) [of x up room mem p x']
      smtp_step_in_line(1) [of p x up room mem x']
      smtp_step_keep(1) [of up room mem p x x'] smtp_keep_trans [of s "snd x" "snd x'"] by auto
next
  case (2 p x r x')
  then show ?case
    using smtp_step_post [of p x up room mem r x'] smtp_step_answering(2) [of x up room mem p r x']
      smtp_step_in_line(2) [of p x up room mem x']
      smtp_step_keep(2) [of up room mem p x r x'] smtp_keep_trans [of s "snd x" "snd x'"] by auto
qed

definition smtp_parsed :: "bool \<Rightarrow> ngx_mail_session_t \<Rightarrow> ngx_rc \<Rightarrow> smtp_state \<Rightarrow> ngx_mail_session_t \<Rightarrow> ngx_buf_t \<Rightarrow> bool" where
  "smtp_parsed a s rc st' s' b' \<longleftrightarrow>
    buf_wf b' \<and> smtp_keep s s' \<and> args_inside (buf_mem b') s' \<and>
    rc \<in> {NGX_OK, NGX_AGAIN, NGX_ERROR, NGX_MAIL_PARSE_INVALID_COMMAND} \<and>
    (rc = NGX_AGAIN \<longrightarrow> smtp_inv (buf_pos b') (st', s') \<and>
       (if a then smtp_answering (st', s') else smtp_in_line (buf_pos b') (st', s'))) \<and>
    (rc = NGX_OK \<longrightarrow> m_arg_start s' = None \<and>
       st' = (if m_command s' = NGX_SMTP_AUTH then smtp_sw_argument else smtp_sw_start) \<and>
       (if a then m_command s' = NGX_SMTP_AUTH \<and> m_args s' \<noteq> [] else after_cmd s')) \<and>
    (rc = NGX_MAIL_PARSE_INVALID_COMMAND \<longrightarrow> m_arg_start s' = None)"

lemma smtp_skip_pos: "p \<le> lim \<Longrightarrow> smtp_skip mem p lim = (st, q) \<Longrightarrow> p \<le> q \<and> q \<le> lim"
  by (induction mem p lim rule: smtp_skip.induct) (subst (asm) (2) smtp_skip.simps, fastforce split: if_splits)

lemma smtp_parse_result:
  assumes "buf_wf b" and "smtp_inv (buf_pos b) (st, s)"
    and "if a then smtp_answering (st, s) else smtp_in_line (buf_pos b) (st, s)"
    and "ngx_mail_smtp_parse_command up room st s b = (rc, st', s', b')"
  shows "smtp_parsed a s rc st' s' b'"
proof -
  obtain p x where px: "byte_loop (smtp_step up room) (buf_mem b) (buf_pos b) (buf_last b) (st, s) = (p, x)"
    by fastforce
  have wf: "buf_pos b \<le> buf_last b" "buf_last b \<le> length (buf_mem b)" using assms(1) by (auto simp: buf_wf_def)
  have "smtp_inv (buf_pos b) (st, s) \<and> (if a then smtp_answering (st, s) else smtp_in_line (buf_pos b) (st, s)) \<and>
      smtp_keep s (snd (st, s))" using assms(2,3) by simp
  note run = smtp_run.loop_inv [OF this wf px]
  note pos = byte_loop_pos [OF px wf(1)]
  show ?thesis
  proof (cases x)
    case (Next y)
    then obtain st1 s1 where y: "y = (st1, s1)" by (cases y)
    then have eq: "rc = NGX_AGAIN" "st' = st1" "s' = s1" "b' = b\<lparr>buf_pos := p\<rparr>"
      using assms(4) px Next by (auto simp: ngx_mail_smtp_parse_command_def)
    have "args_inside (buf_mem b) s1"
      using run pos Next y wf by (auto simp: smtp_inv.simps args_inside_def intro!: exI [of _ p])
    with eq run pos Next y wf show ?thesis by (auto simp: smtp_parsed_def buf_wf_def)
  next
    case (Stop r y)
    then obtain st1 s1 where y: "y = (st1, s1)" by (cases y)
    have below: "args_below (buf_last b) (m_args s1)"
      using run pos Stop y by (auto simp: smtp_post_def intro: args_below_mono)
    then have inside: "args_inside (buf_mem b) s1" using wf by (auto simp: args_inside_def)
    have keep: "smtp_keep s s1" using run Stop y by simp
    show ?thesis
    proof (cases "r = M_done")
      case True
      then have none: "m_arg_start s1 = None" using run Stop y by (simp add: smtp_post_def)
      then have "rc = NGX_OK" "s' = s1" "b' = b\<lparr>buf_pos := p + 1\<rparr>"
          "st' = (if m_command s1 = NGX_SMTP_AUTH then smtp_sw_argument else smtp_sw_start)"
        using assms(4) px Stop y True by (auto simp: ngx_mail_smtp_parse_command_def smtp_finish_def)
      then show ?thesis
        using run pos Stop y wf inside keep none True by (auto simp: smtp_parsed_def buf_wf_def)
    next
      case False
      obtain st2 q where skip: "smtp_skip (buf_mem b) (buf_pos b) (buf_last b) = (st2, q)" by fastforce
      have q: "q \<le> buf_last b" using smtp_skip_pos [OF wf(1) skip] by simp
      have same: "smtp_keep s (s1\<lparr>m_arg_start := None\<rparr>)" "args_inside (buf_mem b) (s1\<lparr>m_arg_start := None\<rparr>)"
        using keep inside by (simp_all add: smtp_keep_def args_inside_def)
      show ?thesis
        using assms(4) px Stop y wf inside keep skip q same False
        by (cases r) (auto simp: ngx_mail_smtp_parse_command_def smtp_parsed_def buf_wf_def)
    qed
  qed
qed

definition smtp_read :: "bool \<Rightarrow> ngx_mail_session_t \<Rightarrow> ngx_rc \<Rightarrow> mail_fate \<Rightarrow> bool \<Rightarrow> smtp_state
    \<Rightarrow> ngx_mail_session_t \<Rightarrow> ngx_buf_t \<Rightarrow> bool" where
  "smtp_read a s rc fate quit st' s' b' \<longleftrightarrow> buf_wf b' \<and> smtp_keep s s' \<and>
     rc \<in> {NGX_OK, NGX_AGAIN, NGX_ERROR, NGX_MAIL_PARSE_INVALID_COMMAND} \<and>
     (fate = Fate_open \<longleftrightarrow> rc \<noteq> NGX_ERROR) \<and> (quit \<longrightarrow> rc = NGX_MAIL_PARSE_INVALID_COMMAND) \<and>
     (rc \<in> {NGX_OK, NGX_AGAIN} \<longrightarrow> smtp_parsed a s rc st' s' b') \<and>
     (rc = NGX_MAIL_PARSE_INVALID_COMMAND \<and> \<not> quit \<longrightarrow> m_arg_start s' = None)"

lemma smtp_read_result:
  assumes "buf_wf b" and "smtp_inv (buf_pos b) (st, s)"
    and "if a then smtp_answering (st, s) else smtp_in_line (buf_pos b) (st, s)"
    and "ngx_mail_read_command (ngx_mail_smtp_parse_command up room) lim ev st s b = (rc, fate, quit, st', s', b')"
  shows "smtp_read a s rc fate quit st' s' b'"
  using assms(4,1)
proof (cases rule: read_command_cases)
  case quiet
  have "args_inside (buf_mem b) s"
    using assms(1,2) by (auto simp: args_inside_def smtp_inv.simps buf_wf_def intro!: exI [of _ "buf_pos b"])
  with quiet assms(1-3) show ?thesis by (auto simp: smtp_read_def smtp_parsed_def)
next
  case (parsed b1 rc1)
  have "smtp_parsed a s rc1 st' s' b'"
    by (rule smtp_parse_result [OF parsed(1) _ _ parsed(3)]) (use assms(2,3) parsed(2) in auto)
  with parsed(4) show ?thesis
    by (auto simp: smtp_read_def smtp_parsed_def read_outcome_def split: if_splits)
qed

subsection \<open>What the commands keep\<close>

definition smtp_challenge :: "smtp_mail_state \<Rightarrow> bool" where
  "smtp_challenge m \<longleftrightarrow> m \<noteq> ngx_smtp_start"

text \<open>A session as the parser left it for a command.\<close>

definition smtp_parsed_session :: "smtp_session \<Rightarrow> bool" where
  "smtp_parsed_session S \<longleftrightarrow> x_out S \<noteq> None \<and> args_inside (buf_mem (x_b S)) (x_s S) \<and>
     x_state S = (if m_command (x_s S) = NGX_SMTP_AUTH then smtp_sw_argument else smtp_sw_start) \<and>
     (if smtp_challenge (x_mail_state S) then m_command (x_s S) = NGX_SMTP_AUTH \<and> m_args (x_s S) \<noteq> []
      else after_cmd (x_s S))"

text \<open>What the authentication commands leave alone.\<close>

definition smtp_frame :: "ngx_mail_session_t \<Rightarrow> ngx_mail_session_t \<Rightarrow> bool" where
  "smtp_frame s s' \<longleftrightarrow> m_smtp_helo s' = m_smtp_helo s \<and> m_smtp_from s' = m_smtp_from s \<and> m_smtp_to s' = m_smtp_to s \<and>
     (m_auth_method s' = m_auth_method s \<or> m_auth_method s' = NGX_MAIL_AUTH_CRAM_MD5)"

lemma smtp_frame_simps: "smtp_frame s s" "smtp_frame s (s\<lparr>m_login := h\<rparr>)" "smtp_frame s (s\<lparr>m_passwd := h\<rparr>)"
  "smtp_frame s (s\<lparr>m_login := h, m_login := l, m_passwd := k\<rparr>)" "smtp_frame (s\<lparr>m_login := h\<rparr>) s' = smtp_frame s s'"
  by (simp_all add: smtp_frame_def)

lemma split_plain_smtp: "split_plain w s = (rc, s') \<Longrightarrow> smtp_frame s s'"
proof -
  let ?p = "drop 1 (dropWhile (\<lambda>c. c \<noteq> NUL) w)"
  have "smtp_frame s (snd (split_plain w s))"
    by (cases "?p = []"; cases "dropWhile (\<lambda>c. c \<noteq> NUL) ?p = []")
      (simp_all only: split_plain_def Let_def if_True if_False snd_conv simp_thms smtp_frame_simps)
  then show "split_plain w s = (rc, s') \<Longrightarrow> smtp_frame s s'" by simp
qed

lemma split_cram_smtp: "smtp_frame s (snd (split_cram s))"
  by (simp add: split_cram_def smtp_frame_def Let_def split: list.split)

lemma auth_smtp_frame:
  "ngx_mail_auth_plain env mem s n = Some (rc, s') \<Longrightarrow> smtp_frame s s'"
  "ngx_mail_auth_login_username env mem s n = Some (rc, s') \<Longrightarrow> smtp_frame s s'"
  "ngx_mail_auth_login_password env mem s = Some (rc, s') \<Longrightarrow> smtp_frame s s'"
  "ngx_mail_auth_cram_md5 env mem s = Some (rc, s') \<Longrightarrow> smtp_frame s s'"
proof -
  show "ngx_mail_auth_plain env mem s n = Some (rc, s') \<Longrightarrow> smtp_frame s s'"
    using split_plain_smtp by (auto simp: ngx_mail_auth_plain_def smtp_frame_simps split: Option.bind_splits sum.splits)
  show "ngx_mail_auth_cram_md5 env mem s = Some (rc, s') \<Longrightarrow> smtp_frame s s'"
  proof -
    assume *: "ngx_mail_auth_cram_md5 env mem s = Some (rc, s')"
    then obtain a where a: "arg_at mem s 0 = Some a" by (auto simp: ngx_mail_auth_cram_md5_def split: Option.bind_splits)
    show ?thesis
    proof (cases "decode_into env a (m_login s)")
      case (Inl x)
      with * a show ?thesis by (cases x) (auto simp: ngx_mail_auth_cram_md5_def smtp_frame_def)
    next
      case (Inr h)
      with * a have "split_cram (s\<lparr>m_login := h\<rparr>) = (rc, s')" by (simp add: ngx_mail_auth_cram_md5_def)
      with split_cram_smtp [of "s\<lparr>m_login := h\<rparr>"] show ?thesis by (simp add: smtp_frame_def)
    qed
  qed
qed (auto simp: ngx_mail_auth_login_username_def ngx_mail_auth_login_password_def smtp_frame_def
    split: Option.bind_splits sum.splits)

lemma auth_parse_smtp:
  assumes "ngx_mail_auth_parse env conf tls mem s = Some (m, s')"
  shows "smtp_frame s s'"
  using assms auth_smtp_frame(1) [of env mem s 1]
  by (auto simp: ngx_mail_auth_parse_def Let_def smtp_frame_def split: if_splits Option.bind_splits)

text \<open>
  A command keeps the arguments and, but for \<open>STARTTLS\<close>, its place in the buffer; it asks for an answer only in AUTH,
  and only an accepted MAIL makes a sender.
\<close>

definition smtp_kept :: "mail_conf \<Rightarrow> smtp_session \<Rightarrow> ngx_rc \<Rightarrow> smtp_session \<Rightarrow> bool" where
  "smtp_kept conf S rc T \<longleftrightarrow> mail_frame (x_s S) (x_s T) \<and> x_tls T = x_tls S \<and> x_out T \<noteq> None \<and>
     rc \<in> {NGX_OK, NGX_DONE, NGX_ERROR, NGX_MAIL_PARSE_INVALID_COMMAND} \<and>
     (x_state T = x_state S \<or> x_state T = smtp_sw_start) \<and> length (buf_mem (x_b T)) = length (buf_mem (x_b S)) \<and>
     (x_handler T = x_handler S \<and> buf_pos (x_b T) = buf_pos (x_b S) \<and> buf_last (x_b T) = buf_last (x_b S) \<or>
      rc = NGX_OK \<and> x_handler T = HS_starttls \<and> buf_pos (x_b T) = 0 \<and> buf_last (x_b T) = 0 \<and>
        m_smtp_helo (x_s T) = no_hs \<and> m_smtp_from (x_s T) = no_hs \<and> m_smtp_to (x_s T) = no_hs) \<and>
     (rc \<noteq> NGX_OK \<longrightarrow> x_quit T = x_quit S) \<and>
     (rc = NGX_OK \<longrightarrow> (if smtp_challenge (x_mail_state T)
        then x_handler T = x_handler S \<and> m_command (x_s T) = NGX_SMTP_AUTH \<and> x_state T = smtp_sw_argument
        else x_state T = smtp_sw_start)) \<and>
     (hs_len (m_smtp_from (x_s T)) \<noteq> 0 \<longrightarrow>
        hs_len (m_smtp_from (x_s S)) \<noteq> 0 \<or> auth_enabled conf NGX_MAIL_AUTH_NONE_ENABLED) \<and>
     (m_auth_method (x_s T) = m_auth_method (x_s S) \<or> m_auth_method (x_s T) = NGX_MAIL_AUTH_CRAM_MD5 \<or>
      rc = NGX_DONE \<and> m_auth_method (x_s T) = NGX_MAIL_AUTH_NONE \<and> hs_len (m_smtp_from (x_s T)) \<noteq> 0)"

definition smtp_does :: "mail_conf \<Rightarrow> smtp_session \<Rightarrow> smtp_result \<Rightarrow> bool" where
  "smtp_does conf S r \<longleftrightarrow> (case r of None \<Rightarrow> False | Some (rc, T) \<Rightarrow> smtp_kept conf S rc T)"

lemma smtp_does_Some [simp]: "smtp_does conf S (Some (rc, T)) \<longleftrightarrow> smtp_kept conf S rc T"
  by (simp add: smtp_does_def)

lemma smtp_cmd_bytes_exist:
  assumes "args_inside mem s" and "after_cmd s" and "m_args s \<noteq> []"
  shows "\<exists>w. smtp_cmd_bytes mem s = Some w"
proof -
  obtain p where p: "p \<le> length mem" "args_below p (m_args s)" using assms(1) by (auto simp: args_inside_def)
  obtain c where c: "ms_data (m_cmd s) = Some c" "\<forall>a \<in> set (m_args s). \<exists>d. ms_data a = Some d \<and> c \<le> d"
    using assms(2) by (auto simp: after_cmd_def)
  have "last (m_args s) \<in> set (m_args s)" using assms(3) by simp
  then obtain d where d: "ms_data (last (m_args s)) = Some d" "c \<le> d" "d + unat (ms_len (last (m_args s))) \<le> p"
    using c(2) p(2) unfolding args_below_def by force
  then show ?thesis using c(1) p(1) by (simp add: smtp_cmd_bytes_def Let_def)
qed

lemmas smtp_parsed_simps = smtp_parsed_session_def mail_frame_def smtp_challenge_def

lemma smtp_helo_kept:
  assumes "smtp_parsed_session S" and "x_mail_state S = ngx_smtp_start" and "m_command (x_s S) \<noteq> NGX_SMTP_AUTH"
  shows "smtp_does conf S (ngx_mail_smtp_helo env conf S)"
proof (cases "length (m_args (x_s S)) = 1")
  case True
  then obtain a where "x_arg S 0 = Some a"
    using assms(1) arg_at_inside [of "buf_mem (x_b S)" "x_s S" 0] by (auto simp: smtp_parsed_session_def)
  with True assms show ?thesis
    by (auto simp: ngx_mail_smtp_helo_def smtp_kept_def smtp_parsed_simps Let_def no_hs_def split: sum.split)
next
  case False
  with assms show ?thesis by (auto simp: ngx_mail_smtp_helo_def smtp_kept_def smtp_parsed_simps)
qed

lemma smtp_log_rejected: "buf_pos (ngx_mail_smtp_log_rejected_command sc b) = buf_pos b"
  "buf_last (ngx_mail_smtp_log_rejected_command sc b) = buf_last b"
  "length (buf_mem (ngx_mail_smtp_log_rejected_command sc b)) = length (buf_mem b)"
  by (simp_all add: ngx_mail_smtp_log_rejected_command_def min_def)

lemma smtp_mail_kept:
  assumes "smtp_parsed_session S" and "x_mail_state S = ngx_smtp_start" and "m_command (x_s S) \<noteq> NGX_SMTP_AUTH"
  shows "smtp_does conf S (ngx_mail_smtp_mail env conf sc S)"
proof (cases "m_args (x_s S) = []")
  case True
  with assms show ?thesis
    by (auto simp: ngx_mail_smtp_mail_def smtp_kept_def smtp_parsed_simps smtp_log_rejected)
next
  case False
  then obtain w where "smtp_cmd_bytes (buf_mem (x_b S)) (x_s S) = Some w"
    using assms(1,2) smtp_cmd_bytes_exist by (auto simp: smtp_parsed_simps)
  with False assms show ?thesis
    by (auto simp: ngx_mail_smtp_mail_def smtp_kept_def smtp_parsed_simps smtp_log_rejected split: sum.split)
qed

lemma smtp_rcpt_kept:
  assumes "smtp_parsed_session S" and "x_mail_state S = ngx_smtp_start" and "m_command (x_s S) \<noteq> NGX_SMTP_AUTH"
  shows "smtp_does conf S (ngx_mail_smtp_rcpt env S)"
proof (cases "m_args (x_s S) = []")
  case True
  with assms show ?thesis by (auto simp: ngx_mail_smtp_rcpt_def smtp_kept_def smtp_parsed_simps)
next
  case False
  then obtain w where "smtp_cmd_bytes (buf_mem (x_b S)) (x_s S) = Some w"
    using assms(1,2) smtp_cmd_bytes_exist by (auto simp: smtp_parsed_simps)
  with False assms show ?thesis
    by (auto simp: ngx_mail_smtp_rcpt_def smtp_kept_def smtp_parsed_simps split: sum.split)
qed

lemma smtp_auth_kept:
  assumes "smtp_parsed_session S" and "m_command (x_s S) = NGX_SMTP_AUTH" and "x_mail_state S = ngx_smtp_start"
  shows "smtp_does conf S (ngx_mail_smtp_auth env conf salt S)"
proof (cases "ngx_mail_starttls_only conf (x_tls S) \<or> m_args (x_s S) = []")
  case True
  with assms show ?thesis by (auto simp: ngx_mail_smtp_auth_def smtp_kept_def smtp_parsed_simps)
next
  case False
  have inside: "args_inside (buf_mem (x_b S)) (x_s S)" and st: "x_state S = smtp_sw_argument"
    using assms(1,2) by (auto simp: smtp_parsed_session_def)
  obtain m s where m: "ngx_mail_auth_parse env conf (x_tls S) (buf_mem (x_b S)) (x_s S) = Some (m, s)"
      "mail_frame (x_s S) s"
      "case m of MA_rc rc \<Rightarrow> rc \<in> {NGX_DONE, NGX_ERROR, NGX_MAIL_PARSE_INVALID_COMMAND}
       | MA_LOGIN_USERNAME \<Rightarrow> length (m_args (x_s S)) = 2 | _ \<Rightarrow> length (m_args (x_s S)) = 1"
    using auth_parse_result [OF inside] by blast
  have fr: "smtp_frame (x_s S) s" by (rule auth_parse_smtp [OF m(1)])
  have cmd: "m_command s = NGX_SMTP_AUTH" "m_args s = m_args (x_s S)" "m_arg_start s = m_arg_start (x_s S)"
    using m(2) assms(2) by (simp_all add: mail_frame_def)
  show ?thesis
  proof (cases "m = MA_LOGIN_USERNAME")
    case True
    have "args_inside (buf_mem (x_b S)) s" "1 < length (m_args s)"
      using inside m(3) True cmd by (auto simp: args_inside_def)
    from auth_login_username_result [OF this, of env] obtain rc t where
      t: "ngx_mail_auth_login_username env (buf_mem (x_b S)) s 1 = Some (rc, t)" "mail_frame s t"
      "rc \<in> {NGX_OK, NGX_ERROR, NGX_MAIL_PARSE_INVALID_COMMAND}" by blast
    with auth_smtp_frame(2) [OF t(1)] fr False m(1) True cmd st assms(1,2) show ?thesis
      by (auto simp: ngx_mail_smtp_auth_def smtp_kept_def smtp_frame_def smtp_parsed_simps Let_def)
  next
    case other: False
    with False m fr cmd st assms show ?thesis
      by (cases m) (auto simp: ngx_mail_smtp_auth_def smtp_kept_def smtp_frame_def smtp_parsed_simps
          smtp_cram_salt_def Let_def split: option.split)
  qed
qed

lemma smtp_dispatch_kept:
  assumes "smtp_parsed_session S"
  shows "smtp_does conf S (smtp_dispatch env conf sc salt (x_mail_state S) S)"
proof (cases "x_mail_state S = ngx_smtp_start")
  case start: True
  have k0: "m_command (x_s S) \<noteq> NGX_SMTP_AUTH \<Longrightarrow> smtp_kept conf S NGX_OK S"
      "m_command (x_s S) \<noteq> NGX_SMTP_AUTH \<Longrightarrow> smtp_kept conf S NGX_OK (S\<lparr>x_quit := True, x_out := Some smtp_bye\<rparr>)"
      "m_command (x_s S) \<noteq> NGX_SMTP_AUTH \<Longrightarrow> smtp_kept conf S NGX_OK
        (S\<lparr>x_s := (x_s S)\<lparr>m_smtp_from := no_hs, m_smtp_to := no_hs\<rparr>, x_out := Some smtp_ok\<rparr>)"
      "smtp_kept conf S NGX_MAIL_PARSE_INVALID_COMMAND S"
      "smtp_kept conf S NGX_MAIL_PARSE_INVALID_COMMAND (S\<lparr>x_out := Some r\<rparr>)"
      "m_command (x_s S) \<noteq> NGX_SMTP_AUTH \<Longrightarrow> smtp_kept conf S NGX_OK
        (S\<lparr>x_s := (x_s S)\<lparr>m_smtp_helo := no_hs, m_smtp_from := no_hs, m_smtp_to := no_hs\<rparr>,
           x_b := (x_b S)\<lparr>buf_pos := 0, buf_last := 0\<rparr>, x_handler := HS_starttls, x_out := Some r\<rparr>)" for r
    using assms start by (auto simp: smtp_kept_def smtp_parsed_simps no_hs_def)
  show ?thesis
  proof (cases "m_command (x_s S) = NGX_SMTP_AUTH")
    case True
    with smtp_auth_kept [OF assms True start] start show ?thesis
      by (simp add: smtp_start_command_def smtp_codes)
  next
    case False
    note k = k0(1-3) [OF False] k0(4,5) k0(6) [OF False]
    show ?thesis
      using smtp_helo_kept [OF assms start False, of conf env] smtp_mail_kept [OF assms start False, of conf env sc]
        smtp_rcpt_kept [OF assms start False, of conf env] k False
      by (simp add: start smtp_start_command_def ngx_mail_smtp_rset_def ngx_mail_smtp_starttls_def Let_def)
  qed
next
  case False
  then have c: "m_command (x_s S) = NGX_SMTP_AUTH" "m_args (x_s S) \<noteq> []" "0 < length (m_args (x_s S))"
      "args_inside (buf_mem (x_b S)) (x_s S)" "x_state S = smtp_sw_argument" "x_out S \<noteq> None"
    using assms by (auto simp: smtp_parsed_simps)
  show ?thesis
  proof (cases "x_mail_state S")
    case ngx_smtp_start
    with False show ?thesis by simp
  next
    case ngx_smtp_auth_login_username
    obtain rc s where "ngx_mail_auth_login_username env (buf_mem (x_b S)) (x_s S) 0 = Some (rc, s)"
      "mail_frame (x_s S) s" "rc \<in> {NGX_OK, NGX_ERROR, NGX_MAIL_PARSE_INVALID_COMMAND}"
      using auth_login_username_result [OF c(4,3), of env] by blast
    with auth_smtp_frame(2) ngx_smtp_auth_login_username c show ?thesis
      by (fastforce simp: smtp_kept_def smtp_frame_def mail_frame_def smtp_challenge_def)
  next
    case ngx_smtp_auth_login_password
    obtain rc s where "ngx_mail_auth_login_password env (buf_mem (x_b S)) (x_s S) = Some (rc, s)"
      "mail_frame (x_s S) s" "rc \<in> {NGX_DONE, NGX_ERROR, NGX_MAIL_PARSE_INVALID_COMMAND}"
      using auth_login_password_result [OF c(4,2), of env] by blast
    with auth_smtp_frame(3) ngx_smtp_auth_login_password c show ?thesis
      by (fastforce simp: smtp_kept_def smtp_frame_def mail_frame_def smtp_challenge_def)
  next
    case ngx_smtp_auth_plain
    obtain rc s where "ngx_mail_auth_plain env (buf_mem (x_b S)) (x_s S) 0 = Some (rc, s)"
      "mail_frame (x_s S) s" "rc \<in> {NGX_DONE, NGX_ERROR, NGX_MAIL_PARSE_INVALID_COMMAND}"
      using auth_plain_result [OF c(4,3), of env] by blast
    with auth_smtp_frame(1) ngx_smtp_auth_plain c show ?thesis
      by (fastforce simp: smtp_kept_def smtp_frame_def mail_frame_def smtp_challenge_def)
  next
    case ngx_smtp_auth_cram_md5
    obtain rc s where "ngx_mail_auth_cram_md5 env (buf_mem (x_b S)) (x_s S) = Some (rc, s)"
      "mail_frame (x_s S) s" "rc \<in> {NGX_DONE, NGX_ERROR, NGX_MAIL_PARSE_INVALID_COMMAND}"
      using auth_cram_md5_result [OF c(4,2), of env] by blast
    with auth_smtp_frame(4) ngx_smtp_auth_cram_md5 c show ?thesis
      by (fastforce simp: smtp_kept_def smtp_frame_def mail_frame_def smtp_challenge_def)
  qed
qed

text \<open>Over an unencrypted connection that must be encrypted first, no command takes credentials.\<close>

lemma smtp_dispatch_only:
  assumes "ngx_mail_starttls_only conf (x_tls S)" and "x_mail_state S = ngx_smtp_start"
    and "smtp_dispatch env conf sc salt (x_mail_state S) S = Some (rc, T)"
  shows "x_mail_state T = ngx_smtp_start \<and> m_login (x_s T) = m_login (x_s S) \<and> m_passwd (x_s T) = m_passwd (x_s S) \<and>
    (rc = NGX_DONE \<longrightarrow> m_auth_method (x_s T) = NGX_MAIL_AUTH_NONE)"
proof -
  have "smtp_start_command env conf sc salt S = Some (rc, T)" using assms(3) by (simp add: assms(2))
  with assms(1,2) show ?thesis
    by (auto simp: smtp_start_command_def ngx_mail_smtp_helo_def ngx_mail_smtp_auth_def ngx_mail_smtp_mail_def
        ngx_mail_smtp_rcpt_def ngx_mail_smtp_rset_def ngx_mail_smtp_starttls_def Let_def
        split: if_splits Option.bind_splits sum.splits)
qed

subsection \<open>The invariant of a session\<close>

definition smtp_sane :: "smtp_session \<Rightarrow> bool" where
  "smtp_sane S \<longleftrightarrow> x_handler S = HS_closed \<or>
     (buf_wf (x_b S) \<and> (x_quit S \<longrightarrow> x_out S \<noteq> None) \<and>
      (\<not> x_quit S \<longrightarrow> smtp_inv (buf_pos (x_b S)) (x_state S, x_s S) \<and>
         (if x_handler S = HS_auth_state \<and> smtp_challenge (x_mail_state S) then smtp_answering (x_state S, x_s S)
          else smtp_in_line (buf_pos (x_b S)) (x_state S, x_s S)) \<and>
         (x_handler S \<noteq> HS_auth_state \<longrightarrow> x_state S = smtp_sw_start)))"

text \<open>What the handler leaves after a command that was carried out.\<close>

lemma smtp_inv_reset: "smtp_inv p (smtp_sw_start, s\<lparr>m_args := []\<rparr>) \<longleftrightarrow> m_arg_start s = None"
  "smtp_inv p (smtp_sw_argument, s\<lparr>m_args := [], m_arg_start := Some p\<rparr>)"
  by (simp_all add: smtp_inv.simps args_below_def)

lemma smtp_in_line_reset: "smtp_in_line p (smtp_sw_start, s\<lparr>m_args := []\<rparr>)"
  by (simp add: smtp_in_line_def)

lemma buf_rewind_wf: "buf_wf b \<Longrightarrow> buf_wf (buf_rewind b)"
  by (simp add: buf_rewind_def buf_wf_def)

lemma smtp_answer_sane:
  assumes "smtp_kept conf S rc T" and "buf_wf (x_b S)" and "m_arg_start (x_s S) = None" and "\<not> x_quit S"
    and "x_handler S = HS_auth_state"
  shows "smtp_sane (smtp_answer rc T)"
proof -
  have k: "m_arg_start (x_s T) = None" "m_command (x_s T) = m_command (x_s S)" "x_out T \<noteq> None"
      "rc \<in> {NGX_OK, NGX_DONE, NGX_ERROR, NGX_MAIL_PARSE_INVALID_COMMAND}"
      "rc \<noteq> NGX_OK \<longrightarrow> x_quit T = False \<and> x_handler T = HS_auth_state"
    using assms(1,3-5) unfolding smtp_kept_def mail_frame_def by (simp, simp, simp, blast, metis)
  have wf: "buf_wf (x_b T)" using assms(1,2) unfolding smtp_kept_def buf_wf_def by (elim conjE disjE) simp_all
  then have wf2: "buf_wf (buf_rewind (x_b T))" by (rule buf_rewind_wf)
  show ?thesis
  proof (cases "rc = NGX_OK")
    case True
    then have "if smtp_challenge (x_mail_state T)
        then x_handler T = HS_auth_state \<and> m_command (x_s T) = NGX_SMTP_AUTH \<and> x_state T = smtp_sw_argument
        else x_state T = smtp_sw_start"
      using assms(1,5) by (simp add: smtp_kept_def)
    then show ?thesis
      using True k wf2
      by (auto simp: smtp_answer_def smtp_reset_def smtp_sane_def smtp_inv_reset smtp_in_line_reset smtp_answering_def
          Let_def split: if_splits)
  next
    case False
    with k wf wf2 show ?thesis
      by (auto simp: smtp_answer_def smtp_reset_def smtp_hand_over_def smtp_internal_error_def smtp_sane_def
          smtp_inv_reset smtp_in_line_reset smtp_challenge_def Let_def)
  qed
qed

text \<open>The ways a read event can go.\<close>

lemma smtp_auth_state_cases:
  assumes "smtp_sane S" and "x_handler S = HS_auth_state"
  obtains (busy) "x_out S \<noteq> None" "ngx_mail_smtp_auth_state env conf sc salt lim ev S = Some (S\<lparr>x_blocked := True\<rparr>)"
    | (stays) rc fate quit st s b where "smtp_read (smtp_challenge (x_mail_state S)) (x_s S) rc fate quit st s b"
      "rc = NGX_AGAIN \<or> rc = NGX_ERROR" "x_out S = None"
      "ngx_mail_smtp_auth_state env conf sc salt lim ev S =
        Some (smtp_fate fate (S\<lparr>x_blocked := False, x_state := st, x_s := s, x_b := b, x_quit := quit\<rparr>))"
    | (invalid) fate quit st s b where
      "smtp_read (smtp_challenge (x_mail_state S)) (x_s S) NGX_MAIL_PARSE_INVALID_COMMAND fate quit st s b"
      "ngx_mail_smtp_auth_state env conf sc salt lim ev S = Some (smtp_answer NGX_MAIL_PARSE_INVALID_COMMAND
        (S\<lparr>x_blocked := False, x_state := st, x_s := s, x_b := b, x_quit := quit, x_out := Some smtp_ok\<rparr>))"
    | (carried_out) st s b T rc U where
      "T = S\<lparr>x_blocked := False, x_state := st, x_s := s, x_b := b, x_quit := False, x_out := Some smtp_ok\<rparr>"
      "smtp_keep (x_s S) s" "buf_wf b" "m_arg_start s = None"
      "smtp_dispatch env conf sc salt (x_mail_state T) T = Some (rc, U)" "smtp_kept conf T rc U"
      "ngx_mail_smtp_auth_state env conf sc salt lim ev S = Some (smtp_answer rc U)"
proof (cases "x_out S = None")
  case False
  then have "ngx_mail_smtp_auth_state env conf sc salt lim ev S = Some (S\<lparr>x_blocked := True\<rparr>)"
    by (simp add: ngx_mail_smtp_auth_state_def)
  with False show ?thesis by (rule busy)
next
  case True
  with assms have S: "buf_wf (x_b S)" "x_quit S = False" "smtp_inv (buf_pos (x_b S)) (x_state S, x_s S)"
      "if smtp_challenge (x_mail_state S) then smtp_answering (x_state S, x_s S)
       else smtp_in_line (buf_pos (x_b S)) (x_state S, x_s S)"
    by (auto simp: smtp_sane_def)
  obtain rc fate quit st s b where r: "ngx_mail_read_command (ngx_mail_smtp_parse_command (env_toupper env) (env_room env))
      lim ev (x_state S) (x_s S) (x_b S) = (rc, fate, quit, st, s, b)"
    by (metis surj_pair)
  note read = smtp_read_result [OF S(1,3,4) r]
  let ?S = "S\<lparr>x_blocked := False, x_state := st, x_s := s, x_b := b, x_quit := quit\<rparr>"
  let ?T = "?S\<lparr>x_out := Some smtp_ok\<rparr>"
  have eq: "ngx_mail_smtp_auth_state env conf sc salt lim ev S =
      (if rc = NGX_AGAIN \<or> rc = NGX_ERROR then Some (smtp_fate fate ?S)
       else if rc = NGX_OK
       then map_option (\<lambda>(rc, S). smtp_answer rc S) (smtp_dispatch env conf sc salt (x_mail_state ?T) ?T)
       else Some (smtp_answer rc ?T))"
    by (simp add: ngx_mail_smtp_auth_state_def True r Let_def S(2))
  consider "rc = NGX_AGAIN \<or> rc = NGX_ERROR" | "rc = NGX_MAIL_PARSE_INVALID_COMMAND" | "rc = NGX_OK"
    using read by (auto simp: smtp_read_def)
  then show ?thesis
  proof cases
    case 1
    with eq show ?thesis by (intro stays [OF read 1 True]) simp
  next
    case 2
    show ?thesis by (rule invalid [OF read [unfolded 2]]) (simp add: eq 2)
  next
    case 3
    then have p: "smtp_parsed (smtp_challenge (x_mail_state S)) (x_s S) NGX_OK st s b" "quit = False"
      using read by (auto simp: smtp_read_def)
    then have ok: "smtp_keep (x_s S) s" "buf_wf b" "m_arg_start s = None" by (auto simp: smtp_parsed_def)
    have "smtp_parsed_session ?T" using p by (auto simp: smtp_parsed_session_def smtp_parsed_def)
    from smtp_dispatch_kept [OF this, of conf env sc salt] obtain rc2 U where
      U: "smtp_dispatch env conf sc salt (x_mail_state ?T) ?T = Some (rc2, U)" "smtp_kept conf ?T rc2 U"
      by (auto simp: smtp_does_def split: option.splits)
    show ?thesis
      by (rule carried_out [OF _ ok U]) (use p(2) U(1) in \<open>simp_all add: eq 3\<close>)
  qed
qed

lemma smtp_invalid_answer:
  "smtp_answer NGX_MAIL_PARSE_INVALID_COMMAND S = S\<lparr>x_blocked := x_blocked S \<or> buf_pos (x_b S) < buf_last (x_b S),
     x_mail_state := ngx_smtp_start, x_state := smtp_sw_start, x_out := Some smtp_invalid_command,
     x_s := (x_s S)\<lparr>m_args := []\<rparr>, x_b := buf_rewind (x_b S)\<rparr>"
  by (simp add: smtp_answer_def smtp_reset_def Let_def)

lemma smtp_auth_state_sane:
  assumes "smtp_sane S" and "x_handler S = HS_auth_state"
  shows "\<exists>T. ngx_mail_smtp_auth_state env conf sc salt lim ev S = Some T \<and> smtp_sane T"
  using assms
proof (cases rule: smtp_auth_state_cases [where env = env and conf = conf and sc = sc and salt = salt and lim = lim and ev = ev])
  case busy
  with assms show ?thesis by (auto simp: smtp_sane_def)
next
  case (stays rc fate quit st s b)
  have "smtp_sane (smtp_fate fate (S\<lparr>x_blocked := False, x_state := st, x_s := s, x_b := b, x_quit := quit\<rparr>))"
  proof (cases fate)
    case Fate_open
    then have "rc = NGX_AGAIN" "quit = False" using stays(1,2) by (auto simp: smtp_read_def)
    then have "smtp_parsed (smtp_challenge (x_mail_state S)) (x_s S) NGX_AGAIN st s b"
      using stays(1) by (simp add: smtp_read_def)
    with Fate_open \<open>quit = False\<close> assms(2) show ?thesis
      by (auto simp: smtp_parsed_def smtp_sane_def split: if_splits)
  next
    case Fate_internal_error
    with stays(1) show ?thesis by (simp add: smtp_sane_def smtp_internal_error_def smtp_read_def)
  qed (simp add: smtp_sane_def smtp_close_def)
  with stays(4) show ?thesis by simp
next
  case (invalid fate quit st s b)
  then have "buf_wf (buf_rewind b)" "\<not> quit \<longrightarrow> m_arg_start s = None"
    by (auto simp: smtp_read_def intro: buf_rewind_wf)
  then have "smtp_sane (smtp_answer NGX_MAIL_PARSE_INVALID_COMMAND
      (S\<lparr>x_blocked := False, x_state := st, x_s := s, x_b := b, x_quit := quit, x_out := Some smtp_ok\<rparr>))"
    by (simp add: smtp_invalid_answer smtp_sane_def smtp_challenge_def smtp_inv_reset smtp_in_line_reset)
  with invalid(2) show ?thesis by simp
next
  case (carried_out st s b T rc U)
  have "smtp_sane (smtp_answer rc U)"
    by (rule smtp_answer_sane [OF carried_out(6)]) (use carried_out assms(2) in simp_all)
  with carried_out(7) show ?thesis by simp
qed

text \<open>Nothing of the plain text is kept outside the read handler: before the first command, and after \<open>STARTTLS\<close>.\<close>

definition smtp_fresh :: "smtp_session \<Rightarrow> bool" where
  "smtp_fresh S \<longleftrightarrow> (x_handler S \<notin> {HS_auth_state, HS_auth_http, HS_closed} \<longrightarrow>
     buf_pos (x_b S) = 0 \<and> buf_last (x_b S) = 0 \<and> m_args (x_s S) = [] \<and>
     m_smtp_helo (x_s S) = no_hs \<and> m_smtp_from (x_s S) = no_hs \<and> m_smtp_to (x_s S) = no_hs)"

lemma smtp_auth_state_fresh:
  assumes "smtp_sane S" and "x_handler S = HS_auth_state"
    and "ngx_mail_smtp_auth_state env conf sc salt lim ev S = Some S'"
  shows "smtp_fresh S'"
  using assms(1,2)
proof (cases rule: smtp_auth_state_cases [where env = env and conf = conf and sc = sc and salt = salt and lim = lim and ev = ev])
  case (stays rc fate quit st s b)
  with assms show ?thesis by (cases fate) (auto simp: smtp_fresh_def smtp_internal_error_def smtp_close_def)
next
  case (carried_out st s b T rc U)
  have S': "S' = smtp_answer rc U" using assms(3) carried_out(7) by simp
  have k: "x_handler U = HS_auth_state \<or> rc = NGX_OK \<and> buf_pos (x_b U) = 0 \<and> buf_last (x_b U) = 0 \<and>
      m_smtp_helo (x_s U) = no_hs \<and> m_smtp_from (x_s U) = no_hs \<and> m_smtp_to (x_s U) = no_hs"
    using carried_out(6) assms(2) unfolding carried_out(1) smtp_kept_def by auto
  have rewind: "buf_pos b = 0 \<Longrightarrow> buf_last b = 0 \<Longrightarrow> buf_pos (buf_rewind b) = 0 \<and> buf_last (buf_rewind b) = 0" for b
    by (simp add: buf_rewind_def)
  show ?thesis
  proof (cases "rc = NGX_OK")
    case True
    with k rewind [of "x_b U"] show ?thesis
      unfolding S' by (auto simp: smtp_answer_def smtp_reset_def smtp_fresh_def Let_def)
  next
    case False
    with k show ?thesis
      unfolding S' by (auto simp: smtp_answer_def smtp_reset_def smtp_fresh_def smtp_hand_over_def smtp_internal_error_def Let_def)
  qed
qed (use assms in \<open>auto simp: smtp_fresh_def smtp_invalid_answer\<close>)

text \<open>
  Who may be handed over: with the method \<open>NONE\<close> only a sender whose MAIL was accepted, under \<open>smtp_auth none\<close>;
  with another method nobody over a connection that must be encrypted first.
\<close>

definition smtp_trust :: "mail_conf \<Rightarrow> smtp_session \<Rightarrow> bool" where
  "smtp_trust conf S \<longleftrightarrow> x_handler S = HS_closed \<or>
     ((x_handler S \<noteq> HS_auth_http \<longrightarrow> m_auth_method (x_s S) \<noteq> NGX_MAIL_AUTH_NONE) \<and>
      (x_handler S = HS_auth_http \<and> m_auth_method (x_s S) = NGX_MAIL_AUTH_NONE \<longrightarrow> hs_len (m_smtp_from (x_s S)) \<noteq> 0) \<and>
      (hs_len (m_smtp_from (x_s S)) \<noteq> 0 \<longrightarrow> auth_enabled conf NGX_MAIL_AUTH_NONE_ENABLED) \<and>
      (ngx_mail_starttls_only conf (x_tls S) \<longrightarrow> x_mail_state S = ngx_smtp_start \<and>
         m_login (x_s S) = no_hs \<and> m_passwd (x_s S) = no_hs \<and>
         (x_handler S = HS_auth_http \<longrightarrow> m_auth_method (x_s S) = NGX_MAIL_AUTH_NONE)))"

lemma smtp_trust_keep:
  assumes "smtp_trust conf S" and "smtp_keep (x_s S) s" and "x_handler S = HS_auth_state"
  shows "smtp_trust conf (S\<lparr>x_blocked := bl, x_state := st, x_s := s, x_b := b, x_quit := quit\<rparr>)"
    "smtp_trust conf (S\<lparr>x_blocked := bl, x_state := st, x_s := s, x_b := b, x_quit := quit, x_out := out\<rparr>)"
  using assms by (simp_all add: smtp_trust_def smtp_keep_def)

lemma smtp_answer_keeps:
  assumes "rc \<noteq> NGX_DONE"
  shows "x_handler (smtp_answer rc U) = x_handler U \<and> m_auth_method (x_s (smtp_answer rc U)) = m_auth_method (x_s U) \<and>
    m_smtp_from (x_s (smtp_answer rc U)) = m_smtp_from (x_s U) \<and> m_login (x_s (smtp_answer rc U)) = m_login (x_s U) \<and>
    m_passwd (x_s (smtp_answer rc U)) = m_passwd (x_s U) \<and> x_tls (smtp_answer rc U) = x_tls U \<and>
    (x_mail_state (smtp_answer rc U) = x_mail_state U \<or> x_mail_state (smtp_answer rc U) = ngx_smtp_start)"
  using assms by (simp add: smtp_answer_def smtp_reset_def smtp_internal_error_def Let_def)

lemma smtp_auth_state_trust:
  assumes "smtp_sane S" and "x_handler S = HS_auth_state" and "smtp_trust conf S"
    and "ngx_mail_smtp_auth_state env conf sc salt lim ev S = Some S'"
  shows "smtp_trust conf S'"
  using assms(1,2)
proof (cases rule: smtp_auth_state_cases [where env = env and conf = conf and sc = sc and salt = salt and lim = lim and ev = ev])
  case busy
  with assms show ?thesis by (auto simp: smtp_trust_def)
next
  case (stays rc fate quit st s b)
  have "smtp_keep (x_s S) s" using stays(1) by (simp add: smtp_read_def)
  from smtp_trust_keep(1) [OF assms(3) this assms(2)] stays(4) assms(4) show ?thesis
    by (cases fate) (auto simp: smtp_trust_def smtp_internal_error_def smtp_close_def)
next
  case (invalid fate quit st s b)
  have "smtp_keep (x_s S) s" using invalid(1) by (simp add: smtp_read_def)
  with invalid(2) assms(2-4) show ?thesis by (simp add: smtp_invalid_answer smtp_trust_def smtp_keep_def)
next
  case (carried_out st s b T rc U)
  have S': "S' = smtp_answer rc U" using assms(4) carried_out(7) by simp
  have T: "smtp_trust conf T" unfolding carried_out(1) by (rule smtp_trust_keep(2) [OF assms(3) carried_out(2) assms(2)])
  have h: "x_handler T = HS_auth_state" using assms(2) by (simp add: carried_out(1))
  have tls: "x_tls U = x_tls T" using carried_out(6) by (simp add: smtp_kept_def)
  have only: "x_mail_state U = ngx_smtp_start \<and> m_login (x_s U) = no_hs \<and> m_passwd (x_s U) = no_hs \<and>
      (rc = NGX_DONE \<longrightarrow> m_auth_method (x_s U) = NGX_MAIL_AUTH_NONE)" if "ngx_mail_starttls_only conf (x_tls T)"
  proof -
    have *: "x_mail_state T = ngx_smtp_start" "m_login (x_s T) = no_hs" "m_passwd (x_s T) = no_hs"
      using T h that by (simp_all add: smtp_trust_def)
    show ?thesis using smtp_dispatch_only [OF that *(1) carried_out(5)] * by simp
  qed
  have from_ok: "hs_len (m_smtp_from (x_s U)) \<noteq> 0 \<longrightarrow> auth_enabled conf NGX_MAIL_AUTH_NONE_ENABLED"
  proof -
    have 1: "hs_len (m_smtp_from (x_s T)) \<noteq> 0 \<longrightarrow> auth_enabled conf NGX_MAIL_AUTH_NONE_ENABLED"
      using T h by (simp add: smtp_trust_def)
    have 2: "hs_len (m_smtp_from (x_s U)) \<noteq> 0 \<longrightarrow> hs_len (m_smtp_from (x_s T)) \<noteq> 0 \<or> auth_enabled conf NGX_MAIL_AUTH_NONE_ENABLED"
      using carried_out(6) by (simp add: smtp_kept_def)
    show ?thesis using 1 2 by metis
  qed
  have mT: "m_auth_method (x_s T) \<noteq> NGX_MAIL_AUTH_NONE" using T h by (simp add: smtp_trust_def)
  have cram: "NGX_MAIL_AUTH_CRAM_MD5 \<noteq> NGX_MAIL_AUTH_NONE" by (simp add: NGX_MAIL_AUTH_NONE_def NGX_MAIL_AUTH_CRAM_MD5_def)
  have "m_auth_method (x_s U) = m_auth_method (x_s T) \<or> m_auth_method (x_s U) = NGX_MAIL_AUTH_CRAM_MD5 \<or>
      rc = NGX_DONE \<and> m_auth_method (x_s U) = NGX_MAIL_AUTH_NONE \<and> hs_len (m_smtp_from (x_s U)) \<noteq> 0"
    using carried_out(6) by (simp add: smtp_kept_def)
  with mT cram have meth: "m_auth_method (x_s U) \<noteq> NGX_MAIL_AUTH_NONE \<or> rc = NGX_DONE \<and> hs_len (m_smtp_from (x_s U)) \<noteq> 0"
    by metis
  have hU: "x_handler U = HS_auth_state \<or> rc = NGX_OK \<and> x_handler U = HS_starttls"
    using carried_out(6) h unfolding smtp_kept_def by metis
  show ?thesis
  proof (cases "rc = NGX_DONE")
    case True
    then have eq: "x_handler S' = HS_auth_http" "m_auth_method (x_s S') = m_auth_method (x_s U)" "x_tls S' = x_tls U"
        "m_smtp_from (x_s S') = m_smtp_from (x_s U)" "x_mail_state S' = x_mail_state U"
        "m_login (x_s S') = m_login (x_s U)" "m_passwd (x_s S') = m_passwd (x_s U)"
      unfolding S' by (simp_all add: smtp_answer_def smtp_hand_over_def Let_def)
    have "hs_len (m_smtp_from (x_s U)) \<noteq> 0" if "m_auth_method (x_s U) = NGX_MAIL_AUTH_NONE" using meth that by simp
    with only from_ok True show ?thesis unfolding smtp_trust_def eq tls by simp
  next
    case False
    have h: "x_handler U \<noteq> HS_auth_http" using hU by auto
    have m: "m_auth_method (x_s U) \<noteq> NGX_MAIL_AUTH_NONE" using meth False by simp
    have keep: "x_handler S' = x_handler U" "m_auth_method (x_s S') = m_auth_method (x_s U)" "m_smtp_from (x_s S') = m_smtp_from (x_s U)"
        "m_login (x_s S') = m_login (x_s U)" "m_passwd (x_s S') = m_passwd (x_s U)" "x_tls S' = x_tls T"
        "x_mail_state S' = x_mail_state U \<or> x_mail_state S' = ngx_smtp_start"
      using smtp_answer_keeps [OF False, of U] by (simp_all add: S' tls)
    have "ngx_mail_starttls_only conf (x_tls T) \<Longrightarrow> x_mail_state S' = ngx_smtp_start" using only keep(7) by metis
    then show ?thesis
      using only from_ok h m unfolding smtp_trust_def keep(1-6) by simp
  qed
qed

subsection \<open>What every move keeps\<close>

definition smtp_good :: "mail_conf \<Rightarrow> smtp_session \<Rightarrow> bool" where
  "smtp_good conf S \<longleftrightarrow> smtp_sane S \<and> smtp_fresh S \<and> smtp_trust conf S"

text \<open>Outside the read handler: the session is idle, and \<open>x_handler\<close> does not matter.\<close>

definition smtp_idle :: "mail_conf \<Rightarrow> smtp_session \<Rightarrow> bool" where
  "smtp_idle conf S \<longleftrightarrow> buf_wf (x_b S) \<and> buf_pos (x_b S) = 0 \<and> buf_last (x_b S) = 0 \<and> m_args (x_s S) = [] \<and>
     m_smtp_helo (x_s S) = no_hs \<and> m_smtp_from (x_s S) = no_hs \<and> m_smtp_to (x_s S) = no_hs \<and>
     (x_quit S \<longrightarrow> x_out S \<noteq> None) \<and> (\<not> x_quit S \<longrightarrow> m_arg_start (x_s S) = None \<and> x_state S = smtp_sw_start) \<and>
     m_auth_method (x_s S) \<noteq> NGX_MAIL_AUTH_NONE \<and>
     (ngx_mail_starttls_only conf (x_tls S) \<longrightarrow> x_mail_state S = ngx_smtp_start \<and>
        m_login (x_s S) = no_hs \<and> m_passwd (x_s S) = no_hs)"

lemma smtp_start_facts: "smtp_in_line p (smtp_sw_start, s) \<longleftrightarrow> m_args s = []"
  "smtp_inv p (smtp_sw_start, s) \<longleftrightarrow> args_below p (m_args s) \<and> m_arg_start s = None" "args_below p []" "hs_len no_hs = 0"
  by (simp_all add: smtp_in_line_def smtp_inv.simps args_below_def no_hs_def)

lemma smtp_idle_good:
  assumes "smtp_idle conf S" and "x_handler S \<noteq> HS_auth_state" and "x_handler S \<noteq> HS_auth_http"
  shows "smtp_good conf S"
proof -
  have "smtp_sane S" using assms(1,2) by (simp add: smtp_sane_def smtp_idle_def smtp_start_facts)
  moreover have "smtp_fresh S" using assms(1) by (simp add: smtp_fresh_def smtp_idle_def)
  moreover have "smtp_trust conf S" using assms(1,3) by (simp add: smtp_trust_def smtp_idle_def smtp_start_facts)
  ultimately show ?thesis by (simp add: smtp_good_def)
qed

lemma smtp_good_idle:
  assumes "smtp_good conf S" and "x_handler S \<notin> {HS_auth_state, HS_auth_http, HS_closed}"
  shows "smtp_idle conf S"
proof -
  have h: "x_handler S \<noteq> HS_auth_state" "x_handler S \<noteq> HS_auth_http" "x_handler S \<noteq> HS_closed" using assms(2) by auto
  have s: "smtp_sane S" "smtp_fresh S" "smtp_trust conf S" using assms(1) by (simp_all add: smtp_good_def)
  have st: "\<not> x_quit S \<Longrightarrow> x_state S = smtp_sw_start \<and> smtp_inv (buf_pos (x_b S)) (x_state S, x_s S)"
    using s(1) h by (auto simp: smtp_sane_def)
  then have "\<not> x_quit S \<Longrightarrow> m_arg_start (x_s S) = None \<and> x_state S = smtp_sw_start" by (auto simp: smtp_start_facts)
  moreover have "buf_wf (x_b S)" "x_quit S \<longrightarrow> x_out S \<noteq> None" using s(1) h by (simp_all add: smtp_sane_def)
  ultimately show ?thesis
    using s(2,3) h by (simp add: smtp_idle_def smtp_fresh_def smtp_trust_def)
qed

lemma smtp_idle_ready:
  assumes "smtp_idle conf S"
  shows "smtp_good conf (S\<lparr>x_mail_state := ngx_smtp_start, x_handler := HS_auth_state\<rparr>)"
proof -
  let ?T = "S\<lparr>x_mail_state := ngx_smtp_start, x_handler := HS_auth_state\<rparr>"
  have "smtp_sane ?T" using assms by (simp add: smtp_sane_def smtp_idle_def smtp_start_facts smtp_challenge_def)
  moreover have "smtp_fresh ?T" by (simp add: smtp_fresh_def)
  moreover have "smtp_trust conf ?T" using assms by (simp add: smtp_trust_def smtp_idle_def smtp_start_facts)
  ultimately show ?thesis by (simp add: smtp_good_def)
qed

text \<open>What an idle session may change and be idle still.\<close>

lemma smtp_idle_update:
  assumes "smtp_idle conf S"
  shows "smtp_idle conf (S\<lparr>x_host := host\<rparr>)" "smtp_idle conf (S\<lparr>x_handler := h\<rparr>)" "smtp_idle conf (S\<lparr>x_out := Some r\<rparr>)"
    "smtp_idle conf (S\<lparr>x_out := Some r, x_quit := True\<rparr>)"
    "smtp_idle conf (S\<lparr>x_has_buffer := True, x_s := (x_s S)\<lparr>m_args := []\<rparr>, x_b := \<lparr>buf_mem = [], buf_pos = 0, buf_last = 0\<rparr>\<rparr>)"
    "smtp_idle conf (S\<lparr>x_b := b\<lparr>buf_pos := 0, buf_last := 0\<rparr>\<rparr>)"
  using assms by (simp_all add: smtp_idle_def buf_wf_def)

lemma smtp_close_good: "smtp_good conf (smtp_close S)"
  by (simp add: smtp_good_def smtp_sane_def smtp_fresh_def smtp_trust_def smtp_close_def)

lemma smtp_greeting_good:
  assumes "smtp_idle conf S"
  shows "smtp_good conf (ngx_mail_smtp_greeting sc event_ok S)"
proof -
  have 1: "smtp_good conf (S\<lparr>x_handler := HS_invalid_pipelining\<rparr>)"
    by (rule smtp_idle_good [OF smtp_idle_update(2) [OF assms]]) simp_all
  have 2: "smtp_good conf (S\<lparr>x_handler := HS_init_protocol, x_out := Some smtp_greeting\<rparr>)"
    by (rule smtp_idle_good [OF smtp_idle_update(3) [OF smtp_idle_update(2) [OF assms]]]) simp_all
  from 1 2 show ?thesis by (simp add: ngx_mail_smtp_greeting_def smtp_close_good)
qed

lemma smtp_buffer_idle:
  assumes "smtp_idle conf S"
    and "(if x_has_buffer S then (NGX_OK, S) else ngx_mail_smtp_create_buffer got S) = (rc, T)"
  shows "smtp_idle conf T \<and> x_handler T = x_handler S"
proof (cases "x_has_buffer S")
  case True
  with assms show ?thesis by simp
next
  case False
  with assms smtp_idle_update(4,5) [OF assms(1)] show ?thesis
    by (cases got) (auto simp: ngx_mail_smtp_create_buffer_def smtp_internal_error_def)
qed

lemma smtp_discard_idle:
  assumes "smtp_idle conf S" and "ngx_mail_smtp_discard_command sc ev S = (rc, T)"
  shows "T = smtp_close S \<and> rc = NGX_ERROR \<or> smtp_idle conf T \<and> x_handler T = x_handler S"
proof (cases ev)
  case (Recv_again ok)
  with assms smtp_idle_update(4) [OF assms(1)] show ?thesis
    by (cases ok) (auto simp: ngx_mail_smtp_discard_command_def smtp_internal_error_def)
qed (use assms smtp_idle_update(6) [OF assms(1)] in \<open>auto simp: ngx_mail_smtp_discard_command_def\<close>)

lemma smtp_delay_good:
  assumes "smtp_idle conf S" and "x_handler S = HS_invalid_pipelining"
  shows "smtp_good conf (ngx_mail_smtp_invalid_pipelining sc timedout event_ok got ev S)"
proof (cases timedout)
  case True
  have "smtp_good conf (S\<lparr>x_handler := HS_init_protocol, x_out := Some smtp_greeting\<rparr>)"
    by (rule smtp_idle_good [OF smtp_idle_update(3) [OF smtp_idle_update(2) [OF assms(1)]]]) simp_all
  with True show ?thesis by (simp add: ngx_mail_smtp_invalid_pipelining_def smtp_close_good)
next
  case False
  obtain rc T where T: "(if x_has_buffer S then (NGX_OK, S) else ngx_mail_smtp_create_buffer got S) = (rc, T)" by fastforce
  have idle: "smtp_idle conf T" "x_handler T = HS_invalid_pipelining" using smtp_buffer_idle [OF assms(1) T] assms(2) by auto
  obtain rc2 U where U: "ngx_mail_smtp_discard_command sc ev T = (rc2, U)" by fastforce
  show ?thesis
  proof (cases "rc = NGX_OK")
    case no: False
    have "smtp_good conf T" by (rule smtp_idle_good [OF idle(1)]) (simp_all add: idle(2))
    with no False T show ?thesis by (simp add: ngx_mail_smtp_invalid_pipelining_def)
  next
    case True
    from smtp_discard_idle [OF idle(1) U] show ?thesis
    proof
      assume "U = smtp_close T \<and> rc2 = NGX_ERROR"
      with True False T U show ?thesis by (simp add: ngx_mail_smtp_invalid_pipelining_def smtp_close_good)
    next
      assume *: "smtp_idle conf U \<and> x_handler U = x_handler T"
      then have "smtp_good conf U" "smtp_good conf (U\<lparr>x_out := Some smtp_invalid_pipelining, x_quit := True\<rparr>)"
        using smtp_idle_good [OF smtp_idle_update(4)] smtp_idle_good idle(2) by simp_all
      with True False T U show ?thesis by (simp add: ngx_mail_smtp_invalid_pipelining_def)
    qed
  qed
qed

lemma smtp_init_protocol_good:
  assumes "smtp_idle conf S" and "x_handler S = HS_init_protocol"
  shows "smtp_good conf (ngx_mail_smtp_init_protocol got S)"
proof -
  obtain rc T where T: "(if x_has_buffer S then (NGX_OK, S) else ngx_mail_smtp_create_buffer got S) = (rc, T)" by fastforce
  have idle: "smtp_idle conf T" "x_handler T = HS_init_protocol" using smtp_buffer_idle [OF assms(1) T] assms(2) by auto
  have "smtp_good conf T" by (rule smtp_idle_good [OF idle(1)]) (simp_all add: idle(2))
  with smtp_idle_ready [OF idle(1)] T show ?thesis by (simp add: ngx_mail_smtp_init_protocol_def)
qed

lemma smtp_inv_auth_method: "smtp_inv p (st, s\<lparr>m_auth_method := k\<rparr>) \<longleftrightarrow> smtp_inv p (st, s)"
  by (simp add: smtp_inv.simps)

lemma smtp_auth_http_good:
  assumes "smtp_good conf S" and "x_handler S = HS_auth_http"
  shows "smtp_good conf (S\<lparr>x_out := Some r, x_quit := True\<rparr>)" "smtp_good conf (smtp_auth_refused S)"
proof -
  have s: "smtp_sane S" "smtp_trust conf S" using assms(1) by (simp_all add: smtp_good_def)
  have "smtp_sane (S\<lparr>x_out := Some r, x_quit := True\<rparr>)" using s(1) assms(2) by (simp add: smtp_sane_def)
  moreover have "smtp_trust conf (S\<lparr>x_out := Some r, x_quit := True\<rparr>)" using s(2) assms(2) by (simp add: smtp_trust_def)
  ultimately show "smtp_good conf (S\<lparr>x_out := Some r, x_quit := True\<rparr>)" using assms(2) by (simp add: smtp_good_def smtp_fresh_def)
  have "\<not> x_quit S \<Longrightarrow> x_state S = smtp_sw_start" using s(1) assms(2) by (simp add: smtp_sane_def)
  then have "smtp_sane (smtp_auth_refused S)"
    using s(1) assms(2) by (simp add: smtp_sane_def smtp_auth_refused_def smtp_challenge_def smtp_inv_auth_method smtp_start_facts(1))
  moreover have "smtp_trust conf (smtp_auth_refused S)"
    using s(2) assms(2) by (simp add: smtp_trust_def smtp_auth_refused_def NGX_MAIL_AUTH_PLAIN_def NGX_MAIL_AUTH_NONE_def)
  ultimately show "smtp_good conf (smtp_auth_refused S)" by (simp add: smtp_good_def smtp_fresh_def smtp_auth_refused_def)
qed

lemma smtp_sent_good:
  assumes "smtp_good conf S"
  shows "smtp_good conf (smtp_sent S)"
proof (cases "x_quit S")
  case True
  then show ?thesis using smtp_close_good [of conf "S\<lparr>x_out := None\<rparr>"] by (simp add: smtp_sent_def Let_def)
next
  case False
  then have "smtp_sane (S\<lparr>x_out := None\<rparr>) = smtp_sane S" by (simp add: smtp_sane_def)
  moreover have "smtp_fresh (S\<lparr>x_out := None\<rparr>) = smtp_fresh S" by (simp add: smtp_fresh_def)
  moreover have "smtp_trust conf (S\<lparr>x_out := None\<rparr>) = smtp_trust conf S" by (simp add: smtp_trust_def)
  ultimately show ?thesis using assms False by (simp add: smtp_sent_def Let_def smtp_good_def)
qed

lemma smtp_move_good:
  assumes "smtp_move env conf sc lim client S S'" and "smtp_good conf S"
  shows "smtp_good conf S'"
proof -
  have idle: "x_handler S = h \<Longrightarrow> h \<notin> {HS_auth_state, HS_auth_http, HS_closed} \<Longrightarrow> smtp_idle conf S" for h
    using smtp_good_idle [OF assms(2)] by simp
  have moved: "smtp_idle conf S \<Longrightarrow> h \<notin> {HS_auth_state, HS_auth_http} \<Longrightarrow> smtp_good conf (S\<lparr>x_handler := h\<rparr>)" for S h
    using smtp_idle_good [OF smtp_idle_update(2)] by simp
  show ?thesis
    using assms(1)
  proof cases
    case (addr event_ok name)
    with idle have i: "smtp_idle conf S" by simp
    show ?thesis
      using smtp_greeting_good [OF smtp_idle_update(1) [OF i]] smtp_close_good [of conf S]
        moved [OF smtp_idle_update(1) [OF i], of HS_post_name]
      unfolding addr(1) by (simp add: ngx_mail_smtp_resolve_addr_handler_def split: resolved.split option.split)
  next
    case (post_name started)
    with moved [OF idle, of HS_post_name HS_resolve_name] show ?thesis
      by (simp add: ngx_mail_smtp_resolve_name_def smtp_close_good)
  next
    case (name event_ok addrs)
    with idle have i: "smtp_idle conf S" by simp
    show ?thesis
      using smtp_greeting_good [OF i] smtp_greeting_good [OF smtp_idle_update(1) [OF i]]
      unfolding name(1) by (simp add: ngx_mail_smtp_resolve_name_handler_def split: resolved.split)
  next
    case (delay ev timedout event_ok got)
    with smtp_delay_good [OF idle] show ?thesis by simp
  next
    case (init got)
    with smtp_init_protocol_good [OF idle] show ?thesis by simp
  next
    case (read ev salt)
    have s: "smtp_sane S" "smtp_trust conf S" using assms(2) by (simp_all add: smtp_good_def)
    show ?thesis
      using smtp_auth_state_sane [OF s(1) read(1), of env conf sc salt lim ev] smtp_auth_state_fresh [OF s(1) read(1,3)]
        smtp_auth_state_trust [OF s(1) read(1) s(2) read(3)] read(3) by (simp add: smtp_good_def)
  next
    case close
    then show ?thesis using smtp_close_good by simp
  next
    case sent
    then show ?thesis using smtp_sent_good [OF assms(2)] by simp
  next
    case starttls
    then have "smtp_idle conf S" using idle by simp
    then have "smtp_idle conf (smtp_encrypted S)" by (simp add: smtp_idle_def smtp_encrypted_def ngx_mail_starttls_only_def)
    with starttls show ?thesis by (simp add: smtp_idle_good smtp_encrypted_def)
  next
    case failed
    with smtp_auth_http_good(1) [OF assms(2)] show ?thesis by (simp add: smtp_internal_error_def)
  next
    case turned_away
    with smtp_auth_http_good(1) [OF assms(2)] show ?thesis by (simp add: smtp_turned_away_def)
  next
    case refused
    with smtp_auth_http_good(2) [OF assms(2)] show ?thesis by simp
  qed
qed

lemma smtp_reach_good: "smtp_reach env conf sc lim client S0 S \<Longrightarrow> smtp_good conf S0 \<Longrightarrow> smtp_good conf S"
  by (induction rule: smtp_reach.induct) (auto intro: smtp_move_good)

lemma smtp_new_idle: "smtp_idle conf (smtp_new a tls)"
  by (simp add: smtp_idle_def smtp_new_def new_session_def buf_wf_def NGX_MAIL_AUTH_NONE_def)

lemma smtp_init_good:
  "smtp_good conf (ngx_mail_smtp_init_session sc event_ok resolver unix_socket started (smtp_new a tls))"
proof -
  have "smtp_good conf ((smtp_new a tls)\<lparr>x_handler := HS_resolve_addr\<rparr>)"
    by (rule smtp_idle_good [OF smtp_idle_update(2) [OF smtp_new_idle]]) simp_all
  then show ?thesis
    using smtp_greeting_good [OF smtp_idle_update(1) [OF smtp_new_idle]]
    by (simp add: ngx_mail_smtp_init_session_def smtp_close_good)
qed

subsection \<open>What holds in every session\<close>

text \<open>A session that has sent its greeting, without a resolver and without a delay, and waits for a command.\<close>

definition smtp_waiting :: "u64 \<Rightarrow> bool \<Rightarrow> smtp_session" where
  "smtp_waiting a tls = (smtp_new a tls)\<lparr>x_host := Host_unavailable, x_has_buffer := True, x_handler := HS_auth_state\<rparr>"

definition smtp_plain_conf :: "bool \<Rightarrow> smtp_srv_conf" where
  "smtp_plain_conf log = \<lparr>sc_greeting_delay = False, sc_log_info = log\<rparr>"

lemma smtp_waiting_reach:
  "smtp_reach env conf (smtp_plain_conf log) lim client
     (ngx_mail_smtp_init_session (smtp_plain_conf log) True False False False (smtp_new a tls)) (smtp_waiting a tls)"
proof -
  let ?S0 = "ngx_mail_smtp_init_session (smtp_plain_conf log) True False False False (smtp_new a tls)"
  let ?S1 = "ngx_mail_smtp_init_protocol True ?S0"
  have h: "x_handler ?S0 = HS_init_protocol"
    by (simp add: ngx_mail_smtp_init_session_def ngx_mail_smtp_greeting_def smtp_plain_conf_def)
  have 1: "smtp_move env conf (smtp_plain_conf log) lim client ?S0 ?S1" by (rule smtp_move.init [OF h])
  have 2: "smtp_move env conf (smtp_plain_conf log) lim client ?S1 (smtp_sent ?S1)"
    by (rule smtp_move.sent) (simp_all add: ngx_mail_smtp_init_session_def ngx_mail_smtp_greeting_def
        smtp_plain_conf_def ngx_mail_smtp_init_protocol_def smtp_new_def ngx_mail_smtp_create_buffer_def)
  have eq: "smtp_sent ?S1 = smtp_waiting a tls"
    by (simp add: smtp_waiting_def smtp_sent_def Let_def ngx_mail_smtp_init_session_def ngx_mail_smtp_greeting_def
        smtp_plain_conf_def ngx_mail_smtp_init_protocol_def smtp_new_def ngx_mail_smtp_create_buffer_def new_session_def)
  show ?thesis by (rule smtp_reach.move [OF smtp_reach.move [OF smtp_reach.start 1] 2 [unfolded eq]])
qed

text \<open>
  C24: Whatever a client sends, pipelined or in pieces, and whatever the resolver and the authentication server answer: in every
  reachable state in which the SMTP handler waits for a command it carries out the next read event. No command looks at an
  argument the parser did not produce or at bytes outside the buffer (the model's \<open>None\<close>), and the length MAIL and RCPT compute
  as \<open>arg->data + arg->len - s->cmd.data\<close> is never negative, although the buffer keeps what follows a command.
\<close>

theorem smtp_args_exist:
  assumes "smtp_reach env conf sc lim client
      (ngx_mail_smtp_init_session sc event_ok resolver unix_socket started (smtp_new a tls)) S"
    and "x_handler S = HS_auth_state"
  shows "ngx_mail_smtp_auth_state env conf sc salt lim ev S \<noteq> None"
proof -
  have "smtp_sane S" using smtp_reach_good [OF assms(1) smtp_init_good] by (simp add: smtp_good_def)
  from smtp_auth_state_sane [OF this assms(2), of env conf sc salt lim ev] show ?thesis by auto
qed

theorem smtp_args_exist_witness:
  "ngx_mail_smtp_auth_state roomy_env \<lparr>cf_starttls = STARTTLS_OFF, cf_auth_methods = NGX_MAIL_AUTH_NONE_ENABLED\<rparr>
     (smtp_plain_conf True) None 4096 (Recv (bytes ''MAIL FROM:<a>'' @ [CR, LF])) (smtp_waiting 0 False) \<noteq> None"
  by (rule smtp_args_exist [OF smtp_waiting_reach [of _ _ _ _ "[127, 0, 0, 1]"]]) (simp add: smtp_waiting_def)


text \<open>A read event in a session that waits.\<close>

definition smtp_hear :: "mail_conf \<Rightarrow> u8 list \<Rightarrow> smtp_session \<Rightarrow> smtp_session" where
  "smtp_hear conf w S = the (ngx_mail_smtp_auth_state roomy_env conf (smtp_plain_conf True) None 4096 (Recv w) S)"

lemma smtp_hear_move:
  assumes "x_handler S = HS_auth_state" and "smtp_recv_fits 4096 (x_b S) (Recv w)"
    and "ngx_mail_smtp_auth_state roomy_env conf (smtp_plain_conf True) None 4096 (Recv w) S \<noteq> None"
  shows "smtp_move roomy_env conf (smtp_plain_conf True) 4096 client S (smtp_hear conf w S)"
  by (rule smtp_move.read [OF assms(1,2)]) (use assms(3) in \<open>auto simp: smtp_hear_def\<close>)


abbreviation smtp_none_conf :: mail_conf where
  "smtp_none_conf \<equiv> \<lparr>cf_starttls = STARTTLS_OFF, cf_auth_methods = NGX_MAIL_AUTH_NONE_ENABLED\<rparr>"

definition smtp_mailed :: smtp_session where
  "smtp_mailed = smtp_sent (smtp_hear smtp_none_conf (bytes ''MAIL FROM:<a>'' @ [CR, LF]) (smtp_waiting 0 False))"

definition smtp_sender :: smtp_session where
  "smtp_sender = smtp_hear smtp_none_conf (bytes ''RCPT TO:<b>'' @ [CR, LF]) smtp_mailed"


lemma smtp_sender_reach:
  "smtp_reach roomy_env smtp_none_conf (smtp_plain_conf True) 4096 [127, 0, 0, 1]
     (ngx_mail_smtp_init_session (smtp_plain_conf True) True False False False (smtp_new 0 False)) smtp_sender"
proof -
  let ?S1 = "smtp_hear smtp_none_conf (bytes ''MAIL FROM:<a>'' @ [CR, LF]) (smtp_waiting 0 False)"
  have 1: "smtp_move roomy_env smtp_none_conf (smtp_plain_conf True) 4096 [127, 0, 0, 1] (smtp_waiting 0 False) ?S1"
    by (rule smtp_hear_move) code_simp+
  have 2: "smtp_move roomy_env smtp_none_conf (smtp_plain_conf True) 4096 [127, 0, 0, 1] ?S1 smtp_mailed"
    unfolding smtp_mailed_def by (rule smtp_move.sent) code_simp+
  have 3: "smtp_move roomy_env smtp_none_conf (smtp_plain_conf True) 4096 [127, 0, 0, 1] smtp_mailed smtp_sender"
    unfolding smtp_sender_def by (rule smtp_hear_move) code_simp+
  show ?thesis by (intro smtp_reach.move [OF _ 3] smtp_reach.move [OF _ 2] smtp_reach.move [OF _ 1] smtp_waiting_reach)
qed


text \<open>
  C23: Who is handed to the authentication server without having authenticated: only under \<open>smtp_auth none\<close>, and only with a stored
  sender (MAIL stores it; RSET, HELO, EHLO and STARTTLS clear it). With \<open>starttls only\<close> nobody else is handed over an unencrypted
  connection, and no login and no password have been stored.
\<close>

theorem smtp_handed_over:
  assumes "smtp_reach env conf sc lim client
      (ngx_mail_smtp_init_session sc event_ok resolver unix_socket started (smtp_new a tls)) S"
    and "x_handler S = HS_auth_http"
    and "m_auth_method (x_s S) = NGX_MAIL_AUTH_NONE \<or> ngx_mail_starttls_only conf (x_tls S)"
  shows "m_auth_method (x_s S) = NGX_MAIL_AUTH_NONE \<and> auth_enabled conf NGX_MAIL_AUTH_NONE_ENABLED \<and>
    hs_len (m_smtp_from (x_s S)) \<noteq> 0 \<and>
    (ngx_mail_starttls_only conf (x_tls S) \<longrightarrow> m_login (x_s S) = no_hs \<and> m_passwd (x_s S) = no_hs)"
proof -
  have "smtp_trust conf S" using smtp_reach_good [OF assms(1) smtp_init_good] by (simp add: smtp_good_def)
  with assms(2,3) show ?thesis by (auto simp: smtp_trust_def)
qed

theorem smtp_handed_over_witness:
  "m_auth_method (x_s smtp_sender) = NGX_MAIL_AUTH_NONE \<and> auth_enabled smtp_none_conf NGX_MAIL_AUTH_NONE_ENABLED \<and>
    hs_len (m_smtp_from (x_s smtp_sender)) \<noteq> 0"
proof -
  have "x_handler smtp_sender = HS_auth_http" "m_auth_method (x_s smtp_sender) = NGX_MAIL_AUTH_NONE" by code_simp+
  from smtp_handed_over [OF smtp_sender_reach this(1) disjI1 [OF this(2)]] show ?thesis by (elim conjE) (intro conjI)
qed



text \<open>
  The rest of an invalid line is carried out as a command when it comes in a read of its own: after \<open>FOO \<close> the parser is to skip up to the
  line break (\<open>sw_invalid\<close>), but the handler puts it back to its first state, and the rest \<open>QUIT\<close> of the same line closes the session;
  received in one piece the line is just refused.
\<close>

theorem smtp_invalid_line_in_two_reads:
  "(case smtp_sent (smtp_hear smtp_none_conf (bytes ''FOO '') (smtp_waiting 0 False)) of S \<Rightarrow>
      x_state S = smtp_sw_start \<and> x_out (smtp_hear smtp_none_conf (bytes ''QUIT'' @ [CR, LF]) S) = Some smtp_bye) \<and>
   x_out (smtp_hear smtp_none_conf (bytes ''FOO QUIT'' @ [CR, LF]) (smtp_waiting 0 False)) = Some smtp_invalid_command"
  by code_simp

end
