(* ===== verification/Mail_Smtp_Lines.thy ===== *)
theory Mail_Smtp_Lines
  imports Mail_Smtp_Session
begin

text \<open>
  What an SMTP client can make the session keep: the client name, the sender and the recipient hold no line
  break, in every reachable state, whatever is sent in whatever pieces. The client of the authentication
  server relies on it: it writes them into the lines of its request as they are.
\<close>

subsection \<open>No line break inside a command\<close>

definition no_break :: "memory \<Rightarrow> ptr \<Rightarrow> ptr \<Rightarrow> bool" where
  "no_break mem c q \<longleftrightarrow> (\<forall>k. c \<le> k \<and> k < q \<longrightarrow> mem ! k \<noteq> CR \<and> mem ! k \<noteq> LF)"

lemma no_break_Suc: "no_break mem c q \<Longrightarrow> mem ! q \<noteq> CR \<Longrightarrow> mem ! q \<noteq> LF \<Longrightarrow> no_break mem c (Suc q)"
  unfolding no_break_def by (metis less_SucE)

lemma no_break_same [simp]: "no_break mem c c"
  by (auto simp: no_break_def)

lemma no_break_seg: "no_break mem c q \<Longrightarrow> c \<le> d \<Longrightarrow> e \<le> q \<Longrightarrow> e \<le> length mem \<Longrightarrow> CR \<notin> set (seg mem d e) \<and> LF \<notin> set (seg mem d e)"
  unfolding no_break_def by (auto simp: set_seg)

lemma no_break_take: "q \<le> n \<Longrightarrow> n \<le> length mem \<Longrightarrow> no_break (take n mem @ ys) c q = no_break mem c q"
  unfolding no_break_def by (auto simp: nth_append)

text \<open>The arguments end before \<open>q\<close>, and from the command to \<open>q\<close> there is no line break.\<close>

definition cmd_until :: "memory \<Rightarrow> ngx_mail_session_t \<Rightarrow> ptr \<Rightarrow> bool" where
  "cmd_until mem s q \<longleftrightarrow> (\<exists>c. ms_data (m_cmd s) = Some c \<and> no_break mem c q) \<and> args_below q (m_args s)"

definition smtp_clean :: "memory \<Rightarrow> ptr \<Rightarrow> smtp_loc \<Rightarrow> bool" where
  "smtp_clean mem p x \<longleftrightarrow>
    (fst x = smtp_sw_command \<longrightarrow> (\<forall>c. m_cmd_start (snd x) = Some c \<longrightarrow> no_break mem c p)) \<and>
    (fst x \<in> {smtp_sw_spaces_before_argument, smtp_sw_argument} \<longrightarrow> cmd_until mem (snd x) p) \<and>
    (fst x = smtp_sw_almost_done \<longrightarrow> (\<exists>q\<le>p. cmd_until mem (snd x) q))"

lemma cmd_until_Suc: "cmd_until mem s p \<Longrightarrow> mem ! p \<noteq> CR \<Longrightarrow> mem ! p \<noteq> LF \<Longrightarrow> cmd_until mem s (Suc p)"
  unfolding cmd_until_def using no_break_Suc args_below_Suc by blast

lemma cmd_until_arg [simp]: "cmd_until mem (s\<lparr>m_arg_start := a\<rparr>) q = cmd_until mem s q"
  "cmd_until mem (s\<lparr>m_arg_end := a\<rparr>) q = cmd_until mem s q"
  by (simp_all add: cmd_until_def)

lemma cmd_until_push:
  assumes "push_arg room (Some p) s = Some s'" and "cmd_until mem s p" and "m_arg_start s = Some a" and "a \<le> p"
  shows "cmd_until mem s' p"
  using assms args_below_push(1) [OF assms(1) _ assms(3,4)] push_arg_result(4) [OF assms(1)]
  unfolding cmd_until_def by auto

lemma smtp_clean_command:
  assumes "m_cmd_start s = Some c" "no_break mem c p" "m_args s = []"
  shows "smtp_in_command up mem p (mem ! p) s = Next x' \<Longrightarrow> smtp_clean mem (Suc p) x'"
    "smtp_in_command up mem p (mem ! p) s = Stop M_done x' \<Longrightarrow> \<exists>q\<le>p. cmd_until mem (snd x') q"
proof -
  have letter: "is_letter ch \<Longrightarrow> ch \<noteq> CR \<and> ch \<noteq> LF" for ch
    by (auto simp: is_letter_def)
  show "smtp_in_command up mem p (mem ! p) s = Next x' \<Longrightarrow> smtp_clean mem (Suc p) x'"
    "smtp_in_command up mem p (mem ! p) s = Stop M_done x' \<Longrightarrow> \<exists>q\<le>p. cmd_until mem (snd x') q"
    using assms letter [of "mem ! p"] no_break_Suc [OF assms(2)]
    by (auto simp: smtp_in_command_def smtp_clean_def cmd_until_def args_below_def Let_def intro: exI [of _ p]
        split: if_splits option.splits)
qed

lemma smtp_step_clean:
  assumes "smtp_inv p x" "smtp_in_line p x" "smtp_clean mem p x"
  shows "smtp_step up room mem p x = Next x' \<Longrightarrow> smtp_clean mem (Suc p) x'"
    and "smtp_step up room mem p x = Stop M_done x' \<Longrightarrow> \<exists>q\<le>p. cmd_until mem (snd x') q"
proof -
  obtain st s where x: "x = (st, s)" by (cases x)
  have "(smtp_step up room mem p x = Next x' \<longrightarrow> smtp_clean mem (Suc p) x') \<and>
      (smtp_step up room mem p x = Stop M_done x' \<longrightarrow> (\<exists>q\<le>p. cmd_until mem (snd x') q))"
  proof (cases st)
    case smtp_sw_start
    then show ?thesis using assms smtp_clean_command [of "s\<lparr>m_cmd_start := Some p\<rparr>" p mem p up x']
      by (simp add: x smtp_step_def smtp_in_line_def)
  next
    case smtp_sw_command
    then obtain c where "m_cmd_start s = Some c" "no_break mem c p" "m_args s = []"
      using assms by (auto simp: x smtp_inv.simps smtp_in_line_def smtp_clean_def)
    from smtp_clean_command [OF this, of up x'] smtp_sw_command show ?thesis by (simp add: x smtp_step_def)
  next
    case smtp_sw_invalid
    then show ?thesis by (simp add: x smtp_step_def)
  next
    case smtp_sw_spaces_before_argument
    then have c: "cmd_until mem s p" using assms(3) by (simp add: x smtp_clean_def)
    have "mem ! p = SP \<Longrightarrow> cmd_until mem s (Suc p)" using cmd_until_Suc [OF c] by simp
    with smtp_sw_spaces_before_argument c cmd_until_Suc [OF c] show ?thesis
      by (auto simp: x smtp_step_def smtp_spaces_def smtp_clean_def intro: exI [of _ p])
  next
    case smtp_sw_argument
    then have c: "cmd_until mem s p" using assms(3) by (simp add: x smtp_clean_def)
    obtain a where a: "m_arg_start s = Some a" "a \<le> p" using assms(1) smtp_sw_argument by (auto simp: x smtp_inv.simps)
    show ?thesis
    proof (cases "mem ! p = SP \<or> mem ! p = CR \<or> mem ! p = LF")
      case True
      have push: "cmd_until mem s' p" if "push_arg room (Some p) s = Some s'" for s'
        by (rule cmd_until_push [OF that c a])
      have sp: "cmd_until mem s' (Suc p)" if "push_arg room (Some p) s = Some s'" "mem ! p = SP" for s'
        using cmd_until_Suc [OF push [OF that(1)]] that(2) by simp
      show ?thesis
        using smtp_sw_argument True push sp
        by (auto simp: x smtp_step_def smtp_argument_def smtp_clean_def split: option.splits if_splits intro: exI [of _ p])
    next
      case False
      with smtp_sw_argument c cmd_until_Suc [OF c] show ?thesis
        by (auto simp: x smtp_step_def smtp_argument_def smtp_clean_def)
    qed
  next
    case smtp_sw_almost_done
    then show ?thesis using assms(3) by (auto simp: x smtp_step_def smtp_almost_done_def smtp_clean_def)
  qed
  then show "smtp_step up room mem p x = Next x' \<Longrightarrow> smtp_clean mem (Suc p) x'"
    and "smtp_step up room mem p x = Stop M_done x' \<Longrightarrow> \<exists>q\<le>p. cmd_until mem (snd x') q" by simp_all
qed

interpretation smtp_clean_run: byte_invariant "smtp_step up room" mem
    "\<lambda>p x. smtp_inv p x \<and> smtp_in_line p x \<and> smtp_clean mem p x"
    "\<lambda>p r x. smtp_post p r x \<and> (r = M_done \<longrightarrow> (\<exists>q\<le>p. cmd_until mem (snd x) q))"
  for up room mem
proof (unfold_locales, goal_cases)
  case (1 p x x')
  then show ?case
    using smtp_step_inv [of p x up room mem x'] smtp_step_in_line(1) [of p x up room mem x']
      smtp_step_clean(1) [of p x mem up room x'] by simp
next
  case (2 p x r x')
  then show ?case
    using smtp_step_post [of p x up room mem r x'] smtp_step_clean(2) [of p x mem up room x'] by simp
qed

text \<open>What a call of \<open>ngx_mail_read_command\<close> leaves.\<close>

lemma smtp_parse_clean:
  assumes "buf_wf b" and "smtp_inv (buf_pos b) (st, s)" and "smtp_in_line (buf_pos b) (st, s)"
    and "smtp_clean (buf_mem b) (buf_pos b) (st, s)"
    and "ngx_mail_smtp_parse_command up room st s b = (rc, st', s', b')"
  shows "(rc = NGX_AGAIN \<longrightarrow> smtp_clean (buf_mem b') (buf_pos b') (st', s')) \<and>
    (rc = NGX_OK \<longrightarrow> (\<exists>q\<le>length (buf_mem b'). cmd_until (buf_mem b') s' q))"
proof -
  obtain p x where px: "byte_loop (smtp_step up room) (buf_mem b) (buf_pos b) (buf_last b) (st, s) = (p, x)"
    by fastforce
  have wf: "buf_pos b \<le> buf_last b" "buf_last b \<le> length (buf_mem b)" using assms(1) by (auto simp: buf_wf_def)
  note run = smtp_clean_run.loop_inv [OF conjI [OF assms(2) conjI [OF assms(3,4)]] wf px]
  note pos = byte_loop_pos [OF px wf(1)]
  show ?thesis
  proof (cases x)
    case (Next y)
    then show ?thesis using assms(5) px run by (cases y) (auto simp: ngx_mail_smtp_parse_command_def)
  next
    case (Stop r y)
    then obtain st1 s1 where y: "y = (st1, s1)" by (cases y)
    show ?thesis
    proof (cases "r = M_done")
      case True
      then have none: "m_arg_start s1 = None" using run Stop y by (simp add: smtp_post_def)
      then have "rc = NGX_OK" "s' = s1" "b' = b\<lparr>buf_pos := p + 1\<rparr>"
        using assms(5) px Stop y True by (auto simp: ngx_mail_smtp_parse_command_def smtp_finish_def)
      moreover obtain q where "q \<le> p" "cmd_until (buf_mem b) s1 q" using run Stop y True by auto
      ultimately show ?thesis using pos Stop wf by (auto intro!: exI [of _ q])
    next
      case False
      then show ?thesis
        using assms(5) px Stop y by (cases r) (auto simp: ngx_mail_smtp_parse_command_def split: prod.splits)
    qed
  qed
qed

lemma smtp_clean_recv:
  assumes "buf_wf b" and "smtp_clean (buf_mem b) (buf_pos b) x"
  shows "smtp_clean (buf_mem (buf_recv b ys)) (buf_pos b) x"
proof -
  have wf: "buf_pos b \<le> buf_last b" "buf_last b \<le> length (buf_mem b)" using assms(1) by (auto simp: buf_wf_def)
  have nb: "no_break (buf_mem (buf_recv b ys)) c q = no_break (buf_mem b) c q" if "q \<le> buf_pos b" for c q
    using no_break_take [of q "buf_last b" "buf_mem b" ys c] that wf by (simp add: buf_recv_def)
  have cu: "cmd_until (buf_mem (buf_recv b ys)) s q = cmd_until (buf_mem b) s q" if "q \<le> buf_pos b" for s q
    using nb [OF that] by (simp add: cmd_until_def)
  show ?thesis using assms(2) by (auto simp: smtp_clean_def nb cu)
qed

lemma smtp_read_clean:
  assumes "buf_wf b" and "smtp_inv (buf_pos b) (st, s)" and "smtp_in_line (buf_pos b) (st, s)"
    and "smtp_clean (buf_mem b) (buf_pos b) (st, s)"
    and "ngx_mail_read_command (ngx_mail_smtp_parse_command up room) lim ev st s b = (rc, fate, quit, st', s', b')"
  shows "(rc = NGX_AGAIN \<longrightarrow> smtp_clean (buf_mem b') (buf_pos b') (st', s')) \<and>
    (rc = NGX_OK \<longrightarrow> (\<exists>q\<le>length (buf_mem b'). cmd_until (buf_mem b') s' q))"
  using assms(5,1)
proof (cases rule: read_command_cases)
  case quiet
  with assms(4) show ?thesis by auto
next
  case (parsed b1 rc1)
  have "smtp_clean (buf_mem b1) (buf_pos b1) (st, s)"
    using parsed(2,5) smtp_clean_recv [OF assms(1,4)] assms(4) by auto
  note p = smtp_parse_clean [OF parsed(1) _ _ this parsed(3)]
  have "(rc = NGX_AGAIN \<longrightarrow> rc1 = NGX_AGAIN) \<and> (rc = NGX_OK \<longrightarrow> rc1 = NGX_OK)"
    using parsed(3,4) by (auto simp: read_outcome_def ngx_mail_smtp_parse_command_def
        split: if_splits outcome.splits mail_exit.splits option.splits prod.splits)
  with p assms(2,3) parsed(2) show ?thesis by auto
qed

subsection \<open>What the commands store\<close>

definition one_line :: "u8 list \<Rightarrow> bool" where
  "one_line w \<longleftrightarrow> CR \<notin> set w \<and> LF \<notin> set w"

definition envelope_lines :: "ngx_mail_session_t \<Rightarrow> bool" where
  "envelope_lines s \<longleftrightarrow> one_line (hs_data (m_smtp_helo s)) \<and> one_line (hs_data (m_smtp_from s)) \<and> one_line (hs_data (m_smtp_to s))"

lemma envelope_lines_frame: "smtp_frame s s' \<Longrightarrow> envelope_lines s' = envelope_lines s"
  by (simp add: smtp_frame_def envelope_lines_def)

lemma copy_one_line: "one_line w \<Longrightarrow> copy_bytes env w = Inl h \<Longrightarrow> one_line (hs_data h)"
  "one_line w \<Longrightarrow> copy_bytes env w = Inr h \<Longrightarrow> one_line (hs_data h)"
  by (auto simp: copy_bytes_def one_line_def split: option.splits)

lemma arg_one_line:
  assumes "cmd_until mem s q" and "q \<le> length mem" and "after_cmd s" and "arg_at mem s n = Some w"
  shows "one_line w"
proof -
  obtain c where c: "ms_data (m_cmd s) = Some c" "no_break mem c q" "args_below q (m_args s)"
    using assms(1) by (auto simp: cmd_until_def)
  from assms(4) have n: "n < length (m_args s)" by (simp add: arg_at_def split: if_splits)
  then have a: "m_args s ! n \<in> set (m_args s)" by simp
  then obtain d where d: "ms_data (m_args s ! n) = Some d" "d + unat (ms_len (m_args s ! n)) \<le> q" "c \<le> d"
    using c assms(3) unfolding args_below_def after_cmd_def by (metis option.sel)
  have "w = arg_bytes mem (m_args s ! n)" using assms(4) n d by (simp add: arg_at_def split: if_splits)
  also have "\<dots> = seg mem d (d + unat (ms_len (m_args s ! n)))" using d(1) by (simp add: arg_bytes_def seg_def)
  finally show ?thesis using no_break_seg [OF c(2) d(3,2)] d(2) assms(2) by (simp add: one_line_def)
qed

lemma cmd_one_line:
  assumes "cmd_until mem s q" and "q \<le> length mem" and "m_args s \<noteq> []" and "smtp_cmd_bytes mem s = Some w"
  shows "one_line w"
proof -
  obtain c where c: "ms_data (m_cmd s) = Some c" "no_break mem c q" "args_below q (m_args s)"
    using assms(1) by (auto simp: cmd_until_def)
  have "last (m_args s) \<in> set (m_args s)" using assms(3) by simp
  then obtain d where d: "ms_data (last (m_args s)) = Some d" "d + unat (ms_len (last (m_args s))) \<le> q"
    using c(3) unfolding args_below_def by blast
  have "w = seg mem c (d + unat (ms_len (last (m_args s))))"
    using assms(4) c(1) d(1) by (simp add: smtp_cmd_bytes_def Let_def split: if_splits)
  then show ?thesis using no_break_seg [OF c(2) order_refl d(2)] d(2) assms(2) by (simp add: one_line_def)
qed

lemma smtp_dispatch_lines:
  assumes "envelope_lines (x_s S)"
    and "x_mail_state S = ngx_smtp_start \<Longrightarrow> after_cmd (x_s S) \<and> (\<exists>q\<le>length (buf_mem (x_b S)). cmd_until (buf_mem (x_b S)) (x_s S) q)"
    and "smtp_dispatch env conf sc salt (x_mail_state S) S = Some (rc, T)"
  shows "envelope_lines (x_s T)"
proof (cases "x_mail_state S = ngx_smtp_start")
  case start: True
  then obtain q where q: "q \<le> length (buf_mem (x_b S))" "cmd_until (buf_mem (x_b S)) (x_s S) q" "after_cmd (x_s S)"
    using assms(2) by blast
  note arg = arg_one_line [OF q(2,1,3)]
  note cmd = cmd_one_line [OF q(2,1)]
  have none: "one_line (hs_data no_hs)" by (simp add: one_line_def no_hs_def)
  note env = assms(1) [unfolded envelope_lines_def]
  have start_cmd: "smtp_start_command env conf sc salt S = Some (rc, T)" using assms(3) by (simp add: start)
  have helo: "ngx_mail_smtp_helo env conf S = Some (rc, T) \<Longrightarrow> envelope_lines (x_s T)"
    using env none copy_one_line [OF arg, of 0 _ env]
    by (auto simp: ngx_mail_smtp_helo_def envelope_lines_def Let_def split: if_splits Option.bind_splits sum.splits)
  have mail: "ngx_mail_smtp_mail env conf sc S = Some (rc, T) \<Longrightarrow> envelope_lines (x_s T)"
    using env copy_one_line [OF cmd, of _ env]
    by (auto simp: ngx_mail_smtp_mail_def envelope_lines_def split: if_splits Option.bind_splits sum.splits)
  have rcpt: "ngx_mail_smtp_rcpt env S = Some (rc, T) \<Longrightarrow> envelope_lines (x_s T)"
    using env copy_one_line [OF cmd, of _ env]
    by (auto simp: ngx_mail_smtp_rcpt_def envelope_lines_def split: if_splits Option.bind_splits sum.splits)
  have auth: "ngx_mail_smtp_auth env conf salt S = Some (rc, T) \<Longrightarrow> envelope_lines (x_s T)"
  proof -
    assume *: "ngx_mail_smtp_auth env conf salt S = Some (rc, T)"
    show ?thesis
    proof (cases "ngx_mail_starttls_only conf (x_tls S) \<or> m_args (x_s S) = []")
      case True
      with * assms(1) show ?thesis by (auto simp: ngx_mail_smtp_auth_def split: if_splits)
    next
      case False
      with * obtain m s where m: "ngx_mail_auth_parse env conf (x_tls S) (buf_mem (x_b S)) (x_s S) = Some (m, s)"
        by (auto simp: ngx_mail_smtp_auth_def split: Option.bind_splits)
      have s: "envelope_lines s" using envelope_lines_frame [OF auth_parse_smtp [OF m]] assms(1) by simp
      show ?thesis
      proof (cases "m = MA_LOGIN_USERNAME")
        case True
        with * m False obtain t where "ngx_mail_auth_login_username env (buf_mem (x_b S)) s 1 = Some (rc, t)" "x_s T = t"
          by (auto simp: ngx_mail_smtp_auth_def Let_def)
        with envelope_lines_frame [OF auth_smtp_frame(2)] s show ?thesis by metis
      next
        case other: False
        with * m False s show ?thesis
          by (cases m) (auto simp: ngx_mail_smtp_auth_def smtp_cram_salt_def Let_def split: if_splits option.splits)
      qed
    qed
  qed
  show ?thesis
    using start_cmd helo mail rcpt auth assms(1) env none
    by (auto simp: smtp_start_command_def ngx_mail_smtp_rset_def ngx_mail_smtp_starttls_def envelope_lines_def Let_def
        split: if_splits)
next
  case False
  have "smtp_frame (x_s S) (x_s T)"
    using assms(3) False auth_smtp_frame
    by (cases "x_mail_state S") auto
  with envelope_lines_frame assms(1) show ?thesis by blast
qed

subsection \<open>The invariant\<close>

definition smtp_lines :: "smtp_session \<Rightarrow> bool" where
  "smtp_lines S \<longleftrightarrow> envelope_lines (x_s S) \<and>
     (x_handler S = HS_auth_state \<and> \<not> x_quit S \<and> x_mail_state S = ngx_smtp_start \<longrightarrow>
       smtp_clean (buf_mem (x_b S)) (buf_pos (x_b S)) (x_state S, x_s S))"

lemma smtp_clean_start [simp]: "smtp_clean mem p (smtp_sw_start, s)"
  by (simp add: smtp_clean_def)

lemma smtp_keep_lines: "smtp_keep s s' \<Longrightarrow> envelope_lines s' = envelope_lines s"
  by (simp add: smtp_keep_def envelope_lines_def)

lemma smtp_answer_lines:
  assumes "smtp_kept conf S rc T" and "envelope_lines (x_s T)"
  shows "smtp_lines (smtp_answer rc T)"
proof -
  have env: "envelope_lines (x_s (smtp_answer rc T))"
    using assms(2) by (simp add: smtp_answer_def smtp_reset_def smtp_hand_over_def smtp_internal_error_def envelope_lines_def Let_def)
  consider "rc = NGX_OK" | "rc = NGX_DONE" | "rc = NGX_ERROR" | "rc = NGX_MAIL_PARSE_INVALID_COMMAND"
    using assms(1) unfolding smtp_kept_def by blast
  then show ?thesis
  proof cases
    case 1
    then have "x_mail_state T = ngx_smtp_start \<Longrightarrow> x_state T = smtp_sw_start"
      using assms(1) by (simp add: smtp_kept_def smtp_challenge_def)
    with 1 env show ?thesis by (simp add: smtp_lines_def smtp_answer_def smtp_reset_def Let_def)
  qed (use env in \<open>simp_all add: smtp_lines_def smtp_answer_def smtp_reset_def smtp_hand_over_def smtp_internal_error_def Let_def\<close>)
qed

lemma smtp_auth_state_lines:
  assumes "smtp_sane S" and "x_handler S = HS_auth_state" and "smtp_lines S"
    and "ngx_mail_smtp_auth_state env conf sc salt lim ev S = Some S'"
  shows "smtp_lines S'"
proof (cases "x_out S = None")
  case False
  with assms(3,4) show ?thesis by (auto simp: ngx_mail_smtp_auth_state_def smtp_lines_def)
next
  case True
  with assms(1,2) have S: "buf_wf (x_b S)" "x_quit S = False" "smtp_inv (buf_pos (x_b S)) (x_state S, x_s S)"
      "if smtp_challenge (x_mail_state S) then smtp_answering (x_state S, x_s S)
       else smtp_in_line (buf_pos (x_b S)) (x_state S, x_s S)"
    by (auto simp: smtp_sane_def)
  obtain rc fate quit st s b where r: "ngx_mail_read_command (ngx_mail_smtp_parse_command (env_toupper env) (env_room env))
      lim ev (x_state S) (x_s S) (x_b S) = (rc, fate, quit, st, s, b)"
    by (metis surj_pair)
  note read = smtp_read_result [OF S(1,3,4) r]
  let ?S = "S\<lparr>x_blocked := False, x_state := st, x_s := s, x_b := b, x_quit := quit\<rparr>"
  let ?T = "?S\<lparr>x_out := Some smtp_ok\<rparr>"
  have eq: "ngx_mail_smtp_auth_state env conf sc salt lim ev S =
      (if rc = NGX_AGAIN \<or> rc = NGX_ERROR then Some (smtp_fate fate ?S)
       else if rc = NGX_OK
       then map_option (\<lambda>(rc, S). smtp_answer rc S) (smtp_dispatch env conf sc salt (x_mail_state ?T) ?T)
       else Some (smtp_answer rc ?T))"
    by (simp add: ngx_mail_smtp_auth_state_def True r Let_def S(2))
  have keep: "smtp_keep (x_s S) s" using read by (simp add: smtp_read_def)
  have env: "envelope_lines s" using smtp_keep_lines [OF keep] assms(3) by (simp add: smtp_lines_def)
  have clean: "x_mail_state S = ngx_smtp_start \<Longrightarrow>
      (rc = NGX_AGAIN \<longrightarrow> smtp_clean (buf_mem b) (buf_pos b) (st, s)) \<and>
      (rc = NGX_OK \<longrightarrow> (\<exists>q\<le>length (buf_mem b). cmd_until (buf_mem b) s q))"
    using smtp_read_clean [OF S(1,3) _ _ r] S(2,4) assms(2,3) by (simp add: smtp_lines_def smtp_challenge_def)
  consider "rc = NGX_AGAIN" | "rc = NGX_ERROR" | "rc = NGX_MAIL_PARSE_INVALID_COMMAND" | "rc = NGX_OK"
    using read by (auto simp: smtp_read_def)
  then show ?thesis
  proof cases
    case 1
    then have "fate = Fate_open" using read by (simp add: smtp_read_def)
    then have "S' = ?S" using assms(4) eq 1 by simp
    with 1 env clean show ?thesis by (simp add: smtp_lines_def)
  next
    case 2
    then have "S' = smtp_fate fate ?S" "fate \<noteq> Fate_open" using assms(4) eq read by (auto simp: smtp_read_def)
    with env show ?thesis by (cases fate) (simp_all add: smtp_lines_def smtp_close_def smtp_internal_error_def)
  next
    case 3
    then have "S' = smtp_answer NGX_MAIL_PARSE_INVALID_COMMAND ?T" using assms(4) eq by simp
    with env show ?thesis by (simp add: smtp_invalid_answer smtp_lines_def envelope_lines_def)
  next
    case 4
    then have p: "smtp_parsed (smtp_challenge (x_mail_state S)) (x_s S) NGX_OK st s b" "quit = False"
      using read by (auto simp: smtp_read_def)
    have T: "smtp_parsed_session ?T" using p by (auto simp: smtp_parsed_session_def smtp_parsed_def)
    from smtp_dispatch_kept [OF T, of conf env sc salt] obtain rc2 U where
      U: "smtp_dispatch env conf sc salt (x_mail_state ?T) ?T = Some (rc2, U)" "smtp_kept conf ?T rc2 U"
      by (auto simp: smtp_does_def split: option.splits)
    have "x_mail_state S = ngx_smtp_start \<Longrightarrow> after_cmd s"
      using p by (simp add: smtp_parsed_def smtp_challenge_def)
    then have "envelope_lines (x_s U)"
      using smtp_dispatch_lines [OF _ _ U(1)] env clean 4 by simp
    moreover have "S' = smtp_answer rc2 U" using assms(4) eq 4 U(1) by simp
    ultimately show ?thesis using smtp_answer_lines [OF U(2)] by simp
  qed
qed

lemma smtp_lines_outside: "x_handler S \<noteq> HS_auth_state \<Longrightarrow> smtp_lines S \<longleftrightarrow> envelope_lines (x_s S)"
  by (simp add: smtp_lines_def)

text \<open>Every move but a read leaves the envelope alone.\<close>

lemma smtp_other_moves:
  assumes "smtp_move env conf sc lim client S S'" and "x_handler S \<noteq> HS_auth_state"
  shows "m_smtp_helo (x_s S') = m_smtp_helo (x_s S) \<and> m_smtp_from (x_s S') = m_smtp_from (x_s S) \<and>
    m_smtp_to (x_s S') = m_smtp_to (x_s S)"
  using assms
proof cases
  case (delay ev timedout event_ok got)
  then show ?thesis
    by (simp add: ngx_mail_smtp_invalid_pipelining_def ngx_mail_smtp_create_buffer_def smtp_internal_error_def
        ngx_mail_smtp_discard_command_def smtp_close_def split: mail_recv.split)
qed (auto simp: ngx_mail_smtp_resolve_addr_handler_def ngx_mail_smtp_resolve_name_def ngx_mail_smtp_resolve_name_handler_def
    ngx_mail_smtp_greeting_def ngx_mail_smtp_init_protocol_def ngx_mail_smtp_create_buffer_def smtp_internal_error_def
    smtp_close_def smtp_sent_def smtp_encrypted_def smtp_turned_away_def smtp_auth_refused_def Let_def
    split: resolved.splits option.splits)

lemma smtp_move_lines:
  assumes "smtp_move env conf sc lim client S S'" and "smtp_good conf S" and "smtp_lines S"
  shows "smtp_lines S'"
proof (cases "x_handler S = HS_auth_state")
  case True
  have sane: "smtp_sane S" using assms(2) by (simp add: smtp_good_def)
  show ?thesis
    using assms(1)
  proof cases
    case (read ev salt)
    show ?thesis by (rule smtp_auth_state_lines [OF sane read(1) assms(3) read(3)])
  next
    case sent
    with assms(3) show ?thesis by (simp add: smtp_lines_def smtp_sent_def smtp_close_def Let_def)
  qed (use True assms(3) in \<open>simp_all add: smtp_lines_def smtp_close_def\<close>)
next
  case False
  have env: "envelope_lines (x_s S')"
    using smtp_other_moves [OF assms(1) False] assms(3) by (simp add: smtp_lines_def envelope_lines_def)
  have start: "smtp_in_line p (smtp_sw_start, s)" if "x_handler S' = HS_auth_state" "\<not> x_quit S'" "smtp_in_line p (smtp_sw_start, s)" for p s
    using that by simp
  have "x_handler S' = HS_auth_state \<Longrightarrow> \<not> x_quit S' \<Longrightarrow> x_state S' = smtp_sw_start"
  proof -
    assume h: "x_handler S' = HS_auth_state" and q: "\<not> x_quit S'"
    have sane: "smtp_sane S" using assms(2) by (simp add: smtp_good_def)
    show "x_state S' = smtp_sw_start"
      using assms(1)
    proof cases
      case (addr event_ok name)
      with h show ?thesis by (auto simp: ngx_mail_smtp_resolve_addr_handler_def ngx_mail_smtp_greeting_def smtp_close_def
            split: resolved.splits option.splits if_splits)
    next
      case (post_name started)
      with h show ?thesis by (auto simp: ngx_mail_smtp_resolve_name_def smtp_close_def split: if_splits)
    next
      case (name event_ok addrs)
      with h show ?thesis by (auto simp: ngx_mail_smtp_resolve_name_handler_def ngx_mail_smtp_greeting_def smtp_close_def
            split: resolved.splits if_splits)
    next
      case (delay ev timedout event_ok got)
      with h show ?thesis
        by (auto simp: ngx_mail_smtp_invalid_pipelining_def ngx_mail_smtp_create_buffer_def smtp_internal_error_def
            ngx_mail_smtp_discard_command_def smtp_close_def split: if_splits mail_recv.splits prod.splits)
    next
      case (init got)
      with q have "\<not> x_quit S \<and> x_state S' = x_state S"
        by (auto simp: ngx_mail_smtp_init_protocol_def ngx_mail_smtp_create_buffer_def smtp_internal_error_def split: if_splits)
      with init sane show ?thesis by (simp add: smtp_sane_def)
    next
      case refused
      with q sane show ?thesis by (simp add: smtp_sane_def smtp_auth_refused_def)
    qed (use h q False in \<open>auto simp: smtp_close_def smtp_sent_def smtp_encrypted_def smtp_internal_error_def
           smtp_turned_away_def Let_def split: if_splits\<close>)
  qed
  with env show ?thesis by (simp add: smtp_lines_def)
qed

lemma smtp_reach_lines:
  "smtp_reach env conf sc lim client S0 S \<Longrightarrow> smtp_good conf S0 \<Longrightarrow> smtp_lines S0 \<Longrightarrow> smtp_lines S"
  by (induction rule: smtp_reach.induct) (auto intro: smtp_move_lines dest: smtp_reach_good)

lemma smtp_init_lines:
  "smtp_lines (ngx_mail_smtp_init_session sc event_ok resolver unix_socket started (smtp_new a tls))"
  by (simp add: smtp_lines_def ngx_mail_smtp_init_session_def ngx_mail_smtp_greeting_def smtp_close_def smtp_new_def
      new_session_def envelope_lines_def one_line_def no_hs_def)

lemma smtp_envelope:
  assumes "smtp_reach env conf sc lim client
      (ngx_mail_smtp_init_session sc event_ok resolver unix_socket started (smtp_new a tls)) S"
  shows "envelope_lines (x_s S)"
  using smtp_reach_lines [OF assms smtp_init_good smtp_init_lines] by (simp add: smtp_lines_def)

end
