(* ===== verification/Mail_Auth_Http.thy ===== *)
theory Mail_Auth_Http
  imports Mail_Smtp_Lines
begin

text \<open>
  The client of the authentication server (\<open>src/mail/ngx_mail_auth_http_module.c\<close>): the request that is made from
  a session once the commands of the client have been read.

  Escaping, the printing and reading of numbers and the parsing of addresses belong to the nginx core and are
  parameters, kept with those of \<open>Mail_Auth\<close> in one record. A string that is not backed by as many bytes
  as its length says, such as one whose pointer is NULL, cannot be read: \<open>Fault\<close>.
\<close>

subsection \<open>The surroundings\<close>

record auth_env = mail_env +
  ae_escape_count :: "u8 list \<Rightarrow> nat"  \<comment> \<open>\<open>ngx_escape_uri(NULL, src, size, NGX_ESCAPE_MAIL_AUTH)\<close>\<close>
  ae_escape :: "u8 list \<Rightarrow> u8 list"  \<comment> \<open>what \<open>ngx_escape_uri(dst, src, size, NGX_ESCAPE_MAIL_AUTH)\<close> writes\<close>
  ae_ui :: "u64 \<Rightarrow> u8 list"  \<comment> \<open>what \<open>ngx_sprintf\<close> writes for \<open>%ui\<close>\<close>
  ae_atoi :: "u8 list \<Rightarrow> int"  \<comment> \<open>\<open>ngx_atoi\<close>, -1 for \<open>NGX_ERROR\<close>\<close>
  ae_parse_addr :: "u8 list \<Rightarrow> ngx_rc"  \<comment> \<open>\<open>ngx_parse_addr\<close>\<close>

datatype mail_protocol = NGX_MAIL_POP3_PROTOCOL | NGX_MAIL_IMAP_PROTOCOL | NGX_MAIL_SMTP_PROTOCOL

text \<open>\<open>cscf->protocol->name\<close>\<close>

fun protocol_name :: "mail_protocol \<Rightarrow> u8 list" where
  "protocol_name NGX_MAIL_POP3_PROTOCOL = bytes ''pop3''"
| "protocol_name NGX_MAIL_IMAP_PROTOCOL = bytes ''imap''"
| "protocol_name NGX_MAIL_SMTP_PROTOCOL = bytes ''smtp''"

record auth_http_conf =
  ah_host_header :: "u8 list"
  ah_uri :: "u8 list"
  ah_header :: "u8 list"

text \<open>What else of the session and its connection is looked at; no salt and no host is the empty string.\<close>

record auth_client =
  ac_protocol :: mail_protocol
  ac_tag :: "u8 list"
  ac_salt :: "u8 list"
  ac_login_attempt :: u64
  ac_addr_text :: "u8 list"
  ac_host :: "u8 list"

subsection \<open>The request\<close>

datatype 'a made = Fault | No_memory | Made 'a

fun made_bind :: "'a made \<Rightarrow> ('a \<Rightarrow> 'b made) \<Rightarrow> 'b made" where
  "made_bind Fault f = Fault"
| "made_bind No_memory f = No_memory"
| "made_bind (Made x) f = f x"

definition hs_read :: "heap_str \<Rightarrow> u8 list made" where
  "hs_read h = (if unat (hs_len h) \<le> length (hs_data h) then Made (hs_bytes h) else Fault)"

definition ngx_mail_auth_http_escape :: "auth_env \<Rightarrow> heap_str \<Rightarrow> heap_str made" where
  "ngx_mail_auth_http_escape env h =
    made_bind (hs_read h) (\<lambda>w.
      let n = ae_escape_count env w in
      if n = 0 then Made h
      else let l = hs_len h + of_nat n * 2 in
        (case env_palloc env (unat l) of
           None \<Rightarrow> No_memory
         | Some _ \<Rightarrow> Made \<lparr>hs_data = ae_escape env w, hs_len = l\<rparr>))"

definition ngx_mail_auth_http_method :: "u8 list list" where
  "ngx_mail_auth_http_method = [bytes ''plain'', bytes ''plain'', bytes ''plain'', bytes ''apop'', bytes ''cram-md5'', bytes ''none'']"

text \<open>\<open>sizeof("...") - 1\<close> of the literals, and \<open>NGX_INT_T_LEN\<close>.\<close>

definition NGX_INT_T_LEN :: nat where "NGX_INT_T_LEN = 20"

definition mail_crlf :: "u8 list" where "mail_crlf = [CR, LF]"

text \<open>The sum that the buffer is allocated with, term by term.\<close>

definition request_len :: "auth_http_conf \<Rightarrow> auth_client \<Rightarrow> u8 list \<Rightarrow> ngx_mail_session_t \<Rightarrow> nat \<Rightarrow> nat \<Rightarrow> nat" where
  "request_len cf cl meth s login_len passwd_len =
    length ''GET '' + length (ah_uri cf) + (length '' HTTP/1.0'' + 2)
    + length ''Host: '' + length (ah_host_header cf) + 2
    + length ''Auth-Method: '' + length meth + 2
    + length ''Auth-User: '' + login_len + 2
    + length ''Auth-Pass: '' + passwd_len + 2
    + length ''Auth-Salt: '' + length (ac_salt cl)
    + length ''Auth-Protocol: '' + length (protocol_name (ac_protocol cl)) + 2
    + length ''Auth-Login-Attempt: '' + NGX_INT_T_LEN + 2
    + length ''Client-IP: '' + length (ac_addr_text cl) + 2
    + length ''Client-Host: '' + length (ac_host cl) + 2
    + length ''Auth-SMTP-Helo: '' + unat (hs_len (m_smtp_helo s))
    + length ''Auth-SMTP-From: '' + unat (hs_len (m_smtp_from s))
    + length ''Auth-SMTP-To: '' + unat (hs_len (m_smtp_to s))
    + length (ah_header cf) + 2"

text \<open>\<open>Name: value CRLF\<close>\<close>

definition request_line :: "string \<Rightarrow> u8 list \<Rightarrow> u8 list" where
  "request_line name v = bytes name @ v @ mail_crlf"

definition smtp_request_lines :: "ngx_mail_session_t \<Rightarrow> u8 list made" where
  "smtp_request_lines s =
    (if m_auth_method s \<noteq> NGX_MAIL_AUTH_NONE then Made []
     else made_bind (hs_read (m_smtp_helo s)) (\<lambda>helo.
          made_bind (hs_read (m_smtp_from s)) (\<lambda>from.
          made_bind (hs_read (m_smtp_to s)) (\<lambda>to.
            Made (request_line ''Auth-SMTP-Helo: '' helo @ request_line ''Auth-SMTP-From: '' from @
                  request_line ''Auth-SMTP-To: '' to)))))"

text \<open>
  The size of the buffer, what is written into it, and whether \<open>s->passwd.data\<close> is set to NULL;
  \<open>auth_method\<close> is an index into an array of six.
\<close>

definition with_salt :: "auth_client \<Rightarrow> ngx_mail_session_t \<Rightarrow> bool" where
  "with_salt cl s \<longleftrightarrow> m_auth_method s \<noteq> NGX_MAIL_AUTH_PLAIN \<and> ac_salt cl \<noteq> []"

definition ngx_mail_auth_http_create_request ::
  "auth_env \<Rightarrow> auth_http_conf \<Rightarrow> auth_client \<Rightarrow> ngx_mail_session_t \<Rightarrow> (nat \<times> u8 list \<times> ngx_mail_session_t) made" where
  "ngx_mail_auth_http_create_request env cf cl s =
    made_bind (ngx_mail_auth_http_escape env (m_login s)) (\<lambda>login.
    made_bind (ngx_mail_auth_http_escape env (m_passwd s)) (\<lambda>passwd.
    if \<not> unat (m_auth_method s) < length ngx_mail_auth_http_method then Fault
    else
      let meth = ngx_mail_auth_http_method ! unat (m_auth_method s);
          size = request_len cf cl meth s (unat (hs_len login)) (unat (hs_len passwd)) in
      (case env_palloc env size of
         None \<Rightarrow> No_memory
       | Some _ \<Rightarrow>
           made_bind (smtp_request_lines s) (\<lambda>smtp.
             Made (size,
               bytes ''GET '' @ ah_uri cf @ bytes '' HTTP/1.0'' @ mail_crlf @
               request_line ''Host: '' (ah_host_header cf) @
               request_line ''Auth-Method: '' meth @
               request_line ''Auth-User: '' (hs_bytes login) @
               request_line ''Auth-Pass: '' (hs_bytes passwd) @
               (if with_salt cl s then bytes ''Auth-Salt: '' @ ac_salt cl else []) @
               request_line ''Auth-Protocol: '' (protocol_name (ac_protocol cl)) @
               request_line ''Auth-Login-Attempt: '' (ae_ui env (ac_login_attempt cl)) @
               request_line ''Client-IP: '' (ac_addr_text cl) @
               (if ac_host cl \<noteq> [] then request_line ''Client-Host: '' (ac_host cl) else []) @
               smtp @ ah_header cf @ mail_crlf,
               if with_salt cl s then s\<lparr>m_passwd := (m_passwd s)\<lparr>hs_data := []\<rparr>\<rparr> else s)))))"

subsection \<open>What the request is\<close>

text \<open>
  What the core promises: \<open>ngx_escape_uri\<close> writes three bytes for each byte it counts and leaves no line
  break, and numbers are printed in decimal digits.
\<close>

definition auth_env_spec :: "auth_env \<Rightarrow> bool" where
  "auth_env_spec env \<longleftrightarrow>
    (\<forall>w. ae_escape_count env w \<le> length w \<and> length (ae_escape env w) = length w + 2 * ae_escape_count env w \<and>
       one_line (ae_escape env w) \<and> (ae_escape_count env w = 0 \<longrightarrow> one_line w)) \<and>
    (\<forall>n. length (ae_ui env n) \<le> NGX_INT_T_LEN \<and> one_line (ae_ui env n)) \<and>
    (\<forall>n. unat n < 10 ^ 14 \<longrightarrow> length (ae_ui env n) \<le> 14)"

lemma made_bind_Made: "made_bind x f = Made y \<longleftrightarrow> (\<exists>z. x = Made z \<and> f z = Made y)"
  by (cases x) auto

lemma hs_read_Made: "hs_read h = Made w \<Longrightarrow> w = hs_bytes h \<and> length w = unat (hs_len h)"
  by (auto simp: hs_read_def hs_bytes_def split: if_splits)

lemma escape_Made:
  assumes "auth_env_spec env" and "unat (hs_len h) < 2 ^ 62" and "ngx_mail_auth_http_escape env h = Made e"
  shows "length (hs_bytes e) = unat (hs_len e) \<and> one_line (hs_bytes e)"
proof -
  obtain w where r: "hs_read h = Made w"
    using assms(3) by (cases "hs_read h") (simp_all add: ngx_mail_auth_http_escape_def)
  note w = r hs_read_Made [OF r, THEN conjunct1] hs_read_Made [OF r, THEN conjunct2]
  define n where "n = ae_escape_count env w"
  have spec: "n \<le> length w" "length (ae_escape env w) = length w + 2 * n" "one_line (ae_escape env w)" "n = 0 \<longrightarrow> one_line w"
    using assms(1) unfolding auth_env_spec_def n_def by blast+
  show ?thesis
  proof (cases "n = 0")
    case True
    then have "e = h" using assms(3) w(1) by (simp add: ngx_mail_auth_http_escape_def n_def)
    with True w spec(4) show ?thesis by simp
  next
    case False
    define l where "l = hs_len h + of_nat n * 2"
    have e: "e = \<lparr>hs_data = ae_escape env w, hs_len = l\<rparr>"
      using assms(3) w(1) False by (auto simp: ngx_mail_auth_http_escape_def n_def l_def Let_def split: option.splits)
    have "l = of_nat (length w + 2 * n)" using w(3) by (simp add: l_def mult.commute)
    moreover have "length w + 2 * n < 2 ^ 64" using spec(1) w(3) assms(2) by simp
    ultimately have "unat l = length w + 2 * n" by (simp only: unat_of_nat_u64)
    with e spec show ?thesis by (simp add: hs_bytes_def)
  qed
qed

text \<open>The lines of the request, without their ends.\<close>

definition auth_request_lines ::
  "auth_env \<Rightarrow> auth_http_conf \<Rightarrow> auth_client \<Rightarrow> u8 list \<Rightarrow> ngx_mail_session_t \<Rightarrow> u8 list \<Rightarrow> u8 list \<Rightarrow> u8 list list" where
  "auth_request_lines env cf cl salt s user pass =
    [bytes ''GET '' @ ah_uri cf @ bytes '' HTTP/1.0'',
     bytes ''Host: '' @ ah_host_header cf,
     bytes ''Auth-Method: '' @ ngx_mail_auth_http_method ! unat (m_auth_method s),
     bytes ''Auth-User: '' @ user,
     bytes ''Auth-Pass: '' @ pass] @
    (if with_salt cl s then [bytes ''Auth-Salt: '' @ salt] else []) @
    [bytes ''Auth-Protocol: '' @ protocol_name (ac_protocol cl),
     bytes ''Auth-Login-Attempt: '' @ ae_ui env (ac_login_attempt cl),
     bytes ''Client-IP: '' @ ac_addr_text cl] @
    (if ac_host cl \<noteq> [] then [bytes ''Client-Host: '' @ ac_host cl] else []) @
    (if m_auth_method s = NGX_MAIL_AUTH_NONE
     then [bytes ''Auth-SMTP-Helo: '' @ hs_bytes (m_smtp_helo s), bytes ''Auth-SMTP-From: '' @ hs_bytes (m_smtp_from s),
           bytes ''Auth-SMTP-To: '' @ hs_bytes (m_smtp_to s)]
     else [])"

definition print_lines :: "u8 list list \<Rightarrow> u8 list" where
  "print_lines ls = concat (map (\<lambda>l. l @ mail_crlf) ls)"

lemma print_lines_simps: "print_lines [] = []" "print_lines (l # ls) = l @ mail_crlf @ print_lines ls"
  "print_lines (xs @ ys) = print_lines xs @ print_lines ys"
  by (simp_all add: print_lines_def)

lemma smtp_request_lines_Made:
  assumes "smtp_request_lines s = Made smtp"
  shows "smtp = print_lines (if m_auth_method s = NGX_MAIL_AUTH_NONE
     then [bytes ''Auth-SMTP-Helo: '' @ hs_bytes (m_smtp_helo s), bytes ''Auth-SMTP-From: '' @ hs_bytes (m_smtp_from s),
           bytes ''Auth-SMTP-To: '' @ hs_bytes (m_smtp_to s)]
     else [])"
    and "length smtp \<le> 46 + unat (hs_len (m_smtp_helo s)) + unat (hs_len (m_smtp_from s)) + unat (hs_len (m_smtp_to s)) +
      (if m_auth_method s = NGX_MAIL_AUTH_NONE then 6 else 0)"
  using assms by (auto simp: smtp_request_lines_def made_bind_Made request_line_def print_lines_simps mail_crlf_def
      dest!: hs_read_Made split: if_splits)

text \<open>A request that has been made, taken apart.\<close>

lemma create_request_Made:
  assumes "ngx_mail_auth_http_create_request env cf cl s = Made (sz, txt, s')"
  obtains login passwd smtp where "ngx_mail_auth_http_escape env (m_login s) = Made login"
    "ngx_mail_auth_http_escape env (m_passwd s) = Made passwd" "unat (m_auth_method s) < 6"
    "smtp_request_lines s = Made smtp"
    "sz = request_len cf cl (ngx_mail_auth_http_method ! unat (m_auth_method s)) s (unat (hs_len login)) (unat (hs_len passwd))"
    "txt = bytes ''GET '' @ ah_uri cf @ bytes '' HTTP/1.0'' @ mail_crlf @
       request_line ''Host: '' (ah_host_header cf) @
       request_line ''Auth-Method: '' (ngx_mail_auth_http_method ! unat (m_auth_method s)) @
       request_line ''Auth-User: '' (hs_bytes login) @
       request_line ''Auth-Pass: '' (hs_bytes passwd) @
       (if with_salt cl s then bytes ''Auth-Salt: '' @ ac_salt cl else []) @
       request_line ''Auth-Protocol: '' (protocol_name (ac_protocol cl)) @
       request_line ''Auth-Login-Attempt: '' (ae_ui env (ac_login_attempt cl)) @
       request_line ''Client-IP: '' (ac_addr_text cl) @
       (if ac_host cl \<noteq> [] then request_line ''Client-Host: '' (ac_host cl) else []) @
       smtp @ ah_header cf @ mail_crlf"
  using assms
  by (auto simp: ngx_mail_auth_http_create_request_def made_bind_Made ngx_mail_auth_http_method_def Let_def
      split: if_splits option.splits)

text \<open>
  C27: The request to the authentication server fits into the buffer allocated for it, for every protocol and method,
  as long as there have been fewer than 10^14 attempts to log in. The sum the buffer is allocated with leaves out the
  line ends of the three lines of \<open>smtp_auth none\<close>; what saves it is that it reserves 20 digits for the number of the attempt.
\<close>

theorem auth_request_fits:
  assumes core: "auth_env_spec env"
    and "unat (hs_len (m_login s)) < 2 ^ 62" and "unat (hs_len (m_passwd s)) < 2 ^ 62"
    and "unat (ac_login_attempt cl) < 10 ^ 14"
    and "ngx_mail_auth_http_create_request env cf cl s = Made (sz, txt, s')"
  shows "length txt \<le> sz"
  using assms(5)
proof (cases rule: create_request_Made)
  case (1 login passwd smtp)
  have len: "length (hs_bytes login) = unat (hs_len login)" "length (hs_bytes passwd) = unat (hs_len passwd)"
    using escape_Made [OF core assms(2) 1(1)] escape_Made [OF core assms(3) 1(2)] by simp_all
  have ui: "length (ae_ui env (ac_login_attempt cl)) \<le> 14" using core assms(4) unfolding auth_env_spec_def by blast
  note smtp = smtp_request_lines_Made(2) [OF 1(4)]
  show ?thesis
    using len ui smtp unfolding 1(5,6) request_len_def
    by (simp add: request_line_def mail_crlf_def NGX_INT_T_LEN_def split: if_splits)
qed

text \<open>A core that escapes as nginx does, accepts any base64 without a star, and reads and prints decimal numbers.\<close>

definition escaped_byte :: "u8 \<Rightarrow> bool" where
  "escaped_byte c \<longleftrightarrow> c \<le> 32 \<or> c = 37 \<or> 127 \<le> c"

definition escape_digit :: "u8 \<Rightarrow> u8" where
  "escape_digit n = (if n < 10 then 48 + n else 55 + n)"

definition percent_escape :: "u8 list \<Rightarrow> u8 list" where
  "percent_escape w = concat (map (\<lambda>c. if escaped_byte c then [37, escape_digit (c div 16), escape_digit (c mod 16)] else [c]) w)"

fun decimal_digits :: "nat \<Rightarrow> nat \<Rightarrow> u8 list" where
  "decimal_digits 0 n = []"
| "decimal_digits (Suc k) n = (if n < 10 then [] else decimal_digits k (n div 10)) @ [of_nat (48 + n mod 10)]"

definition core_env :: auth_env where
  "core_env = \<lparr>env_room = (\<lambda>_. True), env_toupper = ascii_upper, env_palloc = (\<lambda>n. Some (replicate n 0)),
     env_decoded_length = (\<lambda>n. (n + 3) div 4 * 3), env_encoded_length = (\<lambda>n. (n + 2) div 3 * 4),
     env_decode_base64 = (\<lambda>w. if chr CHR ''*'' \<in> set w then None else Some w),
     env_strncasecmp = (\<lambda>a b n. if map ascii_upper (take n a) = map ascii_upper (take n b) then 0 else 1),
     ae_escape_count = (\<lambda>w. length (filter escaped_byte w)), ae_escape = percent_escape,
     ae_ui = (\<lambda>n. decimal_digits 20 (unat n)),
     ae_atoi = (\<lambda>w. if w \<noteq> [] \<and> list_all is_digit w then int (dec_val w) else -1),
     ae_parse_addr = (\<lambda>w. if w = [] then NGX_DECLINED else NGX_OK)\<rparr>"

lemma decimal_digits_length: "length (decimal_digits k n) \<le> k"
  by (induction k n rule: decimal_digits.induct) auto

lemma decimal_digits_short: "n < 10 ^ Suc j \<Longrightarrow> length (decimal_digits k n) \<le> Suc j"
proof (induction k n arbitrary: j rule: decimal_digits.induct)
  case (2 k n)
  show ?case
  proof (cases "n < 10")
    case False
    then obtain i where j: "j = Suc i" using 2 by (cases j) auto
    have "n div 10 < 10 ^ Suc i" using 2(2) j by (simp add: div_less_iff_less_mult)
    from 2(1) [OF False this] j False show ?thesis by simp
  qed simp
qed simp

lemma decimal_digit_line: "of_nat (48 + n mod 10) \<noteq> CR" "of_nat (48 + n mod 10) \<noteq> LF"
proof -
  have *: "unat (of_nat (48 + n mod 10) :: u8) = 48 + n mod 10" by (subst unat_of_nat) simp
  have "w \<noteq> CR \<and> w \<noteq> LF" if "unat w = 48 + k" for w k using that by auto
  from this [OF *] show "of_nat (48 + n mod 10) \<noteq> CR" "of_nat (48 + n mod 10) \<noteq> LF" by simp_all
qed

lemma decimal_digits_line: "one_line (decimal_digits k n)"
  using decimal_digit_line by (induction k n rule: decimal_digits.induct) (auto simp: one_line_def simp del: of_nat_add)

lemma core_env_spec: "auth_env_spec core_env"
proof -
  have hex: "escape_digit (c div 16) \<noteq> CR \<and> escape_digit (c div 16) \<noteq> LF \<and> escape_digit (c mod 16) \<noteq> CR \<and> escape_digit (c mod 16) \<noteq> LF" for c
    by (rule u8_cases [where x = c]) code_simp
  have plain: "\<not> escaped_byte c \<Longrightarrow> c \<noteq> CR \<and> c \<noteq> LF" for c by (auto simp: escaped_byte_def)
  have "length (percent_escape w) = length w + 2 * length (filter escaped_byte w)" for w
    by (induction w) (auto simp: percent_escape_def)
  moreover have "one_line (percent_escape w)" for w
    using hex plain by (induction w) (auto simp: percent_escape_def one_line_def)
  moreover have "filter escaped_byte w = [] \<Longrightarrow> one_line w" for w
    using plain by (auto simp: one_line_def filter_empty_conv)
  moreover have "unat n < 10 ^ 14 \<Longrightarrow> length (decimal_digits 20 (unat n)) \<le> 14" for n :: u64
    using decimal_digits_short [of "unat n" 13 20] by simp
  ultimately show ?thesis
    using decimal_digits_length [of 20] decimal_digits_line
    by (simp add: auth_env_spec_def core_env_def NGX_INT_T_LEN_def)
qed

text \<open>The client of the SMTP handler; the salt ends with a line break (\<open>ngx_mail_salt\<close>).\<close>

fun host_text :: "smtp_host \<Rightarrow> u8 list" where
  "host_text No_host = []"
| "host_text Host_unavailable = bytes ''[UNAVAILABLE]''"
| "host_text Host_tempunavail = bytes ''[TEMPUNAVAIL]''"
| "host_text (Host_name w) = w"

definition smtp_client :: "u8 list option \<Rightarrow> u8 list \<Rightarrow> smtp_session \<Rightarrow> auth_client" where
  "smtp_client salt addr_text S =
    \<lparr>ac_protocol = NGX_MAIL_SMTP_PROTOCOL, ac_tag = [], ac_salt = (case salt of None \<Rightarrow> [] | Some w \<Rightarrow> w @ mail_crlf), ac_login_attempt = x_login_attempt S,
     ac_addr_text = addr_text, ac_host = host_text (x_host S)\<rparr>"

text \<open>
  C26: What a client of the SMTP proxy sends cannot add a line to the request made to the authentication server: in every
  reachable session the request is made of the lines the code writes, none of which has a line break inside, followed
  by the configured header and the empty line. The client name, sender and recipient are not escaped; the comment in the
  code that they cannot contain a line break is right. Of the client's host name, which comes from the resolver, and is not
  escaped either, it is assumed.
\<close>

theorem smtp_request_not_injected:
  assumes "smtp_reach env conf sc lim client
      (ngx_mail_smtp_init_session sc event_ok resolver unix_socket started (smtp_new a tls)) S"
    and core: "auth_env_spec ae"
    and "unat (hs_len (m_login (x_s S))) < 2 ^ 62" and "unat (hs_len (m_passwd (x_s S))) < 2 ^ 62"
    and "one_line (ah_uri cf)" and "one_line (ah_host_header cf)" and "one_line addr_text"
    and host: "one_line (host_text (x_host S))" and "\<And>w. salt = Some w \<Longrightarrow> one_line w"
    and "ngx_mail_auth_http_create_request ae cf (smtp_client salt addr_text S) (x_s S) = Made (sz, txt, s')"
  shows "\<exists>user pass. let ls = auth_request_lines ae cf (smtp_client salt addr_text S) (the salt) (x_s S) user pass in
    txt = print_lines ls @ ah_header cf @ mail_crlf \<and> list_all one_line ls"
  using assms(10)
proof (cases rule: create_request_Made)
  case (1 login passwd smtp)
  let ?cl = "smtp_client salt addr_text S"
  have esc: "one_line (hs_bytes login)" "one_line (hs_bytes passwd)"
    using escape_Made [OF core assms(3) 1(1)] escape_Made [OF core assms(4) 1(2)] by simp_all
  have ui: "one_line (ae_ui ae (ac_login_attempt ?cl))" using core unfolding auth_env_spec_def by blast
  have cut: "one_line w \<Longrightarrow> one_line (take n w)" for w n by (auto simp: one_line_def dest: in_set_takeD)
  have env: "one_line (hs_bytes (m_smtp_helo (x_s S)))" "one_line (hs_bytes (m_smtp_from (x_s S)))"
      "one_line (hs_bytes (m_smtp_to (x_s S)))"
    using smtp_envelope [OF assms(1)] cut by (simp_all add: envelope_lines_def hs_bytes_def)
  have join: "one_line (v @ w) \<longleftrightarrow> one_line v \<and> one_line w" for v w by (auto simp: one_line_def)
  have m: "unat (m_auth_method (x_s S)) \<in> {0, 1, 2, 3, 4, 5}" using 1(3) by auto
  then have meth: "one_line (ngx_mail_auth_http_method ! unat (m_auth_method (x_s S)))"
    by (elim insertE) (simp_all add: ngx_mail_auth_http_method_def one_line_def bytes_def)
  have lit: "one_line (bytes ''GET '')" "one_line (bytes '' HTTP/1.0'')" "one_line (bytes ''Host: '')"
      "one_line (bytes ''Auth-Method: '')" "one_line (bytes ''Auth-User: '')" "one_line (bytes ''Auth-Pass: '')"
      "one_line (bytes ''Auth-Salt: '')" "one_line (bytes ''Auth-Protocol: '')" "one_line (bytes ''Auth-Login-Attempt: '')"
      "one_line (bytes ''Client-IP: '')" "one_line (bytes ''Client-Host: '')" "one_line (bytes ''Auth-SMTP-Helo: '')"
      "one_line (bytes ''Auth-SMTP-From: '')" "one_line (bytes ''Auth-SMTP-To: '')" "one_line (bytes ''smtp'')"
    by (simp_all add: one_line_def bytes_def)
  let ?ls = "auth_request_lines ae cf ?cl (the salt) (x_s S) (hs_bytes login) (hs_bytes passwd)"
  have "list_all one_line ?ls"
    using esc ui env meth lit assms(5-8) assms(9) [of "the salt"]
    by (cases salt) (simp_all add: auth_request_lines_def join smtp_client_def with_salt_def)
  moreover have "txt = print_lines ?ls @ ah_header cf @ mail_crlf"
    unfolding 1(6) smtp_request_lines_Made(1) [OF 1(4)]
    by (cases salt) (simp_all add: auth_request_lines_def print_lines_simps request_line_def smtp_client_def with_salt_def)
  ultimately show ?thesis by (auto simp: Let_def)
qed

definition local_auth :: auth_http_conf where
  "local_auth = \<lparr>ah_host_header = bytes ''localhost'', ah_uri = bytes ''/auth'', ah_header = []\<rparr>"

definition sender_request :: "(nat \<times> u8 list \<times> ngx_mail_session_t) made" where
  "sender_request = ngx_mail_auth_http_create_request core_env local_auth
     (smtp_client None (bytes ''127.0.0.1'') smtp_sender) (x_s smtp_sender)"

definition sender_text :: "nat \<times> u8 list \<times> ngx_mail_session_t" where
  "sender_text = (case sender_request of Made r \<Rightarrow> r | _ \<Rightarrow> (0, [], new_session 0))"

lemma sender_request_Made: "ngx_mail_auth_http_create_request core_env local_auth
     (smtp_client None (bytes ''127.0.0.1'') smtp_sender) (x_s smtp_sender) =
   Made (fst sender_text, fst (snd sender_text), snd (snd sender_text))"
proof -
  have "(case sender_request of Made r \<Rightarrow> True | _ \<Rightarrow> False)" by code_simp
  then show ?thesis by (cases sender_request) (auto simp: sender_text_def sender_request_def)
qed

lemma sender_numbers: "hs_len (m_login (x_s smtp_sender)) = 0" "hs_len (m_passwd (x_s smtp_sender)) = 0"
  "ac_login_attempt (smtp_client None (bytes ''127.0.0.1'') smtp_sender) = 1"
  by code_simp+

theorem auth_request_fits_witness: "length (fst (snd sender_text)) \<le> fst sender_text"
  by (rule auth_request_fits [OF core_env_spec _ _ _ sender_request_Made]) (simp_all add: sender_numbers)

theorem smtp_request_not_injected_witness:
  "\<exists>user pass. let ls = auth_request_lines core_env local_auth (smtp_client None (bytes ''127.0.0.1'') smtp_sender) (the None)
       (x_s smtp_sender) user pass in
     fst (snd sender_text) = print_lines ls @ ah_header local_auth @ mail_crlf \<and> list_all one_line ls"
proof -
  have len: "unat (hs_len (m_login (x_s smtp_sender))) < 2 ^ 62" "unat (hs_len (m_passwd (x_s smtp_sender))) < 2 ^ 62"
    by (simp_all add: sender_numbers)
  have "one_line (ah_uri local_auth)" "one_line (ah_host_header local_auth)" "one_line (bytes ''127.0.0.1'')"
      "one_line (host_text (x_host smtp_sender))"
    by code_simp+
  from smtp_request_not_injected [OF smtp_sender_reach core_env_spec len this _ sender_request_Made] show ?thesis by simp
qed

subsection \<open>Requests that read too far\<close>

text \<open>
  A session that has to wait cannot ask twice: after a request with a salt (APOP, CRAM-MD5) \<open>s->passwd.data\<close> is NULL but
  \<open>s->passwd.len\<close> is kept, so the request made after \<open>Auth-Status: WAIT\<close>, unless the server has sent a password, reads
  that many bytes at NULL.
\<close>

theorem second_request_faults:
  assumes "ngx_mail_auth_http_create_request env cf cl s = Made (sz, txt, s')"
    and "with_salt cl s" and "hs_len (m_passwd s) \<noteq> 0"
  shows "ngx_mail_auth_http_create_request env cf cl' s' = Fault"
  using assms(1)
proof (cases rule: create_request_Made)
  case (1 login passwd smtp)
  have s': "s' = s\<lparr>m_passwd := (m_passwd s)\<lparr>hs_data := []\<rparr>\<rparr>"
    using assms(1,2) 1(1-4) by (auto simp: ngx_mail_auth_http_create_request_def Let_def split: option.splits if_splits)
  have "unat (hs_len (m_passwd s)) \<noteq> 0" using assms(3) by (simp add: unat_eq_0)
  then have "ngx_mail_auth_http_escape env (m_passwd s') = Fault"
    by (simp add: s' ngx_mail_auth_http_escape_def hs_read_def)
  moreover have "ngx_mail_auth_http_escape env (m_login s') = Made login" using 1(1) by (simp add: s')
  ultimately show ?thesis by (simp add: ngx_mail_auth_http_create_request_def)
qed

definition cram_client :: auth_client where
  "cram_client = \<lparr>ac_protocol = NGX_MAIL_POP3_PROTOCOL, ac_tag = [], ac_salt = bytes ''<1.2@mail>'' @ mail_crlf, ac_login_attempt = 1,
     ac_addr_text = bytes ''127.0.0.1'', ac_host = []\<rparr>"

definition cram_session :: ngx_mail_session_t where
  "cram_session = (new_session 0)\<lparr>m_login := \<lparr>hs_data = bytes ''joe'', hs_len = 3\<rparr>,
     m_passwd := \<lparr>hs_data = replicate 32 97, hs_len = 32\<rparr>, m_auth_method := NGX_MAIL_AUTH_CRAM_MD5\<rparr>"

theorem second_request_faults_witness:
  "(case ngx_mail_auth_http_create_request core_env local_auth cram_client cram_session of
      Made (sz, txt, s') \<Rightarrow> ngx_mail_auth_http_create_request core_env local_auth cram_client s' = Fault
    | _ \<Rightarrow> False)"
proof -
  have "(case ngx_mail_auth_http_create_request core_env local_auth cram_client cram_session of Made r \<Rightarrow> True | _ \<Rightarrow> False)"
    by code_simp
  then obtain sz w s' where r: "ngx_mail_auth_http_create_request core_env local_auth cram_client cram_session = Made (sz, w, s')"
    by (cases "ngx_mail_auth_http_create_request core_env local_auth cram_client cram_session") auto
  have "with_salt cram_client cram_session" "hs_len (m_passwd cram_session) \<noteq> 0" by code_simp+
  from second_request_faults [OF r this] r show ?thesis by simp
qed














end
