(* ===== verification/Upstream_Round_Robin.thy ===== *)
theory Upstream_Round_Robin
  imports Prelude
begin

text \<open>
  Load balancing over the servers of an upstream (\<open>src/http/ngx_http_upstream_round_robin.c\<close>): the
  weighted round robin, with the servers that were tried for a request, failed ones and backup
  servers. Addresses and names are byte strings, the clock is an argument.
\<close>

subsection \<open>The peers\<close>

text \<open>
  \<open>ngx_http_upstream_rr_peer_t\<close>. Weights are \<open>ngx_int_t\<close>, times \<open>time_t\<close>: they are integers here,
  and that weights stay far from the ends of the type is part of what is proved.
\<close>

record rr_peer =
  p_sockaddr :: "u8 list"
  p_name :: "u8 list"
  p_current_weight :: int
  p_effective_weight :: int
  p_weight :: int
  p_fails :: u64
  p_accessed :: int
  p_checked :: int
  p_max_fails :: u64
  p_fail_timeout :: int
  p_down :: bool

text \<open>\<open>ngx_http_upstream_rr_peers_t\<close>; \<open>number\<close> is the length of \<open>peer\<close>, \<open>next\<close> is the group that follows in a list.\<close>

record rr_peers =
  ps_peer :: "rr_peer list"
  ps_total_weight :: int
  ps_single :: bool
  ps_weighted :: bool
  ps_name :: "u8 list"

text \<open>\<open>ngx_http_upstream_rr_peer_data_t\<close>; \<open>rrp->peers\<close> is the number of groups left behind.\<close>

record rr_data =
  rrp_peers :: nat
  rrp_current :: nat
  rrp_tried :: "u64 list"

text \<open>\<open>ngx_peer_connection_t\<close>, as far as load balancing uses it.\<close>

record peer_connection =
  pc_tries :: u64
  pc_cached :: bool
  pc_connection :: "nat option"
  pc_sockaddr :: "u8 list"
  pc_name :: "u8 list"

subsection \<open>The peers that were tried\<close>

definition tried_bit :: "u64 list \<Rightarrow> nat \<Rightarrow> bool" where
  "tried_bit t i \<longleftrightarrow> t ! (i div 64) AND push_bit (i mod 64) 1 \<noteq> 0"

definition set_tried :: "u64 list \<Rightarrow> nat \<Rightarrow> u64 list" where
  "set_tried t i = t[i div 64 := t ! (i div 64) OR push_bit (i mod 64) 1]"

definition tried_words :: "nat \<Rightarrow> nat" where
  "tried_words n = (n + 63) div 64"

lemma word_and_bit: "w AND push_bit k 1 \<noteq> 0 \<longleftrightarrow> bit w k" if "k < 64" for w :: u64
proof -
  have "bit (w AND push_bit k 1) n \<longleftrightarrow> n = k \<and> bit w k" for n
    using that by (auto simp: bit_and_iff bit_exp_iff)
  then show ?thesis by (metis bit_0_eq bit_eqI bot_apply bot_bool_def)
qed

lemma tried_bit_iff: "tried_bit t i \<longleftrightarrow> bit (t ! (i div 64)) (i mod 64)"
  using word_and_bit [of "i mod 64" "t ! (i div 64)"] by (simp add: tried_bit_def)

lemma length_set_tried [simp]: "length (set_tried t i) = length t"
  by (simp add: set_tried_def)

lemma tried_set_tried:
  assumes "i < 64 * length t"
  shows "tried_bit (set_tried t i) j \<longleftrightarrow> j = i \<or> tried_bit t j"
proof -
  have "i div 64 < length t" using assms by (simp add: less_mult_imp_div_less mult.commute)
  moreover have "j = i \<longleftrightarrow> j div 64 = i div 64 \<and> j mod 64 = i mod 64"
    by (metis div_mult_mod_eq)
  ultimately show ?thesis
    by (auto simp: tried_bit_iff set_tried_def nth_list_update bit_or_iff bit_exp_iff)
qed

lemma tried_zero [simp]: "i < 64 * n \<Longrightarrow> \<not> tried_bit (replicate n 0) i"
  by (simp add: tried_bit_iff less_mult_imp_div_less mult.commute)

lemma tried_words_enough: "n \<le> 64 * tried_words n"
  by (simp add: tried_words_def)

subsection \<open>Choosing a peer\<close>

text \<open>\<open>peer->max_fails && peer->fails >= peer->max_fails && now - peer->checked <= peer->fail_timeout\<close>\<close>

definition rr_failing :: "int \<Rightarrow> rr_peer \<Rightarrow> bool" where
  "rr_failing now p \<longleftrightarrow> p_max_fails p \<noteq> 0 \<and> p_fails p \<ge> p_max_fails p \<and> now - p_checked p \<le> p_fail_timeout p"

definition rr_gain :: "rr_peer \<Rightarrow> rr_peer" where
  "rr_gain p = p\<lparr>p_current_weight := p_current_weight p + p_effective_weight p,
     p_effective_weight := (if p_effective_weight p < p_weight p then p_effective_weight p + 1
                            else p_effective_weight p)\<rparr>"

text \<open>The body of the loop: the peers, \<open>best\<close> and \<open>total\<close>.\<close>

definition rr_visit :: "int \<Rightarrow> u64 list \<Rightarrow> nat \<Rightarrow> rr_peer list \<times> nat option \<times> int
    \<Rightarrow> rr_peer list \<times> nat option \<times> int" where
  "rr_visit now tried i x =
    (case x of (ps, best, tot) \<Rightarrow>
       if tried_bit tried i then x
       else if p_down (ps ! i) then x
       else if rr_failing now (ps ! i) then x
       else
         let ps' = ps[i := rr_gain (ps ! i)] in
         (ps',
          (case best of
             None \<Rightarrow> Some i
           | Some b \<Rightarrow> if p_current_weight (ps' ! i) > p_current_weight (ps' ! b) then Some i else best),
          tot + p_effective_weight (ps ! i)))"

definition rr_loop :: "int \<Rightarrow> u64 list \<Rightarrow> rr_peer list \<Rightarrow> rr_peer list \<times> nat option \<times> int" where
  "rr_loop now tried ps = fold (rr_visit now tried) [0..<length ps] (ps, None, 0)"

definition rr_chosen :: "int \<Rightarrow> int \<Rightarrow> rr_peer \<Rightarrow> rr_peer" where
  "rr_chosen now tot p =
    (let p = p\<lparr>p_current_weight := p_current_weight p - tot\<rparr> in
     if now - p_checked p > p_fail_timeout p then p\<lparr>p_checked := now\<rparr> else p)"

definition ngx_http_upstream_get_peer :: "int \<Rightarrow> rr_data \<Rightarrow> rr_peer list \<Rightarrow> nat option \<times> rr_data \<times> rr_peer list" where
  "ngx_http_upstream_get_peer now d ps =
    (case rr_loop now (rrp_tried d) ps of
       (ps, None, tot) \<Rightarrow> (None, d, ps)
     | (ps, Some i, tot) \<Rightarrow>
         (Some i, d\<lparr>rrp_current := i, rrp_tried := set_tried (rrp_tried d) i\<rparr>,
          ps[i := rr_chosen now tot (ps ! i)]))"

subsection \<open>What the loop finds\<close>

definition rr_live :: "int \<Rightarrow> u64 list \<Rightarrow> rr_peer list \<Rightarrow> nat \<Rightarrow> bool" where
  "rr_live now tried ps i \<longleftrightarrow> \<not> tried_bit tried i \<and> \<not> p_down (ps ! i) \<and> \<not> rr_failing now (ps ! i)"

definition rr_gained :: "int \<Rightarrow> u64 list \<Rightarrow> nat \<Rightarrow> rr_peer list \<Rightarrow> rr_peer list" where
  "rr_gained now tried n ps =
     map (\<lambda>j. if j < n \<and> rr_live now tried ps j then rr_gain (ps ! j) else ps ! j) [0..<length ps]"

definition rr_next_weight :: "rr_peer \<Rightarrow> int" where
  "rr_next_weight p = p_current_weight p + p_effective_weight p"

definition rr_best :: "(nat \<Rightarrow> bool) \<Rightarrow> (nat \<Rightarrow> int) \<Rightarrow> nat \<Rightarrow> nat option \<Rightarrow> bool" where
  "rr_best live w n best \<longleftrightarrow>
    (case best of
       None \<Rightarrow> \<forall>j<n. \<not> live j
     | Some b \<Rightarrow> b < n \<and> live b \<and> (\<forall>j<n. live j \<longrightarrow> w j \<le> w b) \<and> (\<forall>j<b. live j \<longrightarrow> w j < w b))"

lemma length_rr_gained [simp]: "length (rr_gained now tried n ps) = length ps"
  by (simp add: rr_gained_def)

lemma rr_gained_nth:
  "j < length ps \<Longrightarrow> rr_gained now tried n ps ! j =
     (if j < n \<and> rr_live now tried ps j then rr_gain (ps ! j) else ps ! j)"
  by (simp add: rr_gained_def)

lemma rr_gained_Suc:
  assumes "n < length ps"
  shows "rr_gained now tried (Suc n) ps =
    (if rr_live now tried ps n then (rr_gained now tried n ps)[n := rr_gain (ps ! n)] else rr_gained now tried n ps)"
proof (rule nth_equalityI)
  fix j assume "j < length (rr_gained now tried (Suc n) ps)"
  then show "rr_gained now tried (Suc n) ps ! j = (if rr_live now tried ps n
      then (rr_gained now tried n ps)[n := rr_gain (ps ! n)] else rr_gained now tried n ps) ! j"
    using assms by (cases "j = n") (simp_all add: rr_gained_nth less_Suc_eq)
qed simp

lemma rr_best_step:
  assumes "rr_best live w n best"
  shows "rr_best live w (Suc n) (if live n then (case best of None \<Rightarrow> Some n
      | Some b \<Rightarrow> if w n > w b then Some n else best) else best)"
  using assms by (auto simp: rr_best_def less_Suc_eq split: option.splits)

lemma rr_gain_weight [simp]: "p_current_weight (rr_gain p) = rr_next_weight p"
  by (simp add: rr_gain_def rr_next_weight_def)

lemma rr_loop_prefix:
  assumes "n \<le> length ps"
  shows "\<exists>best. fold (rr_visit now tried) [0..<n] (ps, None, 0) =
      (rr_gained now tried n ps, best, \<Sum>j | j < n \<and> rr_live now tried ps j. p_effective_weight (ps ! j)) \<and>
    rr_best (rr_live now tried ps) (\<lambda>j. rr_next_weight (ps ! j)) n best"
  using assms
proof (induction n)
  case 0
  have "rr_gained now tried 0 ps = ps" by (simp add: rr_gained_def map_nth)
  then show ?case by (simp add: rr_best_def)
next
  case (Suc n)
  let ?live = "rr_live now tried ps" and ?w = "\<lambda>j. rr_next_weight (ps ! j)"
  let ?sum = "\<lambda>n. \<Sum>j | j < n \<and> ?live j. p_effective_weight (ps ! j)"
  obtain best where IH: "fold (rr_visit now tried) [0..<n] (ps, None, 0) = (rr_gained now tried n ps, best, ?sum n)"
      "rr_best ?live ?w n best"
    using Suc by auto
  have n: "rr_gained now tried n ps ! n = ps ! n" using Suc.prems by (simp add: rr_gained_nth)
  have split: "{j. j < Suc n \<and> ?live j} = (if ?live n then insert n {j. j < n \<and> ?live j} else {j. j < n \<and> ?live j})"
    by (auto simp: less_Suc_eq)
  note gained = rr_gained_Suc [of n ps now tried]
  note best = rr_best_step [OF IH(2)]
  show ?case
  proof (cases "?live n")
    case False
    then have "fold (rr_visit now tried) [0..<Suc n] (ps, None, 0) = (rr_gained now tried n ps, best, ?sum n)"
      by (auto simp: IH(1) rr_visit_def n rr_live_def)
    with False best gained Suc.prems split show ?thesis by simp
  next
    case True
    have "p_current_weight ((rr_gained now tried n ps)[n := rr_gain (ps ! n)] ! b) = ?w b"
      if "best = Some b" for b
      using IH(2) that Suc.prems by (simp add: rr_best_def rr_gained_nth)
    moreover have "p_current_weight ((rr_gained now tried n ps)[n := rr_gain (ps ! n)] ! n) = ?w n"
      using Suc.prems by simp
    ultimately have "fold (rr_visit now tried) [0..<Suc n] (ps, None, 0) =
        ((rr_gained now tried n ps)[n := rr_gain (ps ! n)],
         (case best of None \<Rightarrow> Some n | Some b \<Rightarrow> if ?w n > ?w b then Some n else best),
         ?sum n + p_effective_weight (ps ! n))"
      using True by (auto simp: IH(1) rr_visit_def n rr_live_def Let_def split: option.split)
    with True best gained Suc.prems split show ?thesis by (simp add: add.commute)
  qed
qed

lemma rr_loop_result:
  obtains best where "rr_loop now tried ps = (rr_gained now tried (length ps) ps, best,
      \<Sum>j | j < length ps \<and> rr_live now tried ps j. p_effective_weight (ps ! j))"
    and "rr_best (rr_live now tried ps) (\<lambda>j. rr_next_weight (ps ! j)) (length ps) best"
proof -
  obtain best where "fold (rr_visit now tried) [0..<length ps] (ps, None, 0) =
        (rr_gained now tried (length ps) ps, best,
          \<Sum>j | j < length ps \<and> rr_live now tried ps j. p_effective_weight (ps ! j))"
      "rr_best (rr_live now tried ps) (\<lambda>j. rr_next_weight (ps ! j)) (length ps) best"
    using rr_loop_prefix [OF order_refl, of now tried ps] by blast
  then show ?thesis by (intro that [of best]) (simp_all add: rr_loop_def)
qed

text \<open>The next peer: none when no peer is live, otherwise the first of the live ones with the largest next weight.\<close>

definition rr_share :: "int \<Rightarrow> u64 list \<Rightarrow> rr_peer list \<Rightarrow> int" where
  "rr_share now tried ps = (\<Sum>j | j < length ps \<and> rr_live now tried ps j. p_effective_weight (ps ! j))"

definition rr_after :: "int \<Rightarrow> u64 list \<Rightarrow> nat \<Rightarrow> rr_peer list \<Rightarrow> rr_peer list" where
  "rr_after now tried i ps = map (\<lambda>j.
     if j = i then rr_chosen now (rr_share now tried ps) (rr_gain (ps ! j))
     else if rr_live now tried ps j then rr_gain (ps ! j) else ps ! j) [0..<length ps]"

lemma length_rr_after [simp]: "length (rr_after now tried i ps) = length ps"
  by (simp add: rr_after_def)

lemma rr_after_nth: "j < length ps \<Longrightarrow> rr_after now tried i ps ! j =
    (if j = i then rr_chosen now (rr_share now tried ps) (rr_gain (ps ! j))
     else if rr_live now tried ps j then rr_gain (ps ! j) else ps ! j)"
  by (simp add: rr_after_def)

lemma get_peer_cases:
  obtains (none) "ngx_http_upstream_get_peer now d ps = (None, d, ps)"
    "\<forall>j<length ps. \<not> rr_live now (rrp_tried d) ps j"
  | (some) i where "ngx_http_upstream_get_peer now d ps =
      (Some i, d\<lparr>rrp_current := i, rrp_tried := set_tried (rrp_tried d) i\<rparr>, rr_after now (rrp_tried d) i ps)"
    "i < length ps" "rr_live now (rrp_tried d) ps i"
    "\<forall>j<length ps. rr_live now (rrp_tried d) ps j \<longrightarrow> rr_next_weight (ps ! j) \<le> rr_next_weight (ps ! i)"
    "\<forall>j<i. rr_live now (rrp_tried d) ps j \<longrightarrow> rr_next_weight (ps ! j) < rr_next_weight (ps ! i)"
proof -
  let ?t = "rrp_tried d"
  obtain best where l: "rr_loop now ?t ps = (rr_gained now ?t (length ps) ps, best, rr_share now ?t ps)"
      and b: "rr_best (rr_live now ?t ps) (\<lambda>j. rr_next_weight (ps ! j)) (length ps) best"
    unfolding rr_share_def by (rule rr_loop_result)
  show ?thesis
  proof (cases best)
    case None
    then have dead: "\<forall>j<length ps. \<not> rr_live now ?t ps j" using b by (simp add: rr_best_def)
    then have "rr_gained now ?t (length ps) ps = ps"
      by (intro nth_equalityI) (auto simp: rr_gained_nth)
    with None l show ?thesis by (intro none [OF _ dead]) (simp add: ngx_http_upstream_get_peer_def)
  next
    case (Some i)
    then have i: "i < length ps" "rr_live now ?t ps i" using b by (auto simp: rr_best_def)
    have "(rr_gained now ?t (length ps) ps)[i := rr_chosen now (rr_share now ?t ps) (rr_gained now ?t (length ps) ps ! i)]
        = rr_after now ?t i ps"
      using i by (intro nth_equalityI) (auto simp: rr_gained_nth rr_after_nth nth_list_update)
    with Some l b i show ?thesis
      by (intro some [of i]) (auto simp: ngx_http_upstream_get_peer_def rr_best_def)
  qed
qed

subsection \<open>Getting and freeing a peer\<close>

definition rr_forgive :: "rr_peers \<Rightarrow> rr_peers" where
  "rr_forgive g = g\<lparr>ps_peer := map (\<lambda>p. p\<lparr>p_fails := 0\<rparr>) (ps_peer g)\<rparr>"

definition rr_clear_tried :: "nat \<Rightarrow> u64 list \<Rightarrow> u64 list" where
  "rr_clear_tried n t = fold (\<lambda>i t. t[i := 0]) [0..<tried_words n] t"

text \<open>
  The function is called with \<open>rrp->peers\<close>, the group \<open>g\<close>, and the groups after it along \<open>next\<close>.
\<close>

fun rr_get :: "int \<Rightarrow> peer_connection \<Rightarrow> rr_data \<Rightarrow> rr_peers \<Rightarrow> rr_peers list
    \<Rightarrow> ngx_rc \<times> peer_connection \<times> rr_data \<times> rr_peers list" where
  "rr_get now pc d g ns =
    (let pc = pc\<lparr>pc_cached := False, pc_connection := None\<rparr>;
         (choice, d, g) =
           (if ps_single g then (if p_down (ps_peer g ! 0) then None else Some 0, d, g)
            else (case ngx_http_upstream_get_peer now d (ps_peer g) of
                    (choice, d, ps) \<Rightarrow> (choice, d, g\<lparr>ps_peer := ps\<rparr>))) in
     case choice of
       Some i \<Rightarrow>
         (let p = ps_peer g ! i;
              pc = pc\<lparr>pc_sockaddr := p_sockaddr p, pc_name := p_name p\<rparr> in
          (NGX_OK,
           (case ns of
              [] \<Rightarrow> pc
            | h # _ \<Rightarrow> if pc_tries pc = 1 then pc\<lparr>pc_tries := pc_tries pc + of_nat (length (ps_peer h))\<rparr> else pc),
           d, g # ns))
     | None \<Rightarrow>
         (case ns of
            [] \<Rightarrow> (NGX_BUSY, pc\<lparr>pc_name := ps_name g\<rparr>, d, [rr_forgive g])
          | h # rest \<Rightarrow>
              (case rr_get now (pc\<lparr>pc_tries := of_nat (length (ps_peer h))\<rparr>)
                      (d\<lparr>rrp_peers := rrp_peers d + 1,
                         rrp_tried := rr_clear_tried (length (ps_peer h)) (rrp_tried d)\<rparr>) h rest of
                 (rc, pc, d, gs) \<Rightarrow>
                   if rc \<noteq> NGX_BUSY then (rc, pc, d, g # gs)
                   else (NGX_BUSY, pc\<lparr>pc_name := ps_name g\<rparr>, d, rr_forgive g # gs))))"

declare rr_get.simps [simp del]

text \<open>\<open>rrp->peers\<close> is never NULL: the first equation is for the list only.\<close>

definition ngx_http_upstream_get_round_robin_peer :: "int \<Rightarrow> peer_connection \<Rightarrow> rr_data \<Rightarrow> rr_peers list
    \<Rightarrow> ngx_rc \<times> peer_connection \<times> rr_data \<times> rr_peers list" where
  "ngx_http_upstream_get_round_robin_peer now pc d gs =
    (case drop (rrp_peers d) gs of
       [] \<Rightarrow> (NGX_ERROR, pc, d, gs)
     | g # ns \<Rightarrow> (case rr_get now pc d g ns of
                   (rc, pc, d', gs') \<Rightarrow> (rc, pc, d', take (rrp_peers d) gs @ gs')))"

definition rr_failed :: "int \<Rightarrow> rr_peer \<Rightarrow> rr_peer" where
  "rr_failed now p =
    (let p = p\<lparr>p_fails := p_fails p + 1, p_accessed := now, p_checked := now\<rparr>;
         p = (if p_max_fails p \<noteq> 0
              then p\<lparr>p_effective_weight := p_effective_weight p - p_weight p div uint (p_max_fails p)\<rparr> else p) in
     if p_effective_weight p < 0 then p\<lparr>p_effective_weight := 0\<rparr> else p)"

definition rr_passed :: "rr_peer \<Rightarrow> rr_peer" where
  "rr_passed p = (if p_accessed p < p_checked p then p\<lparr>p_fails := 0\<rparr> else p)"

definition ngx_http_upstream_free_round_robin_peer :: "int \<Rightarrow> bool \<Rightarrow> peer_connection \<Rightarrow> rr_data \<Rightarrow> rr_peers list
    \<Rightarrow> peer_connection \<times> rr_peers list" where
  "ngx_http_upstream_free_round_robin_peer now failed pc d gs =
    (let g = gs ! rrp_peers d in
     if ps_single g then (pc\<lparr>pc_tries := 0\<rparr>, gs)
     else
       let p = ps_peer g ! rrp_current d;
           p = (if failed then rr_failed now p else rr_passed p) in
       (if pc_tries pc \<noteq> 0 then pc\<lparr>pc_tries := pc_tries pc - 1\<rparr> else pc,
        gs[rrp_peers d := g\<lparr>ps_peer := (ps_peer g)[rrp_current d := p]\<rparr>]))"

subsection \<open>Configuration, and the start of a request\<close>

text \<open>\<open>ngx_http_upstream_server_t\<close>; an address is its socket address and its name.\<close>

record upstream_server =
  sv_addrs :: "(u8 list \<times> u8 list) list"
  sv_weight :: int
  sv_max_fails :: u64
  sv_fail_timeout :: int
  sv_down :: bool
  sv_backup :: bool

record upstream_srv_conf =
  us_servers :: "upstream_server list option"
  us_host :: "u8 list"
  us_port :: u16

definition rr_new_peer :: "upstream_server \<Rightarrow> u8 list \<times> u8 list \<Rightarrow> rr_peer" where
  "rr_new_peer s a =
    \<lparr>p_sockaddr = fst a, p_name = snd a, p_current_weight = 0, p_effective_weight = sv_weight s,
     p_weight = sv_weight s, p_fails = 0, p_accessed = 0, p_checked = 0, p_max_fails = sv_max_fails s,
     p_fail_timeout = sv_fail_timeout s, p_down = sv_down s\<rparr>"

definition rr_new_peers :: "bool \<Rightarrow> upstream_server list \<Rightarrow> rr_peer list" where
  "rr_new_peers backup servers =
    concat (map (\<lambda>s. map (rr_new_peer s) (sv_addrs s)) (filter (\<lambda>s. sv_backup s = backup) servers))"

definition rr_weights :: "bool \<Rightarrow> upstream_server list \<Rightarrow> int" where
  "rr_weights backup servers =
    sum_list (map (\<lambda>s. int (length (sv_addrs s)) * sv_weight s) (filter (\<lambda>s. sv_backup s = backup) servers))"

text \<open>
  \<open>got\<close> and \<open>got_backup\<close>: \<open>ngx_pcalloc\<close> gets memory for the two groups; \<open>resolve\<close> is
  \<open>ngx_inet_resolve_host\<close>.
\<close>

definition ngx_http_upstream_init_round_robin ::
  "bool \<Rightarrow> bool \<Rightarrow> (u8 list \<Rightarrow> u16 \<Rightarrow> (u8 list \<times> u8 list) list option) \<Rightarrow> upstream_srv_conf \<Rightarrow> rr_peers list option" where
  "ngx_http_upstream_init_round_robin got got_backup resolve us =
    (case us_servers us of
       Some servers \<Rightarrow>
         (let n = length (rr_new_peers False servers);
              w = rr_weights False servers;
              m = length (rr_new_peers True servers);
              v = rr_weights True servers;
              peers = \<lparr>ps_peer = rr_new_peers False servers, ps_total_weight = w, ps_single = (n = 1),
                       ps_weighted = (w \<noteq> int n), ps_name = us_host us\<rparr> in
          if n = 0 then None
          else if \<not> got then None
          else if m = 0 then Some [peers]
          else if \<not> got_backup then None
          else Some [peers\<lparr>ps_single := False\<rparr>,
                     \<lparr>ps_peer = rr_new_peers True servers, ps_total_weight = v, ps_single = False,
                      ps_weighted = (v \<noteq> int m), ps_name = us_host us\<rparr>])
     | None \<Rightarrow>
         (if us_port us = 0 then None
          else (case resolve (us_host us) (us_port us) of
                  None \<Rightarrow> None
                | Some addrs \<Rightarrow>
                    if \<not> got then None
                    else Some [\<lparr>ps_peer = map (rr_new_peer \<lparr>sv_addrs = addrs, sv_weight = 1, sv_max_fails = 1,
                                  sv_fail_timeout = 10, sv_down = False, sv_backup = False\<rparr>) addrs,
                                ps_total_weight = int (length addrs), ps_single = (length addrs = 1),
                                ps_weighted = False, ps_name = us_host us\<rparr>])))"

text \<open>The start of a request; the flags say that the two allocations succeed.\<close>

definition rr_most_peers :: "rr_peers list \<Rightarrow> nat" where
  "rr_most_peers gs =
    (let n = length (ps_peer (gs ! 0)) in
     case gs of _ # h # _ \<Rightarrow> (if length (ps_peer h) > n then length (ps_peer h) else n) | _ \<Rightarrow> n)"

definition ngx_http_upstream_init_round_robin_peer :: "bool \<Rightarrow> bool \<Rightarrow> rr_peers list \<Rightarrow> peer_connection
    \<Rightarrow> (peer_connection \<times> rr_data) option" where
  "ngx_http_upstream_init_round_robin_peer got got_tried gs pc =
    (let n = rr_most_peers gs in
     if \<not> got then None
     else if n \<le> 64
     then Some (pc\<lparr>pc_tries := of_nat (length (ps_peer (gs ! 0)))\<rparr>, \<lparr>rrp_peers = 0, rrp_current = 0, rrp_tried = [0]\<rparr>)
     else if \<not> got_tried then None
     else Some (pc\<lparr>pc_tries := of_nat (length (ps_peer (gs ! 0)))\<rparr>,
                \<lparr>rrp_peers = 0, rrp_current = 0, rrp_tried = replicate (tried_words n) 0\<rparr>))"

text \<open>
  \<open>ngx_http_upstream_create_round_robin_peer\<close>: a request whose upstream was resolved at run time
  (\<open>ngx_http_upstream_resolved_t\<close>) has a group of its own. \<open>set_port\<close> writes the port into a
  socket address, \<open>ntop\<close> is \<open>ngx_sock_ntop\<close>; the flags say which allocations succeed (those of the
  addresses by index).
\<close>

record upstream_resolved =
  ur_host :: "u8 list"
  ur_port :: u16
  ur_sockaddr :: "u8 list option"
  ur_addrs :: "u8 list list"
  ur_naddrs :: nat

definition rr_resolved_peer :: "u8 list \<Rightarrow> u8 list \<Rightarrow> rr_peer" where
  "rr_resolved_peer sa name =
    \<lparr>p_sockaddr = sa, p_name = name, p_current_weight = 0, p_effective_weight = 1, p_weight = 1, p_fails = 0,
     p_accessed = 0, p_checked = 0, p_max_fails = 1, p_fail_timeout = 10, p_down = False\<rparr>"

definition ngx_http_upstream_create_round_robin_peer ::
  "bool \<Rightarrow> bool \<Rightarrow> (nat \<Rightarrow> bool) \<Rightarrow> bool \<Rightarrow> (u8 list \<Rightarrow> u16 \<Rightarrow> u8 list) \<Rightarrow> (u8 list \<Rightarrow> u8 list)
    \<Rightarrow> upstream_resolved \<Rightarrow> peer_connection \<Rightarrow> (peer_connection \<times> rr_data \<times> rr_peers list) option" where
  "ngx_http_upstream_create_round_robin_peer got got_peers got_addr got_tried set_port ntop ur pc =
    (if \<not> got then None
     else if \<not> got_peers then None
     else
       let peers =
             (case ur_sockaddr ur of
                Some sa \<Rightarrow> Some [rr_resolved_peer sa (ur_host ur)]
              | None \<Rightarrow>
                  if \<forall>i<ur_naddrs ur. got_addr i
                  then Some (map (\<lambda>i. let sa = set_port (ur_addrs ur ! i) (ur_port ur) in rr_resolved_peer sa (ntop sa))
                               [0..<ur_naddrs ur])
                  else None) in
       case peers of
         None \<Rightarrow> None
       | Some ps \<Rightarrow>
           let n = ur_naddrs ur;
               g = \<lparr>ps_peer = ps, ps_total_weight = 0, ps_single = (n = 1), ps_weighted = False, ps_name = ur_host ur\<rparr>;
               pc = pc\<lparr>pc_tries := of_nat n\<rparr> in
           if n \<le> 64 then Some (pc, \<lparr>rrp_peers = 0, rrp_current = 0, rrp_tried = [0]\<rparr>, [g])
           else if \<not> got_tried then None
           else Some (pc, \<lparr>rrp_peers = 0, rrp_current = 0, rrp_tried = replicate (tried_words n) 0\<rparr>, [g]))"

end
