(* ===== verification/Upstream_Fairness.thy ===== *)
theory Upstream_Fairness
  imports Upstream_Round_Robin
begin

text \<open>
  What the weighted round robin of \<open>Upstream_Round_Robin\<close> promises: servers get requests in
  proportion to their weights, a request tries every server that is alive before it gives up, and
  failures do not unbalance the weights.
\<close>

subsection \<open>Fairness\<close>

definition rr_healthy :: "rr_peer \<Rightarrow> bool" where
  "rr_healthy p \<longleftrightarrow> \<not> p_down p \<and> (p_max_fails p = 0 \<or> p_fails p < p_max_fails p) \<and>
     p_effective_weight p = p_weight p \<and> 0 \<le> p_weight p"

definition rr_sum :: "(rr_peer \<Rightarrow> int) \<Rightarrow> rr_peer list \<Rightarrow> int" where
  "rr_sum f ps = (\<Sum>j<length ps. f (ps ! j))"

definition rr_even :: "rr_peer list \<Rightarrow> bool" where
  "rr_even ps \<longleftrightarrow> (\<forall>p \<in> set ps. rr_healthy p) \<and> rr_sum p_current_weight ps = 0 \<and> 0 < rr_sum p_weight ps \<and>
     (\<forall>p \<in> set ps. - rr_sum p_weight ps < p_current_weight p)"

lemma rr_healthy_live:
  assumes "\<forall>p \<in> set ps. rr_healthy p" and "j < length ps" and "length ps \<le> 64 * k"
  shows "rr_live now (replicate k 0) ps j"
proof -
  have "rr_healthy (ps ! j)" using assms by simp
  moreover have "\<not> tried_bit (replicate k 0) j" using assms by simp
  ultimately show ?thesis by (auto simp: rr_live_def rr_healthy_def rr_failing_def)
qed

lemma rr_weights_move [simp]:
  "p_weight (rr_gain p) = p_weight p" "p_weight (rr_chosen now w p) = p_weight p" "p_weight (rr_passed p) = p_weight p"
  "p_current_weight (rr_chosen now w p) = p_current_weight p - w" "p_current_weight (rr_passed p) = p_current_weight p"
  by (simp_all add: rr_gain_def rr_chosen_def rr_passed_def Let_def)

lemma rr_healthy_move: "rr_healthy p \<Longrightarrow> rr_healthy (rr_gain p)" "rr_healthy p \<Longrightarrow> rr_healthy (rr_chosen now w p)"
  "rr_healthy p \<Longrightarrow> rr_healthy (rr_passed p)"
  by (auto simp: rr_healthy_def rr_gain_def rr_chosen_def rr_passed_def Let_def word_gt_0)

lemma rr_sum_positive: "0 < rr_sum f ps \<Longrightarrow> \<exists>j<length ps. 0 < f (ps ! j)"
  using sum_nonpos [of "{..<length ps}" "\<lambda>j. f (ps ! j)"] by (force simp: rr_sum_def not_less)

lemma rr_even_step:
  assumes "rr_even ps" and "length ps \<le> 64 * k" and "rrp_tried d = replicate k 0"
  obtains i d' ps' where "ngx_http_upstream_get_peer now d ps = (Some i, d', ps')"
    "d' = d\<lparr>rrp_current := i, rrp_tried := set_tried (rrp_tried d) i\<rparr>" "i < length ps" "length ps' = length ps"
    "rr_even (ps'[i := rr_passed (ps' ! i)])"
    "\<forall>j<length ps. p_weight (ps' ! j) = p_weight (ps ! j) \<and>
       p_current_weight (ps' ! j) = p_current_weight (ps ! j) + p_weight (ps ! j) - (if j = i then rr_sum p_weight ps else 0)"
  using get_peer_cases [of now d ps]
proof cases
  case none
  have "ps \<noteq> []" using assms(1) by (auto simp: rr_even_def rr_sum_def)
  then have False
    using none(2) rr_healthy_live [of ps 0 k now] assms by (auto simp: rr_even_def)
  then show ?thesis ..
next
  case (some i)
  let ?W = "rr_sum p_weight ps" and ?ps = "rr_after now (rrp_tried d) i ps"
  let ?qs = "?ps[i := rr_passed (?ps ! i)]"
  have healthy: "\<forall>p \<in> set ps. rr_healthy p" and sums: "rr_sum p_current_weight ps = 0" "0 < ?W"
      and low: "\<forall>p \<in> set ps. - ?W < p_current_weight p"
    using assms(1) by (auto simp: rr_even_def)
  have live: "rr_live now (rrp_tried d) ps j" if "j < length ps" for j
    unfolding assms(3) by (rule rr_healthy_live [OF healthy that assms(2)])
  have next_w: "rr_next_weight (ps ! j) = p_current_weight (ps ! j) + p_weight (ps ! j)" if "j < length ps" for j
    using healthy that by (simp add: rr_next_weight_def rr_healthy_def)
  have "{j. j < length ps \<and> rr_live now (rrp_tried d) ps j} = {..<length ps}" using live by auto
  then have share: "rr_share now (rrp_tried d) ps = ?W"
    using healthy by (simp add: rr_share_def rr_sum_def rr_healthy_def cong: sum.cong_simp)
  have move: "p_weight (?ps ! j) = p_weight (ps ! j) \<and>
       p_current_weight (?ps ! j) = p_current_weight (ps ! j) + p_weight (ps ! j) - (if j = i then ?W else 0)"
    if "j < length ps" for j
    using that live [OF that] by (simp add: rr_after_nth share next_w)
  have qs: "p_weight (?qs ! j) = p_weight (ps ! j)"
       "p_current_weight (?qs ! j) = p_current_weight (ps ! j) + p_weight (ps ! j) - (if j = i then ?W else 0)"
    if "j < length ps" for j
    using move [OF that] that by (cases "j = i"; simp)+
  have "rr_sum (\<lambda>p. p_current_weight p + p_weight p) ps = ?W"
    using sums(1) by (simp add: rr_sum_def sum.distrib)
  then obtain m where m: "m < length ps" "0 < p_current_weight (ps ! m) + p_weight (ps ! m)"
    using rr_sum_positive [of "\<lambda>p. p_current_weight p + p_weight p" ps] sums(2) by auto
  have top: "0 < p_current_weight (ps ! i) + p_weight (ps ! i)"
    using some(2,4) m live [OF m(1)] by (auto simp: next_w)
  have "rr_even ?qs"
    unfolding rr_even_def
  proof (intro conjI ballI)
    fix p assume "p \<in> set ?qs"
    then obtain j where j: "j < length ps" "p = ?qs ! j" by (auto simp: in_set_conv_nth)
    have h: "rr_healthy (ps ! j)" using healthy j by simp
    then show "rr_healthy p"
      using j live [OF j(1)] by (cases "j = i") (auto simp: rr_after_nth intro!: rr_healthy_move)
    have "rr_sum p_weight ?qs = ?W" using qs(1) by (simp add: rr_sum_def)
    moreover have "- ?W < p_current_weight (ps ! j)" "0 \<le> p_weight (ps ! j)"
      using low j h by (auto simp: rr_healthy_def)
    ultimately show "- rr_sum p_weight ?qs < p_current_weight p"
      using j(1) top unfolding j(2) qs(2) [OF j(1)] by (cases "j = i") auto
  next
    have "rr_sum p_current_weight ?qs = (\<Sum>j<length ps. p_current_weight (ps ! j) + p_weight (ps ! j) - (if j = i then ?W else 0))"
      using qs(2) by (simp add: rr_sum_def)
    also have "\<dots> = rr_sum p_current_weight ps + ?W - ?W"
      using some(2) by (simp add: rr_sum_def sum.distrib sum_subtractf)
    finally show "rr_sum p_current_weight ?qs = 0" using sums(1) by simp
    show "0 < rr_sum p_weight ?qs" using qs(1) sums(2) by (simp add: rr_sum_def)
  qed
  with some(1,2) move show ?thesis by (intro that [of i _ ?ps]) auto
qed

text \<open>A request that gets through at the first try, and a series of such requests.\<close>

definition rr_request :: "peer_connection \<Rightarrow> int \<Rightarrow> rr_peers list \<Rightarrow> (nat \<times> nat) option \<times> rr_peers list" where
  "rr_request pc now gs =
    (case ngx_http_upstream_init_round_robin_peer True True gs pc of
       None \<Rightarrow> (None, gs)
     | Some (pc, d) \<Rightarrow>
         (case ngx_http_upstream_get_round_robin_peer now pc d gs of
            (NGX_OK, pc, d, gs) \<Rightarrow>
              (Some (rrp_peers d, rrp_current d), snd (ngx_http_upstream_free_round_robin_peer now False pc d gs))
          | (_, _, _, gs) \<Rightarrow> (None, gs)))"

fun rr_serve :: "peer_connection \<Rightarrow> int list \<Rightarrow> rr_peers list \<Rightarrow> (nat \<times> nat) option list \<times> rr_peers list" where
  "rr_serve pc [] gs = ([], gs)"
| "rr_serve pc (now # ts) gs =
    (case rr_request pc now gs of (x, gs) \<Rightarrow> case rr_serve pc ts gs of (xs, gs) \<Rightarrow> (x # xs, gs))"

lemma rr_init_peer:
  obtains pc' k where "ngx_http_upstream_init_round_robin_peer True True gs pc =
      Some (pc', \<lparr>rrp_peers = 0, rrp_current = 0, rrp_tried = replicate k 0\<rparr>)"
    "rr_most_peers gs \<le> 64 * k" "pc_tries pc' = of_nat (length (ps_peer (gs ! 0)))"
proof (cases "rr_most_peers gs \<le> 64")
  case True
  then show ?thesis by (intro that [of "pc\<lparr>pc_tries := of_nat (length (ps_peer (gs ! 0)))\<rparr>" 1])
      (simp_all add: ngx_http_upstream_init_round_robin_peer_def)
next
  case False
  then show ?thesis
    by (intro that [of "pc\<lparr>pc_tries := of_nat (length (ps_peer (gs ! 0)))\<rparr>" "tried_words (rr_most_peers gs)"])
      (simp_all add: ngx_http_upstream_init_round_robin_peer_def tried_words_enough)
qed

lemma rr_most_peers_first: "length (ps_peer g) \<le> rr_most_peers (g # ns)"
  by (simp add: rr_most_peers_def Let_def split: list.split)

lemma rr_request_even:
  assumes "rr_even (ps_peer g)" and "\<not> ps_single g"
  obtains i g' where "rr_request pc now (g # ns) = (Some (0, i), g' # ns)" "i < length (ps_peer g)"
    "rr_even (ps_peer g')" "\<not> ps_single g'" "length (ps_peer g') = length (ps_peer g)"
    "\<forall>j<length (ps_peer g). p_weight (ps_peer g' ! j) = p_weight (ps_peer g ! j) \<and>
       p_current_weight (ps_peer g' ! j) = p_current_weight (ps_peer g ! j) + p_weight (ps_peer g ! j) -
         (if j = i then rr_sum p_weight (ps_peer g) else 0)"
proof -
  obtain pc' k where init: "ngx_http_upstream_init_round_robin_peer True True (g # ns) pc =
        Some (pc', \<lparr>rrp_peers = 0, rrp_current = 0, rrp_tried = replicate k 0\<rparr>)" "rr_most_peers (g # ns) \<le> 64 * k"
    by (rule rr_init_peer [of "g # ns" pc])
  let ?d = "\<lparr>rrp_peers = 0, rrp_current = 0, rrp_tried = replicate k 0\<rparr>"
  have len: "length (ps_peer g) \<le> 64 * k" using init(2) rr_most_peers_first [of g ns] by simp
  obtain i d' ps' where step: "ngx_http_upstream_get_peer now ?d (ps_peer g) = (Some i, d', ps')"
      "d' = ?d\<lparr>rrp_current := i, rrp_tried := set_tried (rrp_tried ?d) i\<rparr>"
      "i < length (ps_peer g)" "length ps' = length (ps_peer g)" "rr_even (ps'[i := rr_passed (ps' ! i)])"
      "\<forall>j<length (ps_peer g). p_weight (ps' ! j) = p_weight (ps_peer g ! j) \<and>
       p_current_weight (ps' ! j) = p_current_weight (ps_peer g ! j) + p_weight (ps_peer g ! j) -
         (if j = i then rr_sum p_weight (ps_peer g) else 0)"
    by (rule rr_even_step [OF assms(1) len, of ?d now]) simp_all
  let ?g = "g\<lparr>ps_peer := ps'[i := rr_passed (ps' ! i)]\<rparr>"
  have "rr_request pc now (g # ns) = (Some (0, i), ?g # ns)"
    using assms(2) step(1,2)
    by (simp add: rr_request_def init(1) ngx_http_upstream_get_round_robin_peer_def rr_get.simps
        ngx_http_upstream_free_round_robin_peer_def Let_def)
  moreover have "p_weight (ps_peer ?g ! j) = p_weight (ps' ! j) \<and>
      p_current_weight (ps_peer ?g ! j) = p_current_weight (ps' ! j)" if "j < length (ps_peer g)" for j
    using that step(4) by (cases "j = i") simp_all
  ultimately show ?thesis
    using step assms(2) by (intro that [of i ?g]) auto
qed

lemma rr_serve_even:
  assumes "rr_even (ps_peer g)" and "\<not> ps_single g"
  obtains xs g' where "rr_serve pc ts (g # ns) = (xs, g' # ns)" "length xs = length ts"
    "set xs \<subseteq> {Some (0, i) | i. i < length (ps_peer g)}"
    "rr_even (ps_peer g')" "length (ps_peer g') = length (ps_peer g)"
    "\<forall>j<length (ps_peer g). p_weight (ps_peer g' ! j) = p_weight (ps_peer g ! j) \<and>
       p_current_weight (ps_peer g' ! j) = p_current_weight (ps_peer g ! j) + int (length ts) * p_weight (ps_peer g ! j) -
         rr_sum p_weight (ps_peer g) * int (count_list xs (Some (0, j)))"
  using assms
proof (induction ts arbitrary: g thesis)
  case Nil
  show ?case by (rule Nil(1) [of "[]" g]) (use Nil(2) in auto)
next
  case (Cons now ts)
  obtain i g1 where one: "rr_request pc now (g # ns) = (Some (0, i), g1 # ns)" "i < length (ps_peer g)"
      "rr_even (ps_peer g1)" "\<not> ps_single g1" "length (ps_peer g1) = length (ps_peer g)"
      "\<forall>j<length (ps_peer g). p_weight (ps_peer g1 ! j) = p_weight (ps_peer g ! j) \<and>
         p_current_weight (ps_peer g1 ! j) = p_current_weight (ps_peer g ! j) + p_weight (ps_peer g ! j) -
           (if j = i then rr_sum p_weight (ps_peer g) else 0)"
    by (rule rr_request_even [OF Cons.prems(2,3)])
  have W: "rr_sum p_weight (ps_peer g1) = rr_sum p_weight (ps_peer g)"
    using one(5,6) by (simp add: rr_sum_def)
  obtain xs g' where two: "rr_serve pc ts (g1 # ns) = (xs, g' # ns)" "length xs = length ts"
      "set xs \<subseteq> {Some (0, i) | i. i < length (ps_peer g1)}" "rr_even (ps_peer g')"
      "length (ps_peer g') = length (ps_peer g1)"
      "\<forall>j<length (ps_peer g1). p_weight (ps_peer g' ! j) = p_weight (ps_peer g1 ! j) \<and>
         p_current_weight (ps_peer g' ! j) = p_current_weight (ps_peer g1 ! j) + int (length ts) * p_weight (ps_peer g1 ! j) -
           rr_sum p_weight (ps_peer g1) * int (count_list xs (Some (0, j)))"
    by (rule Cons.IH [OF _ one(3,4)])
  show ?case
  proof (rule Cons.prems(1) [of "Some (0, i) # xs" g'])
    show "rr_serve pc (now # ts) (g # ns) = (Some (0, i) # xs, g' # ns)" by (simp add: one(1) two(1))
    show "set (Some (0, i) # xs) \<subseteq> {Some (0, i) | i. i < length (ps_peer g)}" using one(2,5) two(3) by auto
    show "\<forall>j<length (ps_peer g). p_weight (ps_peer g' ! j) = p_weight (ps_peer g ! j) \<and>
       p_current_weight (ps_peer g' ! j) = p_current_weight (ps_peer g ! j) + int (length (now # ts)) * p_weight (ps_peer g ! j) -
         rr_sum p_weight (ps_peer g) * int (count_list (Some (0, i) # xs) (Some (0, j)))"
      using one(5,6) two(6) by (auto simp: W algebra_simps)
  qed (use one(5) two in auto)
qed

text \<open>What is chosen in one round, and the weights after it.\<close>

lemma rr_round:
  assumes "rr_even (ps_peer g)" and "\<not> ps_single g" and "\<forall>p \<in> set (ps_peer g). p_current_weight p = 0"
    and "int (length ts) = rr_sum p_weight (ps_peer g)"
  shows "\<exists>xs g'. rr_serve pc ts (g # ns) = (xs, g' # ns) \<and>
    (\<forall>j<length (ps_peer g). int (count_list xs (Some (0, j))) = p_weight (ps_peer g ! j) \<and>
       p_current_weight (ps_peer g' ! j) = 0)"
proof -
  let ?W = "rr_sum p_weight (ps_peer g)" and ?n = "length (ps_peer g)"
  obtain xs g' where run: "rr_serve pc ts (g # ns) = (xs, g' # ns)" "length xs = length ts"
      "set xs \<subseteq> {Some (0, i) | i. i < ?n}" "rr_even (ps_peer g')" "length (ps_peer g') = ?n"
      "\<forall>j<?n. p_weight (ps_peer g' ! j) = p_weight (ps_peer g ! j) \<and>
         p_current_weight (ps_peer g' ! j) = p_current_weight (ps_peer g ! j) + int (length ts) * p_weight (ps_peer g ! j) -
           ?W * int (count_list xs (Some (0, j)))"
    by (rule rr_serve_even [OF assms(1,2)])
  let ?c = "\<lambda>j. int (count_list xs (Some (0, j)))" and ?w = "\<lambda>j. p_weight (ps_peer g ! j)"
  have W: "0 < ?W" "rr_sum p_weight (ps_peer g') = ?W"
    using assms(1) run(5,6) by (auto simp: rr_even_def rr_sum_def)
  have cw: "p_current_weight (ps_peer g' ! j) = ?W * (?w j - ?c j)" if "j < ?n" for j
    using run(6) that assms(3,4) by (simp add: algebra_simps)
  have ge: "?c j \<le> ?w j" if "j < ?n" for j
  proof -
    have "ps_peer g' ! j \<in> set (ps_peer g')" using that run(5) by simp
    then have "- ?W < p_current_weight (ps_peer g' ! j)" using run(4) W(2) by (simp add: rr_even_def)
    then have "- ?W < ?W * (?w j - ?c j)" unfolding cw [OF that] .
    then have "0 < ?W * (?w j - ?c j + 1)" by (simp add: algebra_simps)
    then show ?thesis using W(1) by (simp add: zero_less_mult_iff)
  qed
  have "(\<Sum>j<?n. ?c j) = int (length xs)"
  proof -
    have "length xs = (\<Sum>x\<in>{Some (0, i) | i. i < ?n}. count_list xs x)"
      using run(3) sum_count_set [of xs "{Some (0, i) | i. i < ?n}"] by simp
    also have "{Some (0, i) | i. i < ?n} = (\<lambda>j. Some (0 :: nat, j)) ` {..<?n}" by auto
    finally show ?thesis by (subst (asm) sum.reindex) (auto simp: inj_on_def)
  qed
  then have "(\<Sum>j<?n. ?w j - ?c j) = 0"
    using assms(4) run(2) by (simp add: sum_subtractf rr_sum_def)
  then have "\<forall>j\<in>{..<?n}. ?w j - ?c j = 0"
    using ge by (subst (asm) sum_nonneg_eq_0_iff) auto
  with run(1) cw show ?thesis by auto
qed

lemma rr_sum_list: "rr_sum f ps = sum_list (map f ps)"
  by (simp add: rr_sum_def sum_list_sum_nth atLeast0LessThan)

lemma rr_new_peers_weight: "sum_list (map p_weight (rr_new_peers b servers)) = rr_weights b servers"
  by (induction servers) (simp_all add: rr_new_peers_def rr_weights_def rr_new_peer_def comp_def
      sum_list_triv)

lemma rr_new_peers_set:
  "p \<in> set (rr_new_peers b servers) \<Longrightarrow>
    \<exists>s\<in>set servers. sv_backup s = b \<and> p_down p = sv_down s \<and> p_weight p = sv_weight s \<and>
      p_effective_weight p = p_weight p \<and> p_current_weight p = 0 \<and> p_fails p = 0"
  by (auto simp: rr_new_peers_def rr_new_peer_def)

lemma rr_configured_even:
  assumes "\<forall>s \<in> set servers. \<not> sv_backup s \<longrightarrow> \<not> sv_down s \<and> 1 \<le> sv_weight s"
    and "rr_new_peers False servers \<noteq> []"
  shows "rr_even (rr_new_peers False servers) \<and> (\<forall>p \<in> set (rr_new_peers False servers). p_current_weight p = 0)"
proof -
  let ?ps = "rr_new_peers False servers"
  have p: "rr_healthy p \<and> p_current_weight p = 0 \<and> 1 \<le> p_weight p" if "p \<in> set ?ps" for p
    using rr_new_peers_set [OF that] assms(1) by (auto simp: rr_healthy_def word_gt_0)
  then have zero: "rr_sum p_current_weight ?ps = 0" by (simp add: rr_sum_def)
  have "0 < (\<Sum>j<length ?ps. p_weight (?ps ! j))"
    using assms(2) p by (intro sum_pos) (auto intro: order.strict_trans2 [of 0 1])
  then have "0 < rr_sum p_weight ?ps" by (simp add: rr_sum_def)
  with p zero show ?thesis by (auto simp: rr_even_def)
qed

text \<open>
  C29: Weighted round robin is fair. On the servers of a configuration of which none is marked
  down, as many requests as the weights add up to (at whatever times, each going through at the
  first try) are handed out so that every server of the first group gets exactly as many as its
  weight says, backup servers get none, and the current weights are 0 again, so that the next
  round is the same.
\<close>

theorem round_robin_fair:
  assumes "us_servers us = Some servers"
    and "ngx_http_upstream_init_round_robin True True resolve us = Some (g # ns)"
    and "\<forall>s \<in> set servers. \<not> sv_backup s \<longrightarrow> \<not> sv_down s \<and> 1 \<le> sv_weight s"
    and "2 \<le> length (ps_peer g)" and "int (length ts) = ps_total_weight g"
  shows "\<exists>xs g'. rr_serve pc ts (g # ns) = (xs, g' # ns) \<and>
    (\<forall>j<length (ps_peer g). int (count_list xs (Some (0, j))) = p_weight (ps_peer g ! j) \<and>
       p_current_weight (ps_peer g' ! j) = 0)"
proof (rule rr_round)
  have g: "ps_peer g = rr_new_peers False servers" "ps_total_weight g = rr_weights False servers"
      "ps_single g \<longrightarrow> length (ps_peer g) = 1"
    using assms(1,2) by (auto simp: ngx_http_upstream_init_round_robin_def Let_def split: if_splits)
  have "rr_new_peers False servers \<noteq> []" using assms(4) g(1) by auto
  note even = rr_configured_even [OF assms(3) this]
  show "rr_even (ps_peer g)" "\<forall>p \<in> set (ps_peer g). p_current_weight p = 0" using even g(1) by auto
  show "\<not> ps_single g" using g(3) assms(4) by auto
  show "int (length ts) = rr_sum p_weight (ps_peer g)"
    using assms(5) g by (simp add: rr_sum_list rr_new_peers_weight)
qed

definition rr_example :: upstream_srv_conf where
  "rr_example = \<lparr>us_servers = Some
     [\<lparr>sv_addrs = [([1], [1])], sv_weight = 2, sv_max_fails = 1, sv_fail_timeout = 10, sv_down = False, sv_backup = False\<rparr>,
      \<lparr>sv_addrs = [([2], [2])], sv_weight = 1, sv_max_fails = 1, sv_fail_timeout = 10, sv_down = False, sv_backup = False\<rparr>],
     us_host = [], us_port = 80\<rparr>"

definition rr_example_peers :: rr_peers where
  "rr_example_peers = hd (the (ngx_http_upstream_init_round_robin True True (\<lambda>_ _. None) rr_example))"

lemma rr_example_init:
  "ngx_http_upstream_init_round_robin True True (\<lambda>_ _. None) rr_example = Some [rr_example_peers]"
  "length (ps_peer rr_example_peers) = 2" "ps_total_weight rr_example_peers = 3"
  by (simp_all add: rr_example_peers_def rr_example_def ngx_http_upstream_init_round_robin_def rr_new_peers_def
      rr_weights_def Let_def)

definition fresh_connection :: peer_connection where
  "fresh_connection = \<lparr>pc_tries = 0, pc_cached = False, pc_connection = None, pc_sockaddr = [], pc_name = []\<rparr>"

lemma list_all_length_index: "list_all P [0..<n] = (\<forall>j<n. P j)"
  by (auto simp: list_all_iff)

theorem round_robin_fair_witness:
  "\<exists>xs g'. rr_serve fresh_connection [100, 100, 101] [rr_example_peers] = (xs, [g']) \<and>
    list_all (\<lambda>j. int (count_list xs (Some (0, j))) = p_weight (ps_peer rr_example_peers ! j) \<and>
       p_current_weight (ps_peer g' ! j) = 0) [0..<length (ps_peer rr_example_peers)]"
  unfolding list_all_length_index
  by (rule round_robin_fair [OF _ rr_example_init(1), where servers = "the (us_servers rr_example)"])
    (simp_all add: rr_example_init(2,3), simp_all add: rr_example_def)

subsection \<open>A request that fails everywhere\<close>

text \<open>
  The attempts of a request whose peers all fail (\<open>ngx_http_upstream_connect\<close> calls
  \<open>ngx_event_connect_peer\<close>, which gets a peer; \<open>ngx_http_upstream_next\<close> frees it and connects
  again unless \<open>tries\<close> is 0 or no peer was found): the peers in the order they are tried, with
  the number of their group. \<open>None\<close> when there are more attempts than the first argument.
\<close>

fun rr_attempts :: "nat \<Rightarrow> int \<Rightarrow> peer_connection \<Rightarrow> rr_data \<Rightarrow> rr_peers list \<Rightarrow> (nat \<times> nat) list option" where
  "rr_attempts 0 now pc d gs = None"
| "rr_attempts (Suc f) now pc d gs =
    (case ngx_http_upstream_get_round_robin_peer now pc d gs of
       (rc, pc, d, gs) \<Rightarrow>
         if rc \<noteq> NGX_OK then Some []
         else
           (case ngx_http_upstream_free_round_robin_peer now True pc d gs of
              (pc, gs) \<Rightarrow>
                if pc_tries pc = 0 then Some [(rrp_peers d, rrp_current d)]
                else map_option ((#) (rrp_peers d, rrp_current d)) (rr_attempts f now pc d gs)))"

definition rr_able :: "int \<Rightarrow> rr_peer \<Rightarrow> bool" where
  "rr_able now p \<longleftrightarrow> \<not> p_down p \<and> \<not> rr_failing now p"

lemma rr_live_able: "rr_live now t ps j \<longleftrightarrow> \<not> tried_bit t j \<and> rr_able now (ps ! j)"
  by (auto simp: rr_live_def rr_able_def)

lemma rr_able_gain [simp]: "rr_able now (rr_gain p) = rr_able now p"
  by (simp add: rr_able_def rr_failing_def rr_gain_def)

text \<open>The peers that are still to be tried.\<close>

definition rr_todo :: "int \<Rightarrow> rr_data \<Rightarrow> rr_peers list \<Rightarrow> (nat \<times> nat) set" where
  "rr_todo now d gs =
    {(k, j). k < length gs \<and> j < length (ps_peer (gs ! k)) \<and> rr_able now (ps_peer (gs ! k) ! j) \<and>
       (k = rrp_peers d \<and> \<not> tried_bit (rrp_tried d) j \<or> rrp_peers d < k)}"

definition rr_untried :: "rr_data \<Rightarrow> rr_peers list \<Rightarrow> nat" where
  "rr_untried d gs = card {j. j < length (ps_peer (gs ! rrp_peers d)) \<and> \<not> tried_bit (rrp_tried d) j}"

definition rr_later :: "nat \<Rightarrow> rr_peers list \<Rightarrow> nat" where
  "rr_later k gs = (\<Sum>m\<in>{k<..<length gs}. length (ps_peer (gs ! m)))"

definition rr_ready :: "peer_connection \<Rightarrow> rr_data \<Rightarrow> rr_peers list \<Rightarrow> bool" where
  "rr_ready pc d gs \<longleftrightarrow> rrp_peers d < length gs \<and>
    (\<forall>g \<in> set gs. \<not> ps_single g \<and> 0 < length (ps_peer g) \<and> length (ps_peer g) \<le> 64 * length (rrp_tried d) \<and>
       length (ps_peer g) < 2 ^ 63) \<and>
    (if Suc (rrp_peers d) < length gs
     then pc_tries pc \<noteq> 0 \<and> (0 < rr_untried d gs \<longrightarrow> pc_tries pc = of_nat (rr_untried d gs))
     else pc_tries pc = of_nat (rr_untried d gs))"

lemma rr_clear_tried:
  "length (rr_clear_tried n t) = length t"
  "j < n \<Longrightarrow> n \<le> 64 * length t \<Longrightarrow> \<not> tried_bit (rr_clear_tried n t) j"
proof -
  have clear: "length (fold (\<lambda>i t. t[i := 0]) [0..<m] t) = length t \<and>
      (\<forall>i<m. i < length t \<longrightarrow> fold (\<lambda>i t. t[i := 0]) [0..<m] t ! i = (0 :: u64))" for m
    by (induction m) (auto simp: nth_list_update less_Suc_eq)
  then show "length (rr_clear_tried n t) = length t" by (simp add: rr_clear_tried_def)
  assume "j < n" "n \<le> 64 * length t"
  then have "j div 64 < tried_words n" "j div 64 < length t"
    by (auto simp: tried_words_def)
  then show "\<not> tried_bit (rr_clear_tried n t) j"
    using clear [of "tried_words n"] by (simp add: tried_bit_iff rr_clear_tried_def)
qed

text \<open>An attempt that finds a peer, and one that goes on to the next group.\<close>

lemma rr_attempts_found:
  assumes "drop (rrp_peers d) gs = g # ns" and "\<not> ps_single g"
    and "ngx_http_upstream_get_peer now d (ps_peer g) = (Some i, d', ps')" and "rrp_peers d' = rrp_peers d"
    and "rrp_current d' = i" and "i < length ps'"
  obtains pc' where
    "pc_tries pc' =
      (let t = (if ns \<noteq> [] \<and> pc_tries pc = 1 then 1 + of_nat (length (ps_peer (hd ns))) else pc_tries pc)
       in if t = 0 then 0 else t - 1)"
    "\<forall>f. rr_attempts (Suc f) now pc d gs =
      (if pc_tries pc' = 0 then Some [(rrp_peers d, i)]
       else map_option ((#) (rrp_peers d, i)) (rr_attempts f now pc' d'
              (gs[rrp_peers d := g\<lparr>ps_peer := ps'[i := rr_failed now (ps' ! i)]\<rparr>])))"
proof -
  let ?k = "rrp_peers d"
  have k: "?k < length gs" using assms(1) by (metis drop_all list.distinct(1) not_le)
  have gs: "gs = take ?k gs @ g # ns" using assms(1) append_take_drop_id [of ?k gs] by simp
  have upd: "(take ?k gs @ x # ns)[?k := y] = gs[?k := y]" for x y
    using k by (subst (2) gs) (simp add: list_update_append)
  have nth: "(take ?k gs @ x # ns) ! ?k = x" for x using k by (simp add: nth_append)
  define pc1 where "pc1 = pc\<lparr>pc_cached := False, pc_connection := None, pc_sockaddr := p_sockaddr (ps' ! i),
      pc_name := p_name (ps' ! i)\<rparr>"
  define pc2 where "pc2 = (if ns \<noteq> [] \<and> pc_tries pc = 1
      then pc1\<lparr>pc_tries := pc_tries pc1 + of_nat (length (ps_peer (hd ns)))\<rparr> else pc1)"
  have "rr_get now pc d g ns = (NGX_OK, pc2, d', g\<lparr>ps_peer := ps'\<rparr> # ns)"
    using assms(2,3) by (simp add: rr_get.simps pc2_def pc1_def Let_def split: list.split)
  then have get: "ngx_http_upstream_get_round_robin_peer now pc d gs =
      (NGX_OK, pc2, d', take ?k gs @ g\<lparr>ps_peer := ps'\<rparr> # ns)"
    using assms(1) by (simp add: ngx_http_upstream_get_round_robin_peer_def)
  let ?pc = "if pc_tries pc2 \<noteq> 0 then pc2\<lparr>pc_tries := pc_tries pc2 - 1\<rparr> else pc2"
  have free: "ngx_http_upstream_free_round_robin_peer now True pc2 d' (take ?k gs @ g\<lparr>ps_peer := ps'\<rparr> # ns) =
      (?pc, gs[?k := g\<lparr>ps_peer := ps'[i := rr_failed now (ps' ! i)]\<rparr>])"
    using assms(2,4,5) by (simp add: ngx_http_upstream_free_round_robin_peer_def Let_def nth upd)
  have tries: "pc_tries pc2 = (if ns \<noteq> [] \<and> pc_tries pc = 1 then 1 + of_nat (length (ps_peer (hd ns))) else pc_tries pc)"
    by (simp add: pc2_def pc1_def)
  have run: "rr_attempts (Suc f) now pc d gs =
      (if pc_tries ?pc = 0 then Some [(?k, i)]
       else map_option ((#) (?k, i)) (rr_attempts f now ?pc d' (gs[?k := g\<lparr>ps_peer := ps'[i := rr_failed now (ps' ! i)]\<rparr>])))" for f
    unfolding rr_attempts.simps get prod.case free assms(4,5) by simp
  have "pc_tries ?pc = (if pc_tries pc2 = 0 then 0 else pc_tries pc2 - 1)" by simp
  then have "pc_tries ?pc = (let t = (if ns \<noteq> [] \<and> pc_tries pc = 1 then 1 + of_nat (length (ps_peer (hd ns))) else pc_tries pc)
       in if t = 0 then 0 else t - 1)"
    unfolding tries Let_def .
  then show ?thesis using run by (intro that [of ?pc]) blast+
qed

lemma rr_attempts_next:
  assumes "drop (rrp_peers d) gs = g # h # rest" and "\<not> ps_single g"
    and "ngx_http_upstream_get_peer now d (ps_peer g) = (None, d, ps_peer g)"
    and "pc' = pc\<lparr>pc_cached := False, pc_connection := None, pc_tries := of_nat (length (ps_peer h))\<rparr>"
    and "d' = d\<lparr>rrp_peers := rrp_peers d + 1, rrp_tried := rr_clear_tried (length (ps_peer h)) (rrp_tried d)\<rparr>"
  shows "rr_attempts (Suc f) now pc d gs = rr_attempts (Suc f) now pc' d' gs"
proof -
  let ?k = "rrp_peers d"
  have k: "Suc ?k < length gs" using assms(1) by (metis Suc_lessI drop_Suc drop_all list.distinct(1) list.sel(3) not_le tl_drop)
  have dr: "drop (Suc ?k) gs = h # rest" using assms(1) by (metis drop_Suc list.sel(3) tl_drop)
  have tk: "take (Suc ?k) gs = take ?k gs @ [g]" using assms(1) k
    by (metis Suc_lessD hd_drop_conv_nth list.sel(1) take_Suc_conv_app_nth)
  obtain rc pc2 d2 gs2 where r: "rr_get now pc' d' h rest = (rc, pc2, d2, gs2)" by (metis surj_pair)
  have g: "g\<lparr>ps_peer := ps_peer g\<rparr> = g" by simp
  have "rr_get now pc d g (h # rest) =
      (if rc \<noteq> NGX_BUSY then (rc, pc2, d2, g # gs2)
       else (NGX_BUSY, pc2\<lparr>pc_name := ps_name g\<rparr>, d2, rr_forgive g # gs2))"
    using assms(2,3) r [unfolded assms(4,5)] by (subst rr_get.simps) (simp add: Let_def)
  moreover have "ngx_http_upstream_get_round_robin_peer now pc' d' gs = (rc, pc2, d2, take (Suc ?k) gs @ gs2)"
    using dr r by (simp add: ngx_http_upstream_get_round_robin_peer_def assms(5))
  ultimately show ?thesis
    using assms(1) by (cases "rc = NGX_BUSY") (simp_all add: ngx_http_upstream_get_round_robin_peer_def tk)
qed

text \<open>The bookkeeping of one attempt that finds a peer.\<close>

lemma rr_todo_found:
  assumes "k = rrp_peers d" and "k < length gs" and "ps = ps_peer (gs ! k)" and "length ps \<le> 64 * length (rrp_tried d)"
    and "i < length ps" and "rr_live now (rrp_tried d) ps i"
    and "d' = d\<lparr>rrp_current := i, rrp_tried := set_tried (rrp_tried d) i\<rparr>"
    and "gs' = gs[k := (gs ! k)\<lparr>ps_peer := (rr_after now (rrp_tried d) i ps)[i := p]\<rparr>]"
  shows "(k, i) \<in> rr_todo now d gs" and "rr_todo now d' gs' = rr_todo now d gs - {(k, i)}"
    and "rr_untried d gs = Suc (rr_untried d' gs')" and "rr_later k gs' = rr_later k gs"
    and "length gs' = length gs" and "m < length gs \<Longrightarrow> length (ps_peer (gs' ! m)) = length (ps_peer (gs ! m))"
    and "m < length gs \<Longrightarrow> ps_single (gs' ! m) = ps_single (gs ! m)"
    and "m \<noteq> k \<Longrightarrow> gs' ! m = gs ! m"
proof -
  have len: "length (ps_peer (gs' ! m)) = length (ps_peer (gs ! m))" if "m < length gs" for m
    using assms(2,3,8) that by (cases "m = k") simp_all
  have tried: "tried_bit (rrp_tried d') j \<longleftrightarrow> j = i \<or> tried_bit (rrp_tried d) j" for j
    using tried_set_tried [of i "rrp_tried d" j] assms(4,5,7) by simp
  show other: "gs' ! m = gs ! m" if "m \<noteq> k" for m using that assms(8) by simp
  show "length gs' = length gs" using assms(8) by simp
  show "m < length gs \<Longrightarrow> length (ps_peer (gs' ! m)) = length (ps_peer (gs ! m))" by (rule len)
  show "m < length gs \<Longrightarrow> ps_single (gs' ! m) = ps_single (gs ! m)"
    using assms(2,8) by (cases "m = k") simp_all
  show "rr_later k gs' = rr_later k gs"
    using len assms(8) by (auto simp: rr_later_def intro!: sum.cong)
  have able: "rr_able now (ps_peer (gs' ! k) ! j) = rr_able now (ps ! j)"
    if "j < length ps" "j \<noteq> i" for j
    using assms(2,8) that by (simp add: rr_after_nth)
  show "(k, i) \<in> rr_todo now d gs"
    using assms by (auto simp: rr_todo_def rr_live_able)
  show "rr_todo now d' gs' = rr_todo now d gs - {(k, i)}"
  proof (rule set_eqI, clarify)
    fix m j
    show "(m, j) \<in> rr_todo now d' gs' \<longleftrightarrow> (m, j) \<in> rr_todo now d gs - {(k, i)}"
    proof (cases "m = k")
      case True
      have "length (ps_peer (gs' ! k)) = length ps" using len [OF assms(2)] assms(3) by simp
      then show ?thesis
        using True assms(1-3,7,8) able tried by (auto simp: rr_todo_def)
    next
      case False
      then show ?thesis using assms(1,7,8) other by (simp add: rr_todo_def)
    qed
  qed
  have "{j. j < length ps \<and> \<not> tried_bit (rrp_tried d) j} =
      insert i {j. j < length (ps_peer (gs' ! k)) \<and> \<not> tried_bit (rrp_tried d') j}"
    using assms(3,5,6) tried len [OF assms(2)] by (auto simp: rr_live_def)
  then show "rr_untried d gs = Suc (rr_untried d' gs')"
    using tried assms(1,3,7) by (simp add: rr_untried_def)
qed

lemma rr_ready_found:
  assumes "rr_ready pc d gs" and "k = rrp_peers d" and "ns = drop (Suc k) gs"
    and "rrp_peers d' = k" and "length (rrp_tried d') = length (rrp_tried d)"
    and "rr_untried d gs = Suc (rr_untried d' gs')" and "length gs' = length gs"
    and "\<forall>m<length gs. length (ps_peer (gs' ! m)) = length (ps_peer (gs ! m)) \<and> ps_single (gs' ! m) = ps_single (gs ! m)"
    and "pc_tries pc' =
      (let t = (if ns \<noteq> [] \<and> pc_tries pc = 1 then 1 + of_nat (length (ps_peer (hd ns))) else pc_tries pc)
       in if t = 0 then 0 else t - 1)"
  shows "pc_tries pc' = 0 \<Longrightarrow> Suc k = length gs \<and> rr_untried d' gs' = 0"
    and "pc_tries pc' \<noteq> 0 \<Longrightarrow> rr_ready pc' d' gs'"
proof -
  have k: "k < length gs" using assms(1,2) by (simp add: rr_ready_def)
  let ?a = "rr_untried d' gs'"
  have small: "\<forall>g \<in> set gs. 0 < length (ps_peer g) \<and> length (ps_peer g) < 2 ^ 63"
    using assms(1) by (auto simp: rr_ready_def)
  have "rr_untried d gs \<le> card {j. j < length (ps_peer (gs ! k))}"
    unfolding rr_untried_def assms(2) by (rule card_mono) auto
  moreover have "length (ps_peer (gs ! k)) < 2 ^ 63" using small k by simp
  ultimately have a: "Suc ?a < 2 ^ 63" using assms(6) by simp
  have frame: "\<forall>g \<in> set gs'. \<not> ps_single g \<and> 0 < length (ps_peer g) \<and> length (ps_peer g) \<le> 64 * length (rrp_tried d') \<and>
       length (ps_peer g) < 2 ^ 63"
    using assms(1,5,7,8) by (fastforce simp: rr_ready_def in_set_conv_nth)
  have one: "of_nat (Suc n) = (1 :: u64) \<longleftrightarrow> n = 0" and zero: "of_nat (Suc n) \<noteq> (0 :: u64)"
    if "Suc n < 2 ^ 63" for n
  proof -
    have "unat (of_nat (Suc n) :: u64) = Suc n" using that by (intro unat_of_nat_u64) simp
    then show "of_nat (Suc n) = (1 :: u64) \<longleftrightarrow> n = 0" "of_nat (Suc n) \<noteq> (0 :: u64)"
      by (metis One_nat_def Suc_inject unat_1 of_nat_1, metis nat.distinct(1) unat_0)
  qed
  consider (more) "Suc k < length gs" | (final) "Suc k = length gs" using k by linarith
  then have "(pc_tries pc' = 0 \<longrightarrow> Suc k = length gs \<and> ?a = 0) \<and> (pc_tries pc' \<noteq> 0 \<longrightarrow> rr_ready pc' d' gs')"
  proof cases
    case more
    then have t: "pc_tries pc = of_nat (Suc ?a)" using assms(1,2,6) by (simp add: rr_ready_def)
    have ns: "ns \<noteq> []" "hd ns = gs ! Suc k" using more assms(3) by (simp_all add: hd_drop_conv_nth)
    obtain n where n: "length (ps_peer (gs ! Suc k)) = Suc n" "Suc n < 2 ^ 63"
      using small more by (metis not0_implies_Suc nth_mem less_numeral_extra(3))
    have big: "1 + of_nat (Suc n) \<noteq> (0 :: u64)"
    proof -
      have "unat (of_nat (Suc (Suc n)) :: u64) = Suc (Suc n)" using n(2) by (intro unat_of_nat_u64) simp
      then show ?thesis by (metis nat.distinct(1) of_nat_Suc unat_0)
    qed
    have "pc_tries pc' = (if ?a = 0 then of_nat (Suc n) else of_nat ?a)"
      using assms(9) t ns n(1) big one [OF a] zero [OF a] by (simp add: Let_def del: of_nat_Suc) (simp add: of_nat_Suc)
    moreover have "of_nat ?a \<noteq> (0 :: u64)" if "?a \<noteq> 0" using zero [of "?a - 1"] that a by simp
    ultimately show ?thesis
      using more frame assms(4,7) zero [OF n(2)] by (auto simp: rr_ready_def simp del: of_nat_Suc)
  next
    case final
    then have "pc_tries pc = of_nat (Suc ?a)" "ns = []" using assms(1,2,3,6) by (simp_all add: rr_ready_def)
    then have "pc_tries pc' = of_nat ?a" using assms(9) zero [OF a] by (simp add: Let_def del: of_nat_Suc) (simp add: of_nat_Suc)
    moreover have "of_nat ?a \<noteq> (0 :: u64)" if "?a \<noteq> 0" using zero [of "?a - 1"] that a by simp
    ultimately show ?thesis using final frame assms(4,7) by (auto simp: rr_ready_def)
  qed
  then show "pc_tries pc' = 0 \<Longrightarrow> Suc k = length gs \<and> ?a = 0" "pc_tries pc' \<noteq> 0 \<Longrightarrow> rr_ready pc' d' gs'"
    by blast+
qed

lemma rr_next_group:
  assumes "rr_ready pc d gs" and "k = rrp_peers d" and "Suc k < length gs"
    and "\<forall>j<length (ps_peer (gs ! k)). \<not> rr_live now (rrp_tried d) (ps_peer (gs ! k)) j"
    and "d' = d\<lparr>rrp_peers := k + 1, rrp_tried := rr_clear_tried (length (ps_peer (gs ! Suc k))) (rrp_tried d)\<rparr>"
    and "pc' = pc\<lparr>pc_cached := False, pc_connection := None, pc_tries := of_nat (length (ps_peer (gs ! Suc k)))\<rparr>"
  shows "rr_ready pc' d' gs" and "rr_todo now d' gs = rr_todo now d gs"
    and "rr_untried d' gs + rr_later (Suc k) gs = rr_later k gs"
proof -
  let ?n = "length (ps_peer (gs ! Suc k))"
  have g: "0 < ?n" "?n \<le> 64 * length (rrp_tried d)" "?n < 2 ^ 63"
    using assms(1,3) by (simp_all add: rr_ready_def)
  have clear: "\<not> tried_bit (rrp_tried d') j" if "j < ?n" for j
    using rr_clear_tried(2) [OF that g(2)] assms(5) by simp
  have untried: "rr_untried d' gs = ?n"
  proof -
    have "{j. j < ?n \<and> \<not> tried_bit (rrp_tried d') j} = {..<?n}" using clear by auto
    then show ?thesis by (simp add: rr_untried_def assms(5))
  qed
  have tries: "pc_tries pc' = of_nat ?n" by (simp add: assms(6))
  have nz: "of_nat ?n \<noteq> (0 :: u64)"
  proof -
    have "unat (of_nat ?n :: u64) = ?n" using g(3) by (intro unat_of_nat_u64) simp
    then show ?thesis using g(1) by (metis less_numeral_extra(3) unat_0)
  qed
  show "rr_ready pc' d' gs"
    using assms(1,3) tries nz untried assms(5) by (simp add: rr_ready_def rr_clear_tried(1))
  show "rr_todo now d' gs = rr_todo now d gs"
    using assms(2-4) clear unfolding assms(5) by (auto simp: rr_todo_def rr_live_able not_less_eq less_Suc_eq)
  have "{k<..<length gs} = insert (Suc k) {Suc k<..<length gs}" using assms(3) by auto
  then show "rr_untried d' gs + rr_later (Suc k) gs = rr_later k gs"
    by (simp add: rr_later_def untried)
qed

lemma rr_attempts_all:
  assumes "rr_ready pc d gs" and "rr_untried d gs + rr_later (rrp_peers d) gs < f"
  shows "\<exists>xs. rr_attempts f now pc d gs = Some xs \<and> distinct xs \<and> set xs = rr_todo now d gs \<and> sorted (map fst xs)"
  using assms
proof (induction "rr_untried d gs + rr_later (rrp_peers d) gs + (length gs - rrp_peers d)" arbitrary: pc d gs f
    rule: less_induct)
  case less
  let ?k = "rrp_peers d" and ?g = "gs ! rrp_peers d"
  note ready = less.prems(1)
  have k: "?k < length gs" and g: "\<not> ps_single ?g" "length (ps_peer ?g) \<le> 64 * length (rrp_tried d)"
    using ready by (auto simp: rr_ready_def)
  have dr: "drop ?k gs = ?g # drop (Suc ?k) gs" using k by (simp add: Cons_nth_drop_Suc)
  obtain f' where f: "f = Suc f'" using less.prems(2) by (cases f) auto
  show ?case
    using get_peer_cases [of now d "ps_peer ?g"]
  proof cases
    case none
    show ?thesis
    proof (cases "Suc ?k < length gs")
      case False
      then have one: "drop (Suc ?k) gs = []" by simp
      have "rr_attempts f now pc d gs = Some []"
        using dr g(1) none(1)
        by (simp add: f ngx_http_upstream_get_round_robin_peer_def rr_get.simps one Let_def)
      moreover have "rr_todo now d gs = {}"
        using none(2) False by (auto simp: rr_todo_def rr_live_able)
      ultimately show ?thesis by simp
    next
      case True
      define d1 where "d1 = d\<lparr>rrp_peers := ?k + 1, rrp_tried := rr_clear_tried (length (ps_peer (gs ! Suc ?k))) (rrp_tried d)\<rparr>"
      define pc1 where "pc1 = pc\<lparr>pc_cached := False, pc_connection := None,
          pc_tries := of_nat (length (ps_peer (gs ! Suc ?k)))\<rparr>"
      note next1 = rr_next_group [OF ready refl True none(2) d1_def pc1_def]
      have dr2: "drop ?k gs = ?g # gs ! Suc ?k # drop (Suc (Suc ?k)) gs" using dr True by (simp add: Cons_nth_drop_Suc)
      have same: "rr_attempts f now pc d gs = rr_attempts f now pc1 d1 gs"
        unfolding f by (rule rr_attempts_next [OF dr2 g(1) none(1) pc1_def d1_def])
      have k1: "rrp_peers d1 = Suc ?k" by (simp add: d1_def)
      have "\<exists>xs. rr_attempts f now pc1 d1 gs = Some xs \<and> distinct xs \<and> set xs = rr_todo now d1 gs \<and> sorted (map fst xs)"
        by (rule less.hyps) (use next1 k1 True less.prems(2) in auto)
      then show ?thesis using same next1(2) by simp
    qed
  next
    case (some i)
    define d1 where "d1 = d\<lparr>rrp_current := i, rrp_tried := set_tried (rrp_tried d) i\<rparr>"
    let ?ps = "rr_after now (rrp_tried d) i (ps_peer ?g)"
    have d1: "rrp_peers d1 = ?k" "rrp_current d1 = i" "length (rrp_tried d1) = length (rrp_tried d)"
      by (simp_all add: d1_def)
    define gs2 where "gs2 = gs[?k := ?g\<lparr>ps_peer := ?ps[i := rr_failed now (?ps ! i)]\<rparr>]"
    have len: "i < length ?ps" using some(2) by simp
    obtain pc1 where pc1: "pc_tries pc1 =
        (let t = (if drop (Suc ?k) gs \<noteq> [] \<and> pc_tries pc = 1
                  then 1 + of_nat (length (ps_peer (hd (drop (Suc ?k) gs)))) else pc_tries pc)
         in if t = 0 then 0 else t - 1)"
      and run: "\<forall>f. rr_attempts (Suc f) now pc d gs =
        (if pc_tries pc1 = 0 then Some [(?k, i)]
         else map_option ((#) (?k, i)) (rr_attempts f now pc1 d1 gs2))"
      unfolding gs2_def
      by (rule rr_attempts_found [OF dr g(1) some(1) [folded d1_def] d1(1,2) len, of pc])
    note runf = run [rule_format, of f', folded f]
    note todo = rr_todo_found [OF refl k refl g(2) some(2,3) d1_def gs2_def]
    have "\<forall>m<length gs. length (ps_peer (gs2 ! m)) = length (ps_peer (gs ! m)) \<and> ps_single (gs2 ! m) = ps_single (gs ! m)"
      using todo(6,7) by blast
    note ready1 = rr_ready_found [OF ready refl refl d1(1,3) todo(3,5) this pc1]
    show ?thesis
    proof (cases "pc_tries pc1 = 0")
      case True
      have "rr_todo now d1 gs2 = {}"
      proof -
        have "finite {j. j < length (ps_peer (gs2 ! rrp_peers d1)) \<and> \<not> tried_bit (rrp_tried d1) j}" by simp
        then have "{j. j < length (ps_peer (gs2 ! rrp_peers d1)) \<and> \<not> tried_bit (rrp_tried d1) j} = {}"
          using ready1(1) [OF True] by (simp add: rr_untried_def)
        then show ?thesis using ready1(1) [OF True] todo(5) d1(1) by (auto simp: rr_todo_def)
      qed
      then have "rr_todo now d gs = {(?k, i)}" using todo(1,2) by auto
      then show ?thesis by (simp add: runf True)
    next
      case False
      have "\<exists>xs. rr_attempts f' now pc1 d1 gs2 = Some xs \<and> distinct xs \<and> set xs = rr_todo now d1 gs2 \<and> sorted (map fst xs)"
        by (rule less.hyps [OF _ ready1(2) [OF False]]) (use todo(3-5) d1(1) less.prems(2) f in auto)
      then obtain xs where xs: "rr_attempts f' now pc1 d1 gs2 = Some xs" "distinct xs"
          "set xs = rr_todo now d1 gs2" "sorted (map fst xs)" by blast
      have "?k \<le> fst x" if "x \<in> set xs" for x
      proof -
        have "x \<in> rr_todo now d1 gs2" using that xs(3) by simp
        then show ?thesis unfolding rr_todo_def d1(1) by auto
      qed
      moreover have "rr_attempts f now pc d gs = Some ((?k, i) # xs)"
        unfolding runf by (simp only: False xs(1) if_False option.map)
      moreover have "rr_todo now d gs = insert (?k, i) (set xs)" "(?k, i) \<notin> set xs"
        using todo(1,2) xs(3) by auto
      ultimately show ?thesis
        using xs(2,4) by (intro exI [of _ "(?k, i) # xs"]) auto
    qed
  qed
qed

text \<open>A request starts with everything to do.\<close>

lemma rr_start:
  assumes "\<forall>g \<in> set gs. \<not> ps_single g \<and> 0 < length (ps_peer g) \<and> length (ps_peer g) < 2 ^ 63"
    and "length gs = 1 \<or> length gs = 2"
    and "ngx_http_upstream_init_round_robin_peer True True gs pc = Some (pc', d)"
  shows "rr_ready pc' d gs" and "rr_untried d gs + rr_later (rrp_peers d) gs = sum_list (map (\<lambda>g. length (ps_peer g)) gs)"
    and "rr_todo now d gs = {(k, j). k < length gs \<and> j < length (ps_peer (gs ! k)) \<and> rr_able now (ps_peer (gs ! k) ! j)}"
proof -
  obtain k where d: "d = \<lparr>rrp_peers = 0, rrp_current = 0, rrp_tried = replicate k 0\<rparr>"
      "rr_most_peers gs \<le> 64 * k" "pc_tries pc' = of_nat (length (ps_peer (gs ! 0)))"
    using rr_init_peer [of gs pc] assms(3) by auto
  have ne: "gs \<noteq> []" using assms(2) by auto
  have most: "length (ps_peer g) \<le> rr_most_peers gs" if "g \<in> set gs" for g
    using that assms(2) by (auto simp: rr_most_peers_def length_Suc_conv eval_nat_numeral Let_def)
  have untried: "\<not> tried_bit (rrp_tried d) j" if "j < length (ps_peer (gs ! 0))" for j
    using that most [of "gs ! 0"] ne d(1,2) by simp
  then have "{j. j < length (ps_peer (gs ! 0)) \<and> \<not> tried_bit (rrp_tried d) j} = {..<length (ps_peer (gs ! 0))}" by auto
  then have count: "rr_untried d gs = length (ps_peer (gs ! 0))" by (simp add: rr_untried_def d(1))
  have "of_nat (length (ps_peer (gs ! 0))) \<noteq> (0 :: u64)"
  proof -
    have "0 < length (ps_peer (gs ! 0))" "length (ps_peer (gs ! 0)) < 2 ^ 63" using assms(1) ne by auto
    moreover from this have "unat (of_nat (length (ps_peer (gs ! 0))) :: u64) = length (ps_peer (gs ! 0))"
      by (intro unat_of_nat_u64) simp
    ultimately show ?thesis by (metis less_numeral_extra(3) unat_0)
  qed
  then show "rr_ready pc' d gs"
    using assms(1) most d ne count by (auto simp: rr_ready_def intro: order_trans)
  show "rr_untried d gs + rr_later (rrp_peers d) gs = sum_list (map (\<lambda>g. length (ps_peer g)) gs)"
    using assms(2) unfolding count by (auto simp: rr_later_def d(1) length_Suc_conv eval_nat_numeral
        atLeastSucLessThan_greaterThanLessThan [symmetric])
  show "rr_todo now d gs = {(k, j). k < length gs \<and> j < length (ps_peer (gs ! k)) \<and> rr_able now (ps_peer (gs ! k) ! j)}"
    using untried d(1) by (auto simp: rr_todo_def)
qed

text \<open>
  C30: A request whose peers all fail has tried everything before it gives up, and it does give up:
  whatever state the groups are in (the servers and, if there are any, the backup servers), the
  attempts end after at most as many as there are peers, no peer is tried twice, every peer that
  is neither marked down nor failing at the time is tried, and backup servers come last.
\<close>

theorem round_robin_tries_everything:
  assumes "\<forall>g \<in> set gs. \<not> ps_single g \<and> 0 < length (ps_peer g) \<and> length (ps_peer g) < 2 ^ 63"
    and "length gs = 1 \<or> length gs = 2"
    and "ngx_http_upstream_init_round_robin_peer True True gs pc = Some (pc', d)"
  shows "\<exists>xs. rr_attempts (Suc (sum_list (map (\<lambda>g. length (ps_peer g)) gs))) now pc' d gs = Some xs \<and>
    distinct xs \<and> sorted (map fst xs) \<and>
    set xs = {(k, j). k < length gs \<and> j < length (ps_peer (gs ! k)) \<and>
      \<not> p_down (ps_peer (gs ! k) ! j) \<and> \<not> rr_failing now (ps_peer (gs ! k) ! j)}"
proof -
  note start = rr_start [OF assms]
  from rr_attempts_all [OF start(1), of "Suc (sum_list (map (\<lambda>g. length (ps_peer g)) gs))" now] start(2,3)
  show ?thesis by (auto simp: rr_able_def)
qed

theorem round_robin_tries_everything_witness:
  "\<exists>xs. rr_attempts (Suc 2) 1000 (fresh_connection\<lparr>pc_tries := 2\<rparr>) \<lparr>rrp_peers = 0, rrp_current = 0, rrp_tried = [0]\<rparr>
      [rr_example_peers] = Some xs \<and> distinct xs \<and> sorted (map fst xs) \<and>
    set xs = {(k, j). k < length [rr_example_peers] \<and> j < length (ps_peer ([rr_example_peers] ! k)) \<and>
      \<not> p_down (ps_peer ([rr_example_peers] ! k) ! j) \<and> \<not> rr_failing 1000 (ps_peer ([rr_example_peers] ! k) ! j)}"
proof -
  have single: "\<not> ps_single rr_example_peers"
    by (simp add: rr_example_peers_def rr_example_def ngx_http_upstream_init_round_robin_def rr_new_peers_def Let_def)
  have start: "ngx_http_upstream_init_round_robin_peer True True [rr_example_peers] fresh_connection =
      Some (fresh_connection\<lparr>pc_tries := 2\<rparr>, \<lparr>rrp_peers = 0, rrp_current = 0, rrp_tried = [0]\<rparr>)"
    by (simp add: ngx_http_upstream_init_round_robin_peer_def rr_most_peers_def rr_example_init(2))
  have "\<forall>g \<in> set [rr_example_peers]. \<not> ps_single g \<and> 0 < length (ps_peer g) \<and> length (ps_peer g) < 2 ^ 63"
    by (simp add: single rr_example_init(2))
  from round_robin_tries_everything [OF this _ start, of 1000] show ?thesis
    by (simp only: list.map sum_list.Cons sum_list.Nil rr_example_init(2) add_0_right list.size) simp
qed

subsection \<open>What failures do to the weights\<close>

text \<open>
  The weights of a peer are well formed when the effective weight lies between 0 and the weight.
  A group is balanced when its current weights add up to 0.
\<close>

definition rr_weights_ok :: "rr_peer \<Rightarrow> bool" where
  "rr_weights_ok p \<longleftrightarrow> 0 \<le> p_effective_weight p \<and> p_effective_weight p \<le> p_weight p"

definition rr_balanced :: "rr_peers \<Rightarrow> bool" where
  "rr_balanced g \<longleftrightarrow> (\<forall>p \<in> set (ps_peer g). rr_weights_ok p) \<and> rr_sum p_current_weight (ps_peer g) = 0"

lemma rr_failed_weights:
  "rr_weights_ok p \<Longrightarrow> rr_weights_ok (rr_failed now p)" "p_current_weight (rr_failed now p) = p_current_weight p"
proof -
  assume "rr_weights_ok p"
  moreover from this have "0 \<le> p_weight p div uint (p_max_fails p)"
    by (simp add: rr_weights_ok_def pos_imp_zdiv_nonneg_iff div_int_pos_iff)
  ultimately show "rr_weights_ok (rr_failed now p)"
    by (auto simp: rr_weights_ok_def rr_failed_def Let_def)
qed (simp add: rr_failed_def Let_def)

lemma rr_passed_weights: "rr_weights_ok (rr_passed p) = rr_weights_ok p"
  by (simp add: rr_weights_ok_def rr_passed_def)

lemma rr_after_balanced:
  assumes "\<forall>p \<in> set ps. rr_weights_ok p" and "i < length ps" and "rr_live now t ps i"
  shows "\<forall>p \<in> set (rr_after now t i ps). rr_weights_ok p"
    and "rr_sum p_current_weight (rr_after now t i ps) = rr_sum p_current_weight ps"
proof -
  show "\<forall>p \<in> set (rr_after now t i ps). rr_weights_ok p"
  proof
    fix p assume "p \<in> set (rr_after now t i ps)"
    then obtain j where "j < length ps" "p = rr_after now t i ps ! j" by (auto simp: in_set_conv_nth)
    moreover have "rr_weights_ok (ps ! j)" using assms(1) calculation by simp
    ultimately show "rr_weights_ok p"
      by (auto simp: rr_after_nth rr_weights_ok_def rr_gain_def rr_chosen_def Let_def)
  qed
  let ?live = "\<lambda>j. rr_live now t ps j"
  have "rr_sum p_current_weight (rr_after now t i ps) =
      (\<Sum>j<length ps. p_current_weight (ps ! j) + (if ?live j then p_effective_weight (ps ! j) else 0) -
        (if j = i then rr_share now t ps else 0))"
    using assms(3) by (auto simp: rr_sum_def rr_after_nth rr_next_weight_def intro!: sum.cong)
  also have "\<dots> = rr_sum p_current_weight ps + (\<Sum>j<length ps. if ?live j then p_effective_weight (ps ! j) else 0) - rr_share now t ps"
    using assms(2) by (simp add: rr_sum_def sum.distrib sum_subtractf)
  also have "(\<Sum>j<length ps. if ?live j then p_effective_weight (ps ! j) else 0) = rr_share now t ps"
    unfolding rr_share_def by (subst sum.inter_filter [symmetric]) (auto intro!: sum.cong)
  finally show "rr_sum p_current_weight (rr_after now t i ps) = rr_sum p_current_weight ps" by simp
qed

subsection \<open>What requests leave alone\<close>

text \<open>
  The groups are shared by all requests of a process. What they go through: any number of requests
  get and free peers, in any order and at any time.
\<close>

inductive rr_used :: "rr_peers list \<Rightarrow> rr_peers list \<Rightarrow> bool" for gs0 where
  fresh: "rr_used gs0 gs0"
| get: "rr_used gs0 gs \<Longrightarrow> ngx_http_upstream_get_round_robin_peer now pc d gs = (rc, pc', d', gs') \<Longrightarrow> rr_used gs0 gs'"
| free: "rr_used gs0 gs \<Longrightarrow> ngx_http_upstream_free_round_robin_peer now failed pc d gs = (pc', gs') \<Longrightarrow> rr_used gs0 gs'"

definition rr_freed :: "int \<Rightarrow> bool \<Rightarrow> rr_peer \<Rightarrow> rr_peer" where
  "rr_freed now failed p = (if failed then rr_failed now p else rr_passed p)"

text \<open>A relation between a group at the start and the group later on, kept by what requests do to a group.\<close>

locale rr_preserved =
  fixes R :: "rr_peers \<Rightarrow> rr_peers \<Rightarrow> bool"
  assumes same: "R h h"
    and got: "R h g \<Longrightarrow> i < length (ps_peer g) \<Longrightarrow> rr_live now t (ps_peer g) i \<Longrightarrow> R h (g\<lparr>ps_peer := rr_after now t i (ps_peer g)\<rparr>)"
    and forgiven: "R h g \<Longrightarrow> R h (rr_forgive g)"
    and freed: "R h g \<Longrightarrow> i < length (ps_peer g) \<Longrightarrow>
      R h (g\<lparr>ps_peer := (ps_peer g)[i := rr_freed now failed (ps_peer g ! i)]\<rparr>)"
begin

lemma get_peer_kept:
  assumes "R h g" and "ngx_http_upstream_get_peer now d (ps_peer g) = (c, d', ps')"
  shows "R h (g\<lparr>ps_peer := ps'\<rparr>)"
  using get_peer_cases [of now d "ps_peer g"]
proof cases
  case none
  with assms(2) have "ps' = ps_peer g" by simp
  then show ?thesis using assms(1) by simp
next
  case (some i)
  with assms got [OF assms(1) some(2,3)] show ?thesis by simp
qed

lemma get_kept:
  assumes "list_all2 R hs (g # ns)" and "rr_get now pc d g ns = (rc, pc', d', gs')"
  shows "list_all2 R hs gs'"
  using assms
proof (induction ns arbitrary: hs g pc d rc pc' d' gs')
  case Nil
  obtain c d1 ps1 where p: "ngx_http_upstream_get_peer now d (ps_peer g) = (c, d1, ps1)" by (metis surj_pair)
  obtain h where h: "hs = [h]" "R h g" using Nil.prems(1) by (auto simp: list_all2_Cons2)
  have "R h (g\<lparr>ps_peer := ps1\<rparr>)" by (rule get_peer_kept [OF h(2) p])
  then show ?case
    using Nil.prems p h forgiven by (auto simp: rr_get.simps Let_def split: option.splits if_splits)
next
  case (Cons n rest)
  obtain h hs1 where h: "hs = h # hs1" "R h g" "list_all2 R hs1 (n # rest)"
    using Cons.prems(1) by (auto simp: list_all2_Cons2)
  obtain c d1 ps1 where p: "ngx_http_upstream_get_peer now d (ps_peer g) = (c, d1, ps1)" by (metis surj_pair)
  let ?g = "if ps_single g then g else g\<lparr>ps_peer := ps1\<rparr>"
  have b: "R h ?g" using get_peer_kept [OF h(2) p] h(2) by simp
  let ?c = "if ps_single g then (if p_down (ps_peer g ! 0) then None else Some 0) else c"
  let ?d = "if ps_single g then d else d1"
  obtain rc2 pc2 d2 gs2 where r: "rr_get now (pc\<lparr>pc_cached := False, pc_connection := None, pc_tries := of_nat (length (ps_peer n))\<rparr>)
      (?d\<lparr>rrp_peers := rrp_peers ?d + 1, rrp_tried := rr_clear_tried (length (ps_peer n)) (rrp_tried ?d)\<rparr>) n rest = (rc2, pc2, d2, gs2)"
    by (metis surj_pair)
  have b2: "list_all2 R hs1 gs2" by (rule Cons.IH [OF h(3) r])
  have "gs' = (if ?c \<noteq> None then ?g # n # rest else if rc2 \<noteq> NGX_BUSY then ?g # gs2 else rr_forgive ?g # gs2)"
    using Cons.prems(2) p r by (subst (asm) rr_get.simps) (auto simp: Let_def split: if_splits option.splits)
  then show ?case using b b2 h forgiven [OF b] by (simp split: if_splits)
qed

lemma get_round_robin_kept:
  assumes "list_all2 R hs gs" and "ngx_http_upstream_get_round_robin_peer now pc d gs = (rc, pc', d', gs')"
  shows "list_all2 R hs gs'"
proof (cases "drop (rrp_peers d) gs")
  case Nil
  with assms show ?thesis by (simp add: ngx_http_upstream_get_round_robin_peer_def)
next
  case (Cons g ns)
  obtain rc2 pc2 d2 gs2 where r: "rr_get now pc d g ns = (rc2, pc2, d2, gs2)" by (metis surj_pair)
  let ?k = "rrp_peers d"
  have "list_all2 R (drop ?k hs) (g # ns)" using list_all2_dropI [OF assms(1), of ?k] Cons by simp
  then have "list_all2 R (drop ?k hs) gs2" by (rule get_kept [OF _ r])
  then have "list_all2 R (take ?k hs @ drop ?k hs) (take ?k gs @ gs2)"
    using list_all2_takeI [OF assms(1), of ?k] by (rule list_all2_appendI [rotated])
  moreover have "gs' = take ?k gs @ gs2"
    using assms(2) Cons r by (simp add: ngx_http_upstream_get_round_robin_peer_def)
  ultimately show ?thesis by simp
qed

lemma free_kept:
  assumes "list_all2 R hs gs" and "ngx_http_upstream_free_round_robin_peer now failed pc d gs = (pc', gs')"
  shows "list_all2 R hs gs'"
proof (cases "rrp_peers d < length gs \<and> rrp_current d < length (ps_peer (gs ! rrp_peers d)) \<and> \<not> ps_single (gs ! rrp_peers d)")
  case True
  let ?k = "rrp_peers d"
  let ?g = "gs ! ?k"
  have "R (hs ! ?k) ?g" using assms(1) True by (simp add: list_all2_conv_all_nth)
  from freed [OF this, of "rrp_current d" now failed] True
  have "list_all2 R (hs[?k := hs ! ?k])
      (gs[?k := ?g\<lparr>ps_peer := (ps_peer ?g)[rrp_current d := rr_freed now failed (ps_peer ?g ! rrp_current d)]\<rparr>])"
    by (intro list_all2_update_cong [OF assms(1)]) simp
  with True assms(2) show ?thesis
    by (auto simp: ngx_http_upstream_free_round_robin_peer_def rr_freed_def Let_def)
next
  case False
  have "(gs ! rrp_peers d)\<lparr>ps_peer := ps_peer (gs ! rrp_peers d)\<rparr> = gs ! rrp_peers d" by simp
  then have "gs' = gs"
    using assms(2) False
    by (auto simp: ngx_http_upstream_free_round_robin_peer_def Let_def not_less list_update_beyond split: if_splits)
  with assms(1) show ?thesis by simp
qed

lemma used_kept: "rr_used gs0 gs \<Longrightarrow> list_all2 R gs0 gs"
  by (induction rule: rr_used.induct) (auto intro: list.rel_refl same get_round_robin_kept free_kept)

end

lemma map_update_same: "i < length xs \<Longrightarrow> f y = f (xs ! i) \<Longrightarrow> map f (xs[i := y]) = map f xs"
  by (simp add: map_update list_update_same_conv)

lemma rr_balancedI:
  "\<forall>q \<in> set ps. rr_weights_ok q \<Longrightarrow> rr_sum p_current_weight ps = 0 \<Longrightarrow> rr_balanced (g\<lparr>ps_peer := ps\<rparr>)"
  by (simp add: rr_balanced_def)

lemma rr_forgive_balanced: "rr_balanced g \<Longrightarrow> rr_balanced (rr_forgive g)"
  by (auto simp: rr_balanced_def rr_forgive_def rr_weights_ok_def rr_sum_def)

interpretation rr_balance: rr_preserved "\<lambda>h g. rr_balanced h \<longrightarrow> rr_balanced g"
proof unfold_locales
  fix h g i now t
  assume g: "rr_balanced h \<longrightarrow> rr_balanced g" and i: "i < length (ps_peer g)" "rr_live now t (ps_peer g) i"
  have "rr_balanced (g\<lparr>ps_peer := rr_after now t i (ps_peer g)\<rparr>)" if "rr_balanced g"
    using rr_after_balanced [OF _ i] that unfolding rr_balanced_def by simp
  with g show "rr_balanced h \<longrightarrow> rr_balanced (g\<lparr>ps_peer := rr_after now t i (ps_peer g)\<rparr>)" by blast
next
  fix h g
  assume "rr_balanced h \<longrightarrow> rr_balanced g"
  then show "rr_balanced h \<longrightarrow> rr_balanced (rr_forgive g)"
    using rr_forgive_balanced by blast
next
  fix h g i now failed
  assume g: "rr_balanced h \<longrightarrow> rr_balanced g" and i: "i < length (ps_peer g)"
  let ?p = "ps_peer g ! i"
  have freed: "rr_weights_ok ?p \<longrightarrow> rr_weights_ok (rr_freed now failed ?p)"
      "p_current_weight (rr_freed now failed ?p) = p_current_weight ?p"
    by (simp_all add: rr_freed_def rr_failed_weights rr_passed_weights)
  have "rr_balanced (g\<lparr>ps_peer := (ps_peer g)[i := rr_freed now failed ?p]\<rparr>)" if bal: "rr_balanced g"
  proof (rule rr_balancedI)
    have all: "\<forall>q \<in> set (ps_peer g). rr_weights_ok q" and zero: "rr_sum p_current_weight (ps_peer g) = 0"
      using bal by (simp_all add: rr_balanced_def)
    have "rr_weights_ok (rr_freed now failed ?p)" using all freed(1) i by simp
    with all show "\<forall>q \<in> set ((ps_peer g)[i := rr_freed now failed ?p]). rr_weights_ok q"
      using set_update_subset_insert [of "ps_peer g" i] by blast
    have "rr_sum p_current_weight ((ps_peer g)[i := rr_freed now failed ?p]) = rr_sum p_current_weight (ps_peer g)"
      using map_update_same [OF i, of p_current_weight "rr_freed now failed ?p"] freed(2) by (simp add: rr_sum_list)
    with zero show "rr_sum p_current_weight ((ps_peer g)[i := rr_freed now failed ?p]) = 0" by simp
  qed
  with g show "rr_balanced h \<longrightarrow> rr_balanced (g\<lparr>ps_peer := (ps_peer g)[i := rr_freed now failed ?p]\<rparr>)" by blast
qed simp

text \<open>What was configured stays as it is.\<close>

definition rr_setup :: "rr_peers \<Rightarrow> int list \<times> bool list \<times> int \<times> bool \<times> bool" where
  "rr_setup g = (map p_weight (ps_peer g), map p_down (ps_peer g), ps_total_weight g, ps_single g, ps_weighted g)"

lemma rr_after_setup: "map p_weight (rr_after now t i ps) = map p_weight ps" "map p_down (rr_after now t i ps) = map p_down ps"
  by (auto simp: list_eq_iff_nth_eq rr_after_nth rr_gain_def rr_chosen_def Let_def)

lemma rr_freed_setup: "p_weight (rr_freed now failed p) = p_weight p" "p_down (rr_freed now failed p) = p_down p"
  by (simp_all add: rr_freed_def rr_failed_def rr_passed_def Let_def)

interpretation rr_configured: rr_preserved "\<lambda>h g. rr_setup g = rr_setup h"
proof unfold_locales
  fix h g i now failed
  assume g: "rr_setup g = rr_setup h" and i: "i < length (ps_peer g)"
  let ?p = "rr_freed now failed (ps_peer g ! i)"
  show "rr_setup (g\<lparr>ps_peer := (ps_peer g)[i := ?p]\<rparr>) = rr_setup h"
    using g map_update_same [OF i, of p_weight ?p] map_update_same [OF i, of p_down ?p]
    by (simp add: rr_setup_def rr_freed_setup)
qed (simp_all add: rr_setup_def rr_after_setup rr_forgive_def comp_def)

text \<open>
  C31: Failures never unbalance an upstream. Starting from a configuration with weights that are not
  negative, whatever requests get and free peers, successfully or not, in any interleaving: every
  effective weight stays between 0 and the configured weight, and in every group the current
  weights add up to 0.
\<close>

theorem round_robin_stays_balanced:
  assumes "ngx_http_upstream_init_round_robin True True resolve us = Some gs0"
    and "us_servers us = Some servers" and "\<forall>s \<in> set servers. 0 \<le> sv_weight s"
    and "rr_used gs0 gs" and "g \<in> set gs"
  shows "(\<forall>p \<in> set (ps_peer g). 0 \<le> p_effective_weight p \<and> p_effective_weight p \<le> p_weight p) \<and>
    sum_list (map p_current_weight (ps_peer g)) = 0"
proof -
  have new: "rr_weights_ok p \<and> p_current_weight p = 0" if "p \<in> set (rr_new_peers b servers)" for p b
    using rr_new_peers_set [OF that] assms(3) by (auto simp: rr_weights_ok_def)
  have "\<forall>g \<in> set gs0. ps_peer g = rr_new_peers False servers \<or> ps_peer g = rr_new_peers True servers"
    using assms(1,2) by (auto simp: ngx_http_upstream_init_round_robin_def Let_def split: if_splits)
  moreover have "rr_balanced g" if "ps_peer g = rr_new_peers b servers" for g b
  proof -
    have "rr_weights_ok p \<and> p_current_weight p = 0" if "p \<in> set (ps_peer g)" for p
      using that new \<open>ps_peer g = _\<close> by simp
    then show ?thesis by (simp add: rr_balanced_def rr_sum_def)
  qed
  ultimately have "\<forall>g \<in> set gs0. rr_balanced g" by blast
  then have "\<forall>k<length gs. rr_balanced (gs ! k)"
    using rr_balance.used_kept [OF assms(4)] by (simp add: list_all2_conv_all_nth)
  then have "\<forall>g \<in> set gs. rr_balanced g" by (auto simp: in_set_conv_nth)
  with assms(5) show ?thesis
    by (auto simp: rr_balanced_def rr_weights_ok_def rr_sum_list)
qed

theorem round_robin_stays_balanced_witness:
  "list_all (\<lambda>p. 0 \<le> p_effective_weight p \<and> p_effective_weight p \<le> p_weight p) (ps_peer rr_example_peers) \<and>
    sum_list (map p_current_weight (ps_peer rr_example_peers)) = 0"
  unfolding list_all_iff
  by (rule round_robin_stays_balanced [OF rr_example_init(1) _ _ rr_used.fresh, where servers = "the (us_servers rr_example)"])
    (simp_all add: rr_example_def)

end
