(* ===== verification/Upstream_Balancers.thy ===== *)
theory Upstream_Balancers
  imports Upstream_Fairness "HOL-Library.Multiset"
begin

text \<open>
  The other two ways of balancing load, on top of the round robin: by a hash of the client's
  address (\<open>src/http/modules/ngx_http_upstream_ip_hash_module.c\<close>) and by the number of active
  connections (\<open>src/http/modules/ngx_http_upstream_least_conn_module.c\<close>).
\<close>

subsection \<open>Hash of the client's address\<close>

text \<open>\<open>ngx_http_upstream_ip_hash_peer_data_t\<close>; \<open>iph_addr\<close> holds the \<open>addrlen\<close> bytes that count.\<close>

record ip_hash_data =
  iph_rrp :: rr_data
  iph_hash :: nat
  iph_addr :: "u8 list"
  iph_tries :: nat

text \<open>\<open>hash = (hash * 113 + iphp->addr[i]) % 6271\<close> for every byte.\<close>

definition ip_hash_next :: "u8 list \<Rightarrow> nat \<Rightarrow> nat" where
  "ip_hash_next a h = foldl (\<lambda>h c. (h * 113 + unat c) mod 6271) h a"

text \<open>\<open>w -= peer[i].weight; if (w < 0) break;\<close>: the result is the number of peers when \<open>w\<close> is too large.\<close>

fun ip_hash_weighted :: "int \<Rightarrow> rr_peer list \<Rightarrow> nat" where
  "ip_hash_weighted w [] = 0"
| "ip_hash_weighted w (p # ps) = (let w = w - p_weight p in if w < 0 then 0 else Suc (ip_hash_weighted w ps))"

definition ip_hash_index :: "nat \<Rightarrow> rr_peers \<Rightarrow> nat" where
  "ip_hash_index h g =
    (if \<not> ps_weighted g then h mod length (ps_peer g)
     else ip_hash_weighted (int h mod ps_total_weight g) (ps_peer g))"

text \<open>
  The loop: \<open>Inl\<close> when it has had enough and calls the round robin, \<open>Inr\<close> with the peer and the
  hash it was found for.
\<close>

function ip_hash_loop :: "int \<Rightarrow> rr_peers \<Rightarrow> nat \<Rightarrow> peer_connection \<Rightarrow> ip_hash_data
    \<Rightarrow> (peer_connection \<times> ip_hash_data) + (nat \<times> nat \<times> peer_connection \<times> ip_hash_data)" where
  "ip_hash_loop now g h pc x =
    (let h = ip_hash_next (iph_addr x) h;
         p = ip_hash_index h g;
         peer = ps_peer g ! p;
         tried = tried_bit (rrp_tried (iph_rrp x)) p in
     if \<not> tried \<and> \<not> p_down peer \<and> \<not> rr_failing now peer then Inr (p, h, pc, x)
     else
       let (pc, x) =
             (if tried then (pc, x)
              else (pc\<lparr>pc_tries := pc_tries pc - 1\<rparr>,
                    x\<lparr>iph_rrp := (iph_rrp x)\<lparr>rrp_tried := set_tried (rrp_tried (iph_rrp x)) p\<rparr>\<rparr>)) in
       if iph_tries x + 1 \<ge> 20 then Inl (pc, x\<lparr>iph_tries := iph_tries x + 1\<rparr>)
       else ip_hash_loop now g h pc (x\<lparr>iph_tries := iph_tries x + 1\<rparr>))"
  by pat_completeness auto
termination
  by (relation "measure (\<lambda>(now, g, h, pc, x). 20 - iph_tries x)") (auto split: if_splits)

declare ip_hash_loop.simps [simp del]

definition ngx_http_upstream_get_ip_hash_peer :: "int \<Rightarrow> peer_connection \<Rightarrow> ip_hash_data \<Rightarrow> rr_peers list
    \<Rightarrow> ngx_rc \<times> peer_connection \<times> ip_hash_data \<times> rr_peers list" where
  "ngx_http_upstream_get_ip_hash_peer now pc x gs =
    (let k = rrp_peers (iph_rrp x); g = gs ! k;
         round_robin = (\<lambda>pc x. case ngx_http_upstream_get_round_robin_peer now pc (iph_rrp x) gs of
           (rc, pc, d, gs) \<Rightarrow> (rc, pc, x\<lparr>iph_rrp := d\<rparr>, gs)) in
     if iph_tries x > 20 \<or> ps_single g then round_robin pc x
     else
       (case ip_hash_loop now g (iph_hash x) (pc\<lparr>pc_cached := False, pc_connection := None\<rparr>) x of
          Inl (pc, x) \<Rightarrow> round_robin pc x
        | Inr (p, h, pc, x) \<Rightarrow>
            let peer = ps_peer g ! p;
                d = (iph_rrp x)\<lparr>rrp_current := p, rrp_tried := set_tried (rrp_tried (iph_rrp x)) p\<rparr> in
            (NGX_OK, pc\<lparr>pc_sockaddr := p_sockaddr peer, pc_name := p_name peer\<rparr>,
             x\<lparr>iph_rrp := d, iph_hash := h\<rparr>,
             gs[k := g\<lparr>ps_peer := (ps_peer g)[p :=
               (if now - p_checked peer > p_fail_timeout peer then peer\<lparr>p_checked := now\<rparr> else peer)]\<rparr>])))"

text \<open>\<open>ngx_http_upstream_init_ip_hash_peer\<close>: the first three bytes of an IPv4 address, all of an IPv6
  address, or the three zero bytes \<open>ngx_http_upstream_ip_hash_pseudo_addr\<close>.\<close>

datatype client_addr = AF_INET "u8 list" | AF_INET6 "u8 list" | AF_other

fun ip_hash_addr :: "client_addr \<Rightarrow> u8 list" where
  "ip_hash_addr (AF_INET a) = take 3 a"
| "ip_hash_addr (AF_INET6 a) = take 16 a"
| "ip_hash_addr AF_other = [0, 0, 0]"

definition ngx_http_upstream_init_ip_hash_peer :: "bool \<Rightarrow> bool \<Rightarrow> client_addr \<Rightarrow> rr_peers list \<Rightarrow> peer_connection
    \<Rightarrow> (peer_connection \<times> ip_hash_data) option" where
  "ngx_http_upstream_init_ip_hash_peer got got_tried a gs pc =
    (if \<not> got then None
     else (case ngx_http_upstream_init_round_robin_peer True got_tried gs pc of
             None \<Rightarrow> None
           | Some (pc, d) \<Rightarrow> Some (pc, \<lparr>iph_rrp = d, iph_hash = 89, iph_addr = ip_hash_addr a, iph_tries = 0\<rparr>)))"

subsection \<open>What the hash finds\<close>

lemma weights_nonneg:
  "\<forall>p \<in> set ps. 0 \<le> p_weight p \<Longrightarrow> 0 \<le> sum_list (map p_weight ps)"
  "\<forall>p \<in> set ps. 0 \<le> p_weight p \<Longrightarrow> 0 \<le> sum_list (map p_weight (take n ps))"
  "\<forall>p \<in> set ps. 0 \<le> p_weight p \<Longrightarrow> 0 \<le> sum_list (map p_weight (drop n ps))"
proof -
  have all: "0 \<le> sum_list (map p_weight qs)" if "\<forall>p \<in> set qs. 0 \<le> p_weight p" for qs
    using that by (induction qs) auto
  show "\<forall>p \<in> set ps. 0 \<le> p_weight p \<Longrightarrow> 0 \<le> sum_list (map p_weight ps)" by (rule all)
  show "\<forall>p \<in> set ps. 0 \<le> p_weight p \<Longrightarrow> 0 \<le> sum_list (map p_weight (take n ps))"
    by (rule all) (meson in_set_takeD)
  show "\<forall>p \<in> set ps. 0 \<le> p_weight p \<Longrightarrow> 0 \<le> sum_list (map p_weight (drop n ps))"
    by (rule all) (meson in_set_dropD)
qed

lemma ip_hash_weighted_range:
  assumes "\<forall>p \<in> set ps. 0 \<le> p_weight p" and "0 \<le> w"
  shows "ip_hash_weighted w ps < length ps \<longleftrightarrow> w < sum_list (map p_weight ps)"
  using assms
proof (induction ps arbitrary: w)
  case (Cons p ps)
  have "0 \<le> sum_list (map p_weight ps)" using Cons.prems(1) weights_nonneg(1) [of ps] by simp
  with Cons show ?case by (auto simp: Let_def)
qed simp

text \<open>Peer \<open>j\<close> is found for the numbers between the weights before it and those up to it.\<close>

lemma ip_hash_weighted_iff:
  assumes "\<forall>p \<in> set ps. 0 \<le> p_weight p" and "0 \<le> w" and "j < length ps"
  shows "ip_hash_weighted w ps = j \<longleftrightarrow>
    sum_list (map p_weight (take j ps)) \<le> w \<and> w < sum_list (map p_weight (take (Suc j) ps))"
  using assms
proof (induction ps arbitrary: w j)
  case (Cons p ps)
  show ?case
  proof (cases j)
    case 0
    with Cons.prems show ?thesis by (auto simp: Let_def)
  next
    case (Suc i)
    have "0 \<le> sum_list (map p_weight (take i ps))"
      using Cons.prems(1) weights_nonneg(2) [of ps i] by simp
    with Suc Cons show ?thesis by (auto simp: Let_def)
  qed
qed simp

lemma ip_hash_share:
  assumes "\<forall>p \<in> set ps. 0 \<le> p_weight p" and "j < length ps"
  shows "int (card {w. 0 \<le> w \<and> w < sum_list (map p_weight ps) \<and> ip_hash_weighted w ps = j}) = p_weight (ps ! j)"
proof -
  let ?s = "\<lambda>i. sum_list (map p_weight (take i ps))"
  have step: "?s (Suc j) = ?s j + p_weight (ps ! j)" using assms(2) by (simp add: take_Suc_conv_app_nth)
  have "ps = take (Suc j) ps @ drop (Suc j) ps" by simp
  then have "sum_list (map p_weight ps) = ?s (Suc j) + sum_list (map p_weight (drop (Suc j) ps))"
    by (metis map_append sum_list_append)
  moreover have "0 \<le> sum_list (map p_weight (drop (Suc j) ps))"
    by (rule weights_nonneg(3) [OF assms(1)])
  ultimately have le: "?s (Suc j) \<le> sum_list (map p_weight ps)" by simp
  have "{w. 0 \<le> w \<and> w < sum_list (map p_weight ps) \<and> ip_hash_weighted w ps = j} = {?s j..<?s (Suc j)}"
  proof (rule set_eqI)
    fix w
    show "w \<in> {w. 0 \<le> w \<and> w < sum_list (map p_weight ps) \<and> ip_hash_weighted w ps = j} \<longleftrightarrow> w \<in> {?s j..<?s (Suc j)}"
    proof (cases "0 \<le> w")
      case True
      with ip_hash_weighted_iff [OF assms(1) True assms(2)] le show ?thesis
        unfolding mem_Collect_eq atLeastLessThan_iff by linarith
    next
      case False
      with weights_nonneg(2) [OF assms(1), of j] show ?thesis by simp
    qed
  qed
  moreover have "0 \<le> p_weight (ps ! j)" using assms by simp
  ultimately show ?thesis using step by simp
qed

text \<open>The groups of an upstream with \<open>ip_hash\<close>, used by any number of requests.\<close>

inductive ip_hash_used :: "rr_peers list \<Rightarrow> rr_peers list \<Rightarrow> bool" for gs0 where
  fresh: "ip_hash_used gs0 gs0"
| get: "ip_hash_used gs0 gs \<Longrightarrow> ngx_http_upstream_get_ip_hash_peer now pc x gs = (rc, pc', x', gs') \<Longrightarrow> ip_hash_used gs0 gs'"
| free: "ip_hash_used gs0 gs \<Longrightarrow> ngx_http_upstream_free_round_robin_peer now failed pc d gs = (pc', gs') \<Longrightarrow>
    ip_hash_used gs0 gs'"

lemma rr_setup_update:
  assumes "list_all2 (\<lambda>h g. rr_setup g = rr_setup h) hs gs" and "rr_setup y = rr_setup (gs ! k)"
  shows "list_all2 (\<lambda>h g. rr_setup g = rr_setup h) hs (gs[k := y])"
  using assms by (cases "k < length gs") (auto simp: list_all2_conv_all_nth nth_list_update list_update_beyond)

lemma ip_hash_get_kept:
  assumes "list_all2 (\<lambda>h g. rr_setup g = rr_setup h) hs gs"
    and "ngx_http_upstream_get_ip_hash_peer now pc x gs = (rc, pc', x', gs')"
  shows "list_all2 (\<lambda>h g. rr_setup g = rr_setup h) hs gs'"
proof -
  let ?R = "\<lambda>h g. rr_setup g = rr_setup h" and ?k = "rrp_peers (iph_rrp x)"
  have rr: "list_all2 ?R hs gs2"
    if "(case ngx_http_upstream_get_round_robin_peer now pc (iph_rrp x) gs of
         (rc, pc, d, gs) \<Rightarrow> (rc, pc, x\<lparr>iph_rrp := d\<rparr>, gs)) = (rc2, pc2, x2, gs2)" for pc x rc2 pc2 x2 gs2
    using that rr_configured.get_round_robin_kept [OF assms(1)] by (auto split: prod.splits)
  show ?thesis
  proof (cases "iph_tries x > 20 \<or> ps_single (gs ! ?k)")
    case True
    with assms(2) show ?thesis
      by (intro rr [where pc = pc and x = x]) (auto simp: ngx_http_upstream_get_ip_hash_peer_def Let_def)
  next
    case more: False
    show ?thesis
    proof (cases "ip_hash_loop now (gs ! ?k) (iph_hash x) (pc\<lparr>pc_cached := False, pc_connection := None\<rparr>) x")
      case (Inl y)
      with more assms(2) show ?thesis
        by (intro rr [where pc = "fst y" and x = "snd y"]) (auto simp: ngx_http_upstream_get_ip_hash_peer_def Let_def split: prod.splits)
    next
      case (Inr y)
      obtain p h pc1 x1 where y: "y = (p, h, pc1, x1)" by (metis surj_pair)
      let ?g = "gs ! ?k"
      let ?q = "if now - p_checked (ps_peer ?g ! p) > p_fail_timeout (ps_peer ?g ! p)
        then (ps_peer ?g ! p)\<lparr>p_checked := now\<rparr> else ps_peer ?g ! p"
      have "rr_setup (?g\<lparr>ps_peer := (ps_peer ?g)[p := ?q]\<rparr>) = rr_setup ?g"
      proof (cases "p < length (ps_peer ?g)")
        case True
        then show ?thesis
          using map_update_same [OF True, of p_weight ?q] map_update_same [OF True, of p_down ?q]
          by (simp add: rr_setup_def)
      qed (simp add: rr_setup_def list_update_beyond)
      moreover have "gs' = gs[?k := ?g\<lparr>ps_peer := (ps_peer ?g)[p := ?q]\<rparr>]"
        using assms(2) more Inr unfolding ngx_http_upstream_get_ip_hash_peer_def Let_def y by simp
      ultimately show ?thesis by (simp add: rr_setup_update [OF assms(1)])
    qed
  qed
qed

lemma ip_hash_used_setup: "ip_hash_used gs0 gs \<Longrightarrow> list_all2 (\<lambda>h g. rr_setup g = rr_setup h) gs0 gs"
  by (induction rule: ip_hash_used.induct) (auto intro: list.rel_refl ip_hash_get_kept rr_configured.free_kept)

lemma ip_hash_weighted_setup:
  "map p_weight ps = map p_weight qs \<Longrightarrow> ip_hash_weighted w ps = ip_hash_weighted w qs"
proof (induction ps arbitrary: w qs)
  case (Cons p ps)
  then show ?case by (cases qs) (auto simp: Let_def)
qed simp

lemma ip_hash_index_setup: "rr_setup g = rr_setup h \<Longrightarrow> ip_hash_index n g = ip_hash_index n h"
  using ip_hash_weighted_setup [of "ps_peer g" "ps_peer h"]
  by (auto simp: ip_hash_index_def rr_setup_def dest: map_eq_imp_length_eq)

text \<open>
  C33: \<open>ip_hash\<close> is sticky. The hash of the bytes of a client's address that count points at one
  peer of the configured group, which exists. As long as that peer is neither marked down nor
  failing, every new request of the client gets it, whatever other requests have done to the
  upstream before.
\<close>

theorem ip_hash_sticky:
  assumes "us_servers us = Some servers" and "\<forall>s \<in> set servers. 1 \<le> sv_weight s"
    and "ngx_http_upstream_init_round_robin True True resolve us = Some gs0" and "\<not> ps_single (gs0 ! 0)"
    and "ip_hash_used gs0 gs"
    and "ngx_http_upstream_init_ip_hash_peer True True a gs pc = Some (pc', x)"
    and "i = ip_hash_index (ip_hash_next (ip_hash_addr a) 89) (gs0 ! 0)"
    and "\<not> p_down (ps_peer (gs ! 0) ! i)" and "\<not> rr_failing now (ps_peer (gs ! 0) ! i)"
  shows "i < length (ps_peer (gs0 ! 0)) \<and>
    (\<exists>pc'' x' gs'. ngx_http_upstream_get_ip_hash_peer now pc' x gs = (NGX_OK, pc'', x', gs') \<and>
       rrp_peers (iph_rrp x') = 0 \<and> rrp_current (iph_rrp x') = i)"
proof -
  have g0: "ps_peer (gs0 ! 0) = rr_new_peers False servers" "ps_total_weight (gs0 ! 0) = rr_weights False servers"
      "gs0 \<noteq> []" "rr_new_peers False servers \<noteq> []"
    using assms(1,3) by (auto simp: ngx_http_upstream_init_round_robin_def Let_def split: if_splits)
  have w: "1 \<le> p_weight p" if "p \<in> set (ps_peer (gs0 ! 0))" for p
    using rr_new_peers_set [of p False servers] that assms(2) unfolding g0(1) by auto
  have total: "ps_total_weight (gs0 ! 0) = sum_list (map p_weight (ps_peer (gs0 ! 0)))"
    unfolding g0(1,2) rr_new_peers_weight ..
  have "0 < sum_list (map p_weight (ps_peer (gs0 ! 0)))"
  proof -
    obtain p ps where "ps_peer (gs0 ! 0) = p # ps" using g0(1,4) by (metis neq_Nil_conv)
    moreover from this have "\<forall>q \<in> set ps. 0 \<le> p_weight q" "1 \<le> p_weight p"
      using w by fastforce+
    moreover from this have "0 \<le> sum_list (map p_weight ps)" by (simp add: weights_nonneg(1))
    ultimately show ?thesis by simp
  qed
  moreover have "\<forall>p \<in> set (ps_peer (gs0 ! 0)). 0 \<le> p_weight p" using w by fastforce
  ultimately have i: "i < length (ps_peer (gs0 ! 0))"
    using g0(1,4) ip_hash_weighted_range [of "ps_peer (gs0 ! 0)"]
    by (simp add: assms(7) ip_hash_index_def total)
  have all: "list_all2 (\<lambda>h g. rr_setup g = rr_setup h) gs0 gs" by (rule ip_hash_used_setup [OF assms(5)])
  then have cfg: "rr_setup (gs ! 0) = rr_setup (gs0 ! 0)" and ne: "gs \<noteq> []"
    using g0(3) by (auto simp: list_all2_conv_all_nth)
  have idx: "ip_hash_index (ip_hash_next (ip_hash_addr a) 89) (gs ! 0) = i"
    using ip_hash_index_setup [OF cfg] assms(7) by simp
  have len: "i < length (ps_peer (gs ! 0))"
    using i cfg map_eq_imp_length_eq [of p_weight "ps_peer (gs ! 0)" p_weight "ps_peer (gs0 ! 0)"]
    by (simp add: rr_setup_def)
  obtain pc1 k where init: "ngx_http_upstream_init_round_robin_peer True True gs pc =
      Some (pc1, \<lparr>rrp_peers = 0, rrp_current = 0, rrp_tried = replicate k 0\<rparr>)" "rr_most_peers gs \<le> 64 * k"
    by (rule rr_init_peer [of gs pc])
  have x: "x = \<lparr>iph_rrp = \<lparr>rrp_peers = 0, rrp_current = 0, rrp_tried = replicate k 0\<rparr>, iph_hash = 89,
      iph_addr = ip_hash_addr a, iph_tries = 0\<rparr>"
    using assms(6) init(1) by (simp add: ngx_http_upstream_init_ip_hash_peer_def)
  have "length (ps_peer (gs ! 0)) \<le> rr_most_peers gs" using ne rr_most_peers_first by (cases gs) auto
  then have "\<not> tried_bit (replicate k 0) i" using len init(2) by simp
  then have found: "ip_hash_loop now (gs ! 0) 89 pc'' x = Inr (i, ip_hash_next (ip_hash_addr a) 89, pc'', x)" for pc''
    using assms(8,9) by (simp add: ip_hash_loop.simps x idx Let_def)
  have "\<not> ps_single (gs ! 0)" using cfg assms(4) by (simp add: rr_setup_def)
  then show ?thesis
    using i found by (auto simp: ngx_http_upstream_get_ip_hash_peer_def x Let_def)
qed

theorem ip_hash_sticky_witness:
  "ip_hash_index (ip_hash_next (ip_hash_addr (AF_INET [192, 168, 7, 1])) 89) rr_example_peers < length (ps_peer rr_example_peers) \<and>
    (\<exists>pc'' x' gs'. ngx_http_upstream_get_ip_hash_peer 50 (fresh_connection\<lparr>pc_tries := 2\<rparr>)
        \<lparr>iph_rrp = \<lparr>rrp_peers = 0, rrp_current = 0, rrp_tried = [0]\<rparr>, iph_hash = 89,
          iph_addr = [192, 168, 7], iph_tries = 0\<rparr> [rr_example_peers] = (NGX_OK, pc'', x', gs') \<and>
       rrp_peers (iph_rrp x') = 0 \<and>
       rrp_current (iph_rrp x') = ip_hash_index (ip_hash_next (ip_hash_addr (AF_INET [192, 168, 7, 1])) 89) rr_example_peers)"
proof -
  let ?i = "ip_hash_index (ip_hash_next (ip_hash_addr (AF_INET [192, 168, 7, 1])) 89) rr_example_peers"
  have peers: "ps_peer rr_example_peers = rr_new_peers False (the (us_servers rr_example))" "\<not> ps_single rr_example_peers"
    by (simp_all add: rr_example_peers_def rr_example_def ngx_http_upstream_init_round_robin_def rr_new_peers_def Let_def)
  have start: "ngx_http_upstream_init_ip_hash_peer True True (AF_INET [192, 168, 7, 1]) [rr_example_peers] fresh_connection =
      Some (fresh_connection\<lparr>pc_tries := 2\<rparr>, \<lparr>iph_rrp = \<lparr>rrp_peers = 0, rrp_current = 0, rrp_tried = [0]\<rparr>, iph_hash = 89,
        iph_addr = [192, 168, 7], iph_tries = 0\<rparr>)"
    by (simp add: ngx_http_upstream_init_ip_hash_peer_def ngx_http_upstream_init_round_robin_peer_def rr_most_peers_def
        rr_example_init(2))
  have i: "?i = 0"
    by (simp add: ip_hash_next_def ip_hash_index_def rr_example_peers_def rr_example_def
        ngx_http_upstream_init_round_robin_def rr_new_peers_def rr_weights_def rr_new_peer_def Let_def)
  have fine: "\<not> p_down (ps_peer rr_example_peers ! 0)" "\<not> rr_failing 50 (ps_peer rr_example_peers ! 0)"
    by (simp_all add: peers(1) rr_example_def rr_new_peers_def rr_new_peer_def rr_failing_def)
  show ?thesis
    using ip_hash_sticky [OF _ _ rr_example_init(1) _ ip_hash_used.fresh start refl,
        where servers = "the (us_servers rr_example)" and now = 50] peers(2) fine i
    by (simp add: rr_example_def)
qed

subsection \<open>Least number of connections\<close>

text \<open>
  \<open>ngx_http_upstream_lc_peer_data_t\<close>; the array \<open>conns\<close> is shared, \<open>lcp_conns\<close> is the place in it
  that \<open>lcp->conns\<close> points at.
\<close>

record lc_data =
  lcp_rrp :: rr_data
  lcp_conns :: nat

definition rr_skip :: "int \<Rightarrow> u64 list \<Rightarrow> nat \<Rightarrow> rr_peer \<Rightarrow> bool" where
  "rr_skip now t i p \<longleftrightarrow> tried_bit t i \<or> p_down p \<or> rr_failing now p"

text \<open>\<open>conns[i] * b->weight\<close>, unsigned\<close>

definition lc_load :: "u64 list \<Rightarrow> nat \<Rightarrow> nat \<Rightarrow> rr_peer \<Rightarrow> u64" where
  "lc_load cs k i b = cs ! (k + i) * of_int (p_weight b)"

text \<open>The first loop: \<open>p\<close> (and with it \<open>best\<close>) and \<open>many\<close>.\<close>

definition lc_visit :: "int \<Rightarrow> u64 list \<Rightarrow> u64 list \<Rightarrow> nat \<Rightarrow> rr_peer list \<Rightarrow> nat \<Rightarrow> nat option \<times> bool \<Rightarrow> nat option \<times> bool" where
  "lc_visit now t cs k ps i x =
    (if rr_skip now t i (ps ! i) then x
     else (case x of
             (None, many) \<Rightarrow> (Some i, False)
           | (Some p, many) \<Rightarrow>
               if lc_load cs k i (ps ! p) < lc_load cs k p (ps ! i) then (Some i, False)
               else if lc_load cs k i (ps ! p) = lc_load cs k p (ps ! i) then (Some p, True)
               else (Some p, many)))"

definition lc_first :: "int \<Rightarrow> u64 list \<Rightarrow> u64 list \<Rightarrow> nat \<Rightarrow> rr_peer list \<Rightarrow> nat option \<times> bool" where
  "lc_first now t cs k ps = fold (lc_visit now t cs k ps) [0..<length ps] (None, False)"

text \<open>The second loop, over the peers from \<open>p\<close> on: the peers, \<open>p\<close> and \<open>total\<close>.\<close>

definition lc_again :: "int \<Rightarrow> u64 list \<Rightarrow> u64 list \<Rightarrow> nat \<Rightarrow> nat \<Rightarrow> rr_peer list \<times> nat \<times> int \<Rightarrow> rr_peer list \<times> nat \<times> int" where
  "lc_again now t cs k i x =
    (case x of (ps, p, tot) \<Rightarrow>
       if tried_bit t i then x
       else if p_down (ps ! i) then x
       else if lc_load cs k i (ps ! p) \<noteq> lc_load cs k p (ps ! i) then x
       else if rr_failing now (ps ! i) then x
       else
         let ps' = ps[i := rr_gain (ps ! i)] in
         (ps', if p_current_weight (ps' ! i) > p_current_weight (ps' ! p) then i else p,
          tot + p_effective_weight (ps ! i)))"

definition lc_second :: "int \<Rightarrow> u64 list \<Rightarrow> u64 list \<Rightarrow> nat \<Rightarrow> rr_peer list \<Rightarrow> nat \<Rightarrow> rr_peer list \<times> nat \<times> int" where
  "lc_second now t cs k ps p = fold (lc_again now t cs k) [p..<length ps] (ps, p, 0)"

fun lc_get :: "int \<Rightarrow> peer_connection \<Rightarrow> lc_data \<Rightarrow> u64 list \<Rightarrow> rr_peers \<Rightarrow> rr_peers list
    \<Rightarrow> ngx_rc \<times> peer_connection \<times> lc_data \<times> u64 list \<times> rr_peers list" where
  "lc_get now pc x cs g ns =
    (if ps_single g
     then (case rr_get now pc (lcp_rrp x) g ns of (rc, pc, d, gs) \<Rightarrow> (rc, pc, x\<lparr>lcp_rrp := d\<rparr>, cs, gs))
     else
       let pc = pc\<lparr>pc_cached := False, pc_connection := None\<rparr>; d = lcp_rrp x; t = rrp_tried d; k = lcp_conns x in
       case lc_first now t cs k (ps_peer g) of
         (Some p, many) \<Rightarrow>
           (let (ps, p, tot) = (if many then lc_second now t cs k (ps_peer g) p else (ps_peer g, p, 0));
                best = rr_chosen now tot (ps ! p);
                pc = pc\<lparr>pc_sockaddr := p_sockaddr best, pc_name := p_name best\<rparr> in
            (NGX_OK,
             (case ns of
                [] \<Rightarrow> pc
              | h # _ \<Rightarrow> if pc_tries pc = 1 then pc\<lparr>pc_tries := pc_tries pc + of_nat (length (ps_peer h))\<rparr> else pc),
             x\<lparr>lcp_rrp := d\<lparr>rrp_current := p, rrp_tried := set_tried t p\<rparr>\<rparr>,
             cs[k + p := cs ! (k + p) + 1], g\<lparr>ps_peer := ps[p := best]\<rparr> # ns))
       | (None, _) \<Rightarrow>
           (case ns of
              [] \<Rightarrow> (NGX_BUSY, pc\<lparr>pc_name := ps_name g\<rparr>, x, cs, [rr_forgive g])
            | h # rest \<Rightarrow>
                (case lc_get now (pc\<lparr>pc_tries := of_nat (length (ps_peer h))\<rparr>)
                        (x\<lparr>lcp_conns := k + length (ps_peer g),
                           lcp_rrp := d\<lparr>rrp_peers := rrp_peers d + 1, rrp_tried := rr_clear_tried (length (ps_peer h)) t\<rparr>\<rparr>)
                        cs h rest of
                   (rc, pc, x, cs, gs) \<Rightarrow>
                     if rc \<noteq> NGX_BUSY then (rc, pc, x, cs, g # gs)
                     else (NGX_BUSY, pc\<lparr>pc_name := ps_name g\<rparr>, x, cs, rr_forgive g # gs))))"

declare lc_get.simps [simp del]

definition ngx_http_upstream_get_least_conn_peer :: "int \<Rightarrow> peer_connection \<Rightarrow> lc_data \<Rightarrow> u64 list \<Rightarrow> rr_peers list
    \<Rightarrow> ngx_rc \<times> peer_connection \<times> lc_data \<times> u64 list \<times> rr_peers list" where
  "ngx_http_upstream_get_least_conn_peer now pc x cs gs =
    (case drop (rrp_peers (lcp_rrp x)) gs of
       [] \<Rightarrow> (NGX_ERROR, pc, x, cs, gs)
     | g # ns \<Rightarrow> (case lc_get now pc x cs g ns of
                   (rc, pc, x', cs, gs') \<Rightarrow> (rc, pc, x', cs, take (rrp_peers (lcp_rrp x)) gs @ gs')))"

definition ngx_http_upstream_free_least_conn_peer :: "int \<Rightarrow> bool \<Rightarrow> peer_connection \<Rightarrow> lc_data \<Rightarrow> u64 list
    \<Rightarrow> rr_peers list \<Rightarrow> peer_connection \<times> u64 list \<times> rr_peers list" where
  "ngx_http_upstream_free_least_conn_peer now failed pc x cs gs =
    (let d = lcp_rrp x; i = lcp_conns x + rrp_current d;
         cs = (if ps_single (gs ! rrp_peers d) then cs else cs[i := cs ! i - 1]) in
     case ngx_http_upstream_free_round_robin_peer now failed pc d gs of (pc, gs) \<Rightarrow> (pc, cs, gs))"

text \<open>\<open>ngx_http_upstream_init_least_conn\<close> (one counter for every peer), and the start of a request.\<close>

definition ngx_http_upstream_init_least_conn :: "bool \<Rightarrow> bool \<Rightarrow> bool
    \<Rightarrow> (u8 list \<Rightarrow> u16 \<Rightarrow> (u8 list \<times> u8 list) list option) \<Rightarrow> upstream_srv_conf \<Rightarrow> (u64 list \<times> rr_peers list) option" where
  "ngx_http_upstream_init_least_conn got got_backup got_conns resolve us =
    (case ngx_http_upstream_init_round_robin got got_backup resolve us of
       None \<Rightarrow> None
     | Some gs \<Rightarrow>
         let n = length (ps_peer (gs ! 0)) + (case gs of _ # h # _ \<Rightarrow> length (ps_peer h) | _ \<Rightarrow> 0) in
         if \<not> got_conns then None else Some (replicate n 0, gs))"

definition ngx_http_upstream_init_least_conn_peer :: "bool \<Rightarrow> bool \<Rightarrow> bool \<Rightarrow> rr_peers list \<Rightarrow> peer_connection
    \<Rightarrow> (peer_connection \<times> lc_data) option" where
  "ngx_http_upstream_init_least_conn_peer got got_data got_tried gs pc =
    (if \<not> got then None
     else map_option (\<lambda>(pc, d). (pc, \<lparr>lcp_rrp = d, lcp_conns = 0\<rparr>))
       (ngx_http_upstream_init_round_robin_peer got_data got_tried gs pc))"

subsection \<open>The peer with the fewest connections\<close>

lemma cross_trans:
  fixes a b c u v w :: nat
  assumes "a * v \<le> b * u" and "b * w \<le> c * v" and "0 < v"
  shows "a * w \<le> c * u"
proof -
  have "v * (a * w) = (a * v) * w" by simp
  also have "\<dots> \<le> (b * u) * w" using assms(1) by (rule mult_le_mono1)
  also have "\<dots> = (b * w) * u" by simp
  also have "\<dots> \<le> (c * v) * u" using assms(2) by (rule mult_le_mono1)
  also have "\<dots> = v * (c * u)" by simp
  finally show ?thesis using assms(3) by simp
qed

text \<open>Peer \<open>i\<close> has no more connections for its weight than peer \<open>j\<close>.\<close>

definition lc_le :: "u64 list \<Rightarrow> nat \<Rightarrow> rr_peer list \<Rightarrow> nat \<Rightarrow> nat \<Rightarrow> bool" where
  "lc_le cs k ps i j \<longleftrightarrow>
    unat (cs ! (k + i)) * nat (p_weight (ps ! j)) \<le> unat (cs ! (k + j)) * nat (p_weight (ps ! i))"

definition lc_small :: "u64 list \<Rightarrow> nat \<Rightarrow> rr_peer list \<Rightarrow> bool" where
  "lc_small cs k ps \<longleftrightarrow> (\<forall>i<length ps. 0 < p_weight (ps ! i) \<and> p_weight (ps ! i) < 2 ^ 32 \<and> unat (cs ! (k + i)) < 2 ^ 32)"

lemma lc_le_trans: "lc_small cs k ps \<Longrightarrow> j < length ps \<Longrightarrow> lc_le cs k ps i j \<Longrightarrow> lc_le cs k ps j l \<Longrightarrow> lc_le cs k ps i l"
  unfolding lc_le_def by (rule cross_trans) (auto simp: lc_small_def)

lemma lc_load_unat:
  assumes "unat (cs ! (k + i)) < 2 ^ 32" and "0 < p_weight b" and "p_weight b < 2 ^ 32"
  shows "unat (lc_load cs k i b) = unat (cs ! (k + i)) * nat (p_weight b)"
proof -
  have w: "unat (of_int (p_weight b) :: u64) = nat (p_weight b)"
    using assms(2,3) by (simp add: unat_eq_nat_uint uint_word_of_int_eq take_bit_int_eq_self)
  have "unat (cs ! (k + i)) * nat (p_weight b) < 2 ^ 32 * 2 ^ 32"
    using assms by (intro mult_strict_mono) auto
  then show ?thesis
    unfolding lc_load_def by (subst unat_mult_lem [THEN iffD1]) (simp_all add: w)
qed

lemma lc_load_compare:
  assumes "lc_small cs k ps" and "i < length ps" and "p < length ps"
  shows "lc_load cs k i (ps ! p) < lc_load cs k p (ps ! i) \<longleftrightarrow> \<not> lc_le cs k ps p i"
    and "lc_load cs k i (ps ! p) = lc_load cs k p (ps ! i) \<longleftrightarrow> lc_le cs k ps p i \<and> lc_le cs k ps i p"
  using assms lc_load_unat [of cs k i "ps ! p"] lc_load_unat [of cs k p "ps ! i"]
  by (auto simp: lc_small_def lc_le_def word_less_nat_alt word_unat_eq_iff)

lemma lc_le_refl [simp]: "lc_le cs k ps i i"
  by (simp add: lc_le_def)

definition lc_found :: "int \<Rightarrow> u64 list \<Rightarrow> u64 list \<Rightarrow> nat \<Rightarrow> rr_peer list \<Rightarrow> nat \<Rightarrow> nat option \<Rightarrow> bool" where
  "lc_found now t cs k ps n best \<longleftrightarrow>
    (case best of
       None \<Rightarrow> \<forall>j<n. rr_skip now t j (ps ! j)
     | Some p \<Rightarrow> p < n \<and> \<not> rr_skip now t p (ps ! p) \<and> (\<forall>j<n. \<not> rr_skip now t j (ps ! j) \<longrightarrow> lc_le cs k ps p j))"

lemma lc_first_result:
  assumes "lc_small cs k ps"
  shows "lc_found now t cs k ps (length ps) (fst (lc_first now t cs k ps))"
proof -
  have "lc_found now t cs k ps n (fst (fold (lc_visit now t cs k ps) [0..<n] (None, False)))" if "n \<le> length ps" for n
    using that
  proof (induction n)
    case 0
    then show ?case by (simp add: lc_found_def)
  next
    case (Suc n)
    obtain best many where x: "fold (lc_visit now t cs k ps) [0..<n] (None, False) = (best, many)" by (metis surj_pair)
    have IH: "lc_found now t cs k ps n best" using Suc x by simp
    have n: "n < length ps" using Suc.prems by simp
    have step: "fold (lc_visit now t cs k ps) [0..<Suc n] (None, False) = lc_visit now t cs k ps n (best, many)"
      by (simp add: x)
    show ?case
    proof (cases "rr_skip now t n (ps ! n)")
      case True
      with IH show ?thesis unfolding step
        by (auto simp: lc_visit_def lc_found_def less_Suc_eq split: option.splits)
    next
      case live: False
      show ?thesis
      proof (cases best)
        case None
        with IH live show ?thesis unfolding step
          by (auto simp: lc_visit_def lc_found_def less_Suc_eq)
      next
        case (Some p)
        then have p: "p < length ps" "p < n" "\<not> rr_skip now t p (ps ! p)"
            "\<forall>j<n. \<not> rr_skip now t j (ps ! j) \<longrightarrow> lc_le cs k ps p j"
          using IH n by (auto simp: lc_found_def)
        note cmp = lc_load_compare [OF assms n p(1)]
        show ?thesis
        proof (cases "lc_le cs k ps p n")
          case True
          then have "fst (lc_visit now t cs k ps n (best, many)) = Some p"
            using live Some cmp by (auto simp: lc_visit_def)
          with True p show ?thesis unfolding step by (auto simp: lc_found_def less_Suc_eq)
        next
          case False
          then have "fst (lc_visit now t cs k ps n (best, many)) = Some n"
            using live Some cmp by (auto simp: lc_visit_def)
          moreover have "lc_le cs k ps n j" if "j < n" "\<not> rr_skip now t j (ps ! j)" for j
          proof -
            have "lc_le cs k ps n p" using False by (simp add: lc_le_def)
            then show ?thesis using lc_le_trans [OF assms p(1)] p(4) that by blast
          qed
          ultimately show ?thesis unfolding step using live by (auto simp: lc_found_def less_Suc_eq)
        qed
      qed
    qed
  qed
  then show ?thesis unfolding lc_first_def by simp
qed

text \<open>What the second loop leaves alone.\<close>

definition lc_same :: "rr_peer list \<Rightarrow> rr_peer list \<Rightarrow> bool" where
  "lc_same ps qs \<longleftrightarrow> length qs = length ps \<and>
    (\<forall>j<length ps. p_weight (qs ! j) = p_weight (ps ! j) \<and> p_down (qs ! j) = p_down (ps ! j) \<and>
       (\<forall>now. rr_failing now (qs ! j) = rr_failing now (ps ! j)))"

lemma lc_second_result:
  assumes "lc_small cs k ps" and "p < length ps" and "\<not> rr_skip now t p (ps ! p)"
    and "lc_second now t cs k ps p = (qs, q, tot)"
  shows "lc_same ps qs \<and> q < length ps \<and> \<not> rr_skip now t q (ps ! q) \<and> lc_le cs k ps q p"
proof -
  let ?inv = "\<lambda>x. case x of (qs, q, tot) \<Rightarrow> lc_same ps qs \<and> q < length ps \<and> \<not> rr_skip now t q (ps ! q) \<and> lc_le cs k ps q p"
  have step: "?inv (lc_again now t cs k i x)" if "?inv x" and i: "i < length ps" for i x
  proof -
    obtain qs q tot where x: "x = (qs, q, tot)" by (cases x)
    have inv: "lc_same ps qs" "q < length ps" "\<not> rr_skip now t q (ps ! q)" "lc_le cs k ps q p" using that x by auto
    show ?thesis
    proof (cases "lc_again now t cs k i x = x")
      case True
      with that show ?thesis by simp
    next
      case False
      have load: "lc_load cs k j (qs ! l) = lc_load cs k j (ps ! l)" if "l < length ps" for j l
        using inv(1) that by (simp add: lc_load_def lc_same_def)
      have live: "\<not> rr_skip now t i (ps ! i)" and eq: "lc_load cs k i (ps ! q) = lc_load cs k q (ps ! i)"
        using False inv(1,2) i load by (auto simp: lc_again_def x rr_skip_def lc_same_def split: if_splits)
      have "lc_le cs k ps i q" using eq lc_load_compare(2) [OF assms(1) i inv(2)] by simp
      then have le: "lc_le cs k ps i p" using lc_le_trans [OF assms(1) inv(2)] inv(4) by blast
      have gain: "p_weight (rr_gain r) = p_weight r" "p_down (rr_gain r) = p_down r"
          "rr_failing now' (rr_gain r) = rr_failing now' r" for r now'
        by (simp_all add: rr_gain_def rr_failing_def)
      have "lc_same ps (qs[i := rr_gain (qs ! i)])"
        using inv(1) i by (auto simp: lc_same_def nth_list_update gain)
      moreover obtain q' tot' where "lc_again now t cs k i x = (qs[i := rr_gain (qs ! i)], q', tot')" "q' = i \<or> q' = q"
        using False by (auto simp: lc_again_def x Let_def split: if_splits)
      ultimately show ?thesis using live le inv i by auto
    qed
  qed
  have keeps: "?inv (fold (lc_again now t cs k) is x)" if "?inv x" "set is \<subseteq> {..<length ps}" for "is" x
    using that
  proof (induction "is" arbitrary: x)
    case (Cons i "is")
    have "?inv (lc_again now t cs k i x)" by (rule step [OF Cons.prems(1)]) (use Cons.prems(2) in simp)
    from Cons.IH [OF this] Cons.prems(2) show ?case by simp
  qed simp
  have start: "?inv (ps, p, 0)" using assms(2,3) by (simp add: lc_same_def)
  have sub: "set [p..<length ps] \<subseteq> {..<length ps}" by auto
  have "?inv (fold (lc_again now t cs k) [p..<length ps] (ps, p, 0))" by (rule keeps [OF start sub])
  then show ?thesis using assms(4) by (simp add: lc_second_def)
qed

definition lc_offset :: "rr_peers list \<Rightarrow> nat \<Rightarrow> nat" where
  "lc_offset gs m = sum_list (map (\<lambda>g. length (ps_peer g)) (take m gs))"

lemma lc_offset_simps [simp]: "lc_offset gs 0 = 0" "lc_offset (g # gs) (Suc m) = length (ps_peer g) + lc_offset gs m"
  by (simp_all add: lc_offset_def)

text \<open>What a call hands out: \<open>m\<close> groups further, peer \<open>p\<close>.\<close>

definition lc_got :: "int \<Rightarrow> lc_data \<Rightarrow> u64 list \<Rightarrow> rr_peers list \<Rightarrow> ngx_rc \<Rightarrow> lc_data \<Rightarrow> u64 list \<Rightarrow> rr_peers list \<Rightarrow> nat \<Rightarrow> nat \<Rightarrow> bool" where
  "lc_got now x cs gs rc x' cs' gs' m p \<longleftrightarrow> list_all2 (\<lambda>h g. rr_setup g = rr_setup h) gs gs' \<and>
    (let k = lcp_conns x + lc_offset gs m; ps = ps_peer (gs ! m) in
     if rc = NGX_OK
     then m < length gs \<and> p < length ps \<and> rrp_peers (lcp_rrp x') = rrp_peers (lcp_rrp x) + m \<and>
       rrp_current (lcp_rrp x') = p \<and> lcp_conns x' = k \<and> cs' = cs[k + p := cs ! (k + p) + 1] \<and>
       length (rrp_tried (lcp_rrp x')) = length (rrp_tried (lcp_rrp x)) \<and>
       (\<forall>j<length ps. \<not> p_down (ps ! j) \<and> \<not> rr_failing now (ps ! j) \<and>
          (m = 0 \<longrightarrow> \<not> tried_bit (rrp_tried (lcp_rrp x)) j) \<longrightarrow> lc_le cs k ps p j)
     else cs' = cs)"

lemma rr_setup_same:
  assumes "lc_same (ps_peer g) qs"
  shows "rr_setup (g\<lparr>ps_peer := qs[p := rr_chosen now tot (qs ! p)]\<rparr>) = rr_setup g"
proof -
  have w: "map p_weight qs = map p_weight (ps_peer g)" "map p_down qs = map p_down (ps_peer g)"
    using assms by (auto simp: lc_same_def list_eq_iff_nth_eq)
  have "map p_weight (qs[p := rr_chosen now tot (qs ! p)]) = map p_weight qs \<and>
      map p_down (qs[p := rr_chosen now tot (qs ! p)]) = map p_down qs"
  proof (cases "p < length qs")
    case True
    then show ?thesis
      using map_update_same [OF True, of p_weight "rr_chosen now tot (qs ! p)"]
        map_update_same [OF True, of p_down "rr_chosen now tot (qs ! p)"] by (simp add: rr_chosen_def Let_def)
  qed (simp add: list_update_beyond)
  with w show ?thesis by (simp add: rr_setup_def)
qed

text \<open>A group in which a peer is found.\<close>

lemma lc_get_found:
  assumes "\<not> ps_single g" and "lc_small cs (lcp_conns x) (ps_peer g)"
    and "lc_first now (rrp_tried (lcp_rrp x)) cs (lcp_conns x) (ps_peer g) = (Some p0, many)"
  obtains p g' pc' where "lc_get now pc x cs g ns = (NGX_OK, pc', x\<lparr>lcp_rrp := (lcp_rrp x)\<lparr>rrp_current := p,
      rrp_tried := set_tried (rrp_tried (lcp_rrp x)) p\<rparr>\<rparr>, cs[lcp_conns x + p := cs ! (lcp_conns x + p) + 1], g' # ns)"
    "rr_setup g' = rr_setup g" "p < length (ps_peer g)"
    "\<forall>j<length (ps_peer g). \<not> rr_skip now (rrp_tried (lcp_rrp x)) j (ps_peer g ! j) \<longrightarrow> lc_le cs (lcp_conns x) (ps_peer g) p j"
proof -
  let ?t = "rrp_tried (lcp_rrp x)" and ?k = "lcp_conns x" and ?ps = "ps_peer g"
  have p0: "p0 < length ?ps" "\<not> rr_skip now ?t p0 (?ps ! p0)"
      "\<forall>j<length ?ps. \<not> rr_skip now ?t j (?ps ! j) \<longrightarrow> lc_le cs ?k ?ps p0 j"
    using lc_first_result [OF assms(2), of now ?t] assms(3) by (simp_all add: lc_found_def)
  obtain qs p tot where two: "(if many then lc_second now ?t cs ?k ?ps p0 else (?ps, p0, 0)) = (qs, p, tot)"
    by (metis surj_pair)
  have res: "lc_same ?ps qs" "p < length ?ps" "lc_le cs ?k ?ps p p0"
    using two lc_second_result [OF assms(2) p0(1,2), of qs p tot] p0(1) by (auto simp: lc_same_def split: if_splits)
  define g' where "g' = g\<lparr>ps_peer := qs[p := rr_chosen now tot (qs ! p)]\<rparr>"
  have "rr_setup g' = rr_setup g" unfolding g'_def by (rule rr_setup_same [OF res(1)])
  moreover have "\<exists>pc'. lc_get now pc x cs g ns = (NGX_OK, pc', x\<lparr>lcp_rrp := (lcp_rrp x)\<lparr>rrp_current := p,
      rrp_tried := set_tried ?t p\<rparr>\<rparr>, cs[?k + p := cs ! (?k + p) + 1], g' # ns)"
    using assms(1,3) two by (simp add: lc_get.simps g'_def Let_def)
  moreover have "\<forall>j<length ?ps. \<not> rr_skip now ?t j (?ps ! j) \<longrightarrow> lc_le cs ?k ?ps p j"
    using lc_le_trans [OF assms(2) p0(1)] p0(3) res(3) by blast
  ultimately show ?thesis using res(2) that by blast
qed

lemma lc_got_here:
  assumes "rr_setup g' = rr_setup g" and "p < length (ps_peer g)"
    and "\<forall>j<length (ps_peer g). \<not> rr_skip now (rrp_tried (lcp_rrp x)) j (ps_peer g ! j) \<longrightarrow> lc_le cs (lcp_conns x) (ps_peer g) p j"
  shows "lc_got now x cs (g # ns) NGX_OK (x\<lparr>lcp_rrp := (lcp_rrp x)\<lparr>rrp_current := p,
      rrp_tried := set_tried (rrp_tried (lcp_rrp x)) p\<rparr>\<rparr>) (cs[lcp_conns x + p := cs ! (lcp_conns x + p) + 1]) (g' # ns) 0 p"
  using assms by (simp add: lc_got_def Let_def rr_skip_def list.rel_refl)

lemma lc_get_result:
  assumes "\<forall>h \<in> set (g # ns). \<not> ps_single h \<and> length (ps_peer h) \<le> 64 * length (rrp_tried (lcp_rrp x))"
    and "\<forall>m<length (g # ns). lc_small cs (lcp_conns x + lc_offset (g # ns) m) (ps_peer ((g # ns) ! m))"
    and "lc_get now pc x cs g ns = (rc, pc', x', cs', gs')"
  shows "\<exists>m p. lc_got now x cs (g # ns) rc x' cs' gs' m p"
  using assms
proof (induction ns arbitrary: g pc x rc pc' x' cs' gs')
  case (Nil g pc x)
  have g: "\<not> ps_single g" "lc_small cs (lcp_conns x) (ps_peer g)" using Nil.prems(1,2) by auto
  obtain best many where f: "lc_first now (rrp_tried (lcp_rrp x)) cs (lcp_conns x) (ps_peer g) = (best, many)" by (metis surj_pair)
  show ?case
  proof (cases best)
    case None
    have "rr_setup (rr_forgive g) = rr_setup g" by (rule rr_configured.forgiven) simp
    with None f g Nil.prems(3) have "lc_got now x cs [g] rc x' cs' gs' 0 0"
      by (auto simp: lc_get.simps lc_got_def Let_def)
    then show ?thesis by blast
  next
    case (Some p0)
    obtain p g' pc2 where got: "lc_get now pc x cs g [] = (NGX_OK, pc2, x\<lparr>lcp_rrp := (lcp_rrp x)\<lparr>rrp_current := p,
      rrp_tried := set_tried (rrp_tried (lcp_rrp x)) p\<rparr>\<rparr>, cs[lcp_conns x + p := cs ! (lcp_conns x + p) + 1], [g'])"
    "rr_setup g' = rr_setup g" "p < length (ps_peer g)"
    "\<forall>j<length (ps_peer g). \<not> rr_skip now (rrp_tried (lcp_rrp x)) j (ps_peer g ! j) \<longrightarrow> lc_le cs (lcp_conns x) (ps_peer g) p j"
      by (rule lc_get_found [OF g f [unfolded Some], of pc "[]"])
    then show ?thesis using lc_got_here [OF got(2-4), of "[]"] Nil.prems(3) by auto
  qed
next
  case (Cons h rest g pc x)
  have g: "\<not> ps_single g" "lc_small cs (lcp_conns x) (ps_peer g)" using Cons.prems(1,2) by auto
  obtain best many where f: "lc_first now (rrp_tried (lcp_rrp x)) cs (lcp_conns x) (ps_peer g) = (best, many)" by (metis surj_pair)
  show ?case
  proof (cases best)
    case (Some p0)
    obtain p g' pc2 where got: "lc_get now pc x cs g (h # rest) = (NGX_OK, pc2, x\<lparr>lcp_rrp := (lcp_rrp x)\<lparr>rrp_current := p,
      rrp_tried := set_tried (rrp_tried (lcp_rrp x)) p\<rparr>\<rparr>, cs[lcp_conns x + p := cs ! (lcp_conns x + p) + 1], g' # h # rest)"
    "rr_setup g' = rr_setup g" "p < length (ps_peer g)"
    "\<forall>j<length (ps_peer g). \<not> rr_skip now (rrp_tried (lcp_rrp x)) j (ps_peer g ! j) \<longrightarrow> lc_le cs (lcp_conns x) (ps_peer g) p j"
      by (rule lc_get_found [OF g f [unfolded Some], of pc "h # rest"])
    then show ?thesis using lc_got_here [OF got(2-4), of "h # rest"] Cons.prems(3) by auto
  next
    case None
    let ?t = "rr_clear_tried (length (ps_peer h)) (rrp_tried (lcp_rrp x))"
    define x1 where "x1 = x\<lparr>lcp_conns := lcp_conns x + length (ps_peer g),
        lcp_rrp := (lcp_rrp x)\<lparr>rrp_peers := rrp_peers (lcp_rrp x) + 1, rrp_tried := ?t\<rparr>\<rparr>"
    have x1: "lcp_conns x1 = lcp_conns x + length (ps_peer g)" "rrp_peers (lcp_rrp x1) = Suc (rrp_peers (lcp_rrp x))"
        "rrp_tried (lcp_rrp x1) = ?t" "length ?t = length (rrp_tried (lcp_rrp x))"
      by (simp_all add: x1_def rr_clear_tried(1))
    obtain rc2 pc2 x2 cs2 gs2 where r: "lc_get now (pc\<lparr>pc_cached := False, pc_connection := None,
        pc_tries := of_nat (length (ps_peer h))\<rparr>) x1 cs h rest = (rc2, pc2, x2, cs2, gs2)" by (metis surj_pair)
    have sizes: "\<forall>h' \<in> set (h # rest). \<not> ps_single h' \<and> length (ps_peer h') \<le> 64 * length (rrp_tried (lcp_rrp x1))"
      using Cons.prems(1) x1(3,4) by simp
    have small: "\<forall>m<length (h # rest). lc_small cs (lcp_conns x1 + lc_offset (h # rest) m) (ps_peer ((h # rest) ! m))"
    proof (intro allI impI)
      fix m assume "m < length (h # rest)"
      with Cons.prems(2) [rule_format, of "Suc m"] show "lc_small cs (lcp_conns x1 + lc_offset (h # rest) m) (ps_peer ((h # rest) ! m))"
        by (simp add: x1(1) add.assoc)
    qed
    obtain m p where IH: "lc_got now x1 cs (h # rest) rc2 x2 cs2 gs2 m p" using Cons.IH [OF sizes small r] by blast
    have fg: "rr_setup (rr_forgive g) = rr_setup g" by (rule rr_configured.forgiven) simp
    have eq: "(rc, x', cs', gs') = (if rc2 \<noteq> NGX_BUSY then (rc2, x2, cs2, g # gs2) else (NGX_BUSY, x2, cs2, rr_forgive g # gs2))"
      using Cons.prems(3) g(1) f None r unfolding x1_def
      by (subst (asm) lc_get.simps) (auto simp: Let_def split: if_splits)
    have clear: "\<not> tried_bit ?t j" if "j < length (ps_peer h)" for j
      using rr_clear_tried(2) [OF that] Cons.prems(1) by simp
    have "lc_got now x cs (g # h # rest) rc x' cs' gs' (Suc m) p"
    proof (cases "rc2 = NGX_OK")
      case True
      with IH eq x1 clear show ?thesis
        by (cases m) (auto simp: lc_got_def Let_def add.assoc)
    next
      case False
      with IH eq fg show ?thesis by (auto simp: lc_got_def Let_def split: if_splits)
    qed
    then show ?thesis by blast
  qed
qed

subsection \<open>The counters\<close>

text \<open>The data of a request fits the groups.\<close>

definition lc_request :: "rr_peers list \<Rightarrow> lc_data \<Rightarrow> bool" where
  "lc_request gs x \<longleftrightarrow> rrp_peers (lcp_rrp x) < length gs \<and> lcp_conns x = lc_offset gs (rrp_peers (lcp_rrp x)) \<and>
     (\<forall>g \<in> set gs. length (ps_peer g) \<le> 64 * length (rrp_tried (lcp_rrp x)))"

lemma rr_setup_length: "rr_setup g = rr_setup h \<Longrightarrow> length (ps_peer g) = length (ps_peer h)"
  by (auto simp: rr_setup_def dest: map_eq_imp_length_eq)

lemma lc_offset_drop:
  assumes "k \<le> length gs"
  shows "lc_offset gs (k + m) = lc_offset gs k + lc_offset (drop k gs) m"
  unfolding lc_offset_def by (simp add: take_add)

lemma lc_offset_setup:
  assumes "list_all2 (\<lambda>h g. rr_setup g = rr_setup h) gs hs"
  shows "lc_offset hs m = lc_offset gs m"
  using assms
proof (induction gs hs arbitrary: m rule: list_all2_induct)
  case (Cons g gs h hs)
  then have "length (ps_peer h) = length (ps_peer g)" by (intro rr_setup_length) simp
  with Cons show ?case by (cases m) simp_all
qed (simp add: lc_offset_def)

lemma lc_get_all:
  assumes "lc_request gs x" and "\<forall>g \<in> set gs. \<not> ps_single g"
    and "\<forall>k<length gs. lc_small cs (lc_offset gs k) (ps_peer (gs ! k))"
    and "ngx_http_upstream_get_least_conn_peer now pc x cs gs = (rc, pc', x', cs', gs')"
  shows "list_all2 (\<lambda>h g. rr_setup g = rr_setup h) gs gs'"
    and "rc \<noteq> NGX_OK \<Longrightarrow> cs' = cs"
    and "rc = NGX_OK \<Longrightarrow> lc_request gs' x' \<and> rrp_current (lcp_rrp x') < length (ps_peer (gs ! rrp_peers (lcp_rrp x'))) \<and>
      cs' = cs[lcp_conns x' + rrp_current (lcp_rrp x') := cs ! (lcp_conns x' + rrp_current (lcp_rrp x')) + 1] \<and>
      (\<forall>j<length (ps_peer (gs ! rrp_peers (lcp_rrp x'))).
         \<not> p_down (ps_peer (gs ! rrp_peers (lcp_rrp x')) ! j) \<and> \<not> rr_failing now (ps_peer (gs ! rrp_peers (lcp_rrp x')) ! j) \<and>
         (rrp_peers (lcp_rrp x') = rrp_peers (lcp_rrp x) \<longrightarrow> \<not> tried_bit (rrp_tried (lcp_rrp x)) j) \<longrightarrow>
         lc_le cs (lcp_conns x') (ps_peer (gs ! rrp_peers (lcp_rrp x'))) (rrp_current (lcp_rrp x')) j)"
proof -
  let ?k = "rrp_peers (lcp_rrp x)"
  have k: "?k < length gs" "lcp_conns x = lc_offset gs ?k" using assms(1) by (auto simp: lc_request_def)
  have dr: "drop ?k gs = gs ! ?k # drop (Suc ?k) gs" using k(1) by (simp add: Cons_nth_drop_Suc)
  obtain rc2 pc2 x2 cs2 gs2 where r: "lc_get now pc x cs (gs ! ?k) (drop (Suc ?k) gs) = (rc2, pc2, x2, cs2, gs2)"
    by (metis surj_pair)
  have eq: "rc = rc2" "x' = x2" "cs' = cs2" "gs' = take ?k gs @ gs2"
    using assms(4) r by (auto simp: ngx_http_upstream_get_least_conn_peer_def dr)
  have "set (drop ?k gs) \<subseteq> set gs" by (rule set_drop_subset)
  then have sizes: "\<forall>h \<in> set (gs ! ?k # drop (Suc ?k) gs). \<not> ps_single h \<and> length (ps_peer h) \<le> 64 * length (rrp_tried (lcp_rrp x))"
    unfolding dr [symmetric] using assms(1,2) by (auto simp: lc_request_def)
  have small: "\<forall>m<length (gs ! ?k # drop (Suc ?k) gs). lc_small cs (lcp_conns x + lc_offset (gs ! ?k # drop (Suc ?k) gs) m)
      (ps_peer ((gs ! ?k # drop (Suc ?k) gs) ! m))"
    unfolding dr [symmetric]
  proof (intro allI impI)
    fix m assume m: "m < length (drop ?k gs)"
    with assms(3) [rule_format, of "?k + m"] k lc_offset_drop [of ?k gs m]
    show "lc_small cs (lcp_conns x + lc_offset (drop ?k gs) m) (ps_peer (drop ?k gs ! m))" by simp
  qed
  obtain m p where got: "lc_got now x cs (drop ?k gs) rc2 x2 cs2 gs2 m p"
    using lc_get_result [OF sizes small r] unfolding dr by blast
  have "list_all2 (\<lambda>h g. rr_setup g = rr_setup h) (take ?k gs @ drop ?k gs) (take ?k gs @ gs2)"
    using got by (intro list_all2_appendI list.rel_refl) (simp_all add: lc_got_def)
  then show all: "list_all2 (\<lambda>h g. rr_setup g = rr_setup h) gs gs'" by (simp add: eq(4))
  show "rc \<noteq> NGX_OK \<Longrightarrow> cs' = cs" using got eq by (simp add: lc_got_def Let_def)
  assume ok: "rc = NGX_OK"
  then have x2: "m < length (drop ?k gs)" "p < length (ps_peer (drop ?k gs ! m))" "rrp_peers (lcp_rrp x2) = ?k + m"
      "rrp_current (lcp_rrp x2) = p" "lcp_conns x2 = lcp_conns x + lc_offset (drop ?k gs) m"
      "cs2 = cs[lcp_conns x2 + p := cs ! (lcp_conns x2 + p) + 1]"
      "length (rrp_tried (lcp_rrp x2)) = length (rrp_tried (lcp_rrp x))"
      "\<forall>j<length (ps_peer (drop ?k gs ! m)). \<not> p_down (ps_peer (drop ?k gs ! m) ! j) \<and>
         \<not> rr_failing now (ps_peer (drop ?k gs ! m) ! j) \<and> (m = 0 \<longrightarrow> \<not> tried_bit (rrp_tried (lcp_rrp x)) j) \<longrightarrow>
         lc_le cs (lcp_conns x2) (ps_peer (drop ?k gs ! m)) p j"
    using got eq(1) by (auto simp: lc_got_def Let_def)
  have nth: "drop ?k gs ! m = gs ! (?k + m)" using k(1) by simp
  have len: "length gs' = length gs" using all by (simp add: list_all2_lengthD)
  have "\<forall>g \<in> set gs'. length (ps_peer g) \<le> 64 * length (rrp_tried (lcp_rrp x2))"
  proof
    fix g assume "g \<in> set gs'"
    then obtain i where i: "i < length gs'" "g = gs' ! i" by (auto simp: in_set_conv_nth)
    then have "length (ps_peer g) = length (ps_peer (gs ! i))"
      using all len by (auto simp: list_all2_conv_all_nth intro: rr_setup_length)
    with i len assms(1) x2(7) show "length (ps_peer g) \<le> 64 * length (rrp_tried (lcp_rrp x2))"
      by (simp add: lc_request_def)
  qed
  then have "lc_request gs' x2"
    using x2(1,3,5) len lc_offset_setup [OF all, of "?k + m"] lc_offset_drop [of ?k gs m] k by (simp add: lc_request_def)
  then show "lc_request gs' x' \<and> rrp_current (lcp_rrp x') < length (ps_peer (gs ! rrp_peers (lcp_rrp x'))) \<and>
      cs' = cs[lcp_conns x' + rrp_current (lcp_rrp x') := cs ! (lcp_conns x' + rrp_current (lcp_rrp x')) + 1] \<and>
      (\<forall>j<length (ps_peer (gs ! rrp_peers (lcp_rrp x'))).
         \<not> p_down (ps_peer (gs ! rrp_peers (lcp_rrp x')) ! j) \<and> \<not> rr_failing now (ps_peer (gs ! rrp_peers (lcp_rrp x')) ! j) \<and>
         (rrp_peers (lcp_rrp x') = rrp_peers (lcp_rrp x) \<longrightarrow> \<not> tried_bit (rrp_tried (lcp_rrp x)) j) \<longrightarrow>
         lc_le cs (lcp_conns x') (ps_peer (gs ! rrp_peers (lcp_rrp x'))) (rrp_current (lcp_rrp x')) j)"
    using x2 by (simp add: eq(2,3) nth)
qed

text \<open>
  The upstream in use: the counters, the groups, and the connections that are open, each with the
  number of its group and its peer. There are fewer than \<open>2 ^ 32\<close> of them at any time.
\<close>

inductive lc_used :: "u64 list \<Rightarrow> rr_peers list \<Rightarrow> u64 list \<Rightarrow> rr_peers list \<Rightarrow> (nat \<times> nat) multiset \<Rightarrow> bool"
  for cs0 gs0 where
  fresh: "lc_used cs0 gs0 cs0 gs0 {#}"
| get: "lc_used cs0 gs0 cs gs M \<Longrightarrow> size M < 2 ^ 32 \<Longrightarrow> lc_request gs x \<Longrightarrow>
    ngx_http_upstream_get_least_conn_peer now pc x cs gs = (NGX_OK, pc', x', cs', gs') \<Longrightarrow>
    lc_used cs0 gs0 cs' gs' (add_mset (rrp_peers (lcp_rrp x'), rrp_current (lcp_rrp x')) M)"
| busy: "lc_used cs0 gs0 cs gs M \<Longrightarrow> size M < 2 ^ 32 \<Longrightarrow> lc_request gs x \<Longrightarrow>
    ngx_http_upstream_get_least_conn_peer now pc x cs gs = (rc, pc', x', cs', gs') \<Longrightarrow> rc \<noteq> NGX_OK \<Longrightarrow>
    lc_used cs0 gs0 cs' gs' M"
| free: "lc_used cs0 gs0 cs gs (add_mset (rrp_peers (lcp_rrp x), rrp_current (lcp_rrp x)) M) \<Longrightarrow> lc_request gs x \<Longrightarrow>
    ngx_http_upstream_free_least_conn_peer now failed pc x cs gs = (pc', cs', gs') \<Longrightarrow> lc_used cs0 gs0 cs' gs' M"

definition lc_counted :: "u64 list \<Rightarrow> rr_peers list \<Rightarrow> (nat \<times> nat) multiset \<Rightarrow> bool" where
  "lc_counted cs gs M \<longleftrightarrow> length cs = lc_offset gs (length gs) \<and>
    (\<forall>k<length gs. \<forall>i<length (ps_peer (gs ! k)). cs ! (lc_offset gs k + i) = of_nat (count M (k, i)))"

lemma lc_offset_Suc: "k < length gs \<Longrightarrow> lc_offset gs (Suc k) = lc_offset gs k + length (ps_peer (gs ! k))"
  by (simp add: lc_offset_def take_Suc_conv_app_nth)

lemma lc_offset_mono: "k \<le> m \<Longrightarrow> m \<le> length gs \<Longrightarrow> lc_offset gs k \<le> lc_offset gs m"
  by (induction m rule: dec_induct) (simp_all add: lc_offset_Suc)

lemma lc_offset_inside:
  assumes "k < length gs" and "i < length (ps_peer (gs ! k))"
  shows "lc_offset gs k + i < lc_offset gs (length gs)"
  using lc_offset_mono [of "Suc k" "length gs" gs] lc_offset_Suc [of k gs] assms by simp

lemma lc_offset_inj:
  assumes "k < length gs" and "i < length (ps_peer (gs ! k))" and "k' < length gs" and "i' < length (ps_peer (gs ! k'))"
  shows "lc_offset gs k + i = lc_offset gs k' + i' \<longleftrightarrow> k = k' \<and> i = i'"
proof (cases k k' rule: linorder_cases)
  case less
  with lc_offset_mono [of "Suc k" k' gs] lc_offset_Suc [of k gs] assms show ?thesis by simp
next
  case greater
  with lc_offset_mono [of "Suc k'" k gs] lc_offset_Suc [of k' gs] assms show ?thesis by simp
qed simp

lemma lc_counted_setup:
  assumes "list_all2 (\<lambda>h g. rr_setup g = rr_setup h) gs gs'" and "lc_counted cs gs M"
  shows "lc_counted cs gs' M"
proof -
  have "length (ps_peer (gs' ! k)) = length (ps_peer (gs ! k))" if "k < length gs" for k
    using assms(1) that by (auto simp: list_all2_conv_all_nth intro: rr_setup_length)
  with assms lc_offset_setup [OF assms(1)] show ?thesis
    by (simp add: lc_counted_def list_all2_lengthD [OF assms(1)])
qed

lemma lc_counted_update:
  assumes "lc_counted cs gs M" and "k < length gs" and "i < length (ps_peer (gs ! k))"
    and "v = of_nat (count M' (k, i))" and "\<forall>y. y \<noteq> (k, i) \<longrightarrow> count M' y = count M y"
  shows "lc_counted (cs[lc_offset gs k + i := v]) gs M'"
  unfolding lc_counted_def
proof (intro conjI allI impI)
  show "length (cs[lc_offset gs k + i := v]) = lc_offset gs (length gs)" using assms(1) by (simp add: lc_counted_def)
  fix l j assume l: "l < length gs" "j < length (ps_peer (gs ! l))"
  have old: "cs ! (lc_offset gs l + j) = of_nat (count M (l, j))" "length cs = lc_offset gs (length gs)"
    using assms(1) l by (auto simp: lc_counted_def)
  show "cs[lc_offset gs k + i := v] ! (lc_offset gs l + j) = of_nat (count M' (l, j))"
  proof (cases "l = k \<and> j = i")
    case True
    then show ?thesis using lc_offset_inside [OF assms(2,3)] old(2) assms(4) by simp
  next
    case False
    then have "lc_offset gs k + i \<noteq> lc_offset gs l + j" "count M' (l, j) = count M (l, j)"
      using lc_offset_inj [OF l assms(2,3)] assms(5) by auto
    then show ?thesis using old(1) by simp
  qed
qed

abbreviation same_setups :: "rr_peers list \<Rightarrow> rr_peers list \<Rightarrow> bool" where
  "same_setups \<equiv> list_all2 (\<lambda>h g. rr_setup g = rr_setup h)"

definition lc_group :: "rr_peers \<Rightarrow> bool" where
  "lc_group g \<longleftrightarrow> \<not> ps_single g \<and> (\<forall>w \<in> set (map p_weight (ps_peer g)). 0 < w \<and> w < 2 ^ 32)"

definition lc_config :: "rr_peers list \<Rightarrow> bool" where
  "lc_config gs \<longleftrightarrow> (\<forall>k<length gs. lc_group (gs ! k))"

lemma lc_group_setup: "rr_setup h = rr_setup g \<Longrightarrow> lc_group g \<Longrightarrow> lc_group h"
  unfolding rr_setup_def lc_group_def prod.inject by metis

lemma lc_config_setup:
  assumes "same_setups gs hs" and "lc_config gs"
  shows "lc_config hs"
  unfolding lc_config_def
proof (intro allI impI)
  fix k assume "k < length hs"
  then have "rr_setup (hs ! k) = rr_setup (gs ! k)" "lc_group (gs ! k)"
    using assms(2) list_all2_lengthD [OF assms(1)] list_all2_nthD2 [OF assms(1), of k] by (simp_all add: lc_config_def)
  then show "lc_group (hs ! k)" by (rule lc_group_setup)
qed

lemma lc_config_single: "lc_config gs \<Longrightarrow> \<forall>g \<in> set gs. \<not> ps_single g"
  by (auto simp: lc_config_def lc_group_def in_set_conv_nth)

lemma same_setups_trans:
  assumes "same_setups fs gs" and "same_setups gs hs"
  shows "same_setups fs hs"
  by (rule list_all2_trans [OF _ assms]) simp

lemma count_le_size: "count M x \<le> size M"
  by (induction M) auto

lemma lc_counted_small:
  assumes "lc_counted cs gs M" and "size M < 2 ^ 32" and "lc_config gs"
  shows "\<forall>k<length gs. lc_small cs (lc_offset gs k) (ps_peer (gs ! k))"
proof (intro allI impI)
  fix k assume k: "k < length gs"
  have "unat (cs ! (lc_offset gs k + i)) < 2 ^ 32" if "i < length (ps_peer (gs ! k))" for i
  proof -
    have c: "count M (k, i) < 2 ^ 32" using count_le_size [of M "(k, i)"] assms(2) by simp
    then have "unat (of_nat (count M (k, i)) :: u64) = count M (k, i)" by (intro unat_of_nat_u64) simp
    with c assms(1) k that show ?thesis by (simp add: lc_counted_def)
  qed
  moreover have "0 < p_weight (ps_peer (gs ! k) ! i) \<and> p_weight (ps_peer (gs ! k) ! i) < 2 ^ 32"
    if "i < length (ps_peer (gs ! k))" for i
  proof -
    have "lc_group (gs ! k)" using assms(3) k by (simp add: lc_config_def)
    then show ?thesis using nth_mem [OF that] unfolding lc_group_def set_map by blast
  qed
  ultimately show "lc_small cs (lc_offset gs k) (ps_peer (gs ! k))" unfolding lc_small_def by blast
qed

definition lc_inv :: "rr_peers list \<Rightarrow> u64 list \<Rightarrow> rr_peers list \<Rightarrow> (nat \<times> nat) multiset \<Rightarrow> bool" where
  "lc_inv gs0 cs gs M \<longleftrightarrow> same_setups gs0 gs \<and> lc_config gs \<and> lc_counted cs gs M \<and>
     (\<forall>(k, i) \<in> set_mset M. k < length gs \<and> i < length (ps_peer (gs ! k)))"

lemma lc_inv_setup:
  assumes "same_setups gs gs'" and "same_setups gs0 gs" and "lc_config gs" and "lc_counted cs gs M"
    and "\<forall>(k, i) \<in> set_mset M. k < length gs \<and> i < length (ps_peer (gs ! k))"
  shows "lc_inv gs0 cs gs' M"
proof -
  have "same_setups gs0 gs'" by (rule same_setups_trans [OF assms(2,1)])
  moreover have "length gs' = length gs" using list_all2_lengthD [OF assms(1)] by simp
  moreover have "length (ps_peer (gs' ! k)) = length (ps_peer (gs ! k))" if "k < length gs" for k
    using assms(1) that by (auto simp: list_all2_conv_all_nth intro: rr_setup_length)
  ultimately show ?thesis
    using lc_config_setup [OF assms(1,3)] lc_counted_setup [OF assms(1,4)] assms(5) by (auto simp: lc_inv_def)
qed

lemma lc_used_inv:
  assumes "lc_used cs0 gs0 cs gs M" and "lc_config gs0" and "lc_counted cs0 gs0 {#}"
  shows "lc_inv gs0 cs gs M"
  using assms
proof (induction rule: lc_used.induct)
  case fresh
  then show ?case by (simp add: lc_inv_def list.rel_refl)
next
  case (get cs gs M x now pc pc' x' cs' gs')
  then have inv: "same_setups gs0 gs" "lc_config gs" "lc_counted cs gs M"
      "\<forall>(k, i) \<in> set_mset M. k < length gs \<and> i < length (ps_peer (gs ! k))"
    by (auto simp: lc_inv_def)
  note multi = lc_config_single [OF inv(2)]
  note res = lc_get_all [OF get.hyps(3) multi lc_counted_small [OF inv(3) get.hyps(2) inv(2)] get.hyps(4)]
  let ?k = "rrp_peers (lcp_rrp x')" and ?i = "rrp_current (lcp_rrp x')"
  have k: "?k < length gs" "lcp_conns x' = lc_offset gs ?k" "?i < length (ps_peer (gs ! ?k))"
      "cs' = cs[lcp_conns x' + ?i := cs ! (lcp_conns x' + ?i) + 1]"
    using res(1) res(3) [OF refl] lc_offset_setup [OF res(1)] by (auto simp: lc_request_def list_all2_lengthD)
  have "cs ! (lc_offset gs ?k + ?i) + 1 = of_nat (count (add_mset (?k, ?i) M) (?k, ?i))"
    using inv(3) k(1,3) by (simp add: lc_counted_def)
  then have "lc_counted cs' gs (add_mset (?k, ?i) M)"
    unfolding k(4) k(2) by (rule lc_counted_update [OF inv(3) k(1,3)]) auto
  then show ?case by (rule lc_inv_setup [OF res(1) inv(1,2)]) (use inv(4) k in auto)
next
  case (busy cs gs M x now pc rc pc' x' cs' gs')
  then have inv: "same_setups gs0 gs" "lc_config gs" "lc_counted cs gs M"
      "\<forall>(k, i) \<in> set_mset M. k < length gs \<and> i < length (ps_peer (gs ! k))"
    by (auto simp: lc_inv_def)
  note multi = lc_config_single [OF inv(2)]
  note res = lc_get_all [OF busy.hyps(3) multi lc_counted_small [OF inv(3) busy.hyps(2) inv(2)] busy.hyps(4)]
  show ?case using res(2) [OF busy.hyps(5)] lc_inv_setup [OF res(1) inv(1,2,3,4)] by simp
next
  case (free cs gs x M now failed pc pc' cs' gs')
  let ?k = "rrp_peers (lcp_rrp x)" and ?i = "rrp_current (lcp_rrp x)"
  have inv: "same_setups gs0 gs" "lc_config gs" "lc_counted cs gs (add_mset (?k, ?i) M)"
      "\<forall>(k, i) \<in> set_mset (add_mset (?k, ?i) M). k < length gs \<and> i < length (ps_peer (gs ! k))"
    using free by (auto simp: lc_inv_def)
  have k: "?k < length gs" "?i < length (ps_peer (gs ! ?k))" "lcp_conns x = lc_offset gs ?k"
    using inv(4) free.hyps(2) by (auto simp: lc_request_def)
  have multi: "\<not> ps_single (gs ! ?k)" using lc_config_single [OF inv(2)] k(1) by simp
  obtain pc2 where rr: "ngx_http_upstream_free_round_robin_peer now failed pc (lcp_rrp x) gs = (pc2, gs')"
      and cs': "cs' = cs[lc_offset gs ?k + ?i := cs ! (lc_offset gs ?k + ?i) - 1]"
    using free.hyps(3) multi by (auto simp: ngx_http_upstream_free_least_conn_peer_def k(3) Let_def split: prod.splits)
  have "cs ! (lc_offset gs ?k + ?i) - 1 = of_nat (count M (?k, ?i))"
    using inv(3) k(1,2) by (simp add: lc_counted_def)
  then have "lc_counted cs' gs M"
    unfolding cs' by (rule lc_counted_update [OF inv(3) k(1,2)]) auto
  moreover have "same_setups gs gs'"
    by (rule rr_configured.free_kept [OF _ rr]) (simp add: list.rel_refl)
  ultimately show ?case using lc_inv_setup [OF _ inv(1,2)] inv(4) by simp
qed

lemma lc_start:
  assumes "us_servers us = Some servers" and "\<forall>s \<in> set servers. 1 \<le> sv_weight s \<and> sv_weight s < 2 ^ 32"
    and "ngx_http_upstream_init_least_conn True True True resolve us = Some (cs0, gs0)"
    and "\<forall>g \<in> set gs0. \<not> ps_single g"
  shows "lc_config gs0" and "lc_counted cs0 gs0 {#}"
proof -
  obtain n where init: "ngx_http_upstream_init_round_robin True True resolve us = Some gs0" "cs0 = replicate n 0"
      "n = length (ps_peer (gs0 ! 0)) + (case gs0 of _ # h # _ \<Rightarrow> length (ps_peer h) | _ \<Rightarrow> 0)"
    using assms(3) by (auto simp: ngx_http_upstream_init_least_conn_def Let_def split: option.splits)
  have groups: "\<forall>g \<in> set gs0. ps_peer g = rr_new_peers False servers \<or> ps_peer g = rr_new_peers True servers"
      and two: "(\<exists>g. gs0 = [g]) \<or> (\<exists>g h. gs0 = [g, h])"
    using init(1) assms(1) by (auto simp: ngx_http_upstream_init_round_robin_def Let_def split: if_splits)
  show "lc_config gs0"
    unfolding lc_config_def lc_group_def set_map
  proof (intro allI impI conjI)
    fix k assume "k < length gs0"
    then have k: "gs0 ! k \<in> set gs0" by simp
    then show "\<not> ps_single (gs0 ! k)" using assms(4) by blast
    have "0 < p_weight p \<and> p_weight p < 2 ^ 32" if "p \<in> set (ps_peer (gs0 ! k))" for p
    proof -
      obtain b where "ps_peer (gs0 ! k) = rr_new_peers b servers" using groups k by blast
      with that have "p \<in> set (rr_new_peers b servers)" by simp
      then obtain s where "s \<in> set servers" "p_weight p = sv_weight s" using rr_new_peers_set by blast
      then show ?thesis using assms(2) by fastforce
    qed
    then show "\<forall>w \<in> p_weight ` set (ps_peer (gs0 ! k)). 0 < w \<and> w < 2 ^ 32" by blast
  qed
  have n: "n = lc_offset gs0 (length gs0)" using two init(3) by (auto simp: lc_offset_def)
  then show "lc_counted cs0 gs0 {#}"
    using lc_offset_inside [of _ gs0] by (simp add: lc_counted_def init(2))
qed

text \<open>
  C32: \<open>least_conn\<close> picks a peer with the fewest connections for its weight. The counters are those
  of the open connections: in any interleaving of requests that get and free peers (with fewer
  than \<open>2 ^ 32\<close> connections open at a time), the peer a request gets is in its group, and no peer
  of that group that is neither down, nor failing, nor tried before for the request has fewer
  open connections in proportion to its weight.
\<close>

theorem least_conn_fewest:
  assumes "us_servers us = Some servers" and "\<forall>s \<in> set servers. 1 \<le> sv_weight s \<and> sv_weight s < 2 ^ 32"
    and "ngx_http_upstream_init_least_conn True True True resolve us = Some (cs0, gs0)"
    and "\<forall>g \<in> set gs0. \<not> ps_single g"
    and "lc_used cs0 gs0 cs gs M" and "size M < 2 ^ 32" and "lc_request gs x"
    and "ngx_http_upstream_get_least_conn_peer now pc x cs gs = (NGX_OK, pc', x', cs', gs')"
    and "k = rrp_peers (lcp_rrp x')" and "p = rrp_current (lcp_rrp x')" and "ps = ps_peer (gs ! k)"
    and "j < length ps" and "\<not> p_down (ps ! j)" and "\<not> rr_failing now (ps ! j)"
    and "k = rrp_peers (lcp_rrp x) \<longrightarrow> \<not> tried_bit (rrp_tried (lcp_rrp x)) j"
  shows "p < length ps \<and> count M (k, p) * nat (p_weight (ps ! j)) \<le> count M (k, j) * nat (p_weight (ps ! p))"
proof -
  have inv: "lc_config gs" "lc_counted cs gs M"
    using lc_used_inv [OF assms(5) lc_start [OF assms(1-4)]] by (simp_all add: lc_inv_def)
  note res = lc_get_all [OF assms(7) lc_config_single [OF inv(1)] lc_counted_small [OF inv(2) assms(6) inv(1)] assms(8)]
  have k: "k < length gs" "lcp_conns x' = lc_offset gs k" "p < length ps"
    using res(1) res(3) [OF refl] lc_offset_setup [OF res(1)] assms(9-11) by (auto simp: lc_request_def list_all2_lengthD)
  have le: "lc_le cs (lc_offset gs k) ps p j"
    using res(3) [OF refl] assms(9-15) k(2) by simp
  have "unat (cs ! (lc_offset gs k + i)) = count M (k, i)" if "i < length ps" for i
  proof -
    have "count M (k, i) < 2 ^ 64" using count_le_size [of M "(k, i)"] assms(6) by simp
    with inv(2) k(1) that assms(11) show ?thesis by (simp add: lc_counted_def unat_of_nat_u64 del: unat_of_nat)
  qed
  with le k(3) assms(12) show ?thesis by (simp add: lc_le_def)
qed

theorem least_conn_fewest_witness:
  "0 < length (ps_peer ([rr_example_peers] ! 0)) \<and>
    count {#} (0 :: nat, 0 :: nat) * nat (p_weight (ps_peer ([rr_example_peers] ! 0) ! 1)) \<le>
      count {#} (0 :: nat, 1 :: nat) * nat (p_weight (ps_peer ([rr_example_peers] ! 0) ! 0))"
proof -
  let ?us = "rr_example" and ?g = "rr_example_peers"
  let ?x = "\<lparr>lcp_rrp = \<lparr>rrp_peers = 0, rrp_current = 0, rrp_tried = [0]\<rparr>, lcp_conns = 0\<rparr>"
  have peers: "ps_peer ?g = rr_new_peers False (the (us_servers ?us))" "\<not> ps_single ?g"
    by (simp_all add: rr_example_peers_def rr_example_def ngx_http_upstream_init_round_robin_def rr_new_peers_def Let_def)
  note two = peers(1) [unfolded rr_example_def, simplified, unfolded rr_new_peers_def rr_new_peer_def, simplified]
  have init: "ngx_http_upstream_init_least_conn True True True (\<lambda>_ _. None) ?us = Some ([0, 0], [?g])"
    by (simp add: ngx_http_upstream_init_least_conn_def rr_example_init(1,2) numeral_2_eq_2)
  have "\<exists>pc' x' cs' gs'. ngx_http_upstream_get_least_conn_peer 50 fresh_connection ?x [0, 0] [?g] = (NGX_OK, pc', x', cs', gs') \<and>
      rrp_peers (lcp_rrp x') = 0 \<and> rrp_current (lcp_rrp x') = 0"
    by (simp add: ngx_http_upstream_get_least_conn_peer_def lc_get.simps peers(2) two lc_first_def lc_second_def lc_visit_def
        lc_again_def lc_load_def rr_skip_def rr_failing_def rr_gain_def tried_bit_def numeral_2_eq_2 Let_def)
  then obtain pc' x' cs' gs' where get: "ngx_http_upstream_get_least_conn_peer 50 fresh_connection ?x [0, 0] [?g] = (NGX_OK, pc', x', cs', gs')"
      "0 = rrp_peers (lcp_rrp x')" "0 = rrp_current (lcp_rrp x')" by auto
  have servers: "us_servers ?us = Some (the (us_servers ?us))" "\<forall>s \<in> set (the (us_servers ?us)). 1 \<le> sv_weight s \<and> sv_weight s < 2 ^ 32"
    by (simp_all add: rr_example_def)
  have multi: "\<forall>g \<in> set [?g]. \<not> ps_single g" using peers(2) by simp
  have req: "lc_request [?g] ?x" by (simp add: lc_request_def rr_example_init(2))
  have fine: "1 < length (ps_peer ([?g] ! 0))" "\<not> p_down (ps_peer ([?g] ! 0) ! 1)" "\<not> rr_failing 50 (ps_peer ([?g] ! 0) ! 1)"
      "(0 :: nat) = rrp_peers (lcp_rrp ?x) \<longrightarrow> \<not> tried_bit (rrp_tried (lcp_rrp ?x)) 1"
    by (simp_all add: two rr_failing_def tried_bit_def)
  show ?thesis
    by (rule least_conn_fewest [OF servers init multi lc_used.fresh _ req get refl fine]) simp
qed

end
