(* ===== verification/Response_Chain.thy ===== *)
theory Response_Chain
  imports Prelude
begin

text \<open>
  What the output filters of the HTTP modules work on: the buffers of a response (\<open>ngx_buf_t\<close> with
  the flags the filters look at, in memory or in a file), chains of them (\<open>ngx_chain_t\<close>, as the list of
  the buffers it links), the header fields of a response (\<open>headers_out\<close> of \<open>ngx_http_request.h\<close>) and
  the answer of a filter. The macros of \<open>ngx_buf.h\<close> belong to the nginx core and are parameters.
\<close>

abbreviation CRLF :: "u8 list" where "CRLF \<equiv> [CR, LF]"

subsection \<open>Buffers\<close>

text \<open>
  \<open>ob_mem\<close> is the block of memory that \<open>pos\<close> and \<open>last\<close> point into, \<open>ob_start\<close> the one at \<open>start\<close>
  (\<open>None\<close> for NULL) and \<open>ob_file\<close> the file; positions are offsets. \<open>temporary\<close>, \<open>memory\<close>, \<open>mmap\<close>
  and \<open>in_file\<close> say where the data is.
\<close>

record resp_buf =
  ob_mem :: memory
  ob_pos :: int
  ob_last :: int
  ob_start :: "memory option"
  ob_file :: memory
  ob_file_pos :: int
  ob_file_last :: int
  ob_temporary :: bool
  ob_memory :: bool
  ob_mmap :: bool
  ob_in_file :: bool
  ob_flush :: bool
  ob_sync :: bool
  ob_last_buf :: bool

text \<open>A buffer of \<open>ngx_calloc_buf\<close>, all zero.\<close>

definition calloc_buf :: resp_buf where
  "calloc_buf = \<lparr>ob_mem = [], ob_pos = 0, ob_last = 0, ob_start = None, ob_file = [], ob_file_pos = 0, ob_file_last = 0,
     ob_temporary = False, ob_memory = False, ob_mmap = False, ob_in_file = False, ob_flush = False, ob_sync = False,
     ob_last_buf = False\<rparr>"

text \<open>The macros \<open>ngx_buf_in_memory\<close>, \<open>ngx_buf_special\<close> and \<open>ngx_buf_size\<close>, and what they compute.\<close>

record buf_macros =
  ngx_buf_in_memory :: "resp_buf \<Rightarrow> bool"
  ngx_buf_special :: "resp_buf \<Rightarrow> bool"
  ngx_buf_size :: "resp_buf \<Rightarrow> int"

definition in_memory :: "resp_buf \<Rightarrow> bool" where
  "in_memory b \<longleftrightarrow> ob_temporary b \<or> ob_memory b \<or> ob_mmap b"

definition buf_macros_spec :: "buf_macros \<Rightarrow> bool" where
  "buf_macros_spec m \<longleftrightarrow> (\<forall>b. (ngx_buf_in_memory m b \<longleftrightarrow> in_memory b) \<and>
     (ngx_buf_special m b \<longleftrightarrow> (ob_flush b \<or> ob_last_buf b \<or> ob_sync b) \<and> \<not> in_memory b \<and> \<not> ob_in_file b) \<and>
     ngx_buf_size m b = (if in_memory b then ob_last b - ob_pos b else ob_file_last b - ob_file_pos b))"

text \<open>One choice of them, for concrete runs.\<close>

definition plain_macros :: buf_macros where
  "plain_macros = \<lparr>ngx_buf_in_memory = in_memory,
     ngx_buf_special = (\<lambda>b. (ob_flush b \<or> ob_last_buf b \<or> ob_sync b) \<and> \<not> in_memory b \<and> \<not> ob_in_file b),
     ngx_buf_size = (\<lambda>b. if in_memory b then ob_last b - ob_pos b else ob_file_last b - ob_file_pos b)\<rparr>"

lemma plain_macros_spec [simp]: "buf_macros_spec plain_macros"
  by (simp add: plain_macros_def buf_macros_spec_def)

subsection \<open>The data of a chain\<close>

definition resp_bytes :: "resp_buf \<Rightarrow> u8 list" where
  "resp_bytes b =
    (if in_memory b then seg (ob_mem b) (nat (ob_pos b)) (nat (ob_last b))
     else if ob_in_file b then seg (ob_file b) (nat (ob_file_pos b)) (nat (ob_file_last b)) else [])"

definition chain_data :: "resp_buf list \<Rightarrow> u8 list" where
  "chain_data bs = concat (map resp_bytes bs)"

lemma chain_data_simps [simp]:
  "chain_data [] = []" "chain_data (b # bs) = resp_bytes b @ chain_data bs"
  "chain_data (bs @ cs) = chain_data bs @ chain_data cs"
  by (simp_all add: chain_data_def)

text \<open>The positions lie in the memory or the file the buffer has; a buffer without data has no file positions.\<close>

definition resp_wf :: "resp_buf \<Rightarrow> bool" where
  "resp_wf b \<longleftrightarrow>
    (in_memory b \<longrightarrow> 0 \<le> ob_pos b \<and> ob_pos b \<le> ob_last b \<and> ob_last b \<le> int (length (ob_mem b))) \<and>
    (ob_in_file b \<longrightarrow> 0 \<le> ob_file_pos b \<and> ob_file_pos b \<le> ob_file_last b \<and> ob_file_last b \<le> int (length (ob_file b))) \<and>
    (\<not> in_memory b \<longrightarrow> \<not> ob_in_file b \<longrightarrow> ob_file_pos b = ob_file_last b)"

lemma buf_macros_specD:
  assumes "buf_macros_spec m"
  shows "ngx_buf_in_memory m b = in_memory b"
    "ngx_buf_special m b \<longleftrightarrow> (ob_flush b \<or> ob_last_buf b \<or> ob_sync b) \<and> \<not> in_memory b \<and> \<not> ob_in_file b"
    "ngx_buf_size m b = (if in_memory b then ob_last b - ob_pos b else ob_file_last b - ob_file_pos b)"
  using assms by (simp_all add: buf_macros_spec_def)

lemma resp_size:
  assumes "resp_wf b" "buf_macros_spec m"
  shows "ngx_buf_size m b = int (length (resp_bytes b))"
proof (cases "in_memory b")
  case True
  with assms(1) show ?thesis
    by (simp add: resp_wf_def buf_macros_specD(3) [OF assms(2)] resp_bytes_def length_seg nat_mono nat_le_iff)
next
  case False
  with assms(1) show ?thesis
    by (cases "ob_in_file b")
      (simp_all add: resp_wf_def buf_macros_specD(3) [OF assms(2)] resp_bytes_def length_seg nat_mono nat_le_iff)
qed

lemma resp_special:
  "buf_macros_spec m \<Longrightarrow> ngx_buf_special m b \<Longrightarrow> resp_bytes b = []"
  by (simp add: buf_macros_specD(2) resp_bytes_def)

lemma resp_wf_calloc [simp]: "resp_wf calloc_buf"
  by (simp add: resp_wf_def calloc_buf_def in_memory_def)

text \<open>Cutting bytes off at the front and at the end of a slice.\<close>

lemma seg_cut:
  assumes "i \<le> j" "j \<le> length mem" "a \<le> b" "b \<le> j - i"
  shows "seg mem (i + a) (i + b) = take (b - a) (drop a (seg mem i j))"
  using assms by (simp add: seg_def drop_take add.commute min_def)

subsection \<open>The header of a response\<close>

abbreviation NGX_HTTP_OK :: u64 where "NGX_HTTP_OK \<equiv> 200"

record table_elt =
  te_hash :: u64
  te_key :: "u8 list"
  te_value :: "u8 list"

text \<open>
  \<open>r->headers_out\<close>. Elements of the list of headers that other fields point to are named by their
  index. \<open>off_t\<close> and \<open>time_t\<close> are 64-bit words read as signed.
\<close>

record headers_out =
  ho_headers :: "table_elt list"
  ho_status :: u64
  ho_status_line :: "u8 list"
  ho_content_length :: "nat option"
  ho_content_range :: "nat option"
  ho_accept_ranges :: "nat option"
  ho_etag :: "nat option"
  ho_content_type_len :: u64
  ho_content_type :: "u8 list"
  ho_charset :: "u8 list"
  ho_content_length_n :: u64
  ho_last_modified_time :: u64

text \<open>\<open>if (r->headers_out.content_length) { ->hash = 0; = NULL; }\<close>: the header is not sent.\<close>

definition drop_content_length :: "headers_out \<Rightarrow> headers_out" where
  "drop_content_length h = (case ho_content_length h of None \<Rightarrow> h
    | Some i \<Rightarrow> h\<lparr>ho_headers := (ho_headers h)[i := (ho_headers h ! i)\<lparr>te_hash := 0\<rparr>], ho_content_length := None\<rparr>)"

definition ngx_http_clear_content_length :: "headers_out \<Rightarrow> headers_out" where
  "ngx_http_clear_content_length h = drop_content_length (h\<lparr>ho_content_length_n := - 1\<rparr>)"

definition push_out_header :: "u8 list \<Rightarrow> u8 list \<Rightarrow> headers_out \<Rightarrow> headers_out" where
  "push_out_header k v h = h\<lparr>ho_headers := ho_headers h @ [\<lparr>te_hash = 1, te_key = k, te_value = v\<rparr>]\<rparr>"

lemma drop_content_length_other [simp]:
  "ho_content_length_n (drop_content_length h) = ho_content_length_n h"
  "ho_status (drop_content_length h) = ho_status h"
  "ho_content_type (drop_content_length h) = ho_content_type h"
  by (simp_all add: drop_content_length_def split: option.splits)

lemma push_out_header_other [simp]:
  "ho_content_length_n (push_out_header k v h) = ho_content_length_n h"
  "ho_status (push_out_header k v h) = ho_status h"
  by (simp_all add: push_out_header_def)

text \<open>What a filter does in the end: calls the next one, or returns itself.\<close>

datatype resp_rc = Filter_rc ngx_rc | NGX_HTTP_RANGE_NOT_SATISFIABLE

datatype filter_end = Next_filter | Return_rc resp_rc

text \<open>The same for a body filter: a chain is handed to the next one.\<close>

datatype body_end = Next_body "resp_buf list" | Body_rc resp_rc

end
