(* ===== verification/Http_Range.thy ===== *)
theory Http_Range
  imports Response_Chain Http_Args Http_Parse_Time
begin

text \<open>
  The range filters, \<open>ngx_http_range_filter_module.c\<close>: the header filter reads the ranges that a
  request asks for (\<open>ngx_http_range_parse\<close>) and rewrites the header of the response, the body
  filter cuts the ranges out of the response. This theory has the definitions; what the parser makes of
  a header is in \<open>Http_Range_Parse\<close>, what is sent in \<open>Http_Range_Reply\<close>.
\<close>

subsection \<open>Reading the ranges\<close>

text \<open>\<open>off_t\<close> is a 64-bit word read as signed, so the digits and sums wrap as the machine's do.\<close>

record ngx_http_range_t =
  rg_start :: u64
  rg_end :: u64
  rg_content_range :: "u8 list"

abbreviation NGX_HTTP_VERSION_10 :: u64 where "NGX_HTTP_VERSION_10 \<equiv> 1000"
abbreviation NGX_HTTP_PARTIAL_CONTENT :: u64 where "NGX_HTTP_PARTIAL_CONTENT \<equiv> 206"

text \<open>The value of the header is followed by a NUL, which \<open>*p\<close> reads at its end.\<close>

fun cur :: "u8 list \<Rightarrow> u8" where
  "cur [] = NUL"
| "cur (c # cs) = c"

definition rg_spaces :: "u8 list \<Rightarrow> u8 list" where
  "rg_spaces cs = dropWhile (\<lambda>c. c = SP) cs"

text \<open>\<open>while (*p >= '0' && *p <= '9') { n = n * 10 + *p++ - '0'; }\<close>\<close>

fun rg_number :: "u64 \<Rightarrow> u8 list \<Rightarrow> u64 \<times> u8 list" where
  "rg_number n [] = (n, [])"
| "rg_number n (c # cs) = (if is_digit c then rg_number (n * 10 + ucast c - 48) cs else (n, c # cs))"

text \<open>The end of a range and what follows it; \<open>None\<close> is \<open>return NGX_HTTP_RANGE_NOT_SATISFIABLE\<close>.\<close>

definition rg_last :: "u64 \<Rightarrow> bool \<Rightarrow> u64 \<Rightarrow> u8 list \<Rightarrow> (u64 \<times> u64 \<times> u8 list) option" where
  "rg_last content_length suffix start p =
    (if \<not> is_digit (cur p) then None
     else let (e, p) = rg_number 0 p; p = rg_spaces p in
       if cur p \<noteq> chr CHR '','' \<and> cur p \<noteq> NUL then None
       else let (start, e) = (if suffix then (content_length - e, content_length - 1) else (start, e));
                e = (if sint e \<ge> sint content_length then content_length else e + 1)
            in Some (start, e, p))"

text \<open>One range, up to the label \<open>found\<close>.\<close>

definition rg_one :: "u64 \<Rightarrow> u8 list \<Rightarrow> (u64 \<times> u64 \<times> u8 list) option" where
  "rg_one content_length p =
    (let p = rg_spaces p in
     if cur p \<noteq> chr CHR ''-'' then
       if \<not> is_digit (cur p) then None
       else let (start, p) = rg_number 0 p; p = rg_spaces p in
         if cur p \<noteq> chr CHR ''-'' then None
         else let p = rg_spaces (tl p) in
           if cur p = chr CHR '','' \<or> cur p = NUL then Some (start, content_length, p)
           else rg_last content_length False start p
     else rg_last content_length True 0 (tl p))"

definition rg_done :: "u64 \<Rightarrow> u64 \<Rightarrow> ngx_http_range_t list \<Rightarrow> resp_rc" where
  "rg_done content_length sz ranges =
    (if ranges = [] then NGX_HTTP_RANGE_NOT_SATISFIABLE
     else if sint sz > sint content_length then Filter_rc NGX_DECLINED else Filter_rc NGX_OK)"

lemma rg_number_length: "rg_number n p = (m, q) \<Longrightarrow> length q \<le> length p"
  by (induction n p rule: rg_number.induct) (fastforce split: if_splits)+

lemma rg_spaces_length: "length (rg_spaces p) \<le> length p"
  by (simp add: rg_spaces_def length_dropWhile_le)

lemma rg_last_length: "rg_last cl suffix s p = Some (a, b, q) \<Longrightarrow> length q \<le> length p"
  by (auto simp: rg_last_def Let_def split: prod.splits if_splits
      dest!: rg_number_length intro: order_trans [OF rg_spaces_length])

lemma rg_one_length: 
  assumes "rg_one cl p = Some (a, b, q)"
  shows "length q \<le> length p"
proof -
  let ?p = "rg_spaces p"
  have *: "length ?p \<le> length p" by (rule rg_spaces_length)
  show ?thesis
  proof (cases "cur ?p \<noteq> chr CHR ''-''")
    case False
    with assms have "rg_last cl True 0 (tl ?p) = Some (a, b, q)" by (simp add: rg_one_def)
    from rg_last_length [OF this] * show ?thesis by simp
  next
    case True
    obtain s r where n: "rg_number 0 ?p = (s, r)" by (cases "rg_number 0 ?p")
    let ?r = "rg_spaces (tl (rg_spaces r))"
    have "length ?r \<le> length p"
      using rg_number_length [OF n] rg_spaces_length [of r] rg_spaces_length [of "tl (rg_spaces r)"] * by simp
    moreover have "q = ?r \<or> rg_last cl False s ?r = Some (a, b, q)"
      using assms True n by (auto simp: rg_one_def Let_def split: if_splits)
    ultimately show ?thesis using rg_last_length by fastforce
  qed
qed

text \<open>
  The loop over the ranges. \<open>room n\<close> says whether \<open>ngx_array_push\<close> finds memory for an element
  after \<open>n\<close> others; \<open>ranges\<close> counts down the ranges that are allowed.
\<close>

function rg_loop :: "(nat \<Rightarrow> bool) \<Rightarrow> u64 \<Rightarrow> u64 \<Rightarrow> u64 \<Rightarrow> ngx_http_range_t list \<Rightarrow> u8 list \<Rightarrow> resp_rc \<times> ngx_http_range_t list" where
  "rg_loop room content_length ranges sz rs p =
    (case rg_one content_length p of
       None \<Rightarrow> (NGX_HTTP_RANGE_NOT_SATISFIABLE, rs)
     | Some (start, e, q) \<Rightarrow>
         if sint start < sint e then
           if \<not> room (length rs) then (Filter_rc NGX_ERROR, rs)
           else
             let rs = rs @ [\<lparr>rg_start = start, rg_end = e, rg_content_range = []\<rparr>]; sz = sz + (e - start) in
             if ranges = 0 then (Filter_rc NGX_DECLINED, rs)
             else if cur q \<noteq> chr CHR '','' then (rg_done content_length sz rs, rs)
             else rg_loop room content_length (ranges - 1) sz rs (tl q)
         else if cur q \<noteq> chr CHR '','' then (rg_done content_length sz rs, rs)
         else rg_loop room content_length ranges sz rs (tl q))"
  by pat_completeness auto

termination
proof (relation "measure (\<lambda>(room, cl, ranges, sz, rs, p). length p)", goal_cases)
  case 1
  show ?case by simp
next
  case (2 room cl ranges sz rs p y s z e q)
  then have "length q \<le> length p" "q \<noteq> []" by (auto dest: rg_one_length)
  then show ?case by (cases q) simp_all
next
  case (3 room cl ranges sz rs p y s z e q)
  then have "length q \<le> length p" "q \<noteq> []" by (auto dest: rg_one_length)
  then show ?case by (cases q) simp_all
qed

declare rg_loop.simps [simp del]

text \<open>\<open>headers_in.range->value.data + 6\<close>: the caller has seen \<open>bytes=\<close>.\<close>

definition ngx_http_range_parse :: "(nat \<Rightarrow> bool) \<Rightarrow> u8 list \<Rightarrow> u64 \<Rightarrow> u64 \<Rightarrow> resp_rc \<times> ngx_http_range_t list" where
  "ngx_http_range_parse room v content_length ranges = rg_loop room content_length ranges 0 [] (drop 6 v)"

subsection \<open>The header of the response\<close>

text \<open>
  What the header filter looks at in the request and in the configuration, and the functions of the
  core it calls: \<open>rn_alloc k\<close> whether the allocation at its \<open>k\<close>-th place succeeds (places after the
  fifth are those of the loop), \<open>rn_room\<close> as above, \<open>ngx_strncasecmp\<close>, the formats \<open>%O\<close> and \<open>%0muA\<close> of
  \<open>ngx_sprintf\<close>, and the number \<open>ngx_next_temp_number\<close> gives.
\<close>

record range_request =
  rq_http_version :: u64
  rq_main :: bool
  rq_allow_ranges :: bool
  rq_single_range :: bool
  rq_range :: "u8 list option"
  rq_if_range :: "u8 list option"

record range_core =
  rn_alloc :: "nat \<Rightarrow> bool"
  rn_room :: "nat \<Rightarrow> bool"
  rn_strncasecmp :: "memory \<Rightarrow> ptr \<Rightarrow> u8 list \<Rightarrow> bool"
  rn_off :: "u64 \<Rightarrow> u8 list"
  rn_number :: "u64 \<Rightarrow> u8 list"
  rn_boundary :: u64

record ngx_http_range_filter_ctx_t =
  rx_offset :: int
  rx_boundary_header :: "u8 list"
  rx_ranges :: "ngx_http_range_t list"

text \<open>The answer of a header filter: the header, the context of the body filter and the end.\<close>

type_synonym range_answer = "headers_out \<times> ngx_http_range_filter_ctx_t option \<times> filter_end"

definition ngx_http_range_singlepart_header ::
  "range_core \<Rightarrow> headers_out \<Rightarrow> ngx_http_range_filter_ctx_t \<Rightarrow> range_answer" where
  "ngx_http_range_singlepart_header k h ctx =
    (if \<not> rn_alloc k 2 then (h, Some ctx, Return_rc (Filter_rc NGX_ERROR))
     else let i = length (ho_headers h); h = (push_out_header (bytes ''Content-Range'') [] h)\<lparr>ho_content_range := Some i\<rparr> in
       if \<not> rn_alloc k 3 then (h, Some ctx, Return_rc (Filter_rc NGX_ERROR))
       else let range = rx_ranges ctx ! 0;
                v = bytes ''bytes '' @ rn_off k (rg_start range) @ bytes ''-'' @ rn_off k (rg_end range - 1) @
                    bytes ''/'' @ rn_off k (ho_content_length_n h);
                h = h\<lparr>ho_headers := (ho_headers h)[i := (ho_headers h ! i)\<lparr>te_value := v\<rparr>],
                      ho_content_length_n := rg_end range - rg_start range\<rparr>
            in (drop_content_length h, Some ctx, Next_filter))"

definition NGX_ATOMIC_T_LEN :: nat where
  "NGX_ATOMIC_T_LEN = length ''-9223372036854775808''"

definition mp_with_charset :: "headers_out \<Rightarrow> bool" where
  "mp_with_charset h \<longleftrightarrow> ho_content_type_len h = of_nat (length (ho_content_type h)) \<and> ho_charset h \<noteq> []"

text \<open>The memory for the boundary header, and the boundary header written into it.\<close>

definition mp_boundary_alloc :: "headers_out \<Rightarrow> nat" where
  "mp_boundary_alloc h =
    length (CRLF @ bytes ''--'') + NGX_ATOMIC_T_LEN + length (CRLF @ bytes ''Content-Type: '') + length (ho_content_type h) +
    length (CRLF @ bytes ''Content-Range: bytes '') +
    (if mp_with_charset h then length (bytes ''; charset='') + length (ho_charset h) else 0)"

definition mp_boundary_header :: "range_core \<Rightarrow> headers_out \<Rightarrow> u8 list" where
  "mp_boundary_header k h =
    (if mp_with_charset h then
       CRLF @ bytes ''--'' @ rn_number k (rn_boundary k) @ CRLF @ bytes ''Content-Type: '' @ ho_content_type h @
       bytes ''; charset='' @ ho_charset h @ CRLF @ bytes ''Content-Range: bytes ''
     else if ho_content_type h \<noteq> [] then
       CRLF @ bytes ''--'' @ rn_number k (rn_boundary k) @ CRLF @ bytes ''Content-Type: '' @ ho_content_type h @
       CRLF @ bytes ''Content-Range: bytes ''
     else CRLF @ bytes ''--'' @ rn_number k (rn_boundary k) @ CRLF @ bytes ''Content-Range: bytes '')"

text \<open>
  The loop of \<open>ngx_http_range_multipart_header\<close>: every range gets its text, and its bytes are counted;
  \<open>None\<close> when there is no memory.
\<close>

fun mp_ranges :: "range_core \<Rightarrow> u64 \<Rightarrow> u8 list \<Rightarrow> nat \<Rightarrow> u64 \<Rightarrow> ngx_http_range_t list \<Rightarrow> (u64 \<times> ngx_http_range_t list) option" where
  "mp_ranges k cl boundary i len [] = Some (len, [])"
| "mp_ranges k cl boundary i len (r # rs) =
    (if \<not> rn_alloc k (4 + i) then None
     else let t = rn_off k (rg_start r) @ bytes ''-'' @ rn_off k (rg_end r - 1) @ bytes ''/'' @ rn_off k cl @ CRLF @ CRLF;
              len = len + (of_nat (length boundary) + of_nat (length t) + (rg_end r - rg_start r))
          in map_option (\<lambda>(len, rs). (len, r\<lparr>rg_content_range := t\<rparr> # rs)) (mp_ranges k cl boundary (Suc i) len rs))"

definition ngx_http_range_multipart_header ::
  "range_core \<Rightarrow> headers_out \<Rightarrow> ngx_http_range_filter_ctx_t \<Rightarrow> range_answer" where
  "ngx_http_range_multipart_header k h ctx =
    (if \<not> rn_alloc k 2 then (h, Some ctx, Return_rc (Filter_rc NGX_ERROR))
     else let ctx = ctx\<lparr>rx_boundary_header := mp_boundary_header k h\<rparr> in
       if \<not> rn_alloc k 3 then (h, Some ctx, Return_rc (Filter_rc NGX_ERROR))
       else let ct = bytes ''multipart/byteranges; boundary='' @ rn_number k (rn_boundary k);
                h = h\<lparr>ho_content_type := ct, ho_content_type_len := of_nat (length ct), ho_charset := []\<rparr>;
                len = of_nat (length (CRLF @ bytes ''--'') + NGX_ATOMIC_T_LEN + length (bytes ''--'' @ CRLF))
            in case mp_ranges k (ho_content_length_n h) (rx_boundary_header ctx) 0 len (rx_ranges ctx) of
                 None \<Rightarrow> (h, Some ctx, Return_rc (Filter_rc NGX_ERROR))
               | Some (len, rs) \<Rightarrow>
                   (drop_content_length (h\<lparr>ho_content_length_n := len\<rparr>), Some (ctx\<lparr>rx_ranges := rs\<rparr>), Next_filter))"

definition ngx_http_range_not_satisfiable :: "range_core \<Rightarrow> headers_out \<Rightarrow> headers_out \<times> resp_rc" where
  "ngx_http_range_not_satisfiable k h =
    (let h = h\<lparr>ho_status := 416\<rparr> in
     if \<not> rn_alloc k 2 then (h, Filter_rc NGX_ERROR)
     else let i = length (ho_headers h); h = (push_out_header (bytes ''Content-Range'') [] h)\<lparr>ho_content_range := Some i\<rparr> in
       if \<not> rn_alloc k 3 then (h, Filter_rc NGX_ERROR)
       else let v = bytes ''bytes */'' @ rn_off k (ho_content_length_n h);
                h = h\<lparr>ho_headers := (ho_headers h)[i := (ho_headers h ! i)\<lparr>te_value := v\<rparr>]\<rparr>
            in (ngx_http_clear_content_length h, NGX_HTTP_RANGE_NOT_SATISFIABLE))"

text \<open>The code at \<open>next_filter\<close>.\<close>

definition rg_accept_ranges :: "range_core \<Rightarrow> headers_out \<Rightarrow> headers_out \<times> filter_end" where
  "rg_accept_ranges k h =
    (if \<not> rn_alloc k 2 then (h\<lparr>ho_accept_ranges := None\<rparr>, Return_rc (Filter_rc NGX_ERROR))
     else ((push_out_header (bytes ''Accept-Ranges'') (bytes ''bytes'') h)\<lparr>ho_accept_ranges := Some (length (ho_headers h))\<rparr>,
           Next_filter))"

text \<open>Whether an \<open>If-Range\<close> header lets the ranges count (\<open>goto parse\<close>).\<close>

definition if_range_holds :: "headers_out \<Rightarrow> u8 list \<Rightarrow> bool" where
  "if_range_holds h v =
    (if length v \<ge> 2 \<and> last v = chr CHR ''\"'' then
       (case ho_etag h of None \<Rightarrow> False | Some i \<Rightarrow> v = te_value (ho_headers h ! i))
     else if ho_last_modified_time h = - 1 then False
     else (case ngx_http_parse_time v 0 (length v) of None \<Rightarrow> - 1 | Some t \<Rightarrow> t) = ho_last_modified_time h)"

definition ngx_http_range_header_filter ::
  "range_core \<Rightarrow> range_request \<Rightarrow> u64 \<Rightarrow> headers_out \<Rightarrow> range_answer" where
  "ngx_http_range_header_filter k r max_ranges h =
    (if rq_http_version r < NGX_HTTP_VERSION_10 \<or> ho_status h \<noteq> NGX_HTTP_OK \<or> \<not> rq_main r \<or>
        ho_content_length_n h = - 1 \<or> \<not> rq_allow_ranges r
     then (h, None, Next_filter)
     else if max_ranges = 0 then (h, None, Next_filter)
     else
       let next_filter = (\<lambda>c. let (h', e) = rg_accept_ranges k h in (h', c, e)) in
       case rq_range r of None \<Rightarrow> next_filter None
       | Some v \<Rightarrow>
           if length v < 7 \<or> \<not> rn_strncasecmp k v 0 (bytes ''bytes='') then next_filter None
           else if (case rq_if_range r of None \<Rightarrow> False | Some ir \<Rightarrow> \<not> if_range_holds h ir) then next_filter None
           else if \<not> rn_alloc k 0 \<or> \<not> rn_alloc k 1 then (h, None, Return_rc (Filter_rc NGX_ERROR))
           else
             let ranges = (if rq_single_range r then 1 else max_ranges) in
             (case ngx_http_range_parse (rn_room k) v (ho_content_length_n h) ranges of
                (Filter_rc NGX_OK, rs) \<Rightarrow>
                  let ctx = \<lparr>rx_offset = 0, rx_boundary_header = [], rx_ranges = rs\<rparr>;
                      h = h\<lparr>ho_status := NGX_HTTP_PARTIAL_CONTENT, ho_status_line := []\<rparr> in
                  if length rs = 1 then ngx_http_range_singlepart_header k h ctx
                  else ngx_http_range_multipart_header k h ctx
              | (NGX_HTTP_RANGE_NOT_SATISFIABLE, rs) \<Rightarrow>
                  let (h', rc) = ngx_http_range_not_satisfiable k h in (h', None, Return_rc rc)
              | (Filter_rc NGX_ERROR, rs) \<Rightarrow> (h, None, Return_rc (Filter_rc NGX_ERROR))
              | _ \<Rightarrow> next_filter None))"

subsection \<open>The body of the response\<close>

definition ngx_http_range_test_overlapped ::
  "buf_macros \<Rightarrow> ngx_http_range_filter_ctx_t \<Rightarrow> resp_buf list \<Rightarrow> ngx_http_range_filter_ctx_t \<times> resp_rc" where
  "ngx_http_range_test_overlapped m ctx cs =
    (if rx_offset ctx \<noteq> 0 then (ctx, Filter_rc NGX_ERROR)
     else let buf = hd cs; start = rx_offset ctx; last_off = rx_offset ctx + ngx_buf_size m buf in
       if \<not> ob_last_buf buf \<and> list_ex (\<lambda>r. start > sint (rg_start r) \<or> last_off < sint (rg_end r)) (rx_ranges ctx)
       then (ctx, Filter_rc NGX_ERROR)
       else (ctx\<lparr>rx_offset := ngx_buf_size m buf\<rparr>, Filter_rc NGX_OK))"

text \<open>
  The loop of \<open>ngx_http_range_singlepart_body\<close>. A link that is passed on is written to \<open>*ll\<close>, the
  \<open>next\<close> of the link passed on before; a link that is left out is not written anywhere, so it stays
  behind the link before it until another one is passed on. The result is the offset, whether a link
  has been passed on, and the chain that starts at this place: with the links passed on from here,
  or else with those left out.
\<close>

definition sp_skip :: "resp_buf \<Rightarrow> resp_buf" where
  "sp_skip b = (if ob_in_file b then b\<lparr>ob_file_pos := ob_file_last b\<rparr> else b)\<lparr>ob_pos := ob_last b, ob_sync := True\<rparr>"

definition sp_front :: "buf_macros \<Rightarrow> int \<Rightarrow> int \<Rightarrow> resp_buf \<Rightarrow> resp_buf" where
  "sp_front m rstart start b =
    (if rstart > start then
       let b = (if ob_in_file b then b\<lparr>ob_file_pos := ob_file_pos b + (rstart - start)\<rparr> else b)
       in (if ngx_buf_in_memory m b then b\<lparr>ob_pos := ob_pos b + (rstart - start)\<rparr> else b)
     else b)"

definition sp_back :: "buf_macros \<Rightarrow> int \<Rightarrow> int \<Rightarrow> resp_buf \<Rightarrow> resp_buf" where
  "sp_back m rend last_off b =
    (let b = (if ob_in_file b then b\<lparr>ob_file_last := ob_file_last b - (last_off - rend)\<rparr> else b);
         b = (if ngx_buf_in_memory m b then b\<lparr>ob_last := ob_last b - (last_off - rend)\<rparr> else b)
     in b\<lparr>ob_last_buf := True\<rparr>)"

fun sp_loop :: "buf_macros \<Rightarrow> int \<Rightarrow> int \<Rightarrow> int \<Rightarrow> resp_buf list \<Rightarrow> int \<times> bool \<times> resp_buf list" where
  "sp_loop m rstart rend start [] = (start, False, [])"
| "sp_loop m rstart rend start (b # cs) =
    (let last_off = start + ngx_buf_size m b in
     if ngx_buf_special m b then
       let (off, linked, out) = sp_loop m rstart rend last_off cs in (off, True, b # out)
     else if rend \<le> start \<or> rstart \<ge> last_off then
       let (off, linked, out) = sp_loop m rstart rend last_off cs
       in (off, linked, if linked then out else sp_skip b # out)
     else
       let b = sp_front m rstart start b in
       if rend \<le> last_off then (last_off, True, [sp_back m rend last_off b])
       else let (off, linked, out) = sp_loop m rstart rend last_off cs in (off, True, b # out))"

definition ngx_http_range_singlepart_body ::
  "buf_macros \<Rightarrow> ngx_http_range_filter_ctx_t \<Rightarrow> resp_buf list \<Rightarrow> ngx_http_range_filter_ctx_t \<times> body_end" where
  "ngx_http_range_singlepart_body m ctx cs =
    (let range = rx_ranges ctx ! 0;
         (off, linked, out) = sp_loop m (sint (rg_start range)) (sint (rg_end range)) (rx_offset ctx) cs;
         ctx = ctx\<lparr>rx_offset := off\<rparr>
     in if linked then (ctx, Next_body out) else (ctx, Body_rc (Filter_rc NGX_OK)))"

text \<open>The three buffers of a range; positions are added as machine addresses are.\<close>

definition mp_buffers :: "buf_macros \<Rightarrow> u8 list \<Rightarrow> resp_buf \<Rightarrow> ngx_http_range_t \<Rightarrow> resp_buf list" where
  "mp_buffers m boundary buf r =
    [calloc_buf\<lparr>ob_memory := True, ob_mem := boundary, ob_pos := 0, ob_last := int (length boundary)\<rparr>,
     calloc_buf\<lparr>ob_temporary := True, ob_mem := rg_content_range r, ob_pos := 0, ob_last := int (length (rg_content_range r))\<rparr>,
     (let b = calloc_buf\<lparr>ob_in_file := ob_in_file buf, ob_temporary := ob_temporary buf, ob_memory := ob_memory buf,
                ob_mmap := ob_mmap buf, ob_file := ob_file buf\<rparr>;
          b = (if ob_in_file buf then b\<lparr>ob_file_pos := ob_file_pos buf + sint (rg_start r),
                                        ob_file_last := ob_file_pos buf + sint (rg_end r)\<rparr> else b)
      in if ngx_buf_in_memory m buf then b\<lparr>ob_mem := ob_mem buf, ob_pos := ob_pos buf + sint (rg_start r),
                                        ob_last := ob_pos buf + sint (rg_end r)\<rparr> else b)]"

text \<open>The last boundary starts with the first bytes of the boundary header.\<close>

definition mp_last :: "u8 list \<Rightarrow> resp_buf" where
  "mp_last boundary =
    (let t = take (length (CRLF @ bytes ''--'') + NGX_ATOMIC_T_LEN) boundary @ bytes ''--'' @ CRLF
     in calloc_buf\<lparr>ob_temporary := True, ob_last_buf := True, ob_mem := t, ob_pos := 0, ob_last := int (length t)\<rparr>)"

definition ngx_http_range_multipart_body ::
  "buf_macros \<Rightarrow> bool \<Rightarrow> ngx_http_range_filter_ctx_t \<Rightarrow> resp_buf list \<Rightarrow> body_end" where
  "ngx_http_range_multipart_body m alloc ctx cs =
    (if \<not> alloc then Body_rc (Filter_rc NGX_ERROR)
     else Next_body (concat (map (mp_buffers m (rx_boundary_header ctx) (hd cs)) (rx_ranges ctx)) @
                     [mp_last (rx_boundary_header ctx)]))"

definition ngx_http_range_body_filter ::
  "buf_macros \<Rightarrow> bool \<Rightarrow> ngx_http_range_filter_ctx_t option \<Rightarrow> resp_buf list \<Rightarrow>
   ngx_http_range_filter_ctx_t option \<times> body_end" where
  "ngx_http_range_body_filter m alloc ctx cs =
    (if cs = [] then (ctx, Next_body cs)
     else case ctx of None \<Rightarrow> (ctx, Next_body cs)
       | Some x \<Rightarrow>
           if length (rx_ranges x) = 1 then
             (let (x', e) = ngx_http_range_singlepart_body m x cs in (Some x', e))
           else if ngx_buf_special m (hd cs) then (ctx, Next_body cs)
           else (case ngx_http_range_test_overlapped m x cs of
               (x', Filter_rc NGX_OK) \<Rightarrow> (Some x', ngx_http_range_multipart_body m alloc x' cs)
             | (x', _) \<Rightarrow> (Some x', Body_rc (Filter_rc NGX_ERROR))))"

end
