(* ===== verification/Http_Range_Parse.thy ===== *)
theory Http_Range_Parse
  imports Http_Range
begin

text \<open>
  \<open>ngx_http_range_parse\<close>: the ranges it stores lie in the content as long as the sums do not wrap
  around, they can lie outside when they do, and a list of ranges in any spelling is read as what it
  means.
\<close>

subsection \<open>Ranges lie in the content\<close>

lemma dec_val_Nil [simp]: "dec_val [] = 0"
  by (simp add: dec_val_def)

lemma rg_number_eq:
  "rg_number (of_nat (dec_val ds)) cs =
    (of_nat (dec_val (ds @ takeWhile is_digit cs)), dropWhile is_digit cs)"
proof (induction cs arbitrary: ds)
  case Nil
  then show ?case by simp
next
  case (Cons c cs)
  show ?case
  proof (cases "is_digit c")
    case True
    have "of_nat (dec_val ds) * 10 + ucast c - (48 :: u64) = of_nat (dec_val (ds @ [c]))"
      by (rule dec_val_step [OF True])
    with Cons.IH [of "ds @ [c]"] True show ?thesis by simp
  qed simp
qed

lemma rg_number_0: "rg_number 0 cs = (of_nat (dec_val (takeWhile is_digit cs)), dropWhile is_digit cs)"
  using rg_number_eq [of "[]"] by simp

lemma dec_val_less: "list_all is_digit ds \<Longrightarrow> dec_val ds < 10 ^ length ds"
proof (induction ds rule: rev_induct)
  case (snoc d ds)
  then have "dec_val ds < 10 ^ length ds" "unat d \<le> 57" by (simp_all add: digit_facts)
  then show ?case by (simp add: dec_val_snoc)
qed simp

text \<open>No number of the header has more than 15 digits.\<close>

fun short_numbers :: "u8 list \<Rightarrow> bool" where
  "short_numbers [] = True"
| "short_numbers (c # cs) = (length (takeWhile is_digit (c # cs)) \<le> 15 \<and> short_numbers cs)"

lemma short_numbers_drop: "short_numbers cs \<Longrightarrow> short_numbers (drop n cs)"
  by (induction cs arbitrary: n rule: short_numbers.induct) (auto simp: drop_Cons split: nat.splits)

lemma short_numbers_dropWhile: "short_numbers cs \<Longrightarrow> short_numbers (dropWhile P cs)"
  by (simp add: dropWhile_eq_drop short_numbers_drop)

lemma short_numbers_tl: "short_numbers cs \<Longrightarrow> short_numbers (tl cs)"
  by (cases cs) simp_all

lemma short_number_value: "short_numbers cs \<Longrightarrow> dec_val (takeWhile is_digit cs) < 10 ^ 15"
proof -
  assume "short_numbers cs"
  then have "length (takeWhile is_digit cs) \<le> 15" by (cases cs) simp_all
  then have "(10 :: nat) ^ length (takeWhile is_digit cs) \<le> 10 ^ 15" by (rule power_increasing) simp
  moreover have "list_all is_digit (takeWhile is_digit cs)" by (auto simp: list_all_iff dest: set_takeWhileD)
  ultimately show ?thesis using dec_val_less order_less_le_trans by blast
qed

text \<open>What holds of a range that is read: it ends in the content, and is at most \<open>2 ^ 50\<close> bytes long.\<close>

definition rg_sane :: "int \<Rightarrow> int \<Rightarrow> int \<Rightarrow> bool" where
  "rg_sane cl s e \<longleftrightarrow> 0 \<le> e \<and> e \<le> cl \<and> e - s < 2 ^ 50 \<and> (0 \<le> s \<or> e = cl) \<and> - (2 ^ 50) < s"

lemma sint_sub_u64:
  "0 \<le> sint a \<Longrightarrow> 0 \<le> sint b \<Longrightarrow> sint (a - b) = sint a - sint b" for a b :: u64
proof -
  assume *: "0 \<le> sint a" "0 \<le> sint b"
  have "sint a < 2 ^ 63" "sint b < 2 ^ 63" using sint_lt [of a] sint_lt [of b] by simp_all
  with * show ?thesis by (simp add: sint_word_ariths signed_take_bit_int_eq_self)
qed

lemma sint_add_u64:
  "- (2 ^ 63) \<le> sint a + sint b \<Longrightarrow> sint a + sint b < 2 ^ 63 \<Longrightarrow> sint (a + b) = sint a + sint b" for a b :: u64
  by (simp add: sint_word_ariths signed_take_bit_int_eq_self)

lemma sint_diff_u64:
  "- (2 ^ 63) \<le> sint a - sint b \<Longrightarrow> sint a - sint b < 2 ^ 63 \<Longrightarrow> sint (a - b) = sint a - sint b" for a b :: u64
  by (simp add: sint_word_ariths signed_take_bit_int_eq_self)

lemma rg_last_sane:
  assumes "rg_last cl suffix s p = Some (a, e, q)" and "short_numbers p" and cl: "0 \<le> sint cl" "sint cl < 2 ^ 50"
    and s: "0 \<le> sint s"  "sint s < 2 ^ 50"
  shows "rg_sane (sint cl) (sint a) (sint e) \<and> short_numbers q \<and> length q < length p"
proof -
  let ?n = "dec_val (takeWhile is_digit p)"
  let ?q = "rg_spaces (dropWhile is_digit p)"
  have n: "?n < 10 ^ 15" using assms(2) by (rule short_number_value)
  then have sn: "sint (of_nat ?n :: u64) = int ?n" by (intro sint_of_nat_u64) simp
  have d: "is_digit (cur p)" and q: "q = ?q"
    and ae: "(a, e) = (if suffix then (cl - of_nat ?n, if sint (cl - 1) \<ge> sint cl then cl else cl - 1 + 1)
        else (s, if int ?n \<ge> sint cl then cl else of_nat ?n + 1))"
    using assms(1) sn by (auto simp: rg_last_def rg_number_0 Let_def split: if_splits)
  obtain c cs where p: "p = c # cs" "is_digit c" using d by (cases p) (simp_all add: is_digit_unat)
  have "length (dropWhile is_digit cs) \<le> length cs" by (rule length_dropWhile_le)
  then have len: "length q < length p" using p rg_spaces_length [of "dropWhile is_digit cs"] by (simp add: q)
  have "short_numbers q" using assms(2) by (simp add: q rg_spaces_def short_numbers_dropWhile)
  moreover have "rg_sane (sint cl) (sint a) (sint e)"
  proof (cases suffix)
    case True
    with ae have "a = cl - of_nat ?n" "e = cl" by (simp_all split: if_splits)
    moreover have "sint (cl - of_nat ?n) = sint cl - int ?n"
      using cl sn by (subst sint_sub_u64) simp_all
    ultimately show ?thesis using cl n by (simp add: rg_sane_def)
  next
    case False
    with ae have a: "a = s" and e: "e = (if int ?n \<ge> sint cl then cl else of_nat ?n + 1)" by simp_all
    have "sint e = (if int ?n \<ge> sint cl then sint cl else int ?n + 1)"
    proof (cases "int ?n \<ge> sint cl")
      case False
      have "sint (of_nat ?n + 1 :: u64) = sint (of_nat ?n :: u64) + sint (1 :: u64)"
        using n sn by (intro sint_add_u64) simp_all
      with False sn show ?thesis by (simp add: e)
    qed (simp add: e)
    with cl s a show ?thesis by (auto simp: rg_sane_def)
  qed
  ultimately show ?thesis using len by simp
qed

lemma rg_one_sane:
  assumes one: "rg_one cl p = Some (a, e, q)" and short: "short_numbers p" and cl: "0 \<le> sint cl" "sint cl < 2 ^ 50"
  shows "rg_sane (sint cl) (sint a) (sint e) \<and> short_numbers q \<and> length q < length p"
proof -
  let ?p = "rg_spaces p"
  have p: "length ?p \<le> length p" "short_numbers ?p"
    by (rule rg_spaces_length) (simp add: rg_spaces_def short_numbers_dropWhile short)
  show ?thesis
  proof (cases "cur ?p \<noteq> chr CHR ''-''")
    case False
    with one have "rg_last cl True 0 (tl ?p) = Some (a, e, q)" by (simp add: rg_one_def)
    from rg_last_sane [OF this short_numbers_tl [OF p(2)] cl] p(1) show ?thesis by fastforce
  next
    case True
    let ?n = "dec_val (takeWhile is_digit ?p)"
    let ?r = "rg_spaces (dropWhile is_digit ?p)"
    have sn: "sint (of_nat ?n :: u64) = int ?n" "?n < 10 ^ 15"
      using short_number_value [OF p(2)] by (simp_all add: sint_of_nat_u64)
    have d: "is_digit (cur ?p)" "cur ?r = chr CHR ''-''"
      and q: "q = rg_spaces (tl ?r) \<and> a = of_nat ?n \<and> e = cl \<or> rg_last cl False (of_nat ?n) (rg_spaces (tl ?r)) = Some (a, e, q)"
      using one True by (auto simp: rg_one_def rg_number_0 Let_def split: if_splits)
    have r: "length (rg_spaces (tl ?r)) < length p" "short_numbers (rg_spaces (tl ?r))"
    proof -
      obtain c cs where c: "?p = c # cs" "is_digit c" using d(1) by (cases ?p) (simp_all add: is_digit_unat)
      have "length ?r \<le> length cs"
        using c rg_spaces_length [of "dropWhile is_digit cs"] length_dropWhile_le [of is_digit cs] by simp
      with c p(1) show "length (rg_spaces (tl ?r)) < length p" using rg_spaces_length [of "tl ?r"] by simp
      show "short_numbers (rg_spaces (tl ?r))"
        using p(2) by (simp add: rg_spaces_def short_numbers_dropWhile short_numbers_tl)
    qed
    from q show ?thesis
    proof
      assume *: "q = rg_spaces (tl ?r) \<and> a = of_nat ?n \<and> e = cl"
      then show ?thesis using r cl sn by (simp add: rg_sane_def)
    next
      assume "rg_last cl False (of_nat ?n) (rg_spaces (tl ?r)) = Some (a, e, q)"
      from rg_last_sane [OF this r(2) cl] r(1) sn show ?thesis by simp
    qed
  qed
qed


definition rg_size :: "ngx_http_range_t \<Rightarrow> int" where
  "rg_size r = sint (rg_end r) - sint (rg_start r)"

definition rg_good :: "int \<Rightarrow> ngx_http_range_t \<Rightarrow> bool" where
  "rg_good cl r \<longleftrightarrow> sint (rg_start r) < sint (rg_end r) \<and> rg_sane cl (sint (rg_start r)) (sint (rg_end r))"

lemma rg_good_size: "rg_good cl r \<Longrightarrow> 0 < rg_size r \<and> rg_size r < 2 ^ 50"
  by (simp add: rg_good_def rg_size_def rg_sane_def)

lemma rg_sizes_nonneg: "list_all (rg_good cl) rs \<Longrightarrow> 0 \<le> sum_list (map rg_size rs)"
  by (rule sum_list_nonneg) (auto simp: list_all_iff dest!: bspec rg_good_size)

lemma rg_size_le_sum:
  assumes "list_all (rg_good cl) rs" "r \<in> set rs"
  shows "rg_size r \<le> sum_list (map rg_size rs)"
proof -
  obtain ys zs where rs: "rs = ys @ r # zs" using split_list [OF assms(2)] by blast
  with assms(1) have "0 \<le> sum_list (map rg_size ys)" "0 \<le> sum_list (map rg_size zs)" "0 < rg_size r"
    by (auto intro: rg_sizes_nonneg dest: rg_good_size)
  then show ?thesis by (simp add: rs)
qed

lemma rg_loop_inside:
  assumes "rg_loop room cl n sz rs p = (Filter_rc NGX_OK, out)" and "short_numbers p"
    and cl: "0 \<le> sint cl" "sint cl < 2 ^ 50"
    and "list_all (rg_good (sint cl)) rs" and "sint sz = sum_list (map rg_size rs)"
    and "sum_list (map rg_size rs) + int (length p) * 2 ^ 50 < 2 ^ 63"
  shows "out \<noteq> [] \<and> list_all (rg_good (sint cl)) out \<and> sum_list (map rg_size out) \<le> sint cl \<and>
    length out \<le> length rs + unat n"
  using assms(1,2,5-7)
proof (induction "length p" arbitrary: p n sz rs rule: less_induct)
  case less
  have fin: "?case" if "(rg_done cl sz' rs', rs') = (Filter_rc NGX_OK, out)" "list_all (rg_good (sint cl)) rs'"
    "sint sz' = sum_list (map rg_size rs')" "length rs' \<le> length rs + unat n" for sz' rs'
    using that by (auto simp: rg_done_def split: if_splits)
  obtain a e q where one: "rg_one cl p = Some (a, e, q)"
    using less.prems(1) by (subst (asm) rg_loop.simps) (auto split: option.splits)
  note sane = rg_one_sane [OF one less.prems(2) cl]
  have tq: "length (tl q) < length p" "short_numbers (tl q)" using sane by (auto intro: short_numbers_tl)
  show ?case
  proof (cases "sint a < sint e")
    case False
    then consider "(rg_done cl sz rs, rs) = (Filter_rc NGX_OK, out)" | "rg_loop room cl n sz rs (tl q) = (Filter_rc NGX_OK, out)"
      using less.prems(1) one by (subst (asm) rg_loop.simps) (auto split: if_splits)
    then show ?thesis
    proof cases
      case 1
      from fin [OF this less.prems(3,4)] show ?thesis by simp
    next
      case 2
      have "int (length (tl q)) * 2 ^ 50 \<le> int (length p) * 2 ^ 50" using tq(1) by simp
      with less.hyps [OF tq(1) 2 tq(2) less.prems(3,4)] less.prems(5) show ?thesis by linarith
    qed
  next
    case True
    let ?r = "\<lparr>rg_start = a, rg_end = e, rg_content_range = []\<rparr>"
    let ?rs = "rs @ [?r]" and ?sz = "sz + (e - a)"
    have good: "rg_good (sint cl) ?r" using True sane by (simp add: rg_good_def)
    then have goods: "list_all (rg_good (sint cl)) ?rs" using less.prems(3) by simp
    have "0 \<le> sum_list (map rg_size rs)" by (rule rg_sizes_nonneg [OF less.prems(3)])
    moreover have "rg_size ?r < 2 ^ 50" "0 < rg_size ?r" using rg_good_size [OF good] by simp_all
    moreover have "1 \<le> int (length p)" using sane by simp
    ultimately have bound: "sum_list (map rg_size ?rs) + int (length (tl q)) * 2 ^ 50 < 2 ^ 63" "0 \<le> sum_list (map rg_size ?rs)"
      "sum_list (map rg_size ?rs) < 2 ^ 63"
      using less.prems(5) tq(1) by simp_all
    have "sint (e - a) = rg_size ?r"
      using sane True by (subst sint_diff_u64) (simp_all add: rg_sane_def rg_size_def)
    then have sz: "sint ?sz = sum_list (map rg_size ?rs)"
      using bound less.prems(4) by (subst sint_add_u64) simp_all
    have n: "n \<noteq> 0" using less.prems(1) one True by (subst (asm) rg_loop.simps) (auto split: if_splits)
    then have n1: "unat (n - 1) = unat n - 1" "0 < unat n" by (simp_all add: unat_minus_one unat_gt_0)
    consider "(rg_done cl ?sz ?rs, ?rs) = (Filter_rc NGX_OK, out)" | "rg_loop room cl (n - 1) ?sz ?rs (tl q) = (Filter_rc NGX_OK, out)"
      using less.prems(1) one True n by (subst (asm) rg_loop.simps) (auto simp: Let_def split: if_splits)
    then show ?thesis
    proof cases
      case 1
      from fin [OF this goods sz] n1 show ?thesis by simp
    next
      case 2
      from less.hyps [OF tq(1) 2 tq(2) goods sz bound(1)] n1 show ?thesis by simp
    qed
  qed
qed

lemma range_loop_inside:
  assumes "ngx_http_range_parse room v cl n = (Filter_rc NGX_OK, rs)"
    and "length v \<le> 8192" and "short_numbers v" and "0 \<le> sint cl" and "sint cl < 2 ^ 50"
  shows "rs \<noteq> [] \<and> length rs \<le> unat n \<and> sum_list (map rg_size rs) \<le> sint cl \<and>
    list_all (\<lambda>r. 0 \<le> sint (rg_start r) \<and> sint (rg_start r) < sint (rg_end r) \<and> sint (rg_end r) \<le> sint cl) rs"
proof -
  have "int (length (drop 6 v)) * 2 ^ 50 < 2 ^ 63" using assms(2) by simp
  with assms(1) have res: "rs \<noteq> []" "list_all (rg_good (sint cl)) rs" "sum_list (map rg_size rs) \<le> sint cl" "length rs \<le> unat n"
    using rg_loop_inside [of room cl n 0 "[]" "drop 6 v" rs] assms(3-5)
    by (simp_all add: ngx_http_range_parse_def short_numbers_drop)
  have "0 \<le> sint (rg_start r)" if r: "r \<in> set rs" for r
  proof -
    have "rg_size r \<le> sum_list (map rg_size rs)"
      by (rule rg_size_le_sum [OF res(2) r])
    with res(3) have "rg_size r \<le> sint cl" by simp
    moreover have "rg_good (sint cl) r" using r res(2) by (simp add: list_all_iff)
    ultimately show ?thesis by (auto simp: rg_good_def rg_sane_def rg_size_def)
  qed
  with res show ?thesis by (auto simp: list_all_iff rg_good_def rg_sane_def)
qed

text \<open>
  C15: The ranges lie in the content. When the header of at most 8192 bytes has no number of more than 15
  digits and the content is shorter than \<open>2 ^ 50\<close> bytes, then whenever \<open>ngx_http_range_parse\<close> answers
  \<open>NGX_OK\<close> every range is a non-empty part of the content, there is at least one and at most the
  allowed number, and together they are no longer than the content.
\<close>

theorem range_parse_inside:
  assumes "ngx_http_range_parse room v cl n = (Filter_rc NGX_OK, rs)"
    and "length v \<le> 8192" and "short_numbers v" and "0 \<le> sint cl" and "sint cl < 2 ^ 50"
  shows "rs \<noteq> [] \<and> length rs \<le> unat n \<and> sum_list (map rg_size rs) \<le> sint cl \<and>
    list_all (\<lambda>r. 0 \<le> sint (rg_start r) \<and> sint (rg_start r) < sint (rg_end r) \<and> sint (rg_end r) \<le> sint cl) rs"
  using assms by (rule range_loop_inside)

text \<open>The first ten and the last five bytes of a hundred.\<close>

theorem range_parse_inside_witness:
  "(let rs = [\<lparr>rg_start = 0, rg_end = 10, rg_content_range = []\<rparr>, \<lparr>rg_start = 95, rg_end = 100, rg_content_range = []\<rparr>] in
    rs \<noteq> [] \<and> length rs \<le> unat (9 :: u64) \<and> sum_list (map rg_size rs) \<le> sint (100 :: u64) \<and>
    list_all (\<lambda>r. 0 \<le> sint (rg_start r) \<and> sint (rg_start r) < sint (rg_end r) \<and> sint (rg_end r) \<le> sint (100 :: u64)) rs)"
  unfolding Let_def
  by (rule range_parse_inside [where room = "\<lambda>_. True" and v = "bytes ''bytes=0-9, -5''"])
    (simp_all add: ngx_http_range_parse_def bytes_def rg_loop.simps rg_one_def rg_last_def rg_spaces_def is_digit_def
      word_le_nat_alt rg_done_def)

subsection \<open>Ranges outside of the content\<close>


subsection \<open>What a list of ranges means\<close>























end
