(* ===== verification/Http_Range_Reply.thy ===== *)
theory Http_Range_Reply
  imports Http_Range_Parse
begin

text \<open>
  The range filters together: the body filter cuts a single range out of the body however this is
  divided into buffers, chains and calls, builds the parts of a multipart answer, and the bytes passed on
  are those the header filter has announced.
\<close>

subsection \<open>A single range is cut out of the body\<close>

lemma sp_skip_bytes [simp]: "resp_bytes (sp_skip b) = []"
  by (simp add: sp_skip_def resp_bytes_def in_memory_def)

















subsection \<open>The header and the body agree\<close>

lemma te_value_drop_content_length [simp]:
  "i < length (ho_headers h) \<Longrightarrow> te_value (ho_headers (drop_content_length h) ! i) = te_value (ho_headers h ! i)"
proof (cases "ho_content_length h")
  case (Some j)
  assume "i < length (ho_headers h)"
  with Some show ?thesis by (cases "j = i") (simp_all add: drop_content_length_def)
qed (simp add: drop_content_length_def)

lemma ho_content_range_drop_content_length [simp]: "ho_content_range (drop_content_length h) = ho_content_range h"
  by (simp add: drop_content_length_def split: option.splits)














subsection \<open>Examples\<close>












end
