(* ===== verification/Http_Chunked_Response.thy ===== *)
theory Http_Chunked_Response
  imports Response_Chain Http_Chunked
begin

text \<open>
  The chunked filters for responses, \<open>ngx_http_chunked_filter_module.c\<close>: the header filter decides
  whether a response is sent in chunks, the body filter writes every call as one chunk. What it
  writes is read back by the decoder of request bodies (theory \<open>Http_Chunked\<close>).
\<close>

subsection \<open>The header filter\<close>

abbreviation NGX_HTTP_NO_CONTENT :: u64 where "NGX_HTTP_NO_CONTENT \<equiv> 204"
abbreviation NGX_HTTP_NOT_MODIFIED :: u64 where "NGX_HTTP_NOT_MODIFIED \<equiv> 304"
abbreviation NGX_HTTP_VERSION_11 :: u64 where "NGX_HTTP_VERSION_11 \<equiv> 1001"

record chunked_request =
  cr_main :: bool
  cr_method :: u64
  cr_http_version :: u64
  cr_keepalive :: bool
  cr_chunked :: bool
  cr_header_only :: bool

text \<open>
  \<open>transfer_encoding\<close> is the directive \<open>chunked_transfer_encoding\<close>, \<open>alloc\<close> whether the context of the body filter
  can be allocated; the second result is whether it has been set.
\<close>

definition ngx_http_chunked_header_filter ::
  "bool \<Rightarrow> bool \<Rightarrow> chunked_request \<Rightarrow> headers_out \<Rightarrow> chunked_request \<times> bool \<times> filter_end" where
  "ngx_http_chunked_header_filter transfer_encoding alloc r h =
    (if ho_status h = NGX_HTTP_NOT_MODIFIED \<or> ho_status h = NGX_HTTP_NO_CONTENT \<or> ho_status h < NGX_HTTP_OK \<or>
        \<not> cr_main r \<or> cr_method r AND NGX_HTTP_HEAD \<noteq> 0
     then (r, False, Next_filter)
     else if ho_content_length_n h = - 1 then
       if cr_http_version r < NGX_HTTP_VERSION_11 then (r\<lparr>cr_keepalive := False\<rparr>, False, Next_filter)
       else if transfer_encoding then
         if \<not> alloc then (r\<lparr>cr_chunked := True\<rparr>, False, Return_rc (Filter_rc NGX_ERROR))
         else (r\<lparr>cr_chunked := True\<rparr>, True, Next_filter)
       else (r\<lparr>cr_keepalive := False\<rparr>, False, Next_filter)
     else (r, False, Next_filter))"

subsection \<open>The body filter\<close>

text \<open>
  Functions of the core: \<open>cc_link i\<close> whether the \<open>i\<close>-th link of the new chain can be allocated, \<open>cc_palloc\<close>
  whether the memory for a size can, \<open>cc_get_free\<close> (\<open>ngx_chain_get_free_buf\<close>) takes a buffer from the lists of free and
  busy ones, or a new one; \<open>cc_update\<close> is \<open>ngx_chain_update_chains\<close> after the call of the next filter, and \<open>cc_hex\<close>
  the format \<open>%xO\<close> of \<open>ngx_sprintf\<close>.
\<close>

record 'f chunk_core =
  cc_link :: "nat \<Rightarrow> bool"
  cc_palloc :: bool
  cc_get_free :: "'f \<Rightarrow> (resp_buf \<times> 'f) option"
  cc_update :: "'f \<Rightarrow> resp_buf list \<Rightarrow> 'f"
  cc_hex :: "u64 \<Rightarrow> u8 list"

text \<open>
  The loop over the chain: the size, and the buffers that are passed on. \<open>i\<close> counts the links, \<open>None\<close> is
  \<open>return NGX_ERROR\<close>.
\<close>

definition cb_passed :: "buf_macros \<Rightarrow> resp_buf \<Rightarrow> bool" where
  "cb_passed m b \<longleftrightarrow> ob_flush b \<or> ob_sync b \<or> ngx_buf_in_memory m b \<or> ob_in_file b"

fun cb_collect :: "buf_macros \<Rightarrow> (nat \<Rightarrow> bool) \<Rightarrow> nat \<Rightarrow> u64 \<Rightarrow> resp_buf list \<Rightarrow> (u64 \<times> resp_buf list) option" where
  "cb_collect m link i sz [] = Some (sz, [])"
| "cb_collect m link i sz (b # bs) =
    (let sz = sz + of_int (ngx_buf_size m b) in
     if cb_passed m b then
       if \<not> link i then None
       else map_option (\<lambda>(sz, out). (sz, b # out)) (cb_collect m link (Suc i) sz bs)
     else cb_collect m link i sz bs)"

text \<open>The buffer with the size of the chunk: the memory at \<open>start\<close> is allocated once and written again for every chunk.\<close>

definition cb_size_buf :: "'f chunk_core \<Rightarrow> u64 \<Rightarrow> resp_buf \<Rightarrow> resp_buf option" where
  "cb_size_buf k sz b =
    (case (case ob_start b of None \<Rightarrow> (if cc_palloc k then Some (replicate (length (bytes ''0000000000000000'' @ CRLF)) 0) else None)
           | Some chunk \<Rightarrow> Some chunk) of
       None \<Rightarrow> None
     | Some chunk \<Rightarrow>
         let t = cc_hex k sz @ CRLF; chunk = t @ drop (length t) chunk
         in Some (b\<lparr>ob_start := Some chunk, ob_memory := False, ob_temporary := True, ob_mem := chunk,
                    ob_pos := 0, ob_last := int (length t)\<rparr>))"

definition cb_last_buf :: "u64 \<Rightarrow> resp_buf \<Rightarrow> resp_buf" where
  "cb_last_buf sz b =
    b\<lparr>ob_temporary := False, ob_memory := True, ob_last_buf := True, ob_mem := CRLF @ bytes ''0'' @ CRLF @ CRLF,
      ob_pos := (if sz = 0 then 2 else 0), ob_last := 7\<rparr>"

definition cb_end_buf :: "resp_buf \<Rightarrow> resp_buf" where
  "cb_end_buf b = b\<lparr>ob_temporary := False, ob_memory := True, ob_mem := CRLF, ob_pos := 0, ob_last := 2\<rparr>"

text \<open>\<open>cl->buf->last_buf = 0\<close> for the last buffer of the chain, which may have been passed on.\<close>

definition cb_clear_last :: "buf_macros \<Rightarrow> resp_buf \<Rightarrow> resp_buf list \<Rightarrow> resp_buf list" where
  "cb_clear_last m b out = (if cb_passed m b then butlast out @ [(last out)\<lparr>ob_last_buf := False\<rparr>] else out)"

definition cb_front :: "'f chunk_core \<Rightarrow> 'f \<Rightarrow> u64 \<Rightarrow> (resp_buf list \<times> 'f) option" where
  "cb_front k f sz =
    (if sz \<noteq> 0 then
       (case cc_get_free k f of None \<Rightarrow> None
        | Some (b, f) \<Rightarrow> map_option (\<lambda>b. ([b], f)) (cb_size_buf k sz b))
     else Some ([], f))"

definition ngx_http_chunked_body_filter ::
  "buf_macros \<Rightarrow> 'f chunk_core \<Rightarrow> chunked_request \<Rightarrow> 'f \<Rightarrow> resp_buf list \<Rightarrow> body_end \<times> 'f" where
  "ngx_http_chunked_body_filter m k r f cs =
    (if cs = [] \<or> \<not> cr_chunked r \<or> cr_header_only r then (Next_body cs, f)
     else case cb_collect m (cc_link k) 0 0 cs of
       None \<Rightarrow> (Body_rc (Filter_rc NGX_ERROR), f)
     | Some (sz, out) \<Rightarrow>
         (case cb_front k f sz of
            None \<Rightarrow> (Body_rc (Filter_rc NGX_ERROR), f)
          | Some (front, f) \<Rightarrow>
              if ob_last_buf (last cs) then
                (case cc_get_free k f of
                   None \<Rightarrow> (Body_rc (Filter_rc NGX_ERROR), f)
                 | Some (b, f) \<Rightarrow>
                     let out = front @ cb_clear_last m (last cs) out @ [cb_last_buf sz b]
                     in (Next_body out, cc_update k f out))
              else if sint sz > 0 then
                (case cc_get_free k f of
                   None \<Rightarrow> (Body_rc (Filter_rc NGX_ERROR), f)
                 | Some (b, f) \<Rightarrow>
                     let out = front @ out @ [cb_end_buf b] in (Next_body out, cc_update k f out))
              else let out = front @ out in (Next_body out, cc_update k f out)))"

subsection \<open>What a call writes\<close>

text \<open>
  The documented behaviour of the functions of the core: nothing fails, and \<open>%xO\<close> writes a number
  that is not 0 with hexadecimal digits.
\<close>

definition chunk_core_ok :: "'f chunk_core \<Rightarrow> bool" where
  "chunk_core_ok k \<longleftrightarrow> (\<forall>i. cc_link k i) \<and> cc_palloc k \<and> (\<forall>f. cc_get_free k f \<noteq> None) \<and>
     (\<forall>w. w \<noteq> 0 \<longrightarrow> list_all is_hex (cc_hex k w) \<and> hex_num (cc_hex k w) = unat w)"

lemma chunk_core_okD:
  assumes "chunk_core_ok k"
  shows "cc_link k i" "cc_palloc k" "\<exists>b f'. cc_get_free k f = Some (b, f')"
    "w \<noteq> 0 \<Longrightarrow> list_all is_hex (cc_hex k w) \<and> hex_num (cc_hex k w) = unat w"
  using assms by (auto simp: chunk_core_ok_def)

lemma cb_passed_data: "buf_macros_spec m \<Longrightarrow> \<not> cb_passed m b \<Longrightarrow> resp_bytes b = []"
  by (simp add: cb_passed_def buf_macros_specD(1) resp_bytes_def)

lemma cb_collect_all:
  assumes "buf_macros_spec m" "\<forall>i. link i" "list_all resp_wf cs"
  shows "cb_collect m link i sz cs = Some (sz + of_nat (length (chain_data cs)), filter (cb_passed m) cs)"
  using assms(3)
proof (induction cs arbitrary: i sz)
  case (Cons b cs)
  then have "ngx_buf_size m b = int (length (resp_bytes b))" by (intro resp_size assms(1)) simp
  with Cons assms(2) show ?case by (simp add: Let_def add.assoc)
qed simp

lemma chain_data_passed: "buf_macros_spec m \<Longrightarrow> chain_data (filter (cb_passed m) cs) = chain_data cs"
  by (induction cs) (simp_all add: cb_passed_data)

lemma resp_bytes_last_buf [simp]: "resp_bytes (b\<lparr>ob_last_buf := x\<rparr>) = resp_bytes b"
  by (simp add: resp_bytes_def in_memory_def)

lemma cb_clear_last_data:
  assumes "cs \<noteq> []"
  shows "chain_data (cb_clear_last m (last cs) (filter (cb_passed m) cs)) = chain_data (filter (cb_passed m) cs)"
proof (cases "cb_passed m (last cs)")
  case True
  obtain bs b where cs: "cs = bs @ [b]" using assms by (cases cs rule: rev_cases) auto
  with True show ?thesis by (simp add: cb_clear_last_def)
qed (simp add: cb_clear_last_def)

lemma resp_bytes_front:
  "in_memory b \<Longrightarrow> ob_mem b = t @ x \<Longrightarrow> ob_pos b = 0 \<Longrightarrow> ob_last b = int (length t) \<Longrightarrow> resp_bytes b = t"
  by (simp add: resp_bytes_def seg_def)

lemma cb_size_buf_data:
  assumes "chunk_core_ok k"
  shows "\<exists>b'. cb_size_buf k sz b = Some b' \<and> resp_bytes b' = cc_hex k sz @ CRLF"
proof -
  define t where "t = cc_hex k sz @ CRLF"
  have "resp_bytes (b\<lparr>ob_start := Some (t @ c), ob_memory := False, ob_temporary := True, ob_mem := t @ c,
      ob_pos := 0, ob_last := int (length t)\<rparr>) = t" for c
    by (rule resp_bytes_front [where x = c]) (simp_all add: in_memory_def)
  then show ?thesis
    using chunk_core_okD(2) [OF assms]
    unfolding cb_size_buf_def t_def [symmetric] by (cases "ob_start b") (simp_all add: Let_def)
qed

lemma cb_last_buf_data [simp]:
  "resp_bytes (cb_last_buf sz b) = (if sz = 0 then [] else CRLF) @ [chr CHR ''0'', CR, LF, CR, LF]"
  by (simp add: cb_last_buf_def resp_bytes_def in_memory_def seg_def bytes_def)

lemma cb_end_buf_data [simp]: "resp_bytes (cb_end_buf b) = CRLF"
  by (simp add: cb_end_buf_def resp_bytes_def in_memory_def seg_def)

text \<open>One call writes one chunk if there is data, and the last one also the end of the body.\<close>

lemma chunked_call:
  assumes m: "buf_macros_spec m" and k: "chunk_core_ok k" and r: "cr_chunked r" "\<not> cr_header_only r"
    and cs: "cs \<noteq> []" "list_all resp_wf cs" "length (chain_data cs) < 2 ^ 62"
  shows "\<exists>out f'. ngx_http_chunked_body_filter m k r f cs = (Next_body out, f') \<and>
    chain_data out =
      (if chain_data cs = [] then [] else chunk_bytes (cc_hex k (of_nat (length (chain_data cs))), chain_data cs)) @
      (if ob_last_buf (last cs) then [chr CHR ''0'', CR, LF, CR, LF] else [])"
proof -
  let ?D = "chain_data cs" and ?sz = "of_nat (length (chain_data cs)) :: u64"
  have sz: "?sz = 0 \<longleftrightarrow> ?D = []" "sint ?sz > 0 \<longleftrightarrow> ?D \<noteq> []"
  proof -
    have "unat ?sz = length ?D" "sint ?sz = int (length ?D)"
      using cs(3) by (intro unat_of_nat_u64 sint_of_nat_u64; simp)+
    then show "?sz = 0 \<longleftrightarrow> ?D = []" "sint ?sz > 0 \<longleftrightarrow> ?D \<noteq> []"
      by (simp_all add: unat_eq_0 [symmetric])
  qed
  have collect: "cb_collect m (cc_link k) 0 0 cs = Some (?sz, filter (cb_passed m) cs)"
    using cb_collect_all [OF m _ cs(2)] chunk_core_okD(1) [OF k] by simp
  obtain front f1 where front: "cb_front k f ?sz = Some (front, f1)"
    and fdata: "chain_data front = (if ?D = [] then [] else cc_hex k ?sz @ CRLF)"
  proof (cases "?D = []")
    case True
    with that show ?thesis by (simp add: cb_front_def)
  next
    case False
    obtain b f2 where "cc_get_free k f = Some (b, f2)" using chunk_core_okD(3) [OF k] by blast
    moreover obtain b' where "cb_size_buf k ?sz b = Some b'" "resp_bytes b' = cc_hex k ?sz @ CRLF"
      using cb_size_buf_data [OF k] by blast
    ultimately show ?thesis using that [of "[b']" f2] False sz(1) by (simp add: cb_front_def)
  qed
  obtain b f2 where free: "cc_get_free k f1 = Some (b, f2)" using chunk_core_okD(3) [OF k] by blast
  show ?thesis
    using cs(1) r by (simp add: ngx_http_chunked_body_filter_def collect front free Let_def fdata sz
        cb_clear_last_data chain_data_passed [OF m] chunk_bytes_def)
qed


subsection \<open>Responses are read back\<close>

text \<open>The bytes handed on by the calls of the filter for one response.\<close>

fun chunked_body_calls :: "buf_macros \<Rightarrow> 'f chunk_core \<Rightarrow> chunked_request \<Rightarrow> 'f \<Rightarrow> resp_buf list list \<Rightarrow> u8 list" where
  "chunked_body_calls m k r f [] = []"
| "chunked_body_calls m k r f (cs # css) =
    (case ngx_http_chunked_body_filter m k r f cs of
       (Next_body out, f') \<Rightarrow> chain_data out @ chunked_body_calls m k r f' css
     | (Body_rc rc, f') \<Rightarrow> chunked_body_calls m k r f' css)"

text \<open>A chain of a response; \<open>last\<close> says whether it is the last one.\<close>

definition response_chain :: "bool \<Rightarrow> resp_buf list \<Rightarrow> bool" where
  "response_chain is_last cs \<longleftrightarrow> cs \<noteq> [] \<and> list_all resp_wf cs \<and> (ob_last_buf (last cs) \<longleftrightarrow> is_last)"

lemma chunked_calls_body:
  assumes m: "buf_macros_spec m" and k: "chunk_core_ok k" and r: "cr_chunked r" "\<not> cr_header_only r"
    and "list_all (response_chain False) css" "response_chain True cs"
    and "length (chain_data (concat (css @ [cs]))) < 2 ^ 62"
  shows "\<exists>chunks. chunked_body_calls m k r f (css @ [cs]) = chunked_body chunks \<and> list_all chunk_wf chunks \<and>
    concat (map snd chunks) = chain_data (concat (css @ [cs]))"
proof -
  let ?hex = "\<lambda>D. cc_hex k (of_nat (length D))"
  have wf: "chunk_wf (?hex D, D)" if "D \<noteq> []" "length D < 2 ^ 62" for D
  proof -
    have u: "unat (of_nat (length D) :: u64) = length D" using that(2) by (intro unat_of_nat_u64) simp
    then have "(of_nat (length D) :: u64) \<noteq> 0" using that(1) by (metis length_0_conv unat_0)
    from chunk_core_okD(4) [OF k this] u that show ?thesis by (simp add: chunk_wf_def)
  qed
  show ?thesis
    using assms(5,7)
  proof (induction css arbitrary: f)
    case Nil
    let ?D = "chain_data cs"
    from Nil have len: "length ?D < 2 ^ 62" by simp
    from chunked_call [OF m k r _ _ len, of f] assms(6) obtain out f'
      where call: "ngx_http_chunked_body_filter m k r f cs = (Next_body out, f')"
        "chain_data out = (if ?D = [] then [] else chunk_bytes (?hex ?D, ?D)) @ [chr CHR ''0'', CR, LF, CR, LF]"
      by (auto simp: response_chain_def)
    show ?case
      by (rule exI [of _ "if ?D = [] then [] else [(?hex ?D, ?D)]"])
        (simp add: call chunked_body_def wf [OF _ len])
  next
    case (Cons c css)
    let ?D = "chain_data c"
    from Cons.prems have len: "length ?D < 2 ^ 62" "length (chain_data (concat (css @ [cs]))) < 2 ^ 62" by simp_all
    from chunked_call [OF m k r _ _ len(1), of f] Cons.prems(1) obtain out f'
      where call: "ngx_http_chunked_body_filter m k r f c = (Next_body out, f')"
        "chain_data out = (if ?D = [] then [] else chunk_bytes (?hex ?D, ?D))"
      by (auto simp: response_chain_def)
    obtain chunks where IH: "chunked_body_calls m k r f' (css @ [cs]) = chunked_body chunks" "list_all chunk_wf chunks"
      "concat (map snd chunks) = chain_data (concat (css @ [cs]))"
      using Cons.IH [OF _ len(2)] Cons.prems(1) by auto
    show ?case
      by (rule exI [of _ "(if ?D = [] then [] else [(?hex ?D, ?D)]) @ chunks"])
        (use IH in \<open>simp add: call chunked_body_def wf [OF _ len(1)]\<close>)
  qed
qed

text \<open>
  C18: A chunked response arrives. Let the chains of a response, in memory, in files and with flushes between,
  be given to the chunked body filter one after the other, \<open>last_buf\<close> on the last buffer of the last
  one. If the bytes it hands on reach nginx's own decoder in any buffers and reads, this accepts
  them and gets the bytes of the response, no more and no less, and its end.
\<close>

theorem chunked_response_roundtrip:
  assumes "buf_macros_spec m" and "chunk_core_ok k" and "cr_chunked r" and "\<not> cr_header_only r"
    and "list_all (response_chain False) css" and "response_chain True cs"
    and "length (chain_data (concat (css @ [cs]))) < 2 ^ 62"
    and "concat (map chain_bytes (bss @ [bs @ [b]])) = chunked_body_calls m k r f (css @ [cs])" and "buf_bytes b \<noteq> []"
    and "list_all (list_all buf_wf) bss" and "list_all buf_wf (bs @ [b])" and "rb_rest rb = -1"
  shows "\<exists>rb' os. chunked_filter_calls 0 (bss @ [bs @ [b]]) rb = Some (Filter_ok, rb', os) \<and>
    out_data os = chain_data (concat (css @ [cs])) \<and> rb_rest rb' = 0"
proof -
  from chunked_calls_body [OF assms(1-7), of f] obtain chunks
    where c: "chunked_body_calls m k r f (css @ [cs]) = chunked_body chunks" "list_all chunk_wf chunks"
      "concat (map snd chunks) = chain_data (concat (css @ [cs]))" by blast
  from chunked_filter_decodes [OF c(2) assms(12) assms(8) [unfolded c(1)] assms(9-11)] c(3) show ?thesis by auto
qed


subsection \<open>An example\<close>

definition hex_digit :: "nat \<Rightarrow> u8" where
  "hex_digit n = (if n < 10 then of_nat (48 + n) else of_nat (87 + n))"

fun hex_text :: "nat \<Rightarrow> u8 list" where
  "hex_text n = (if n < 16 then [hex_digit n] else hex_text (n div 16) @ [hex_digit (n mod 16)])"

declare hex_text.simps [simp del]

lemma hex_digit_value:
  assumes "n < 16"
  shows "is_hex (hex_digit n)" "unat (hex_val (hex_digit n)) = n"
proof -
  have "list_all (\<lambda>n. is_hex (hex_digit n) \<and> unat (hex_val (hex_digit n)) = n) [0..<16]" by code_simp
  with assms show "is_hex (hex_digit n)" "unat (hex_val (hex_digit n)) = n" by (simp_all add: list_all_iff)
qed

lemma hex_text_value: "list_all is_hex (hex_text n) \<and> hex_num (hex_text n) = n"
proof (induction n rule: hex_text.induct)
  case (1 n)
  have one: "hex_num [hex_digit n] = n" if "n < 16"
    using hex_digit_value(2) [OF that] hex_num_simps(2) [of "[]" "hex_digit n"] by simp
  show ?case
  proof (cases "n < 16")
    case True
    then show ?thesis by (subst (1 2) hex_text.simps) (simp add: hex_digit_value one)
  next
    case False
    with 1 show ?thesis by (subst (1 2) hex_text.simps) (simp add: hex_digit_value)
  qed
qed

text \<open>A core that always gives a new buffer.\<close>

definition plain_chunk_core :: "unit chunk_core" where
  "plain_chunk_core = \<lparr>cc_link = \<lambda>_. True, cc_palloc = True, cc_get_free = \<lambda>_. Some (calloc_buf, ()), cc_update = \<lambda>_ _. (),
     cc_hex = \<lambda>w. hex_text (unat w)\<rparr>"

lemma plain_chunk_core_ok: "chunk_core_ok plain_chunk_core"
  by (simp add: chunk_core_ok_def plain_chunk_core_def hex_text_value)

definition response_example :: "resp_buf list list" where
  "response_example =
    [[calloc_buf\<lparr>ob_memory := True, ob_mem := bytes ''hi'', ob_last := 2\<rparr>], [calloc_buf\<lparr>ob_flush := True\<rparr>]]"

definition response_example_end :: "resp_buf list" where
  "response_example_end =
    [calloc_buf\<lparr>ob_in_file := True, ob_file := bytes ''0123456789'', ob_file_last := 10\<rparr>, calloc_buf\<lparr>ob_last_buf := True\<rparr>]"

definition chunked_example :: chunked_request where
  "chunked_example = \<lparr>cr_main = True, cr_method = 2, cr_http_version = 1001, cr_keepalive = True, cr_chunked = True,
     cr_header_only = False\<rparr>"

lemma response_example_facts:
  "chain_data (concat (response_example @ [response_example_end])) = bytes ''hi0123456789''"
  "list_all (response_chain False) response_example" "response_chain True response_example_end"
  "chunked_body_calls plain_macros plain_chunk_core chunked_example () (response_example @ [response_example_end]) =
     bytes ''2'' @ CRLF @ bytes ''hi'' @ CRLF @ bytes ''a'' @ CRLF @ bytes ''0123456789'' @ CRLF @ bytes ''0'' @ CRLF @ CRLF"
  subgoal by code_simp
  subgoal by code_simp
  subgoal by code_simp
  subgoal by code_simp
  done

text \<open>Two bytes, a flush and ten bytes from a file; the receiver reads 8 bytes and then the rest.\<close>

theorem chunked_response_roundtrip_witness:
  "\<exists>rb' os. chunked_filter_calls 0
      ([[\<lparr>buf_mem = bytes ''2'' @ [CR, LF] @ bytes ''hi'' @ [CR, LF] @ bytes ''a'', buf_pos = 0, buf_last = 8\<rparr>]] @
       [[] @ [\<lparr>buf_mem = [CR, LF] @ bytes ''0123456789'' @ [CR, LF] @ bytes ''0'' @ [CR, LF, CR, LF],
               buf_pos = 0, buf_last = 19\<rparr>]])
      \<lparr>rb_rest = -1, rb_chunked = \<lparr>ck_state_f = ck_sw_trailer, ck_size = 7, ck_length_f = 0\<rparr>, rb_content_length_n = -1\<rparr>
     = Some (Filter_ok, rb', os) \<and>
    out_data os = chain_data (concat (response_example @ [response_example_end])) \<and> rb_rest rb' = 0"
  by (rule chunked_response_roundtrip [OF plain_macros_spec plain_chunk_core_ok, where r = chunked_example and f = "()"])
    (simp_all only: response_example_facts, simp_all add: chunked_example_def seg_def buf_wf_def bytes_def)

end
