(* ===== verification/Basic_Sort.thy ===== *)
theory Basic_Sort
  imports Main "HOL-Library.Multiset"
begin

text \<open>
  The sorting programs of \<open>src/c/basic_sort\<close>: \<open>bubble_sort\<close>, \<open>insertion_sort\<close>, \<open>select_sort\<close> and
  \<open>quick_sort\<close>, on an array \<open>int *data\<close> of which the first \<open>num\<close> elements are sorted in place.
  The array is a list, and an assignment \<open>data[i] = v\<close> an update of it. Elements are only
  compared and copied, so the width of \<open>int\<close> does not matter for them.

  A null pointer is \<open>None\<close>; the result is \<open>None\<close> for \<open>FALSE\<close> and the array for \<open>TRUE\<close>.
  \<open>show_data_tree\<close> only prints the array and is left out.
\<close>

type_synonym array = "int list"

subsection \<open>Bubble sort\<close>

text \<open>The inner loop: one pass over \<open>data[0 .. i-1]\<close>, with the flag \<open>swap\<close>.\<close>

function bubble_pass :: "array \<Rightarrow> nat \<Rightarrow> nat \<Rightarrow> bool \<Rightarrow> array \<times> bool" where
  "bubble_pass data j i swap =
    (if j < i - 1
     then if data ! j > data ! (j + 1)
       then bubble_pass (data[j := data ! (j + 1), j + 1 := data ! j]) (j + 1) i True
       else bubble_pass data (j + 1) i swap
     else (data, swap))"
  by pat_completeness auto
termination by (relation "measure (\<lambda>(data, j, i, swap). i - j)") auto

declare bubble_pass.simps [simp del]

fun bubble_loop :: "array \<Rightarrow> nat \<Rightarrow> bool \<Rightarrow> array" where
  "bubble_loop data 0 swap = data"
| "bubble_loop data (Suc i) swap =
     (if \<not> swap then data
      else case bubble_pass data 0 (Suc i) False of (data', swap') \<Rightarrow> bubble_loop data' i swap')"

definition bubble_sort :: "array option \<Rightarrow> int \<Rightarrow> array option" where
  "bubble_sort data num = map_option (\<lambda>d. bubble_loop d (nat num) True) data"

subsection \<open>Selection sort\<close>

text \<open>The inner loop: the least element of \<open>data[i .. num-1]\<close> and its index.\<close>

function select_min :: "array \<Rightarrow> nat \<Rightarrow> nat \<Rightarrow> int \<Rightarrow> nat \<Rightarrow> int \<times> nat" where
  "select_min data j num tmp index =
    (if j < num
     then if data ! j < tmp then select_min data (j + 1) num (data ! j) j
       else select_min data (j + 1) num tmp index
     else (tmp, index))"
  by pat_completeness auto
termination by (relation "measure (\<lambda>(data, j, num, tmp, index). num - j)") auto

declare select_min.simps [simp del]

definition select_step :: "array \<Rightarrow> nat \<Rightarrow> nat \<Rightarrow> array" where
  "select_step data num i =
    (case select_min data (i + 1) num (data ! i) i of (tmp, index) \<Rightarrow>
      if index \<noteq> i then data[index := data ! i, i := tmp] else data)"

definition select_sort :: "array option \<Rightarrow> int \<Rightarrow> array option" where
  "select_sort data num = map_option (fold (\<lambda>i d. select_step d (nat num) i) [0..<nat num]) data"

subsection \<open>Insertion sort\<close>

text \<open>The place of \<open>data[i]\<close>: the loop \<open>while (j > 0 && data[j] >= data[i])\<close>.\<close>

fun insertion_place :: "array \<Rightarrow> nat \<Rightarrow> nat \<Rightarrow> nat" where
  "insertion_place data i 0 = 0"
| "insertion_place data i (Suc j) =
     (if data ! Suc j \<ge> data ! i
      then if data ! j < data ! i then Suc j else insertion_place data i j
      else Suc j)"

text \<open>\<open>while (tmp_i > j) { data[tmp_i] = data[tmp_i-1]; tmp_i--; }\<close>\<close>

function insertion_shift :: "array \<Rightarrow> nat \<Rightarrow> nat \<Rightarrow> array" where
  "insertion_shift data tmp_i j =
    (if tmp_i > j then insertion_shift (data[tmp_i := data ! (tmp_i - 1)]) (tmp_i - 1) j else data)"
  by pat_completeness auto
termination by (relation "measure (\<lambda>(data, tmp_i, j). tmp_i - j)") auto

declare insertion_shift.simps [simp del]

definition insertion_step :: "array \<Rightarrow> nat \<Rightarrow> array" where
  "insertion_step data i =
    (let j = insertion_place data i i in
     if j < i then (insertion_shift data i j)[j := data ! i] else data)"

definition insertion_sort :: "array option \<Rightarrow> int \<Rightarrow> array option" where
  "insertion_sort data num = map_option (fold (\<lambda>i d. insertion_step d i) [0..<nat num]) data"

subsection \<open>Quicksort\<close>

text \<open>The two inner loops, which move \<open>high\<close> down and \<open>low\<close> up.\<close>

function quick_high :: "array \<Rightarrow> int \<Rightarrow> nat \<Rightarrow> nat \<Rightarrow> nat" where
  "quick_high data key low high =
    (if low < high \<and> data ! high > key then quick_high data key low (high - 1) else high)"
  by pat_completeness auto
termination by (relation "measure (\<lambda>(data, key, low, high). high)") auto

function quick_low :: "array \<Rightarrow> int \<Rightarrow> nat \<Rightarrow> nat \<Rightarrow> nat" where
  "quick_low data key low high =
    (if low < high \<and> data ! low < key then quick_low data key (low + 1) high else low)"
  by pat_completeness auto
termination by (relation "measure (\<lambda>(data, key, low, high). high - low)") auto

declare quick_high.simps [simp del] quick_low.simps [simp del]

text \<open>One round of the partition loop.\<close>

definition quick_round :: "array \<Rightarrow> int \<Rightarrow> nat \<Rightarrow> nat \<Rightarrow> array \<times> nat \<times> nat" where
  "quick_round data key low high =
    (let h = quick_high data key low high;
         data1 = data[low := data ! h];
         l = quick_low data1 key low h;
         data2 = data1[h := data1 ! l] in
     (data2, l, if h = high \<and> l = low then h - 1 else h))"

lemma quick_high_range: "low \<le> high \<Longrightarrow> low \<le> quick_high data key low high \<and> quick_high data key low high \<le> high"
proof (induction data key low high rule: quick_high.induct)
  case (1 data key low high)
  show ?case
  proof (cases "low < high \<and> data ! high > key")
    case True
    then have "quick_high data key low high = quick_high data key low (high - 1)" by (subst quick_high.simps) simp
    moreover have "low \<le> high - 1" "high - 1 \<le> high" using True by auto
    ultimately show ?thesis using "1.IH" [OF True] by (metis le_trans)
  next
    case False
    then have "quick_high data key low high = high" by (subst quick_high.simps) auto
    with "1.prems" show ?thesis by simp
  qed
qed

lemma quick_low_range: "low \<le> high \<Longrightarrow> low \<le> quick_low data key low high \<and> quick_low data key low high \<le> high"
proof (induction data key low high rule: quick_low.induct)
  case (1 data key low high)
  show ?case
  proof (cases "low < high \<and> data ! low < key")
    case True
    then have "quick_low data key low high = quick_low data key (low + 1) high" by (subst quick_low.simps) simp
    with "1.IH" [OF True] True show ?thesis by simp
  next
    case False
    then have "quick_low data key low high = low" by (subst quick_low.simps) auto
    with "1.prems" show ?thesis by simp
  qed
qed

lemma quick_round_range:
  assumes "quick_round data key low high = (data', l, h)" and "low < high"
  shows "low \<le> l" "l \<le> h" "h \<le> high" "h - l < high - low"
proof -
  define h0 where "h0 = quick_high data key low high"
  define l0 where "l0 = quick_low (data[low := data ! h0]) key low h0"
  have "low \<le> h0" "h0 \<le> high" using quick_high_range [of low high data key] assms(2) by (simp_all add: h0_def)
  moreover have "low \<le> l0" "l0 \<le> h0"
    using quick_low_range [OF \<open>low \<le> h0\<close>, of "data[low := data ! h0]" key] by (simp_all add: l0_def)
  moreover have "l = l0" "h = (if h0 = high \<and> l0 = low then h0 - 1 else h0)"
    using assms(1) by (auto simp: quick_round_def Let_def h0_def l0_def)
  ultimately show "low \<le> l" "l \<le> h" "h \<le> high" "h - l < high - low" using assms(2) by (auto split: if_splits)
qed

function quick_partition :: "array \<Rightarrow> int \<Rightarrow> nat \<Rightarrow> nat \<Rightarrow> array \<times> nat" where
  "quick_partition data key low high =
    (if low < high
     then case quick_round data key low high of (data', l, h) \<Rightarrow> quick_partition data' key l h
     else (data[low := key], low))"
  by pat_completeness auto
termination
  by (relation "measure (\<lambda>(data, key, low, high). high - low)") (auto dest: quick_round_range(4) [OF sym])

declare quick_partition.simps [simp del]

lemma quick_partition_range:
  "low \<le> high \<Longrightarrow> low \<le> snd (quick_partition data key low high) \<and> snd (quick_partition data key low high) \<le> high"
proof (induction data key low high rule: quick_partition.induct)
  case (1 data key low high)
  show ?case
  proof (cases "low < high")
    case True
    obtain data' l h where r: "quick_round data key low high = (data', l, h)" by (metis prod_cases3)
    have "quick_partition data key low high = quick_partition data' key l h"
      using True r by (subst quick_partition.simps) simp
    with "1.IH" [OF True r [symmetric] refl] quick_round_range [OF r True] show ?thesis by simp
  next
    case False
    with "1.prems" show ?thesis by (subst (1 2) quick_partition.simps) simp
  qed
qed

text \<open>The recursion; \<open>right\<close> may become -1, \<open>left\<close> is an index from the first call on.\<close>

function quick_sort_rec :: "array \<Rightarrow> nat \<Rightarrow> int \<Rightarrow> array" where
  "quick_sort_rec data left right =
    (if int left \<ge> right then data
     else case quick_partition data (data ! left) left (nat right) of (data', low) \<Rightarrow>
       quick_sort_rec (quick_sort_rec data' left (int low - 1)) (low + 1) right)"
  by pat_completeness auto
termination
proof (relation "measure (\<lambda>(data, left, right). nat (right - int left))", goal_cases)
  case (2 data left right x low)
  then have "snd (x, low) = snd (quick_partition data (data ! left) left (nat right))" "left \<le> nat right" by auto
  with quick_partition_range [of left "nat right" data "data ! left"] have "left \<le> low" "low \<le> nat right" by auto
  with 2 show ?case by auto
next
  case (3 data left right x low)
  then have "snd (x, low) = snd (quick_partition data (data ! left) left (nat right))" "left \<le> nat right" by auto
  with quick_partition_range [of left "nat right" data "data ! left"] have "left \<le> low" "low \<le> nat right" by auto
  with 3 show ?case by auto
qed simp

declare quick_sort_rec.simps [simp del]

definition quick_sort :: "array option \<Rightarrow> nat \<Rightarrow> int \<Rightarrow> array option" where
  "quick_sort data left right = map_option (\<lambda>d. quick_sort_rec d left right) data"

subsection \<open>What sorting in place means\<close>

text \<open>An array is a permutation of another one that keeps what lies outside of \<open>[lo, hi)\<close>.\<close>

definition perm_within :: "nat \<Rightarrow> nat \<Rightarrow> array \<Rightarrow> array \<Rightarrow> bool" where
  "perm_within lo hi d d' \<longleftrightarrow> mset d' = mset d \<and> (\<forall>k < length d. k < lo \<or> hi \<le> k \<longrightarrow> d' ! k = d ! k)"

definition sorted_within :: "nat \<Rightarrow> nat \<Rightarrow> array \<Rightarrow> bool" where
  "sorted_within lo hi d \<longleftrightarrow> (\<forall>i j. lo \<le> i \<and> i \<le> j \<and> j < hi \<longrightarrow> d ! i \<le> d ! j)"

lemma perm_within_refl [simp]: "perm_within lo hi d d"
  by (simp add: perm_within_def)

lemma perm_within_length: "perm_within lo hi d d' \<Longrightarrow> length d' = length d"
  by (metis perm_within_def size_mset)

lemma perm_within_trans [trans]:
  "perm_within lo hi d d' \<Longrightarrow> perm_within lo hi d' d'' \<Longrightarrow> perm_within lo hi d d''"
  using perm_within_length [of lo hi d d'] by (auto simp: perm_within_def)

lemma perm_within_mono: "perm_within lo hi d d' \<Longrightarrow> lo' \<le> lo \<Longrightarrow> hi \<le> hi' \<Longrightarrow> perm_within lo' hi' d d'"
  by (auto simp: perm_within_def)

lemma perm_within_swap:
  assumes "lo \<le> i" and "i < hi" and "lo \<le> j" and "j < hi" and "hi \<le> length d"
  shows "perm_within lo hi d (d[i := d ! j, j := d ! i])"
  using assms by (auto simp: perm_within_def mset_swap nth_list_update)

lemma perm_within_take_drop:
  assumes "perm_within lo hi d d'" and "lo \<le> hi" and "hi \<le> length d"
  shows "take lo d' = take lo d" "drop hi d' = drop hi d"
    "mset (drop lo (take hi d')) = mset (drop lo (take hi d))"
proof -
  note len = perm_within_length [OF assms(1)]
  show t: "take lo d' = take lo d"
    using assms len by (intro nth_equalityI) (auto simp: perm_within_def)
  show e: "drop hi d' = drop hi d"
    using assms len by (intro nth_equalityI) (auto simp: perm_within_def)
  have split: "mset x = mset (take lo x) + mset (drop lo (take hi x)) + mset (drop hi x)" for x :: array
    using assms(2) by (metis append_take_drop_id min.absorb1 mset_append take_take)
  show "mset (drop lo (take hi d')) = mset (drop lo (take hi d))"
    using assms(1) split [of d] split [of d'] t e by (simp add: perm_within_def)
qed

text \<open>The elements of a segment stay bounded by what bounds them.\<close>

lemma perm_within_bounds:
  assumes "perm_within lo hi d d'" and "hi \<le> length d" and "\<And>k. lo \<le> k \<Longrightarrow> k < hi \<Longrightarrow> P (d ! k)"
    and "lo \<le> i" and "i < hi"
  shows "P (d' ! i)"
proof -
  note len = perm_within_length [OF assms(1)]
  have "d' ! i = drop lo (take hi d') ! (i - lo)" "i - lo < length (drop lo (take hi d'))"
    using assms(2,4,5) len by simp_all
  then have "d' ! i \<in># mset (drop lo (take hi d'))" by (metis nth_mem set_mset_mset)
  then have "d' ! i \<in> set (drop lo (take hi d))"
    using perm_within_take_drop(3) [OF assms(1) _ assms(2)] assms(4,5) by simp
  then obtain k where "k < hi - lo" "d' ! i = d ! (lo + k)" using assms(2) by (auto simp: in_set_conv_nth)
  with assms(3) [of "lo + k"] show ?thesis by simp
qed

lemma sorted_within_eq_sort:
  assumes "perm_within lo hi d d'" and "sorted_within lo hi d'" and "lo \<le> hi" and "hi \<le> length d"
  shows "d' = take lo d @ sort (drop lo (take hi d)) @ drop hi d"
proof -
  note len = perm_within_length [OF assms(1)] and pt = perm_within_take_drop [OF assms(1,3,4)]
  have "sorted (drop lo (take hi d'))"
    using assms(2,4) len by (auto simp: sorted_iff_nth_mono sorted_within_def)
  then have "sort (drop lo (take hi d)) = drop lo (take hi d')" using pt(3) by (metis properties_for_sort)
  moreover have "d' = take lo d' @ drop lo (take hi d') @ drop hi d'"
    using assms(3) by (metis append.assoc append_take_drop_id min.absorb1 take_take)
  ultimately show ?thesis using pt(1,2) by simp
qed

lemma sorted_prefix:
  assumes "perm_within 0 num d d'" and "sorted_within 0 num d'" and "num \<le> length d"
  shows "d' = sort (take num d) @ drop num d"
  using sorted_within_eq_sort [OF assms(1,2) _ assms(3)] by simp

text \<open>
  What the four functions promise their caller: \<open>FALSE\<close> for a null pointer, otherwise the first \<open>num\<close>
  elements permuted into ascending order.
\<close>

locale in_place_sort =
  fixes srt :: "array option \<Rightarrow> int \<Rightarrow> array option"
  assumes null: "srt None num = None"
    and perm: "num \<le> int (length d) \<Longrightarrow>
      \<exists>d'. srt (Some d) num = Some d' \<and> perm_within 0 (nat num) d d' \<and> sorted_within 0 (nat num) d'"
begin

lemma is_sort:
  assumes "num \<le> int (length d)"
  shows "srt (Some d) num = Some (sort (take (nat num) d) @ drop (nat num) d)"
  using perm [OF assms] sorted_prefix [of "nat num" d] assms by auto

lemma again:
  assumes "num \<le> int (length d)"
  shows "Option.bind (srt (Some d) num) (\<lambda>d'. srt (Some d') num) = srt (Some d) num"
  using assms by (simp add: is_sort sort_key_id_if_sorted)

end

subsection \<open>Quicksort\<close>

lemma quick_high_stop:
  assumes "low \<le> high"
  shows "\<And>k. quick_high data key low high < k \<Longrightarrow> k \<le> high \<Longrightarrow> key < data ! k"
  using assms
proof (induction data key low high rule: quick_high.induct)
  case (1 data key low high)
  show ?case
  proof (cases "low < high \<and> data ! high > key")
    case True
    then have e: "quick_high data key low high = quick_high data key low (high - 1)" by (subst quick_high.simps) simp
    show ?thesis
    proof (cases "k = high")
      case False
      then have "k \<le> high - 1" "low \<le> high - 1" using "1.prems" True by auto
      then show ?thesis using "1.IH" [OF True, of k] "1.prems"(1) e by simp
    qed (use True in simp)
  next
    case False
    then have "quick_high data key low high = high" by (subst quick_high.simps) auto
    with "1.prems" show ?thesis by simp
  qed
qed

lemma quick_low_stop:
  assumes "low \<le> high"
  shows "(\<forall>k. low \<le> k \<and> k < quick_low data key low high \<longrightarrow> data ! k < key) \<and>
    (quick_low data key low high < high \<longrightarrow> key \<le> data ! quick_low data key low high)"
  using assms
proof (induction data key low high rule: quick_low.induct)
  case (1 data key low high)
  show ?case
  proof (cases "low < high \<and> data ! low < key")
    case True
    then have "quick_low data key low high = quick_low data key (low + 1) high" by (subst quick_low.simps) simp
    moreover have "(\<forall>k. low + 1 \<le> k \<and> k < quick_low data key (low + 1) high \<longrightarrow> data ! k < key) \<and>
      (quick_low data key (low + 1) high < high \<longrightarrow> key \<le> data ! quick_low data key (low + 1) high)"
      using "1.IH" [OF True] True by simp
    moreover have "k = low \<or> low + 1 \<le> k" if "low \<le> k" for k using that by auto
    ultimately show ?thesis using True by metis
  next
    case False
    then have "quick_low data key low high = low" by (subst quick_low.simps) auto
    with False show ?thesis by auto
  qed
qed

text \<open>
  The invariant of the partition loop: what lies before \<open>low\<close> is at most the key and what lies after
  \<open>high\<close> at least, and the place \<open>low\<close> is free for the key.
\<close>

definition quick_inv :: "nat \<Rightarrow> nat \<Rightarrow> int \<Rightarrow> array \<Rightarrow> nat \<Rightarrow> nat \<Rightarrow> bool" where
  "quick_inv left right key d low high \<longleftrightarrow> left \<le> low \<and> low \<le> high \<and> high \<le> right \<and> right < length d \<and>
     (\<forall>k. left \<le> k \<and> k < low \<longrightarrow> d ! k \<le> key) \<and> (\<forall>k. high < k \<and> k \<le> right \<longrightarrow> key \<le> d ! k)"

lemma quick_round_inv:
  assumes "quick_round d key low high = (d2, l, h2)" and "quick_inv left right key d low high" and "low < high"
  shows "perm_within left (Suc right) (d[low := key]) (d2[l := key]) \<and> quick_inv left right key d2 l h2"
proof -
  define h where "h = quick_high d key low high"
  define d1 where "d1 = d[low := d ! h]"
  have l: "l = quick_low d1 key low h" "d2 = d1[h := d1 ! l]" "h2 = (if h = high \<and> l = low then h - 1 else h)"
    using assms(1) by (auto simp: quick_round_def Let_def h_def d1_def)
  have i: "left \<le> low" "high \<le> right" "right < length d"
      "\<And>k. left \<le> k \<Longrightarrow> k < low \<Longrightarrow> d ! k \<le> key" "\<And>k. high < k \<Longrightarrow> k \<le> right \<Longrightarrow> key \<le> d ! k"
    using assms(2) by (auto simp: quick_inv_def)
  have h: "low \<le> h" "h \<le> high" using quick_high_range [of low high d key] assms(3) by (simp_all add: h_def)
  have lr: "low \<le> l" "l \<le> h" using quick_low_range [OF h(1), of d1 key] by (simp_all add: l(1))
  have len: "length d1 = length d" by (simp add: d1_def)
  have "perm_within left (Suc right) (d[low := key]) (d1[h := key])"
    using perm_within_swap [of left low "Suc right" h "d[low := key]"] i h assms(3)
    by (cases "h = low") (simp_all add: d1_def)
  also have "perm_within left (Suc right) (d1[h := key]) (d2[l := key])"
    using perm_within_swap [of left h "Suc right" l "d1[h := key]"] i h lr len
    by (cases "h = l") (simp_all add: l(2))
  finally have "perm_within left (Suc right) (d[low := key]) (d2[l := key])" .
  moreover have "d2 ! k \<le> key" if "left \<le> k" "k < l" for k
  proof (cases "k < low")
    case True
    then show ?thesis using i(4) that lr h by (simp add: l(2) d1_def)
  next
    case False
    then have "d1 ! k < key" using quick_low_stop [OF h(1), of d1 key] that by (simp add: l(1))
    then show ?thesis using that lr by (simp add: l(2))
  qed
  moreover have "key \<le> d2 ! k" if "h2 < k" "k \<le> right" for k
  proof (cases "k = h")
    case True
    then have "h = high" "l = low" using that l(3) by (auto split: if_splits)
    then have "key \<le> d1 ! l" using quick_low_stop [OF h(1), of d1 key, folded l(1)] assms(3) by simp
    then show ?thesis using True i h len by (simp add: l(2))
  next
    case False
    then have "h < k" using that l(3) by (auto split: if_splits)
    moreover have "key \<le> d ! k"
    proof (cases "k \<le> high")
      case True
      then show ?thesis using quick_high_stop [of low high d key k] \<open>h < k\<close> assms(3) by (simp add: h_def)
    qed (use i(5) that in simp)
    ultimately show ?thesis using h by (simp add: l(2) d1_def)
  qed
  moreover have "l \<le> h2" "h2 \<le> right" using lr h i l(3) assms(3) by (auto split: if_splits)
  moreover have "right < length d2" using i(3) len by (simp add: l(2))
  ultimately show ?thesis using i(1) lr by (auto simp: quick_inv_def)
qed

lemma quick_partition_spec:
  assumes "quick_inv left right key d low high" and "quick_partition d key low high = (d', m)"
  shows "perm_within left (Suc right) (d[low := key]) d' \<and> quick_inv left right key d' m m \<and> d' ! m = key"
  using assms
proof (induction d key low high rule: quick_partition.induct)
  case (1 d key low high)
  show ?case
  proof (cases "low < high")
    case True
    obtain d2 l h where r: "quick_round d key low high = (d2, l, h)" by (metis prod_cases3)
    have "quick_partition d key low high = quick_partition d2 key l h"
      using True r by (subst quick_partition.simps) simp
    with "1.IH" [OF True r [symmetric] refl] "1.prems" quick_round_inv [OF r "1.prems"(1) True]
    show ?thesis by (auto intro: perm_within_trans)
  next
    case False
    then have "quick_partition d key low high = (d[low := key], low)" by (subst quick_partition.simps) simp
    with False "1.prems" show ?thesis by (auto simp: quick_inv_def nth_list_update)
  qed
qed

text \<open>The recursion: both parts are sorted, and the key stands between them.\<close>

lemma quick_sort_rec_sorts:
  assumes "right < int (length d)"
  shows "perm_within left (nat (right + 1)) d (quick_sort_rec d left right) \<and>
    sorted_within left (nat (right + 1)) (quick_sort_rec d left right)"
  using assms
proof (induction d left right rule: quick_sort_rec.induct)
  case (1 d left right)
  show ?case
  proof (cases "int left \<ge> right")
    case True
    then have "quick_sort_rec d left right = d" by (subst quick_sort_rec.simps) simp
    moreover have "sorted_within left (nat (right + 1)) d"
    proof -
      have "i = j" if "left \<le> i" "i \<le> j" "j < nat (right + 1)" for i j using that True by linarith
      then show ?thesis by (auto simp: sorted_within_def)
    qed
    ultimately show ?thesis by simp
  next
    case False
    define r where "r = nat right"
    have r: "right = int r" "left < r" "r < length d" "nat (right + 1) = Suc r"
      using False "1.prems" by (auto simp: r_def)
    obtain d1 m where p: "quick_partition d (d ! left) left r = (d1, m)" by fastforce
    have p': "(d1, m) = quick_partition d (d ! left) left (nat right)" using p by (simp add: r_def)
    have inv: "quick_inv left r (d ! left) d left r" using r by (auto simp: quick_inv_def)
    note spec = quick_partition_spec [OF inv p]
    have p1: "perm_within left (Suc r) d d1" using spec by simp
    have m: "left \<le> m" "m \<le> r" "\<And>k. left \<le> k \<Longrightarrow> k < m \<Longrightarrow> d1 ! k \<le> d ! left"
        "\<And>k. m < k \<Longrightarrow> k \<le> r \<Longrightarrow> d ! left \<le> d1 ! k" "d1 ! m = d ! left"
      using spec by (auto simp: quick_inv_def)
    define d2 where "d2 = quick_sort_rec d1 left (int m - 1)"
    define d3 where "d3 = quick_sort_rec d2 (m + 1) right"
    have q: "quick_sort_rec d left right = d3"
      using False p' [symmetric] by (subst quick_sort_rec.simps) (simp add: d2_def d3_def)
    have len1: "length d1 = length d" by (rule perm_within_length [OF p1])
    have s2: "perm_within left m d1 d2 \<and> sorted_within left m d2"
      using "1.IH"(1) [OF False p'] m(2) r(3) len1 by (simp add: d2_def)
    then have len2: "length d2 = length d" using len1 perm_within_length by metis
    have s3: "perm_within (m + 1) (Suc r) d2 d3 \<and> sorted_within (m + 1) (Suc r) d3"
      using "1.IH"(2) [OF False p'] "1.prems" r(4) len2 by (simp add: d2_def d3_def)
    have "perm_within left (Suc r) d d3"
      using p1 s2 s3 perm_within_mono [of left m d1 d2 left "Suc r"] perm_within_mono [of "m + 1" "Suc r" d2 d3 left "Suc r"] m(1,2)
      by (meson le_SucI le_trans order_refl perm_within_trans trans_le_add1)
    moreover have "sorted_within left (Suc r) d3"
    proof -
      have low: "d3 ! k = d2 ! k" if "k \<le> m" for k using s3 that m(2) r(3) len2 by (simp add: perm_within_def)
      have at: "d2 ! m = d ! left" "d3 ! m = d ! left" using s2 low [of m] m(2,5) r(3) len1 by (simp_all add: perm_within_def)
      have left_le: "d2 ! k \<le> d ! left" if "left \<le> k" "k < m" for k
        using perm_within_bounds [of left m d1 d2 "\<lambda>x. x \<le> d ! left" k] s2 m(2,3) r(3) len1 that by simp
      have "d2 ! k = d1 ! k" if "m < k" "k \<le> r" for k using s2 that r(3) len1 by (simp add: perm_within_def)
      then have right_ge: "d ! left \<le> d3 ! k" if "m < k" "k \<le> r" for k
        using perm_within_bounds [of "m + 1" "Suc r" d2 d3 "\<lambda>x. d ! left \<le> x" k] s3 m(4) r(3) len2 that by simp
      have "d3 ! i \<le> d3 ! j" if ij: "left \<le> i" "i \<le> j" "j < Suc r" for i j
      proof -
        consider "j < m" | "j = m" | "m < j" "i \<le> m" | "m < i" using ij by linarith
        then show ?thesis
        proof cases
          case 1
          then show ?thesis using s2 low ij by (simp add: sorted_within_def)
        next
          case 2
          then show ?thesis using at left_le [of i] low [of i] ij by (cases "i = m") simp_all
        next
          case 3
          then have "d3 ! i \<le> d ! left" using at left_le [of i] low [of i] ij by (cases "i = m") simp_all
          with right_ge [of j] 3 ij show ?thesis by simp
        next
          case 4
          then show ?thesis using s3 ij by (simp add: sorted_within_def)
        qed
      qed
      then show ?thesis by (simp add: sorted_within_def)
    qed
    ultimately show ?thesis using q r(4) by simp
  qed
qed

text \<open>
  \<open>quick_sort\<close> sorts. Called on the indices from \<open>left\<close> to \<open>right\<close> of an array it terminates, with
  the elements there in ascending order and the rest of the array untouched. It covers arrays with
  equal elements, for which the partition loop steps \<open>high\<close> down when neither index moved.
\<close>

theorem quick_sort_sorts:
  assumes "right < int (length d)" and "int left \<le> right + 1"
  shows "quick_sort (Some d) left right =
    Some (take left d @ sort (drop left (take (nat (right + 1)) d)) @ drop (nat (right + 1)) d)"
  using sorted_within_eq_sort [of left "nat (right + 1)" d "quick_sort_rec d left right"]
    quick_sort_rec_sorts [OF assms(1), of left] assms
  by (simp add: quick_sort_def)

lemma quick_sort_sorts_witness:
  "quick_sort (Some [3, 1, 3, 2, 3, 0]) 0 4 = Some [1, 2, 3, 3, 3, 0]"
  using quick_sort_sorts [of 4 "[3, 1, 3, 2, 3, 0]" 0] by simp

subsection \<open>Bubble sort\<close>

text \<open>One pass moves the largest element of \<open>[0, i)\<close> to the end; without a swap it was sorted already.\<close>

lemma bubble_pass_spec:
  assumes "bubble_pass d j i swap = (d', swap')" and "j < i" and "i \<le> length d"
    and "\<forall>k\<le>j. d ! k \<le> d ! j"
  shows "perm_within 0 i d d' \<and> (\<forall>k<i. d' ! k \<le> d' ! (i - 1)) \<and>
    (\<not> swap' \<longrightarrow> \<not> swap \<and> d' = d \<and> (\<forall>k. j \<le> k \<and> Suc k < i \<longrightarrow> d ! k \<le> d ! Suc k))"
  using assms
proof (induction d j i swap rule: bubble_pass.induct)
  case (1 d j i swap)
  show ?case
  proof (cases "j < i - 1")
    case False
    then have "j = i - 1" "d' = d" "swap' = swap" using "1.prems"(1,2) by (auto simp: bubble_pass.simps [of d])
    with "1.prems" show ?thesis by auto
  next
    case True
    show ?thesis
    proof (cases "d ! j > d ! (j + 1)")
      case swap: True
      let ?d = "d[j := d ! (j + 1), j + 1 := d ! j]"
      have r: "bubble_pass ?d (j + 1) i True = (d', swap')"
        using "1.prems"(1) True swap by (subst (asm) bubble_pass.simps) simp
      have "perm_within 0 i d ?d" using True "1.prems"(3) by (intro perm_within_swap) simp_all
      moreover have "\<forall>k\<le>j + 1. ?d ! k \<le> ?d ! (j + 1)"
        using "1.prems"(3,4) True swap by (auto simp: nth_list_update)
      then have "perm_within 0 i ?d d' \<and> (\<forall>k<i. d' ! k \<le> d' ! (i - 1)) \<and> swap'"
        using "1.IH"(1) [OF True swap r] True "1.prems"(3) by simp
      ultimately show ?thesis by (auto intro: perm_within_trans)
    next
      case no_swap: False
      have r: "bubble_pass d (j + 1) i swap = (d', swap')"
        using "1.prems"(1) True no_swap by (subst (asm) bubble_pass.simps) simp
      have "\<forall>k\<le>j + 1. d ! k \<le> d ! (j + 1)" using "1.prems"(4) no_swap by (auto simp: le_Suc_eq intro: order_trans)
      with "1.IH"(2) [OF True no_swap r] True "1.prems"(3)
      have "perm_within 0 i d d' \<and> (\<forall>k<i. d' ! k \<le> d' ! (i - 1)) \<and>
        (\<not> swap' \<longrightarrow> \<not> swap \<and> d' = d \<and> (\<forall>k. j + 1 \<le> k \<and> Suc k < i \<longrightarrow> d ! k \<le> d ! Suc k))" by simp
      moreover have "k = j \<or> j + 1 \<le> k" if "j \<le> k" for k using that by auto
      ultimately show ?thesis using no_swap by (metis Suc_eq_plus1 not_less)
    qed
  qed
qed

definition bubble_inv :: "nat \<Rightarrow> nat \<Rightarrow> array \<Rightarrow> bool" where
  "bubble_inv i num d \<longleftrightarrow> sorted_within i num d \<and> (\<forall>a b. a < i \<and> i \<le> b \<and> b < num \<longrightarrow> d ! a \<le> d ! b)"

lemma sorted_within_adjacent:
  assumes "\<forall>k. lo \<le> k \<and> Suc k < hi \<longrightarrow> d ! k \<le> d ! Suc k"
  shows "sorted_within lo hi d"
proof -
  have "d ! i \<le> d ! j" if "lo \<le> i" "i \<le> j" "j < hi" for i j
    using that(2,1,3)
  proof (induction j rule: dec_induct)
    case (step n)
    then have "d ! i \<le> d ! n" "d ! n \<le> d ! Suc n" using assms by auto
    then show ?case by simp
  qed simp
  then show ?thesis by (simp add: sorted_within_def)
qed

lemma bubble_loop_sorts:
  assumes "bubble_inv i num d" and "i \<le> num" and "num \<le> length d" and "\<not> swap \<longrightarrow> sorted_within 0 i d"
  shows "perm_within 0 num d (bubble_loop d i swap) \<and> sorted_within 0 num (bubble_loop d i swap)"
  using assms
proof (induction d i swap rule: bubble_loop.induct)
  case (1 d swap)
  then show ?case by (simp add: bubble_inv_def)
next
  case (2 d i swap)
  show ?case
  proof (cases swap)
    case False
    then have s: "sorted_within 0 (Suc i) d" using "2.prems"(4) by simp
    have "d ! a \<le> d ! b" if "a \<le> b" "b < num" for a b
    proof -
      consider "b < Suc i" | "a < Suc i" "Suc i \<le> b" | "Suc i \<le> a" using that by linarith
      then show ?thesis using s "2.prems"(1) that by cases (auto simp: bubble_inv_def sorted_within_def)
    qed
    with False show ?thesis by (simp add: sorted_within_def)
  next
    case True
    obtain d' swap' where r: "bubble_pass d 0 (Suc i) False = (d', swap')" by fastforce
    have len: "Suc i \<le> length d" using "2.prems"(2,3) by simp
    have p: "perm_within 0 (Suc i) d d'" "\<forall>k<Suc i. d' ! k \<le> d' ! i"
        "\<not> swap' \<longrightarrow> d' = d \<and> (\<forall>k. Suc k < Suc i \<longrightarrow> d ! k \<le> d ! Suc k)"
      using bubble_pass_spec [OF r _ len] by auto
    have len': "length d' = length d" by (rule perm_within_length [OF p(1)])
    have same: "d' ! b = d ! b" if "Suc i \<le> b" "b < num" for b using p(1) that "2.prems"(3) by (simp add: perm_within_def)
    have cross: "d' ! a \<le> d' ! b" if "a < Suc i" "Suc i \<le> b" "b < num" for a b
      using perm_within_bounds [OF p(1) len, of "\<lambda>x. x \<le> d ! b" a] "2.prems"(1) same [of b] that by (simp add: bubble_inv_def)
    have "bubble_inv i num d'"
      unfolding bubble_inv_def sorted_within_def
    proof (intro conjI allI impI)
      fix a b assume ab: "i \<le> a \<and> a \<le> b \<and> b < num"
      consider "a = b" | "a = i" "Suc i \<le> b" | "Suc i \<le> a" using ab by linarith
      then show "d' ! a \<le> d' ! b"
        using cross [of a b] same [of a] same [of b] "2.prems"(1) ab by cases (auto simp: bubble_inv_def sorted_within_def)
    next
      fix a b assume "a < i \<and> i \<le> b \<and> b < num"
      then show "d' ! a \<le> d' ! b" using p(2) cross [of a b] by (cases "b = i") auto
    qed
    moreover have "\<not> swap' \<longrightarrow> sorted_within 0 i d'" using p(3) by (auto intro!: sorted_within_adjacent)
    ultimately have "perm_within 0 num d' (bubble_loop d' i swap') \<and> sorted_within 0 num (bubble_loop d' i swap')"
      using "2.IH" [of d' swap'] True r "2.prems"(2,3) len' by simp
    then show ?thesis
      using True r perm_within_mono [OF p(1), of 0 num] "2.prems"(2) by (auto intro: perm_within_trans)
  qed
qed

interpretation bubble: in_place_sort bubble_sort
proof
  fix num :: int and d :: array
  assume n: "num \<le> int (length d)"
  have "bubble_inv (nat num) (nat num) d" by (simp add: bubble_inv_def sorted_within_def)
  with bubble_loop_sorts [OF this] n show "\<exists>d'. bubble_sort (Some d) num = Some d' \<and>
      perm_within 0 (nat num) d d' \<and> sorted_within 0 (nat num) d'"
    by (simp add: bubble_sort_def)
qed (simp add: bubble_sort_def)

subsection \<open>Selection sort\<close>

lemma select_min_spec:
  assumes "select_min d j num tmp index = (m, k)" and "i \<le> index" and "index < j" and "j \<le> num" and "tmp = d ! index"
    and "\<forall>a. i \<le> a \<and> a < j \<longrightarrow> tmp \<le> d ! a"
  shows "i \<le> k \<and> k < num \<and> m = d ! k \<and> (\<forall>a. i \<le> a \<and> a < num \<longrightarrow> m \<le> d ! a)"
  using assms
proof (induction d j num tmp index rule: select_min.induct)
  case (1 d j num tmp index)
  show ?case
  proof (cases "j < num")
    case False
    then show ?thesis using "1.prems" by (subst (asm) select_min.simps) auto
  next
    case True
    show ?thesis
    proof (cases "d ! j < tmp")
      case less: True
      then have "select_min d (j + 1) num (d ! j) j = (m, k)" using True "1.prems"(1) by (subst (asm) select_min.simps) simp
      moreover have "\<forall>a. i \<le> a \<and> a < j + 1 \<longrightarrow> d ! j \<le> d ! a" using "1.prems"(6) less by (auto simp: less_Suc_eq)
      moreover have "i \<le> j" "j < j + 1" "j + 1 \<le> num" using "1.prems"(2,3) True by simp_all
      ultimately show ?thesis using "1.IH"(1) [OF True less] by blast
    next
      case False
      then have "select_min d (j + 1) num tmp index = (m, k)" using True "1.prems"(1) by (subst (asm) select_min.simps) simp
      moreover have "\<forall>a. i \<le> a \<and> a < j + 1 \<longrightarrow> tmp \<le> d ! a" using "1.prems"(6) False by (auto simp: less_Suc_eq)
      moreover have "index < j + 1" "j + 1 \<le> num" using "1.prems"(3) True by simp_all
      ultimately show ?thesis using "1.IH"(2) [OF True False] "1.prems"(2,5) by blast
    qed
  qed
qed

definition select_inv :: "nat \<Rightarrow> nat \<Rightarrow> array \<Rightarrow> bool" where
  "select_inv i num d \<longleftrightarrow> (\<forall>a b. a < i \<and> a \<le> b \<and> b < num \<longrightarrow> d ! a \<le> d ! b)"

lemma select_step_inv:
  assumes "select_inv i num d" and "i < num" and "num \<le> length d"
  shows "perm_within 0 num d (select_step d num i) \<and> select_inv (Suc i) num (select_step d num i)"
proof -
  obtain m k where r: "select_min d (i + 1) num (d ! i) i = (m, k)" by fastforce
  have "\<forall>a. i \<le> a \<and> a < i + 1 \<longrightarrow> d ! i \<le> d ! a" by (auto simp: less_Suc_eq)
  then have mk: "i \<le> k" "k < num" "m = d ! k" "\<And>a. i \<le> a \<Longrightarrow> a < num \<Longrightarrow> d ! k \<le> d ! a"
    using select_min_spec [OF r, of i] assms(2) by auto
  have s: "select_step d num i = d[k := d ! i, i := d ! k]"
    using r mk(3) by (simp add: select_step_def)
  have p: "perm_within i num d (select_step d num i)"
    unfolding s using mk assms by (intro perm_within_swap) simp_all
  moreover have at: "select_step d num i ! i = d ! k" unfolding s using assms by simp
  moreover have "d ! k \<le> select_step d num i ! b" if "i \<le> b" "b < num" for b
    using perm_within_bounds [OF p assms(3), of "\<lambda>x. d ! k \<le> x" b] mk(4) that by blast
  moreover have "select_step d num i ! a \<le> select_step d num i ! b" if "a < i" "a \<le> b" "b < num" for a b
  proof -
    have a: "select_step d num i ! a = d ! a" using p that assms by (simp add: perm_within_def)
    show ?thesis
    proof (cases "b < i")
      case True
      then have "select_step d num i ! b = d ! b" using p that assms by (simp add: perm_within_def)
      with a assms(1) that show ?thesis by (simp add: select_inv_def)
    next
      case False
      then show ?thesis
        using perm_within_bounds [OF p assms(3), of "\<lambda>x. d ! a \<le> x" b] a assms(1) that by (simp add: select_inv_def)
    qed
  qed
  ultimately show ?thesis
    using perm_within_mono [OF p, of 0 num] by (auto simp: select_inv_def less_Suc_eq)
qed

lemma select_fold:
  assumes "n \<le> num" and "num \<le> length d"
  shows "perm_within 0 num d (fold (\<lambda>i d. select_step d num i) [0..<n] d) \<and>
    select_inv n num (fold (\<lambda>i d. select_step d num i) [0..<n] d)"
  using assms
proof (induction n)
  case (Suc n)
  let ?d = "fold (\<lambda>i d. select_step d num i) [0..<n] d"
  have "perm_within 0 num d ?d" "select_inv n num ?d" using Suc by simp_all
  moreover from this have "perm_within 0 num ?d (select_step ?d num n) \<and> select_inv (Suc n) num (select_step ?d num n)"
    using Suc.prems perm_within_length [of 0 num d ?d] by (intro select_step_inv) simp_all
  ultimately show ?case by (auto intro: perm_within_trans)
qed (simp add: select_inv_def)

interpretation select: in_place_sort select_sort
proof
  fix num :: int and d :: array
  assume "num \<le> int (length d)"
  then have "perm_within 0 (nat num) d (fold (\<lambda>i d. select_step d (nat num) i) [0..<nat num] d) \<and>
      select_inv (nat num) (nat num) (fold (\<lambda>i d. select_step d (nat num) i) [0..<nat num] d)"
    by (intro select_fold) simp_all
  then show "\<exists>d'. select_sort (Some d) num = Some d' \<and> perm_within 0 (nat num) d d' \<and> sorted_within 0 (nat num) d'"
    by (auto simp: select_sort_def select_inv_def sorted_within_def)
qed (simp add: select_sort_def)

subsection \<open>Insertion sort\<close>

lemma insertion_place_spec:
  assumes "sorted_within 0 i d" and "j \<le> i" and "\<forall>k. j \<le> k \<and> k < i \<longrightarrow> d ! i \<le> d ! k"
  shows "insertion_place d i j \<le> j \<and> (\<forall>k < insertion_place d i j. d ! k < d ! i) \<and>
    (\<forall>k. insertion_place d i j \<le> k \<and> k < i \<longrightarrow> d ! i \<le> d ! k)"
  using assms
proof (induction j)
  case (Suc j)
  have ge: "d ! i \<le> d ! Suc j" using Suc.prems(2,3) by (cases "Suc j = i") auto
  show ?case
  proof (cases "d ! j < d ! i")
    case True
    have "d ! k < d ! i" if "k < Suc j" for k
    proof -
      have "d ! k \<le> d ! j" using Suc.prems(1,2) that by (simp add: sorted_within_def)
      with True show ?thesis by simp
    qed
    with True ge Suc.prems(3) show ?thesis by simp
  next
    case False
    have "\<forall>k. j \<le> k \<and> k < i \<longrightarrow> d ! i \<le> d ! k" using Suc.prems(3) False by (metis Suc_leI le_neq_implies_less not_less)
    with Suc.IH Suc.prems(1,2) False ge show ?thesis by simp
  qed
qed simp

lemma insertion_shift_list:
  assumes "j \<le> i" and "i < length d"
  shows "insertion_shift d i j = take (Suc j) d @ take (i - j) (drop j d) @ drop (Suc i) d"
  using assms
proof (induction d i j rule: insertion_shift.induct)
  case (1 d i j)
  show ?case
  proof (cases "j < i")
    case False
    with "1.prems" show ?thesis by (subst insertion_shift.simps) simp
  next
    case True
    let ?d = "d[i := d ! (i - 1)]"
    have "insertion_shift d i j = insertion_shift ?d (i - 1) j" using True by (subst insertion_shift.simps) simp
    also have "\<dots> = take (Suc j) ?d @ take (i - 1 - j) (drop j ?d) @ drop i ?d"
      using "1.IH" [OF True] True "1.prems" by simp
    also have "\<dots> = take (Suc j) d @ (take (i - 1 - j) (drop j d) @ [d ! (i - 1)]) @ drop (Suc i) d"
    proof -
      have "drop i ?d = d ! (i - 1) # drop (Suc i) d"
        using "1.prems" Cons_nth_drop_Suc [of i ?d] by simp
      moreover have "take (i - 1 - j) (drop j ?d) = take (i - 1 - j) (drop j d)"
        using True "1.prems" by (intro nth_equalityI) simp_all
      ultimately show ?thesis using True by simp
    qed
    also have "take (i - 1 - j) (drop j d) @ [d ! (i - 1)] = take (i - j) (drop j d)"
    proof -
      have "Suc (i - 1 - j) = i - j" "i - 1 - j < length (drop j d)" "drop j d ! (i - 1 - j) = d ! (i - 1)"
        using True "1.prems" by simp_all
      with take_Suc_conv_app_nth [of "i - 1 - j" "drop j d"] show ?thesis by (simp only:)
    qed
    finally show ?thesis .
  qed
qed

text \<open>One step puts the element at \<open>i\<close> into its place among the sorted ones before it.\<close>

lemma insertion_step_list:
  assumes "i < length d" and "insertion_place d i i \<le> i"
  shows "insertion_step d i =
    (let j = insertion_place d i i in take j d @ [d ! i] @ take (i - j) (drop j d) @ drop (Suc i) d)"
proof -
  let ?j = "insertion_place d i i"
  show ?thesis
  proof (cases "?j < i")
    case True
    then have "insertion_step d i = (take (Suc ?j) d @ take (i - ?j) (drop ?j d) @ drop (Suc i) d)[?j := d ! i]"
      using assms by (simp add: insertion_step_def insertion_shift_list Let_def)
    also have "\<dots> = (take (Suc ?j) d)[?j := d ! i] @ take (i - ?j) (drop ?j d) @ drop (Suc i) d"
      using True assms by (simp add: list_update_append)
    also have "(take (Suc ?j) d)[?j := d ! i] = take ?j d @ [d ! i]"
      using True assms by (simp add: take_Suc_conv_app_nth list_update_append)
    finally show ?thesis by (simp add: Let_def)
  next
    case False
    then have "?j = i" using assms(2) by simp
    then show ?thesis using assms id_take_nth_drop [OF assms(1)] by (simp add: insertion_step_def Let_def)
  qed
qed

lemma sorted_within_append: "sorted xs \<Longrightarrow> sorted_within 0 (length xs) (xs @ ys)"
  by (auto simp: sorted_within_def nth_append sorted_iff_nth_mono)

lemma insertion_step_inv:
  assumes "sorted_within 0 i d" and "i < length d"
  shows "perm_within 0 (Suc i) d (insertion_step d i) \<and> sorted_within 0 (Suc i) (insertion_step d i)"
proof -
  define j where "j = insertion_place d i i"
  have j: "j \<le> i" "\<And>k. k < j \<Longrightarrow> d ! k < d ! i" "\<And>k. j \<le> k \<Longrightarrow> k < i \<Longrightarrow> d ! i \<le> d ! k"
    using insertion_place_spec [OF assms(1) order_refl] by (auto simp: j_def)
  let ?front = "take j d @ [d ! i] @ take (i - j) (drop j d)"
  have s: "insertion_step d i = ?front @ drop (Suc i) d"
    using insertion_step_list [OF assms(2)] j(1) by (simp add: j_def Let_def)
  have len: "length ?front = Suc i" using j(1) assms(2) by simp
  have split: "take i d = take j d @ take (i - j) (drop j d)" using j(1) take_add [of j "i - j" d] by simp
  then have m: "mset ?front = mset (take (Suc i) d)" using assms(2) by (simp add: take_Suc_conv_app_nth)
  have "mset (insertion_step d i) = mset d"
    using arg_cong [OF append_take_drop_id [of "Suc i" d], of mset] m unfolding s by (simp only: mset_append)
  moreover have "insertion_step d i ! k = d ! k" if "Suc i \<le> k" "k < length d" for k
    unfolding s nth_append len using that by simp
  ultimately have "perm_within 0 (Suc i) d (insertion_step d i)" by (auto simp: perm_within_def)
  moreover have "sorted ?front"
  proof -
    have "sorted (take i d)" using assms by (auto simp: sorted_within_def sorted_iff_nth_mono)
    then have "sorted (take j d @ take (i - j) (drop j d))" by (simp add: split [symmetric])
    moreover have "x < d ! i" if "x \<in> set (take j d)" for x using that j(2) by (auto simp: in_set_conv_nth)
    moreover have "d ! i \<le> x" if "x \<in> set (take (i - j) (drop j d))" for x
      using that j(1,3) assms(2) by (auto simp: in_set_conv_nth)
    ultimately show ?thesis by (auto simp: sorted_append less_imp_le)
  qed
  then have "sorted_within 0 (Suc i) (insertion_step d i)"
    using sorted_within_append [of ?front "drop (Suc i) d", unfolded len] s by simp
  ultimately show ?thesis by simp
qed

lemma insertion_fold:
  assumes "n \<le> length d"
  shows "perm_within 0 n d (fold (\<lambda>i d. insertion_step d i) [0..<n] d) \<and>
    sorted_within 0 n (fold (\<lambda>i d. insertion_step d i) [0..<n] d)"
  using assms
proof (induction n)
  case (Suc n)
  let ?d = "fold (\<lambda>i d. insertion_step d i) [0..<n] d"
  have p: "perm_within 0 n d ?d" "sorted_within 0 n ?d" using Suc by simp_all
  have "perm_within 0 (Suc n) ?d (insertion_step ?d n) \<and> sorted_within 0 (Suc n) (insertion_step ?d n)"
    using p Suc.prems perm_within_length [OF p(1)] by (intro insertion_step_inv) simp_all
  with perm_within_mono [OF p(1), of 0 "Suc n"] show ?case by (auto intro: perm_within_trans)
qed (simp add: sorted_within_def)

interpretation insertion: in_place_sort insertion_sort
proof
  fix num :: int and d :: array
  assume "num \<le> int (length d)"
  then show "\<exists>d'. insertion_sort (Some d) num = Some d' \<and> perm_within 0 (nat num) d d' \<and> sorted_within 0 (nat num) d'"
    using insertion_fold [of "nat num" d] by (simp add: insertion_sort_def)
qed (simp add: insertion_sort_def)

text \<open>Quicksort, called the way the main program calls it.\<close>

interpretation quick: in_place_sort "\<lambda>d num. quick_sort d 0 (num - 1)"
proof
  fix num :: int and d :: array
  assume "num \<le> int (length d)"
  then show "\<exists>d'. quick_sort (Some d) 0 (num - 1) = Some d' \<and> perm_within 0 (nat num) d d' \<and> sorted_within 0 (nat num) d'"
    using quick_sort_rec_sorts [of "num - 1" d 0] by (simp add: quick_sort_def)
qed (simp add: quick_sort_def)

text \<open>
  C38: the four sorting functions do the same. On the first \<open>num\<close> elements of any array each of them
  gives the sorted array and leaves the elements after them alone; on a null pointer they all
  return \<open>FALSE\<close>.
\<close>

theorem sorts_agree:
  assumes "case data of None \<Rightarrow> True | Some d \<Rightarrow> num \<le> int (length d)"
  shows "bubble_sort data num = map_option (\<lambda>d. sort (take (nat num) d) @ drop (nat num) d) data \<and>
    select_sort data num = bubble_sort data num \<and>
    insertion_sort data num = bubble_sort data num \<and>
    quick_sort data 0 (num - 1) = bubble_sort data num"
  using assms
  by (cases data)
    (simp_all add: bubble.null select.null insertion.null quick.null
      bubble.is_sort select.is_sort insertion.is_sort quick.is_sort)

lemma sorts_agree_witness:
  "bubble_sort (Some [2, 1, 2, 0, -1]) 4 = Some [0, 1, 2, 2, -1] \<and>
   quick_sort (Some [2, 1, 2, 0, -1]) 0 3 = Some [0, 1, 2, 2, -1]"
  using sorts_agree [where data = "Some [2, 1, 2, 0, -1]" and num = 4] by simp

end
