(* ===== verification/Linked_Lists.thy ===== *)
theory Linked_Lists
  imports Main
begin

text \<open>
  The linked lists of \<open>src/c/algorithm\<close>: \<open>SingleLinkList.c\<close>, \<open>LoopLiknList.c\<close> (the last node points
  to the head) and \<open>DoubleLinkList.c\<close> (a ring with \<open>before\<close> pointers too). All three have a head node
  and the same two operations, on positions that count from 1.

  The heap maps addresses to nodes, \<open>None\<close> as a pointer is \<open>NULL\<close>, and \<open>malloc\<close> is a parameter that
  picks the address of a new node.
\<close>

type_synonym addr = nat

record LinkListNode =
  data :: int
  "next" :: "addr option"

record DoubleLinkNode = LinkListNode +
  before :: "addr option"

type_synonym 'n heap = "addr \<Rightarrow> 'n option"

subsection \<open>The operations\<close>

text \<open>\<open>while (list && position < target) { list = list->next; position++; }\<close>\<close>

function ll_walk :: "('z LinkListNode_scheme) heap \<Rightarrow> addr option \<Rightarrow> int \<Rightarrow> int \<Rightarrow> addr option \<times> int" where
  "ll_walk h list position target =
    (case list of
       None \<Rightarrow> (list, position)
     | Some a \<Rightarrow> if position < target then ll_walk h (next (the (h a))) (position + 1) target else (list, position))"
  by pat_completeness auto
termination by (relation "measure (\<lambda>(h, list, position, target). nat (target - position))") auto

declare ll_walk.simps [simp del]

definition addSingleLinkListData ::
  "(LinkListNode heap \<Rightarrow> addr) \<Rightarrow> LinkListNode heap \<Rightarrow> addr option \<Rightarrow> int \<Rightarrow> int \<Rightarrow> bool \<times> LinkListNode heap" where
  "addSingleLinkListData malloc h list num d =
    (case ll_walk h list 0 (num - 1) of
       (None, position) \<Rightarrow> (False, h)
     | (Some a, position) \<Rightarrow>
         if position > num - 1 then (False, h)
         else
           let p = malloc h;
               h1 = h(p \<mapsto> \<lparr>data = d, next = next (the (h a))\<rparr>) in
           (True, h1(a \<mapsto> (the (h1 a))\<lparr>next := Some p\<rparr>)))"

definition getSingleLinkListData :: "LinkListNode heap \<Rightarrow> addr option \<Rightarrow> int \<Rightarrow> int option" where
  "getSingleLinkListData h list num =
    (case ll_walk h list 0 num of
       (None, position) \<Rightarrow> None
     | (Some a, position) \<Rightarrow> if position > num then None else Some (data (the (h a))))"

text \<open>The functions of \<open>LoopLiknList.c\<close>, with the same text.\<close>

definition addLoopLinkListData ::
  "(LinkListNode heap \<Rightarrow> addr) \<Rightarrow> LinkListNode heap \<Rightarrow> addr option \<Rightarrow> int \<Rightarrow> int \<Rightarrow> bool \<times> LinkListNode heap" where
  "addLoopLinkListData malloc h list num d =
    (case ll_walk h list 0 (num - 1) of
       (None, position) \<Rightarrow> (False, h)
     | (Some a, position) \<Rightarrow>
         if position > num - 1 then (False, h)
         else
           let p = malloc h;
               h1 = h(p \<mapsto> \<lparr>data = d, next = next (the (h a))\<rparr>) in
           (True, h1(a \<mapsto> (the (h1 a))\<lparr>next := Some p\<rparr>)))"

definition getLoopLinkListData :: "LinkListNode heap \<Rightarrow> addr option \<Rightarrow> int \<Rightarrow> int option" where
  "getLoopLinkListData h list num =
    (case ll_walk h list 0 num of
       (None, position) \<Rightarrow> None
     | (Some a, position) \<Rightarrow> if position > num then None else Some (data (the (h a))))"

text \<open>The functions of \<open>DoubleLinkList.c\<close>.\<close>

definition addDoubleLinkListData ::
  "(DoubleLinkNode heap \<Rightarrow> addr) \<Rightarrow> DoubleLinkNode heap \<Rightarrow> addr option \<Rightarrow> int \<Rightarrow> int \<Rightarrow> bool \<times> DoubleLinkNode heap" where
  "addDoubleLinkListData malloc h list num d =
    (case ll_walk h list 0 (num - 1) of
       (None, position) \<Rightarrow> (False, h)
     | (Some a, position) \<Rightarrow>
         if position > num - 1 then (False, h)
         else
           let p = malloc h;
               h1 = h(p \<mapsto> \<lparr>data = d, next = next (the (h a)), before = before (the (h a))\<rparr>) in
           (True, h1(a \<mapsto> (the (h1 a))\<lparr>next := Some p, before := Some p\<rparr>)))"

definition getDoubleLinkListData :: "DoubleLinkNode heap \<Rightarrow> addr option \<Rightarrow> int \<Rightarrow> int option" where
  "getDoubleLinkListData h list num =
    (case ll_walk h list 0 num of
       (None, position) \<Rightarrow> None
     | (Some a, position) \<Rightarrow> if position > num then None else Some (data (the (h a))))"

subsection \<open>Paths in the heap\<close>

text \<open>The nodes \<open>as\<close> follow each other from \<open>p\<close> on, and the last one points to \<open>q\<close>.\<close>

fun path :: "('z LinkListNode_scheme) heap \<Rightarrow> addr option \<Rightarrow> addr list \<Rightarrow> addr option \<Rightarrow> bool" where
  "path h p [] q \<longleftrightarrow> p = q"
| "path h p (a # as) q \<longleftrightarrow> p = Some a \<and> h a \<noteq> None \<and> path h (next (the (h a))) as q"

lemma path_append: "path h p (as @ bs) q \<longleftrightarrow> (\<exists>r. path h p as r \<and> path h r bs q)"
  by (induction as arbitrary: p) auto

lemma path_frame:
  assumes "\<forall>a\<in>set as. h' a = h a" and "path h p as q"
  shows "path h' p as q"
  using assms by (induction as arbitrary: p) auto

lemma path_allocated: "path h p as q \<Longrightarrow> a \<in> set as \<Longrightarrow> h a \<noteq> None"
  by (induction as arbitrary: p) auto

lemma ll_walk_path:
  assumes "path h p as q" and "pos \<le> target"
  shows "ll_walk h p pos target =
    (if target - pos < int (length as) then (Some (as ! nat (target - pos)), target)
     else ll_walk h q (pos + int (length as)) target)"
  using assms
proof (induction as arbitrary: p pos)
  case (Cons a as)
  show ?case
  proof (cases "pos < target")
    case True
    then have "ll_walk h p pos target = ll_walk h (next (the (h a))) (pos + 1) target"
      using Cons.prems by (subst ll_walk.simps) simp
    moreover have "nat (target - pos) = Suc (nat (target - (pos + 1)))" using True by simp
    ultimately show ?thesis using Cons.IH [of "next (the (h a))" "pos + 1"] Cons.prems(1) True
      by (auto simp: algebra_simps)
  next
    case False
    with Cons.prems show ?thesis by (subst ll_walk.simps) simp
  qed
qed simp

lemma ll_walk_None: "ll_walk h None pos target = (None, pos)"
  by (subst ll_walk.simps) simp

lemma ll_walk_done: "target \<le> pos \<Longrightarrow> ll_walk h (Some a) pos target = (Some a, pos)"
  by (subst ll_walk.simps) simp

subsection \<open>What the lists stand for\<close>

definition node_data :: "('z LinkListNode_scheme) heap \<Rightarrow> addr list \<Rightarrow> int list" where
  "node_data h as = map (\<lambda>a. data (the (h a))) as"

text \<open>A list that ends with \<open>NULL\<close>, and a ring; the first element is that of the head node.\<close>

definition rep_single :: "('z LinkListNode_scheme) heap \<Rightarrow> addr option \<Rightarrow> int list \<Rightarrow> bool" where
  "rep_single h list ds \<longleftrightarrow> (\<exists>as. path h list as None \<and> distinct as \<and> ds = node_data h as)"

definition rep_ring :: "('z LinkListNode_scheme) heap \<Rightarrow> addr option \<Rightarrow> int list \<Rightarrow> bool" where
  "rep_ring h list ds \<longleftrightarrow> (\<exists>as. as \<noteq> [] \<and> list = Some (hd as) \<and> path h list as list \<and> distinct as \<and> ds = node_data h as)"

text \<open>Linking a new node \<open>p\<close> behind the node \<open>a\<close>.\<close>

lemma path_insert:
  assumes "path h l (as @ a # bs) q" and "distinct (as @ a # bs)" and "h p = None"
    and "next n = next (the (h a))" and "next m = Some p"
  shows "path (h(p \<mapsto> n, a \<mapsto> m)) l (as @ a # p # bs) q"
proof -
  let ?h = "h(p \<mapsto> n, a \<mapsto> m)"
  obtain r where 1: "path h l as r" "path h r (a # bs) q" using assms(1) by (auto simp: path_append)
  have p: "p \<notin> set (as @ a # bs)" using path_allocated [OF assms(1)] assms(3) by blast
  have "path ?h l as r" using 1(1) p assms(2) by (intro path_frame [of as ?h h]) auto
  moreover have "path ?h (next (the (h a))) bs q" using 1(2) p assms(2) by (intro path_frame [of bs ?h h]) auto
  moreover have "p \<noteq> a" using p by auto
  ultimately show ?thesis using 1(2) assms(4,5) by (auto simp: path_append)
qed

lemma node_data_insert:
  assumes "distinct (as @ a # bs)" and "p \<notin> set (as @ a # bs)" and "data m = data (the (h a))"
  shows "node_data (h(p \<mapsto> n, a \<mapsto> m)) (as @ a # p # bs) = node_data h (as @ [a]) @ data n # node_data h bs"
  using assms by (auto simp: node_data_def)

lemma insert_at:
  assumes "path h l as q" and "distinct as" and "h p = None" and "k < length as"
    and "next n = next (the (h (as ! k)))" and "next m = Some p" and "data m = data (the (h (as ! k)))"
  shows "path (h(p \<mapsto> n, as ! k \<mapsto> m)) l (take (Suc k) as @ p # drop (Suc k) as) q"
    and "distinct (take (Suc k) as @ p # drop (Suc k) as)"
    and "node_data (h(p \<mapsto> n, as ! k \<mapsto> m)) (take (Suc k) as @ p # drop (Suc k) as) =
      take (Suc k) (node_data h as) @ data n # drop (Suc k) (node_data h as)"
proof -
  have split: "as = take k as @ as ! k # drop (Suc k) as" by (rule id_take_nth_drop [OF assms(4)])
  have t: "take (Suc k) as = take k as @ [as ! k]" by (rule take_Suc_conv_app_nth [OF assms(4)])
  have p: "p \<notin> set as" using path_allocated [OF assms(1)] assms(3) by blast
  have d: "distinct (take k as @ as ! k # drop (Suc k) as)" using assms(2) split by metis
  show "path (h(p \<mapsto> n, as ! k \<mapsto> m)) l (take (Suc k) as @ p # drop (Suc k) as) q"
    using path_insert [of h l "take k as" "as ! k" "drop (Suc k) as" q p n m] assms d split t by simp
  show "distinct (take (Suc k) as @ p # drop (Suc k) as)"
    using assms(2) p by (auto dest: in_set_takeD in_set_dropD simp: set_take_disj_set_drop_if_distinct)
  have "p \<notin> set (take k as @ as ! k # drop (Suc k) as)" using p split by metis
  from node_data_insert [where h = h and m = m and n = n, OF d this assms(7)]
  show "node_data (h(p \<mapsto> n, as ! k \<mapsto> m)) (take (Suc k) as @ p # drop (Suc k) as) =
      take (Suc k) (node_data h as) @ data n # drop (Suc k) (node_data h as)"
    by (simp add: t node_data_def take_map drop_map take_Suc_conv_app_nth assms(4))
qed

subsection \<open>The contract of the lists\<close>

text \<open>
  Within its range of positions each of the three is a list with a head: \<open>add\<close> puts an element at
  a position from 1 to the length plus 1, \<open>get\<close> reads the one at a position from 1 to the length.
\<close>

locale head_list =
  fixes rep :: "'h \<Rightarrow> addr option \<Rightarrow> int list \<Rightarrow> bool"
    and fresh :: "'h \<Rightarrow> bool"
    and add :: "'h \<Rightarrow> addr option \<Rightarrow> int \<Rightarrow> int \<Rightarrow> bool \<times> 'h"
    and get :: "'h \<Rightarrow> addr option \<Rightarrow> int \<Rightarrow> int option"
  assumes add: "rep h l (x # xs) \<Longrightarrow> fresh h \<Longrightarrow> 1 \<le> num \<Longrightarrow> num \<le> int (length xs) + 1 \<Longrightarrow>
      \<exists>h'. add h l num d = (True, h') \<and> rep h' l (x # take (nat (num - 1)) xs @ d # drop (nat (num - 1)) xs)"
    and get: "rep h l (x # xs) \<Longrightarrow> 1 \<le> num \<Longrightarrow> num \<le> int (length xs) \<Longrightarrow> get h l num = Some (xs ! nat (num - 1))"
begin

lemma get_add:
  assumes "rep h l (x # xs)" and "fresh h" and "1 \<le> num" and "num \<le> int (length xs) + 1"
    and "1 \<le> k" and "k \<le> int (length xs) + 1"
  shows "get (snd (add h l num d)) l k =
    (if k < num then get h l k else if k = num then Some d else get h l (k - 1))"
proof -
  obtain h' where a: "add h l num d = (True, h')"
      "rep h' l (x # take (nat (num - 1)) xs @ d # drop (nat (num - 1)) xs)"
    using add [OF assms(1-4)] by blast
  let ?n = "nat (num - 1)" and ?k = "nat (k - 1)"
  have "get h' l k = Some ((take ?n xs @ d # drop ?n xs) ! ?k)" using get [OF a(2), of k] assms by simp
  moreover have "(take ?n xs @ d # drop ?n xs) ! ?k = (if k < num then xs ! ?k else if k = num then d else xs ! (?k - 1))"
    using assms by (auto simp: nth_append nth_Cons')
  moreover have "get h l k = Some (xs ! ?k)" if "k < num" using get [OF assms(1), of k] assms that by simp
  moreover have "get h l (k - 1) = Some (xs ! (?k - 1))" if "\<not> k < num" "k \<noteq> num"
  proof -
    have "nat (k - 1 - 1) = ?k - 1" using assms(3) that by simp
    with get [OF assms(1), of "k - 1"] assms that show ?thesis by simp
  qed
  ultimately show ?thesis using a(1) by simp
qed

end

subsection \<open>The three lists keep the contract\<close>

text \<open>The walk to a position inside of the nodes, which the operations of all three begin with.\<close>

lemma walk_inside:
  assumes "path h l as q" and "0 \<le> k" and "k < int (length as)"
  shows "ll_walk h l 0 k = (Some (as ! nat k), k)"
  using ll_walk_path [OF assms(1), of 0 k] assms(2,3) by simp

lemma node_data_nth: "k < length as \<Longrightarrow> node_data h as ! k = data (the (h (as ! k)))"
  by (simp add: node_data_def)

lemma length_node_data [simp]: "length (node_data h as) = length as"
  by (simp add: node_data_def)

lemma single_add:
  assumes "path h l as q" and "distinct as" and "h (malloc h) = None" and "node_data h as = x # xs"
    and "1 \<le> num" and "num \<le> int (length xs) + 1"
  shows "\<exists>h' bs. addSingleLinkListData malloc h l num d = (True, h') \<and> path h' l bs q \<and> distinct bs \<and> hd bs = hd as \<and> bs \<noteq> [] \<and>
    node_data h' bs = x # take (nat (num - 1)) xs @ d # drop (nat (num - 1)) xs"
proof -
  have len: "length as = Suc (length xs)" using arg_cong [OF assms(4), of length] by simp
  let ?k = "nat (num - 1)" and ?p = "malloc h"
  let ?a = "as ! ?k"
  let ?n = "\<lparr>data = d, next = next (the (h ?a))\<rparr>" and ?m = "(the (h ?a))\<lparr>next := Some ?p\<rparr>"
  let ?bs = "take (Suc ?k) as @ ?p # drop (Suc ?k) as"
  have k: "?k < length as" using assms(5,6) len by simp
  have "?a \<noteq> ?p" using path_allocated [OF assms(1) nth_mem [OF k]] assms(3) by auto
  then have "addSingleLinkListData malloc h l num d = (True, h(?p \<mapsto> ?n, ?a \<mapsto> ?m))"
    using walk_inside [OF assms(1), of "num - 1"] assms(5,6) len by (simp add: addSingleLinkListData_def Let_def)
  moreover have "path (h(?p \<mapsto> ?n, ?a \<mapsto> ?m)) l ?bs q" "distinct ?bs"
      "node_data (h(?p \<mapsto> ?n, ?a \<mapsto> ?m)) ?bs = take (Suc ?k) (node_data h as) @ d # drop (Suc ?k) (node_data h as)"
    using insert_at [OF assms(1,2,3) k, of ?n ?m] by simp_all
  moreover have "hd ?bs = hd as" using k by (cases as) simp_all
  ultimately show ?thesis using assms(4) by (intro exI conjI) auto
qed

lemma get_inside:
  assumes "path h l as q" and "node_data h as = ds" and "0 \<le> num" and "num < int (length ds)"
  shows "(case ll_walk h l 0 num of (None, position) \<Rightarrow> None
     | (Some a, position) \<Rightarrow> if position > num then None else Some (data (the (h a)))) = Some (ds ! nat num)"
proof -
  have "length as = length ds" using assms(2) by auto
  then show ?thesis using walk_inside [OF assms(1,3)] assms(2-4) by (auto simp: node_data_nth)
qed

interpretation single: head_list rep_single "\<lambda>h. h (malloc h) = None" "addSingleLinkListData malloc" getSingleLinkListData
  for malloc
proof
  fix h :: "LinkListNode heap" and l x xs num d
  assume r: "rep_single h l (x # xs)" and a: "h (malloc h) = None" "1 \<le> num" "num \<le> int (length xs) + 1"
  then show "\<exists>h'. addSingleLinkListData malloc h l num d = (True, h') \<and>
      rep_single h' l (x # take (nat (num - 1)) xs @ d # drop (nat (num - 1)) xs)"
    using single_add [of h l _ None malloc x xs num d] unfolding rep_single_def by metis
next
  fix h :: "LinkListNode heap" and l x xs num
  assume "rep_single h l (x # xs)" "1 \<le> num" "num \<le> int (length xs)"
  then show "getSingleLinkListData h l num = Some (xs ! nat (num - 1))"
    using get_inside [of h l _ None "x # xs" num]
    by (auto simp: rep_single_def getSingleLinkListData_def nth_Cons' nat_diff_distrib)
qed

interpretation loop: head_list rep_ring "\<lambda>h. h (malloc h) = None" "addLoopLinkListData malloc" getLoopLinkListData
  for malloc
proof
  fix h :: "LinkListNode heap" and l x xs num d
  assume r: "rep_ring h l (x # xs)" and a: "h (malloc h) = None" "1 \<le> num" "num \<le> int (length xs) + 1"
  have same: "addLoopLinkListData = addSingleLinkListData"
    by (simp add: fun_eq_iff addLoopLinkListData_def addSingleLinkListData_def)
  show "\<exists>h'. addLoopLinkListData malloc h l num d = (True, h') \<and>
      rep_ring h' l (x # take (nat (num - 1)) xs @ d # drop (nat (num - 1)) xs)"
    using r a single_add [of h l _ l malloc x xs num d] unfolding rep_ring_def same by metis
next
  fix h :: "LinkListNode heap" and l x xs num
  assume "rep_ring h l (x # xs)" "1 \<le> num" "num \<le> int (length xs)"
  then show "getLoopLinkListData h l num = Some (xs ! nat (num - 1))"
    using get_inside [of h l _ l "x # xs" num]
    by (auto simp: rep_ring_def getLoopLinkListData_def nth_Cons' nat_diff_distrib)
qed

lemma double_add:
  assumes "path h l as l" and "distinct as" and "h (malloc h) = None" and "0 \<le> num - 1" and "num - 1 < int (length as)"
  shows "\<exists>h'. addDoubleLinkListData malloc h l num d = (True, h') \<and>
    path h' l (take (nat num) as @ malloc h # drop (nat num) as) l \<and> distinct (take (nat num) as @ malloc h # drop (nat num) as) \<and>
    node_data h' (take (nat num) as @ malloc h # drop (nat num) as) = take (nat num) (node_data h as) @ d # drop (nat num) (node_data h as) \<and>
    before (the (h' (malloc h))) = before (the (h (as ! nat (num - 1))))"
proof -
  let ?k = "nat (num - 1)" and ?p = "malloc h"
  let ?a = "as ! ?k"
  let ?n = "\<lparr>data = d, next = next (the (h ?a)), before = before (the (h ?a))\<rparr>"
  let ?m = "(the (h ?a))\<lparr>next := Some ?p, before := Some ?p\<rparr>"
  have k: "?k < length as" "nat num = Suc ?k" using assms(4,5) by simp_all
  have ne: "?a \<noteq> ?p" using path_allocated [OF assms(1) nth_mem [OF k(1)]] assms(3) by auto
  then have "addDoubleLinkListData malloc h l num d = (True, h(?p \<mapsto> ?n, ?a \<mapsto> ?m))"
    using walk_inside [OF assms(1,4,5)] by (simp add: addDoubleLinkListData_def Let_def)
  moreover have "the ((h(?p \<mapsto> ?n, ?a \<mapsto> ?m)) ?p) = ?n" using ne by simp
  ultimately show ?thesis using insert_at [OF assms(1,2,3) k(1), of ?n ?m] by (simp add: k(2))
qed

interpretation double: head_list rep_ring "\<lambda>h. h (malloc h) = None" "addDoubleLinkListData malloc" getDoubleLinkListData
  for malloc
proof
  fix h :: "DoubleLinkNode heap" and l x xs num d
  assume r: "rep_ring h l (x # xs)" and a: "h (malloc h) = None" "1 \<le> num" "num \<le> int (length xs) + 1"
  obtain as where as: "as \<noteq> []" "l = Some (hd as)" "path h l as l" "distinct as" "x # xs = node_data h as"
    using r by (auto simp: rep_ring_def)
  have len: "length as = Suc (length xs)" using arg_cong [OF as(5), of length] by simp
  let ?bs = "take (nat num) as @ malloc h # drop (nat num) as"
  have n: "nat num = Suc (nat (num - 1))" using a(2) by simp
  have "hd ?bs = hd as" using as(1) n by (cases as) simp_all
  moreover obtain h' where "addDoubleLinkListData malloc h l num d = (True, h')" "path h' l ?bs l" "distinct ?bs"
      "node_data h' ?bs = take (nat num) (node_data h as) @ d # drop (nat num) (node_data h as)"
    using double_add [where h = h and malloc = malloc and num = num and d = d, OF as(3,4) a(1)] a(2,3) len by auto
  moreover have "take (nat num) (node_data h as) @ d # drop (nat num) (node_data h as) =
      x # take (nat (num - 1)) xs @ d # drop (nat (num - 1)) xs"
    by (simp add: as(5) [symmetric] n)
  moreover have "?bs \<noteq> []" by simp
  ultimately show "\<exists>h'. addDoubleLinkListData malloc h l num d = (True, h') \<and>
      rep_ring h' l (x # take (nat (num - 1)) xs @ d # drop (nat (num - 1)) xs)"
    unfolding rep_ring_def using as(2) by metis
next
  fix h :: "DoubleLinkNode heap" and l x xs num
  assume "rep_ring h l (x # xs)" "1 \<le> num" "num \<le> int (length xs)"
  then show "getDoubleLinkListData h l num = Some (xs ! nat (num - 1))"
    using get_inside [of h l _ l "x # xs" num]
    by (auto simp: rep_ring_def getDoubleLinkListData_def nth_Cons' nat_diff_distrib)
qed

text \<open>
  C39: reading after inserting. In each of the three lists, after inserting \<open>d\<close> at a position from 1
  to the length plus 1 the element there is \<open>d\<close>, the ones before it are where they were and the
  ones after it have moved up by one. \<open>malloc\<close> has to return an address that is not in use.
\<close>

theorem lists_get_add:
  assumes "rep_single h1 l1 (x # xs)" and "h1 (malloc1 h1) = None"
    and "rep_ring h2 l2 (x # xs)" and "h2 (malloc2 h2) = None"
    and "rep_ring h3 l3 (x # xs)" and "h3 (malloc3 h3) = None"
    and "1 \<le> num" and "num \<le> int (length xs) + 1" and "1 \<le> k" and "k \<le> int (length xs) + 1"
  shows "getSingleLinkListData (snd (addSingleLinkListData malloc1 h1 l1 num d)) l1 k =
        (if k < num then getSingleLinkListData h1 l1 k else if k = num then Some d else getSingleLinkListData h1 l1 (k - 1)) \<and>
    getLoopLinkListData (snd (addLoopLinkListData malloc2 h2 l2 num d)) l2 k =
        (if k < num then getLoopLinkListData h2 l2 k else if k = num then Some d else getLoopLinkListData h2 l2 (k - 1)) \<and>
    getDoubleLinkListData (snd (addDoubleLinkListData malloc3 h3 l3 num d)) l3 k =
        (if k < num then getDoubleLinkListData h3 l3 k else if k = num then Some d else getDoubleLinkListData h3 l3 (k - 1))"
  using single.get_add [where malloc = malloc1, OF assms(1,2,7-10)] loop.get_add [where malloc = malloc2, OF assms(3,4,7-10)]
    double.get_add [where malloc = malloc3, OF assms(5,6,7-10)]
  by blast

text \<open>The lists of the main programs, a head alone, and the first insertion.\<close>

lemma lists_get_add_witness:
  "getSingleLinkListData (snd (addSingleLinkListData (\<lambda>h. 7) [3 \<mapsto> \<lparr>data = 0, next = None\<rparr>] (Some 3) 1 42)) (Some 3) 1 = Some 42 \<and>
   getLoopLinkListData (snd (addLoopLinkListData (\<lambda>h. 7) [3 \<mapsto> \<lparr>data = 0, next = Some 3\<rparr>] (Some 3) 1 42)) (Some 3) 1 = Some 42 \<and>
   getDoubleLinkListData (snd (addDoubleLinkListData (\<lambda>h. 7) [3 \<mapsto> \<lparr>data = 0, next = Some 3, before = Some 3\<rparr>] (Some 3) 1 42))
     (Some 3) 1 = Some 42"
proof -
  have "rep_single [3 \<mapsto> \<lparr>data = 0, next = None\<rparr>] (Some 3) [0]"
    by (auto simp: rep_single_def node_data_def intro!: exI [of _ "[3]"])
  moreover have "rep_ring [3 \<mapsto> \<lparr>data = 0, next = Some 3\<rparr>] (Some 3) [0]"
    by (auto simp: rep_ring_def node_data_def intro!: exI [of _ "[3]"])
  moreover have "rep_ring [3 \<mapsto> \<lparr>data = 0, next = Some 3, before = Some 3\<rparr>] (Some 3) [0]"
    by (auto simp: rep_ring_def node_data_def intro!: exI [of _ "[3]"])
  ultimately show ?thesis
    using lists_get_add [where x = 0 and xs = "[]" and num = 1 and k = 1 and d = 42 and ?malloc1.0 = "\<lambda>h. 7" and ?malloc2.0 = "\<lambda>h. 7"
        and ?malloc3.0 = "\<lambda>h. 7" and ?h1.0 = "[3 \<mapsto> \<lparr>data = 0, next = None\<rparr>]" and ?h2.0 = "[3 \<mapsto> \<lparr>data = 0, next = Some 3\<rparr>]"
        and ?h3.0 = "[3 \<mapsto> \<lparr>data = 0, next = Some 3, before = Some 3\<rparr>]" and ?l1.0 = "Some 3" and ?l2.0 = "Some 3" and ?l3.0 = "Some 3"]
    by simp
qed

subsection \<open>Positions out of range\<close>

text \<open>
  The singly linked list refuses positions out of range, and leaves the heap alone. Position 0,
  which the comment of the function excludes, is answered with the value of the head node.
\<close>

theorem single_range:
  assumes "rep_single h l (x # xs)"
  shows "(num < 1 \<or> num > int (length xs) + 1 \<longrightarrow> addSingleLinkListData malloc h l num d = (False, h)) \<and>
    getSingleLinkListData h l num = (if 0 \<le> num \<and> num \<le> int (length xs) then Some ((x # xs) ! nat num) else None)"
proof -
  obtain as where as: "path h l as None" "node_data h as = x # xs" using assms by (auto simp: rep_single_def)
  have len: "length as = Suc (length xs)" using arg_cong [OF as(2), of length] by simp
  then obtain a bs where l: "l = Some a" using as(1) by (cases as) auto
  have beyond: "ll_walk h l 0 k = (None, int (length as))" if "int (length as) \<le> k" for k
    using ll_walk_path [OF as(1), of 0 k] that by (simp add: ll_walk_None)
  have neg: "ll_walk h l 0 k = (Some a, 0)" if "k < 0" for k using that l by (simp add: ll_walk_done)
  have "addSingleLinkListData malloc h l num d = (False, h)" if "num < 1 \<or> num > int (length xs) + 1"
    using that beyond [of "num - 1"] neg [of "num - 1"] ll_walk_done [of "num - 1" 0 h a] l len
    by (cases "num < 1") (simp_all add: addSingleLinkListData_def)
  moreover have "getSingleLinkListData h l num = None" if "\<not> (0 \<le> num \<and> num \<le> int (length xs))"
    using that beyond [of num] neg [of num] len by (cases "num < 0") (simp_all add: getSingleLinkListData_def)
  moreover have "getSingleLinkListData h l num = Some ((x # xs) ! nat num)" if "0 \<le> num" "num \<le> int (length xs)"
    using get_inside [OF as, of num] that by (simp add: getSingleLinkListData_def)
  ultimately show ?thesis by auto
qed

lemma single_range_witness:
  "addSingleLinkListData (\<lambda>h. 7) [3 \<mapsto> \<lparr>data = 9, next = None\<rparr>] (Some 3) 2 42 = (False, [3 \<mapsto> \<lparr>data = 9, next = None\<rparr>]) \<and>
   getSingleLinkListData [3 \<mapsto> \<lparr>data = 9, next = None\<rparr>] (Some 3) 0 = Some 9"
proof -
  have r: "rep_single [3 \<mapsto> \<lparr>data = 9, next = None\<rparr>] (Some 3) [9]"
    by (auto simp: rep_single_def node_data_def intro!: exI [of _ "[3]"])
  show ?thesis using single_range [OF r, of 2 "\<lambda>h. 7" 42] single_range [OF r, of 0] by simp
qed

lemma walk_ring:
  assumes "path h l as l" and "as \<noteq> []" and "pos \<le> target"
  shows "ll_walk h l pos target = (Some (as ! (nat (target - pos) mod length as)), target)"
  using assms(3)
proof (induction "nat (target - pos)" arbitrary: pos rule: less_induct)
  case less
  show ?case
  proof (cases "target - pos < int (length as)")
    case True
    then have "nat (target - pos) mod length as = nat (target - pos)" using less.prems by simp
    with True ll_walk_path [OF assms(1) less.prems] show ?thesis by simp
  next
    case False
    let ?pos = "pos + int (length as)"
    have n: "0 < length as" using assms(2) by simp
    have t: "nat (target - pos) = nat (target - ?pos) + length as" using False less.prems by simp
    have "nat (target - ?pos) < nat (target - pos)" using t n by linarith
    moreover have "?pos \<le> target" using False by simp
    ultimately have "ll_walk h l ?pos target = (Some (as ! (nat (target - ?pos) mod length as)), target)" by (rule less.hyps)
    moreover have "nat (target - ?pos) mod length as = nat (target - pos) mod length as" unfolding t by simp
    ultimately show ?thesis using ll_walk_path [OF assms(1) less.prems] False by simp
  qed
qed

text \<open>
  A ring has no end. In the circular list every position from 0 on is accepted: reading goes
  round, through the head, and gives the element at the position modulo the number of nodes, and
  inserting at any position from 1 on succeeds.
\<close>

theorem loop_wraps:
  assumes "rep_ring h l ds" and "0 \<le> num"
  shows "getLoopLinkListData h l num = Some (ds ! (nat num mod length ds)) \<and>
    (1 \<le> num \<longrightarrow> fst (addLoopLinkListData malloc h l num d))"
proof -
  obtain as where as: "as \<noteq> []" "path h l as l" "ds = node_data h as" using assms(1) by (auto simp: rep_ring_def)
  have "nat num mod length as < length as" using as(1) by simp
  then show ?thesis
    using walk_ring [OF as(2,1), of 0 num] walk_ring [OF as(2,1), of 0 "num - 1"] assms(2) as(3)
    by (simp add: getLoopLinkListData_def addLoopLinkListData_def Let_def node_data_nth)
qed

lemma loop_wraps_witness:
  "getLoopLinkListData [3 \<mapsto> \<lparr>data = 9, next = Some 4\<rparr>, 4 \<mapsto> \<lparr>data = 5, next = Some 3\<rparr>] (Some 3) 7 = Some 5"
proof -
  have r: "rep_ring [3 \<mapsto> \<lparr>data = 9, next = Some 4\<rparr>, 4 \<mapsto> \<lparr>data = 5, next = Some 3\<rparr>] (Some 3) [9, 5]"
    by (auto simp: rep_ring_def node_data_def intro!: exI [of _ "[3, 4]"])
  show ?thesis using loop_wraps [OF r, of 7] by (simp flip: numeral_2_eq_2)
qed

subsection \<open>The pointers back\<close>

text \<open>Every node points back to the one before it in the ring.\<close>

definition before_ok :: "DoubleLinkNode heap \<Rightarrow> addr list \<Rightarrow> bool" where
  "before_ok h as \<longleftrightarrow> (\<forall>i < length as. before (the (h (as ! (Suc i mod length as)))) = Some (as ! i))"

text \<open>
  Inserting breaks the pointers back. In a ring of two nodes or more that is linked correctly in
  both directions, inserting at any position gives a ring that is linked correctly forward, with
  the new node in its place, but not backward: the new node points back to the node before the one it was
  inserted behind.
\<close>

theorem double_add_breaks_before:
  assumes "path h l as l" and "distinct as" and "2 \<le> length as" and "before_ok h as" and "h (malloc h) = None"
    and "1 \<le> num" and "num \<le> int (length as)"
  shows "\<exists>h' bs. addDoubleLinkListData malloc h l num d = (True, h') \<and> bs = take (nat num) as @ malloc h # drop (nat num) as \<and>
    path h' l bs l \<and> distinct bs \<and> \<not> before_ok h' bs"
proof -
  let ?bs = "take (nat num) as @ malloc h # drop (nat num) as"
  obtain h' where h': "addDoubleLinkListData malloc h l num d = (True, h')" "path h' l ?bs l" "distinct ?bs"
      "before (the (h' (malloc h))) = before (the (h (as ! nat (num - 1))))"
    using double_add [where h = h and malloc = malloc and num = num and d = d, OF assms(1,2,5)] assms(6,7) by auto
  define j where "j = nat (num - 1)"
  define i where "i = (if j = 0 then length as - 1 else j - 1)"
  have j: "j < length as" "nat num = Suc j" using assms(6,7) by (simp_all add: j_def)
  have i: "i < length as" "Suc i mod length as = j" "i \<noteq> j" using j(1) assms(3) by (auto simp: i_def)
  have "before (the (h (as ! j))) = Some (as ! i)" using assms(4) i(1,2) by (auto simp: before_ok_def)
  moreover have "as ! i \<noteq> as ! j" using assms(2) i(1,3) j(1) by (simp add: nth_eq_iff_index_eq)
  moreover have "?bs ! Suc j = malloc h" "?bs ! j = as ! j" using j by (simp_all add: nth_append)
  moreover have "Suc j mod length ?bs = Suc j" "j < length ?bs" using j by simp_all
  ultimately have "\<not> before_ok h' ?bs" unfolding before_ok_def using h'(4) by (metis j_def option.inject)
  with h' show ?thesis by blast
qed

lemma double_add_breaks_before_witness:
  "\<exists>h' bs. addDoubleLinkListData (\<lambda>h. 7) [3 \<mapsto> \<lparr>data = 0, next = Some 4, before = Some 4\<rparr>, 4 \<mapsto> \<lparr>data = 1, next = Some 3, before = Some 3\<rparr>]
       (Some 3) 2 42 = (True, h') \<and> bs = [3, 4, 7] \<and> path h' (Some 3) bs (Some 3) \<and> distinct bs \<and> \<not> before_ok h' bs"
  using double_add_breaks_before [where h = "[3 \<mapsto> \<lparr>data = 0, next = Some 4, before = Some 4\<rparr>, 4 \<mapsto> \<lparr>data = 1, next = Some 3, before = Some 3\<rparr>]"
      and l = "Some 3" and as = "[3, 4]" and num = 2 and malloc = "\<lambda>h. 7" and d = 42]
  by (simp add: before_ok_def less_Suc_eq numeral_2_eq_2)

end
