(* ===== verification/Array_Search.thy ===== *)
theory Array_Search
  imports "HOL-Library.Word"
begin

text \<open>
  \<open>src/c/algorithm/sortList.c\<close> (a list in an array of ten elements), \<open>src/c/algorithm/binarySearch.c\<close>
  and \<open>src/c/func/str_join.c\<close>.
\<close>

subsection \<open>The array list\<close>

definition MAXSORTLENGTH :: int where
  "MAXSORTLENGTH = 10"

record sortList =
  sl_data :: "int list"  \<comment> \<open>\<open>data[10]\<close>\<close>
  sl_lenth :: int  \<comment> \<open>\<open>lenth\<close>\<close>

definition addSortList :: "sortList \<Rightarrow> int \<Rightarrow> bool \<times> sortList" where
  "addSortList list d =
    (if sl_lenth list \<ge> MAXSORTLENGTH then (False, list)
     else (True, list\<lparr>sl_data := (sl_data list)[nat (sl_lenth list) := d], sl_lenth := sl_lenth list + 1\<rparr>))"

text \<open>
  The read of \<open>list->data[num]\<close> is outside of the array for a negative \<open>num\<close>: \<open>None\<close> stands for the
  undefined behaviour, \<open>Some None\<close> for the result 0 and \<open>Some (Some v)\<close> for the value read.
\<close>

definition getOneSortListData :: "sortList \<Rightarrow> int \<Rightarrow> int option option" where
  "getOneSortListData list num =
    (if num \<ge> MAXSORTLENGTH then Some None
     else if num < 0 then None
     else Some (Some (sl_data list ! nat num)))"

subsection \<open>Binary search\<close>

text \<open>
  \<open>tmp_position = (start + end)/2; *position = (int) tmp_position;\<close> with \<open>float tmp_position\<close>: the
  quotient of two \<open>int\<close>s goes through a single-precision number, which rounds it to 24 binary digits,
  ties to even. The indices are not negative, so the division rounds down.
\<close>

fun float_int :: "nat \<Rightarrow> int \<Rightarrow> int" where
  "float_int 0 n = n"
| "float_int (Suc k) n =
     (let e = 2 ^ Suc k in
      if \<bar>n\<bar> < 2 ^ 24 * 2 ^ k then float_int k n
      else
        let q = n div e; r = n mod e in
        if 2 * r < e \<or> 2 * r = e \<and> even q then q * e else (q + 1) * e)"

text \<open>Seven binary digits are the most that an \<open>int\<close> of 32 bit can lose.\<close>

definition midpoint :: "int \<Rightarrow> int \<Rightarrow> int" where
  "midpoint start e = float_int 7 ((start + e) div 2)"

text \<open>
  The recursion. The three statements \<open>*position == ...;\<close> compare and have no effect. \<open>None\<close> is a
  recursion that does not end; the value returned is 1 at the end of the recursion (the callers above
  return nothing). The result is what \<open>*position\<close> holds.
\<close>

partial_function (option) binarySearch :: "int list \<Rightarrow> int \<Rightarrow> int \<Rightarrow> int \<Rightarrow> int option" where
  "binarySearch list search start e =
    (let position = midpoint start e in
     if e - start = 1 then Some position
     else if list ! nat position = search then Some position
     else if list ! nat position > search then binarySearch list search start position
     else binarySearch list search position e)"

subsection \<open>Joining strings\<close>

text \<open>
  \<open>_mlwl_str_join_with_symbol\<close>: the bytes of two strings that end with a NUL byte. The first loop
  copies to the NUL byte without it, the second one with it; \<open>c\<close> is the buffer as it is filled.
\<close>

fun str_copy :: "8 word list \<Rightarrow> 8 word list \<Rightarrow> 8 word list" where
  "str_copy c [] = c"
| "str_copy c (x # xs) = (if x = 0 then c else str_copy (c @ [x]) xs)"

fun str_copy_nul :: "8 word list \<Rightarrow> 8 word list \<Rightarrow> 8 word list" where
  "str_copy_nul c [] = c"
| "str_copy_nul c (x # xs) = (if x = 0 then c @ [x] else str_copy_nul (c @ [x]) xs)"

definition mlwl_str_join_with_symbol :: "8 word list \<Rightarrow> 8 word list \<Rightarrow> 8 word list" where
  "mlwl_str_join_with_symbol a b = str_copy_nul (str_copy [] a @ [95]) b"

subsection \<open>The array list holds a list\<close>

definition sl_wf :: "sortList \<Rightarrow> bool" where
  "sl_wf list \<longleftrightarrow> length (sl_data list) = 10 \<and> 0 \<le> sl_lenth list \<and> sl_lenth list \<le> MAXSORTLENGTH"

definition sl_abs :: "sortList \<Rightarrow> int list" where
  "sl_abs list = take (nat (sl_lenth list)) (sl_data list)"

text \<open>
  The array list is a bounded list. Adding keeps the bounds, appends to the list until it has ten
  elements and then fails without a change; an element of the list is read at its index, and indices
  from ten on are refused. An index in the array but after the end of the list is not: the stale
  element there is returned.
\<close>

theorem sort_list_refines:
  assumes "sl_wf list"
  shows "sl_wf (snd (addSortList list d)) \<and>
    addSortList list d = (length (sl_abs list) < 10, snd (addSortList list d)) \<and>
    sl_abs (snd (addSortList list d)) = (if length (sl_abs list) < 10 then sl_abs list @ [d] else sl_abs list) \<and>
    (0 \<le> num \<longrightarrow> getOneSortListData list num =
       Some (if num < int (length (sl_abs list)) then Some (sl_abs list ! nat num)
             else if num < 10 then Some (sl_data list ! nat num) else None))"
proof -
  have len: "length (sl_data list) = 10" "0 \<le> sl_lenth list" "sl_lenth list \<le> 10"
    using assms by (simp_all add: sl_wf_def MAXSORTLENGTH_def)
  have abs: "int (length (sl_abs list)) = sl_lenth list" using len by (simp add: sl_abs_def)
  have "sl_abs (snd (addSortList list d)) = sl_abs list @ [d]" if "sl_lenth list < 10"
  proof -
    have "nat (sl_lenth list + 1) = Suc (nat (sl_lenth list))" using len(2) by simp
    then show ?thesis
      using that len by (simp add: addSortList_def MAXSORTLENGTH_def sl_abs_def take_Suc_conv_app_nth)
  qed
  moreover have "getOneSortListData list num =
       Some (if num < int (length (sl_abs list)) then Some (sl_abs list ! nat num)
             else if num < 10 then Some (sl_data list ! nat num) else None)" if "0 \<le> num"
    using that abs len by (auto simp: getOneSortListData_def MAXSORTLENGTH_def sl_abs_def)
  ultimately show ?thesis
    using abs len by (auto simp: addSortList_def sl_wf_def MAXSORTLENGTH_def)
qed

lemma sort_list_refines_witness:
  "getOneSortListData \<lparr>sl_data = [5, 6, 7, 0, 0, 0, 0, 0, 0, 99], sl_lenth = 3\<rparr> 1 = Some (Some 6) \<and>
   getOneSortListData \<lparr>sl_data = [5, 6, 7, 0, 0, 0, 0, 0, 0, 99], sl_lenth = 3\<rparr> 9 = Some (Some 99)"
proof -
  let ?l = "\<lparr>sl_data = [5, 6, 7, 0, 0, 0, 0, 0, 0, 99], sl_lenth = 3\<rparr>"
  have "sl_wf ?l" by (simp add: sl_wf_def MAXSORTLENGTH_def)
  from sort_list_refines [OF this, where num = 1] sort_list_refines [OF this, where num = 9] show ?thesis
    by (simp add: sl_abs_def)
qed

subsection \<open>Binary search finds\<close>

lemma float_int_exact: "\<bar>n\<bar> < 2 ^ 24 \<Longrightarrow> float_int k n = n"
proof (induction k)
  case (Suc k)
  have "(2 :: int) ^ 24 \<le> 2 ^ 24 * 2 ^ k" by simp
  with Suc.prems have "\<bar>n\<bar> < 2 ^ 24 * 2 ^ k" by (rule less_le_trans)
  then show ?case using Suc by (simp only: float_int.simps Let_def if_True)
qed simp

lemma midpoint_exact: "0 \<le> start \<Longrightarrow> start \<le> e \<Longrightarrow> e < 2 ^ 24 \<Longrightarrow> midpoint start e = (start + e) div 2"
  unfolding midpoint_def by (rule float_int_exact) auto

text \<open>
  C40: binary search finds what is there. On a sorted array of less than $2^{24}$ elements the recursion
  from \<open>start\<close> to \<open>end\<close> ends, the position is an index between them, and it is one of the element
  searched for when there is one. When there is none the position is that of another element: it is
  not set to -1, and the caller cannot tell.
\<close>

theorem binary_search_finds:
  assumes "sorted list" and "0 \<le> start" and "start < e" and "e \<le> int (length list)" and "length list < 2 ^ 24"
  shows "\<exists>p. binarySearch list search start e = Some p \<and> start \<le> p \<and> p < e \<and>
    ((\<exists>i. start \<le> i \<and> i < e \<and> list ! nat i = search) \<longrightarrow> list ! nat p = search)"
  using assms(2-4)
proof (induction "nat (e - start)" arbitrary: start e rule: less_induct)
  case less
  let ?m = "(start + e) div 2"
  have "int (length list) < 2 ^ 24" using assms(5) by simp
  then have "e < 2 ^ 24" using less.prems(3) by (rule le_less_trans [rotated])
  then have m: "midpoint start e = ?m" using less.prems by (intro midpoint_exact) simp_all
  note unfold = binarySearch.simps [of list search start e, unfolded m Let_def]
  show ?case
  proof (cases "e - start = 1 \<or> list ! nat ?m = search")
    case True
    have "i = ?m" if "e - start = 1" "start \<le> i" "i < e" for i using that by auto
    moreover have "binarySearch list search start e = Some ?m" using True by (auto simp: unfold)
    moreover have "start \<le> ?m" "?m < e" using less.prems(2) by auto
    ultimately show ?thesis using True by blast
  next
    case False
    then have r: "start < ?m" "?m < e" using less.prems(2) by auto
    have mono: "list ! nat i \<le> list ! nat j" if "0 \<le> i" "i \<le> j" "j < e" for i j
      using assms(1) that less.prems(3) by (intro sorted_nth_mono) auto
    show ?thesis
    proof (cases "list ! nat ?m > search")
      case True
      obtain p where p: "binarySearch list search start ?m = Some p" "start \<le> p" "p < ?m"
          "(\<exists>i. start \<le> i \<and> i < ?m \<and> list ! nat i = search) \<longrightarrow> list ! nat p = search"
        using less.hyps [of ?m start] r less.prems by auto
      have "i < ?m" if "start \<le> i" "i < e" "list ! nat i = search" for i
        using mono [of ?m i] True that r less.prems(1) by (cases "i < ?m") auto
      then show ?thesis using p r False True by (auto simp: unfold)
    next
      case gt: False
      obtain p where p: "binarySearch list search ?m e = Some p" "?m \<le> p" "p < e"
          "(\<exists>i. ?m \<le> i \<and> i < e \<and> list ! nat i = search) \<longrightarrow> list ! nat p = search"
        using less.hyps [of e ?m] r less.prems by auto
      have "?m \<le> i" if "start \<le> i" "i < e" "list ! nat i = search" for i
        using mono [of i ?m] gt False that r less.prems(1) by (cases "i < ?m") auto
      then show ?thesis using p r False gt by (auto simp: unfold)
    qed
  qed
qed

lemma binary_search_finds_witness:
  "\<exists>p. binarySearch [1, 2, 3, 4, 5, 6, 7, 8, 9, 10] 7 0 10 = Some p \<and> [1, 2, 3, 4, 5, 6, 7, 8, 9, 10] ! nat p = (7 :: int)"
proof -
  have "\<exists>i. 0 \<le> i \<and> i < 10 \<and> [1, 2, 3, 4, 5, 6, 7, 8, 9, 10] ! nat i = (7 :: int)" by (intro exI [of _ 6]) simp
  with binary_search_finds [of "[1, 2, 3, 4, 5, 6, 7, 8, 9, 10]" 0 10 7] show ?thesis by auto
qed

subsection \<open>Joined strings\<close>

lemma str_copy_nul_byte: "0 \<notin> set xs \<Longrightarrow> str_copy c (xs @ 0 # rest) = c @ xs"
  by (induction xs arbitrary: c) auto

lemma str_copy_nul_nul_byte: "0 \<notin> set xs \<Longrightarrow> str_copy_nul c (xs @ 0 # rest) = c @ xs @ [0]"
  by (induction xs arbitrary: c) auto

text \<open>
  Two strings are joined with an underscore and ended by a NUL byte, and what is written is exactly
  the \<open>strlen(a) + strlen(b) + 2\<close> bytes that were allocated.
\<close>

theorem str_join_fits:
  assumes "0 \<notin> set a" and "0 \<notin> set b"
  shows "mlwl_str_join_with_symbol (a @ 0 # rest_a) (b @ 0 # rest_b) = a @ [95] @ b @ [0] \<and>
    length (mlwl_str_join_with_symbol (a @ 0 # rest_a) (b @ 0 # rest_b)) = length a + length b + 2"
  using assms by (simp add: mlwl_str_join_with_symbol_def str_copy_nul_byte str_copy_nul_nul_byte)

lemma str_join_fits_witness: "mlwl_str_join_with_symbol ([97, 98] @ 0 # [1]) ([99] @ 0 # []) = [97, 98, 95, 99, 0]"
  using str_join_fits [of "[97, 98]" "[99]" "[1]" "[]"] by simp

end
