(* ===== verification/Spec2Isabelle.thy ===== *)
theory Spec2Isabelle
  imports Http_Request_Line_Spec Http_Headers Http_Complex_Uri Http_Status_Line Http_Chunked Http_Args Http_Parse_Time
    Mail_Pop3_Session Mail_Imap Mail_Auth_Http Upstream_Balancers Http_Range_Reply Http_Chunked_Response
    Basic_Sort Linked_Lists Array_Search
begin

text \<open>
  Verification of the C programs of the repository: of the nginx 1.6.2 tree the HTTP parsers, the
  choice of an upstream peer, the range and chunked output filters (\<open>src/c/nginx-1.6.2/src/http\<close>)
  and the POP3, IMAP and SMTP front ends (\<open>src/c/nginx-1.6.2/src/mail\<close>); and the small programs on
  sorting, linked lists, arrays and strings (\<open>src/c/basic_sort\<close>, \<open>src/c/algorithm\<close>, \<open>src/c/func\<close>).

  The parts and how they interact. A connection of nginx collects bytes in a buffer
  \<open>ngx_buf_t\<close> and calls a parser on the window \<open>[pos, last)\<close>: first the request line, whose URI
  is then taken apart and normalised, then the header lines one by one, then the body, which
  may come in chunks. A parser that runs out of bytes saves its state in the request and
  answers \<open>NGX_AGAIN\<close>; it is called again when more have arrived. The proxy modules choose a peer
  and parse the status line of its response in the same way. The values found are used by helpers
  that look for arguments and cookies, read dates and check URIs. The response goes through the
  output filters, which cut ranges out of it and encode it in chunks. The mail front ends
  read commands from the same kind of buffer, collect credentials over a connection that may
  become encrypted on the way, and hand the session to an authentication server.

  Correspondence of theories and sources:

  \<^item> \<open>Prelude\<close>: machine types, the buffer, byte classes, decimal and hexadecimal numbers.
    Pointers into the buffer are offsets, NULL is \<open>None\<close>.
  \<^item> \<open>Byte_Loop\<close>: the loop \<open>for (p = b->pos; p < b->last; p++) switch (state)\<close> all parsers have,
    as \<open>byte_loop\<close> over a step function; the locales \<open>byte_invariant\<close> and \<open>byte_parser\<close> (a step
    reads only bytes that have arrived and keeps an invariant) and what follows from them.
  \<^item> \<open>Buffer_Feed\<close>: the callers' loop (call, read more while the answer is \<open>NGX_AGAIN\<close>, call again)
    and the locale \<open>resumable_parser\<close>, which gives that the pieces in which the bytes arrive do
    not matter.
  \<^item> \<open>Http_Types\<close>: \<open>ngx_http_request_t\<close> (\<open>ngx_http_request.h\<close>), its initial value, the table
    \<open>usual\<close>.
  \<^item> \<open>Http_Request_Line\<close>, \<open>Http_Request_Line_Spec\<close>: \<open>ngx_http_parse_request_line\<close> with both sets
    of method comparison macros; that the macros agree, round trip for whole request lines, the
    flags that decide whether the URI is normalised.
  \<^item> \<open>Http_Header_Line\<close>, \<open>Http_Headers\<close>: \<open>ngx_http_parse_header_line\<close> and the loop of
    \<open>ngx_http_process_request_headers\<close> that stores the headers; round trip of a header block.
  \<^item> \<open>Http_Complex_Uri\<close>, \<open>Http_Uri\<close>: \<open>ngx_http_parse_complex_uri\<close>, \<open>ngx_http_parse_uri\<close> and
    \<open>ngx_http_process_request_uri\<close>; the normal form of a path and that no dot segment is left.
  \<^item> \<open>Http_Status_Line\<close>: \<open>ngx_http_parse_status_line\<close>.
  \<^item> \<open>Http_Chunked\<close>: \<open>ngx_http_parse_chunked\<close> and \<open>ngx_http_request_body_chunked_filter\<close>; reading
    back a chunked body, termination of the filter, the limit on the body.
  \<^item> \<open>Http_Args\<close>: \<open>ngx_http_parse_unsafe_uri\<close>, \<open>ngx_http_parse_multi_header_lines\<close>, \<open>ngx_http_arg\<close>,
    \<open>ngx_http_split_args\<close>.
  \<^item> \<open>Http_Parse_Time\<close>: \<open>ngx_http_parse_time\<close> against the calendar.
  \<^item> \<open>Upstream_Round_Robin\<close>, \<open>Upstream_Fairness\<close>, \<open>Upstream_Balancers\<close>:
    \<open>ngx_http_upstream_round_robin.c\<close> and the modules \<open>ip_hash\<close> and \<open>least_conn\<close>. The list of peers
    is a list of records, the request's \<open>tried\<close> bitmap a list of words, the time an argument,
    weights unbounded integers. The locale \<open>rr_preserved\<close> states what freeing and choosing keep;
    \<open>rr_used\<close>, \<open>lc_used\<close> and \<open>ip_hash_used\<close> are the configurations that interleaved requests can reach.
    Fairness over a cycle, every peer tried once, balance as an invariant, the fewest connections,
    stickiness.
  \<^item> \<open>Response_Chain\<close>: buffers and chains of a response, with the macros of the core
    (\<open>ngx_buf_size\<close> and the like) as parameters under \<open>buf_macros_spec\<close>.
  \<^item> \<open>Http_Range\<close>, \<open>Http_Range_Parse\<close>, \<open>Http_Range_Reply\<close>: \<open>ngx_http_range_filter_module.c\<close>: header
    filter, parser, single and multipart bodies. What is read, that accepted ranges lie in the
    content if no number has more than 15 digits, and an accepted range that does not; that the
    bytes sent are those announced (headers up to 8192 bytes, contents below 2^50).
  \<^item> \<open>Http_Chunked_Response\<close>: \<open>ngx_http_chunked_filter_module.c\<close>; what it writes is decoded by
    \<open>Http_Chunked\<close>.
  \<^item> \<open>Mail_Session\<close>, \<open>Mail_Pop3\<close>, \<open>Mail_Imap\<close>, \<open>Mail_Smtp\<close>: the fields of \<open>ngx_mail_session_t\<close> and the
    three command parsers of \<open>ngx_mail_parse.c\<close>, with what lines they accept.
  \<^item> \<open>Mail_Auth\<close>: \<open>ngx_mail_handler.c\<close>: reading a command and the AUTH commands. What the core
    provides is the record \<open>mail_env\<close>, the configuration \<open>mail_conf\<close>. Reading an argument that is
    not there is \<open>None\<close>.
  \<^item> \<open>Mail_Pop3_Session\<close>, \<open>Mail_Smtp_Session\<close>: \<open>ngx_mail_pop3_handler.c\<close> and
    \<open>ngx_mail_smtp_handler.c\<close> whole, as one function per handler and command, and the moves of a
    connection between its handlers as the relations \<open>pop3_move\<close> and \<open>smtp_move\<close> with their closures
    \<open>pop3_reach\<close> and \<open>smtp_reach\<close>; the size of the buffer is the parameter \<open>lim\<close>, what the network,
    the resolver and the authentication server do is free. Invariants of the reachable states:
    arguments exist, nothing sent in plain text survives the handshake, no credentials in
    the clear, who is handed over.
  \<^item> \<open>Mail_Smtp_Lines\<close>: that no SMTP session keeps a line break in the client name, the sender or
    the recipient. \<open>Mail_Auth_Http\<close>: \<open>ngx_mail_auth_http_create_request\<close>; the escaping of the core and
    the printing of numbers are the record \<open>auth_env\<close>, what is used of them \<open>auth_env_spec\<close>. A string
    shorter than its length says is \<open>Fault\<close> when it is read. The request fits its buffer, is not
    injected into, and in one reachable session reads beyond the login.
  \<^item> \<open>Basic_Sort\<close>: bubble, selection, insertion and quick sort, all instances of the locale
    \<open>in_place_sort\<close>.
  \<^item> \<open>Linked_Lists\<close>: the single, circular and double lists on an explicit heap of nodes, with the
    locale \<open>head_list\<close> for what an insertion and a read promise.
  \<^item> \<open>Array_Search\<close>: the array list, binary search, the string join.

  A state of a C \<open>enum\<close> is a constructor of a datatype, the body of a \<open>case\<close> a definition on the
  local variables and the structure (\<open>rl_*\<close>, \<open>hl_*\<close>, \<open>cu_*\<close>, \<open>sl_*\<close>, \<open>ck_*\<close>), the switch one function by
  equations, and the parser the loop over it followed by the code at its labels. \<open>break\<close> is
  \<open>Next\<close>, \<open>return\<close> and \<open>goto\<close> are \<open>Stop\<close> with the exit taken.

  What the groups of lemmas show. Each parser interprets \<open>byte_parser\<close> with an invariant that
  bounds its saved pointers (kept, so every pointer handed on lies in the consumed input), and
  \<open>resumable_parser\<close>. Each has a functional theorem: what is written out by a printer, or
  described by a specification on lists, is read back; and theorems on what is accepted
  altogether, which show where the code accepts more than it should. The sessions and the
  balancers have invariants, kept by every operation and so true in whatever order they happen;
  the filters are shown to produce what their headers announce, however the body is cut.

  Bounds and termination. Integers that can wrap are words of the C type's width: versions are
  16-bit fields, codes and sizes 64-bit, \<open>time_t\<close> 64-bit signed. The chunk filter is a
  \<open>partial_function\<close>, since its loop has no obvious bound, and is proved to return whatever the
  body is. Sizes of chunks in the round trip are below 2^62, so that the sum with the buffer
  offset cannot wrap; binary search computes its midpoint in single precision, exact for arrays
  up to 2^24 elements. The other loops are structural or have a measure.

  Not modelled: the nginx core (\<open>src/core\<close> is not part of the tree), so \<open>ngx_hash\<close>,
  \<open>ngx_strlow\<close>, \<open>ngx_unescape_uri\<close>, the string searches and the allocators are parameters, with
  their documented behaviour as hypotheses where a theorem needs it; event handling, system
  calls, TLS, shared memory, configuration and the modules built on them; vendored code
  (\<open>http-parser\<close>, \<open>unpv13e\<close>), demonstration programs that only do input and output, and the
  programs in other languages. Of the mail proxy the IMAP handler, the reading
  of the authentication server's answer and the proxying to the real server; of HTTP the upstream
  state machine, the phases and locations, variables, SPDY, the other filters. Next in the plan: the
  IMAP handler over \<open>Mail_Auth\<close>, the status line and headers of \<open>ngx_mail_auth_http_module.c\<close>.
\<close>

text \<open>
  C34: No parser depends on how the network cuts its input. For the request line, the header line,
  the status line and the commands of the three mail protocols: fed to the parser in any pieces,
  the return code, what is stored and the position after it are those of one call on the whole
  input.
\<close>

theorem parsers_any_pieces:
  "run_pieces rl_call rl_view (rl_sw_start, ngx_http_create_request) \<lparr>buf_mem = [], buf_pos = 0, buf_last = 0\<rparr> cs =
     rl_view (rl_call (rl_sw_start, ngx_http_create_request)
       \<lparr>buf_mem = concat cs, buf_pos = 0, buf_last = length (concat cs)\<rparr>) \<and>
   run_pieces (hl_call h cmp au) hl_view (hl_sw_start, ngx_http_create_request) \<lparr>buf_mem = [], buf_pos = 0, buf_last = 0\<rparr> cs =
     hl_view (hl_call h cmp au (hl_sw_start, ngx_http_create_request)
       \<lparr>buf_mem = concat cs, buf_pos = 0, buf_last = length (concat cs)\<rparr>) \<and>
   run_pieces sl_call sl_view (sl_sw_start, r, status_zero) \<lparr>buf_mem = [], buf_pos = 0, buf_last = 0\<rparr> cs =
     sl_view (sl_call (sl_sw_start, r, status_zero)
       \<lparr>buf_mem = concat cs, buf_pos = 0, buf_last = length (concat cs)\<rparr>) \<and>
   run_pieces (pop3_call up room) mail_view (pop3_sw_start, new_session a) \<lparr>buf_mem = [], buf_pos = 0, buf_last = 0\<rparr> cs =
     mail_view (pop3_call up room (pop3_sw_start, new_session a)
       \<lparr>buf_mem = concat cs, buf_pos = 0, buf_last = length (concat cs)\<rparr>) \<and>
   run_pieces (imap_call room) mail_view (imap_sw_start, new_session a) \<lparr>buf_mem = [], buf_pos = 0, buf_last = 0\<rparr> cs =
     mail_view (imap_call room (imap_sw_start, new_session a)
       \<lparr>buf_mem = concat cs, buf_pos = 0, buf_last = length (concat cs)\<rparr>) \<and>
   run_pieces (smtp_call up room) mail_view (smtp_sw_start, new_session a) \<lparr>buf_mem = [], buf_pos = 0, buf_last = 0\<rparr> cs =
     mail_view (smtp_call up room (smtp_sw_start, new_session a)
       \<lparr>buf_mem = concat cs, buf_pos = 0, buf_last = length (concat cs)\<rparr>)"
proof (intro conjI)
  show "run_pieces rl_call rl_view (rl_sw_start, ngx_http_create_request) \<lparr>buf_mem = [], buf_pos = 0, buf_last = 0\<rparr> cs =
     rl_view (rl_call (rl_sw_start, ngx_http_create_request)
       \<lparr>buf_mem = concat cs, buf_pos = 0, buf_last = length (concat cs)\<rparr>)"
    by (rule rlp.pieces_irrelevant) (simp add: rl_inv_start)
  show "run_pieces (hl_call h cmp au) hl_view (hl_sw_start, ngx_http_create_request) \<lparr>buf_mem = [], buf_pos = 0, buf_last = 0\<rparr> cs =
     hl_view (hl_call h cmp au (hl_sw_start, ngx_http_create_request)
       \<lparr>buf_mem = concat cs, buf_pos = 0, buf_last = length (concat cs)\<rparr>)"
    by (rule hlp.pieces_irrelevant)
      (simp add: hl_inv.simps hl_array_def hl_norm_def hl_load_def hl_save_def ngx_http_create_request_def
        NGX_HTTP_LC_HEADER_LEN_def)
  show "run_pieces sl_call sl_view (sl_sw_start, r, status_zero) \<lparr>buf_mem = [], buf_pos = 0, buf_last = 0\<rparr> cs =
     sl_view (sl_call (sl_sw_start, r, status_zero)
       \<lparr>buf_mem = concat cs, buf_pos = 0, buf_last = length (concat cs)\<rparr>)"
    by (rule slp.pieces_irrelevant) (rule sl_inv_start)
  show "run_pieces (pop3_call up room) mail_view (pop3_sw_start, new_session a) \<lparr>buf_mem = [], buf_pos = 0, buf_last = 0\<rparr> cs =
     mail_view (pop3_call up room (pop3_sw_start, new_session a)
       \<lparr>buf_mem = concat cs, buf_pos = 0, buf_last = length (concat cs)\<rparr>)"
    by (rule pop3p.pieces_irrelevant) (simp add: pop3_inv.simps args_below_def new_session_def)
  show "run_pieces (imap_call room) mail_view (imap_sw_start, new_session a) \<lparr>buf_mem = [], buf_pos = 0, buf_last = 0\<rparr> cs =
     mail_view (imap_call room (imap_sw_start, new_session a)
       \<lparr>buf_mem = concat cs, buf_pos = 0, buf_last = length (concat cs)\<rparr>)"
    by (rule imapp.pieces_irrelevant) (simp add: imap_inv.simps imap_norm_def args_below_def new_session_def imap_open_def)
  show "run_pieces (smtp_call up room) mail_view (smtp_sw_start, new_session a) \<lparr>buf_mem = [], buf_pos = 0, buf_last = 0\<rparr> cs =
     mail_view (smtp_call up room (smtp_sw_start, new_session a)
       \<lparr>buf_mem = concat cs, buf_pos = 0, buf_last = length (concat cs)\<rparr>)"
    by (rule smtpp.pieces_irrelevant) (simp add: smtp_inv.simps args_below_def new_session_def)
qed

end
